(* ===== verification/Prelude.thy ===== *)
theory Prelude
  imports Complex_Main "HOL-Library.Word" "HOL-Library.Monad_Syntax"
    "HOL-Library.List_Lexorder" "HOL-Library.Char_ord"
begin

text \<open>
  What the component theories share: bounds-checked vector operations (std::vector and
  std::lower_bound as the C++ sources use them, with an access outside the vector as
  \<open>None\<close>), the half-open key ranges that a search-tree node is responsible for, and the
  facts about both that every proof about the trees needs.
\<close>

named_theorems vec_simps \<open>vector operations inside their bounds\<close>

section \<open>Results\<close>

text \<open>A result is an error or a value; \<open>ok\<close> goes on with the value.\<close>

definition ok :: "'e + 'a \<Rightarrow> ('a \<Rightarrow> 'e + 'b) \<Rightarrow> 'e + 'b" where
  "ok r f = (case r of Inl e \<Rightarrow> Inl e | Inr x \<Rightarrow> f x)"

lemma ok_simps [simp]: "ok (Inr x) f = f x" "ok (Inl e) f = Inl e"
  by (simp_all add: ok_def)

lemma ok_Inr: "ok r f = Inr y \<longleftrightarrow> (\<exists>x. r = Inr x \<and> f x = Inr y)"
  by (cases r) simp_all

lemma ok_Inl: "ok r f = Inl e \<longleftrightarrow> r = Inl e \<or> (\<exists>x. r = Inr x \<and> f x = Inl e)"
  by (cases r) simp_all

section \<open>Vectors\<close>

text \<open>Indexing and insertion are checked: outside the vector C++ has undefined behaviour.\<close>

definition nth_opt :: "'a list \<Rightarrow> nat \<Rightarrow> 'a option" where
  "nth_opt xs i = (if i < length xs then Some (xs ! i) else None)"

definition vec_insert :: "nat \<Rightarrow> 'a \<Rightarrow> 'a list \<Rightarrow> 'a list option" where
  "vec_insert p x xs = (if p \<le> length xs then Some (take p xs @ x # drop p xs) else None)"

lemma nth_opt_Some [vec_simps]: "i < length xs \<Longrightarrow> nth_opt xs i = Some (xs ! i)"
  by (simp add: nth_opt_def)

lemma nth_opt_None [vec_simps]: "length xs \<le> i \<Longrightarrow> nth_opt xs i = None"
  by (simp add: nth_opt_def)

lemma nth_opt_SomeE: "nth_opt xs i = Some x \<Longrightarrow> i < length xs \<and> x = xs ! i"
  by (auto simp: nth_opt_def split: if_splits)

lemma vec_insert_Some [vec_simps]:
  "p \<le> length xs \<Longrightarrow> vec_insert p x xs = Some (take p xs @ x # drop p xs)"
  by (simp add: vec_insert_def)

lemma vec_insert_SomeE:
  "vec_insert p x xs = Some ys \<Longrightarrow> p \<le> length xs \<and> ys = take p xs @ x # drop p xs"
  by (auto simp: vec_insert_def split: if_splits)

lemma nth_insert:
  "p \<le> length xs \<Longrightarrow> (take p xs @ x # drop p xs) ! i =
     (if i < p then xs ! i else if i = p then x else xs ! (i - 1))"
proof -
  assume p: "p \<le> length xs"
  consider "i < p" | "i = p" | "p < i" by linarith
  then show ?thesis
  proof cases
    case 3
    then obtain j where j: "i = Suc (p + j)" using less_imp_Suc_add by blast
    then show ?thesis using p by (simp add: nth_append min_absorb2)
  qed (use p in \<open>auto simp: nth_append min_absorb2\<close>)
qed

lemma set_insert: "set (take p xs @ x # drop p xs) = insert x (set xs)"
proof -
  have "set (take p xs) \<union> set (drop p xs) = set xs"
    by (metis append_take_drop_id set_append)
  then show ?thesis by auto
qed

text \<open>
  std::lower_bound: the binary search of the standard library over the index range
  \<open>first, first + len\<close>.
\<close>

fun lower_bound_loop :: "'a::linorder list \<Rightarrow> 'a \<Rightarrow> nat \<Rightarrow> nat \<Rightarrow> nat" where
  "lower_bound_loop xs v first len =
     (if len = 0 then first
      else let half = len div 2; mid = first + half in
        if xs ! mid < v then lower_bound_loop xs v (mid + 1) (len - half - 1)
        else lower_bound_loop xs v first half)"

declare lower_bound_loop.simps [simp del]

definition lower_bound :: "'a::linorder list \<Rightarrow> 'a \<Rightarrow> nat" where
  "lower_bound xs v = lower_bound_loop xs v 0 (length xs)"

lemma lower_bound_loop_spec:
  assumes "sorted xs" "first + len \<le> length xs"
    and "\<And>i. i < first \<Longrightarrow> xs ! i < v"
    and "\<And>i. first + len \<le> i \<Longrightarrow> i < length xs \<Longrightarrow> v \<le> xs ! i"
  shows "lower_bound_loop xs v first len \<le> length xs
    \<and> (\<forall>i < lower_bound_loop xs v first len. xs ! i < v)
    \<and> (\<forall>i < length xs. lower_bound_loop xs v first len \<le> i \<longrightarrow> v \<le> xs ! i)"
  using assms
proof (induction xs v first len rule: lower_bound_loop.induct)
  case (1 xs v first len)
  show ?case
  proof (cases "len = 0")
    case True
    then show ?thesis using "1.prems" by (simp add: lower_bound_loop.simps [of xs v first])
  next
    case False
    let ?half = "len div 2" and ?mid = "first + len div 2"
    have mid: "?mid < length xs" using False "1.prems"(2) by linarith
    show ?thesis
    proof (cases "xs ! ?mid < v")
      case True
      have low: "xs ! i < v" if "i < ?mid + 1" for i
        using that mid "1.prems"(1) True by (metis Suc_eq_plus1 less_Suc_eq_le order_le_less_trans sorted_nth_mono)
      have "lower_bound_loop xs v first len = lower_bound_loop xs v (?mid + 1) (len - ?half - 1)"
        using False True by (simp add: lower_bound_loop.simps [of xs v first] Let_def)
      moreover have "?mid + 1 + (len - ?half - 1) = first + len" using False by simp
      ultimately show ?thesis
        using "1.IH"(1) [OF False refl refl True "1.prems"(1)] low "1.prems"(2,4) by simp
    next
      case ge: False
      have high: "v \<le> xs ! i" if "?mid \<le> i" "i < length xs" for i
        using that ge "1.prems"(1) by (meson linorder_not_less order_trans sorted_nth_mono)
      have "lower_bound_loop xs v first len = lower_bound_loop xs v first ?half"
        using False ge by (simp add: lower_bound_loop.simps [of xs v first] Let_def)
      then show ?thesis
        using "1.IH"(2) [OF False refl refl ge "1.prems"(1)] high "1.prems"(2,3) by simp
    qed
  qed
qed

lemma lower_bound_spec:
  assumes "sorted xs"
  shows "lower_bound xs v \<le> length xs"
    and "\<And>i. i < lower_bound xs v \<Longrightarrow> xs ! i < v"
    and "\<And>i. lower_bound xs v \<le> i \<Longrightarrow> i < length xs \<Longrightarrow> v \<le> xs ! i"
  using lower_bound_loop_spec [of xs 0 "length xs" v] assms
  by (auto simp: lower_bound_def)

text \<open>The position is determined by its two neighbours.\<close>

lemma lower_bound_eqI:
  assumes s: "sorted xs" and p: "p \<le> length xs"
    and lo: "p = 0 \<or> xs ! (p - 1) < v" and hi: "p = length xs \<or> v \<le> xs ! p"
  shows "lower_bound xs v = p"
proof (rule ccontr)
  let ?q = "lower_bound xs v"
  assume "?q \<noteq> p"
  then consider "?q < p" | "p < ?q" by linarith
  then show False
  proof cases
    case 1
    then have "v \<le> xs ! (p - 1)" using lower_bound_spec(3) [OF s, of v "p - 1"] p by simp
    then show False using lo 1 by auto
  next
    case 2
    then have "xs ! p < v" by (rule lower_bound_spec(2) [OF s])
    then show False using hi 2 lower_bound_spec(1) [OF s, of v] by auto
  qed
qed

text \<open>Inserting at the lower bound keeps a strictly ascending vector strictly ascending.\<close>

abbreviation ascending :: "'a::linorder list \<Rightarrow> bool" where
  "ascending \<equiv> sorted_wrt (<)"

lemma ascending_sorted [simp]: "ascending xs \<Longrightarrow> sorted xs"
  by (simp add: strict_sorted_imp_sorted)

lemma ascending_nth: "ascending xs \<Longrightarrow> i < j \<Longrightarrow> j < length xs \<Longrightarrow> xs ! i < xs ! j"
  by (simp add: sorted_wrt_nth_less)

lemma ascending_take: "ascending xs \<Longrightarrow> ascending (take n xs)"
  by (simp add: sorted_wrt_take)

lemma ascending_drop: "ascending xs \<Longrightarrow> ascending (drop n xs)"
  by (simp add: sorted_wrt_drop)

lemma ascending_insert:
  assumes a: "ascending xs" and p: "p \<le> length xs"
    and lo: "p = 0 \<or> xs ! (p - 1) < v" and hi: "p = length xs \<or> v < xs ! p"
  shows "ascending (take p xs @ v # drop p xs)"
proof -
  have l: "x < v" if "x \<in> set (take p xs)" for x
  proof -
    from that obtain i where "i < p" "x = xs ! i" using p by (auto simp: in_set_conv_nth)
    moreover have "i < p - 1 \<Longrightarrow> xs ! i < xs ! (p - 1)"
      using p by (intro ascending_nth [OF a]) auto
    moreover have "i = p - 1 \<or> i < p - 1" using \<open>i < p\<close> by linarith
    ultimately show ?thesis using lo \<open>i < p\<close> \<open>x = xs ! i\<close> by (auto intro: order_less_trans)
  qed
  have h: "v < x" if "x \<in> set (drop p xs)" for x
  proof -
    from that obtain i where "i < length xs - p" "x = xs ! (p + i)"
      using p by (auto simp: in_set_conv_nth)
    then have i: "p + i < length xs" "x = xs ! (p + i)" by simp_all
    moreover have "xs ! p < xs ! (p + i)" if "0 < i"
      using that i by (intro ascending_nth [OF a]) auto
    ultimately show ?thesis using hi by (cases i) (auto intro: order_less_trans)
  qed
  from l h have lh: "x < y" if "x \<in> set (take p xs)" "y \<in> set (drop p xs)" for x y
    using that by (meson order_less_trans)
  show ?thesis
    using l h lh by (auto simp: sorted_wrt_append ascending_take [OF a] ascending_drop [OF a])
qed

section \<open>Key ranges\<close>

text \<open>
  A node of the search tree is responsible for the keys \<open>k\<close> with \<open>lo < k \<le> hi\<close>; a
  missing bound is infinite. Child \<open>i\<close> of a node with separators \<open>ks\<close> gets the part
  between the separators \<open>i - 1\<close> and \<open>i\<close>.
\<close>

type_synonym 'k range = "'k option \<times> 'k option"

definition in_range :: "'k::linorder range \<Rightarrow> 'k \<Rightarrow> bool" where
  "in_range r k \<longleftrightarrow> (case fst r of None \<Rightarrow> True | Some l \<Rightarrow> l < k)
     \<and> (case snd r of None \<Rightarrow> True | Some h \<Rightarrow> k \<le> h)"

definition sub_range :: "'k range \<Rightarrow> 'k list \<Rightarrow> nat \<Rightarrow> 'k range" where
  "sub_range r ks i =
     (if i = 0 then fst r else Some (ks ! (i - 1)), if i < length ks then Some (ks ! i) else snd r)"

lemma in_range_full [simp]: "in_range (None, None) k"
  by (simp add: in_range_def)

lemma in_range_mono:
  "in_range r k1 \<Longrightarrow> in_range r k2 \<Longrightarrow> k1 \<le> k \<Longrightarrow> k \<le> k2 \<Longrightarrow> in_range r k"
  by (auto simp: in_range_def split: option.splits)

lemma sub_range_Nil [simp]: "sub_range r [] 0 = r"
  by (simp add: sub_range_def)

lemma in_sub_range_lower_bound:
  assumes s: "sorted ks" and k: "in_range r k"
  shows "in_range (sub_range r ks (lower_bound ks k)) k"
  using lower_bound_spec [OF s, where v = k] k
  by (auto simp: in_range_def sub_range_def split: option.splits)

lemma lower_bound_in_sub_range:
  assumes s: "sorted ks" and i: "i \<le> length ks" and k: "in_range (sub_range r ks i) k"
  shows "lower_bound ks k = i"
  using k i by (intro lower_bound_eqI [OF s i])
    (auto simp: in_range_def sub_range_def split: option.splits if_splits)

lemma in_sub_range_in_range:
  assumes s: "sorted ks" and i: "i \<le> length ks" and r: "\<And>x. x \<in> set ks \<Longrightarrow> in_range r x"
    and k: "in_range (sub_range r ks i) k"
  shows "in_range r k"
proof -
  have lo: "in_range r (ks ! (i - 1))" if "i \<noteq> 0" using r i that by simp
  have hi: "in_range r (ks ! i)" if "i < length ks" using r that by simp
  show ?thesis using k lo hi
    by (cases "i = 0"; cases "i < length ks")
       (auto simp: in_range_def sub_range_def split: option.splits)
qed

lemma sub_range_take:
  assumes "m < length ks" and "i \<le> m"
  shows "sub_range (fst r, Some (ks ! m)) (take m ks) i = sub_range r ks i"
  using assms by (auto simp: sub_range_def)

lemma sub_range_drop:
  assumes "m < length ks"
  shows "sub_range (Some (ks ! m), snd r) (drop (Suc m) ks) i = sub_range r ks (Suc m + i)"
  using assms by (auto simp: sub_range_def)

lemma sub_range_insert:
  assumes "p \<le> length ks"
  shows "sub_range r (take p ks @ v # drop p ks) i =
     (if i < p then sub_range r ks i
      else if i = p then (fst (sub_range r ks p), Some v)
      else if i = Suc p then (Some v, snd (sub_range r ks p))
      else sub_range r ks (i - 1))"
proof -
  consider "i < p" | "i = p" | "i = Suc p" | j where "i = Suc (Suc j)" "p \<le> j"
    by (metis Suc_le_D Suc_le_mono not_less_eq_eq nat_less_le not_le)
  then show ?thesis
    using assms by cases (auto simp: sub_range_def nth_insert)
qed

text \<open>A value strictly between two elements, for any lower one and finitely many upper ones.\<close>

lemma dense_below_finite:
  assumes "finite S" "\<And>x. x \<in> S \<Longrightarrow> a < x"
  shows "\<exists>q::rat. a < q \<and> (\<forall>x \<in> S. q < x)"
proof (cases "S = {}")
  case True
  then show ?thesis using gt_ex by blast
next
  case False
  then have "a < Min S" using assms by simp
  then obtain q where "a < q" "q < Min S" using dense by blast
  then show ?thesis using assms(1) False by auto
qed

end
