(* ===== verification/Field_Table.thy ===== *)
theory Field_Table
  imports Prelude
begin

text \<open>
  The field table of one record (lib/fbt_utils.h): a vector of (field name, value) pairs.
  \<open>update_field_table\<close> is what both the first write of a record and every later update go
  through.
\<close>

type_synonym fields = "(string \<times> string) list"

text \<open>
  The inner loop. \<open>for (auto kv : field_table)\<close> binds a copy of each pair, so the assignment
  \<open>kv.second = update_kv.second\<close> changes the copy only; what the loop leaves behind is
  \<open>kv_exist\<close>.
\<close>

fun kv_exist :: "string \<times> string \<Rightarrow> fields \<Rightarrow> bool" where
  "kv_exist update_kv [] = False"
| "kv_exist update_kv (kv # field_table) =
     (if fst kv = fst update_kv
      then (let kv = (fst kv, snd update_kv) in True)
      else kv_exist update_kv field_table)"

fun update_field_table :: "fields \<Rightarrow> fields \<Rightarrow> fields" where
  "update_field_table [] field_table = field_table"
| "update_field_table (update_kv # update_field_pairs) field_table =
     update_field_table update_field_pairs
       (if kv_exist update_kv field_table then field_table else field_table @ [update_kv])"

section \<open>What an update does to a record\<close>

lemma kv_exist_iff: "kv_exist u t \<longleftrightarrow> fst u \<in> fst ` set t"
  by (induction t) (auto simp: Let_def)

lemma map_of_update_field_table:
  "map_of (update_field_table us t) = map_of us ++ map_of t"
proof (induction us arbitrary: t)
  case (Cons u us)
  have app: "map_of (t @ [u]) = [fst u \<mapsto> snd u] ++ map_of t"
    by (cases u) (simp add: map_of_append)
  have old: "map_of (u # us) ++ map_of t = map_of us ++ map_of t"
    if "fst u \<in> fst ` set t"
  proof
    fix f
    show "(map_of (u # us) ++ map_of t) f = (map_of us ++ map_of t) f"
    proof (cases "f = fst u")
      case True
      with that have "map_of t f \<noteq> None" by (simp add: map_of_eq_None_iff)
      then show ?thesis by (auto simp: map_add_def)
    next
      case False
      then show ?thesis by (cases u) (simp add: map_add_def split: option.split)
    qed
  qed
  have new: "map_of (u # us) ++ map_of t = map_of us ++ ([fst u \<mapsto> snd u] ++ map_of t)"
    if "fst u \<notin> fst ` set t"
  proof
    fix f
    show "(map_of (u # us) ++ map_of t) f = (map_of us ++ ([fst u \<mapsto> snd u] ++ map_of t)) f"
      using that by (cases u) (auto simp: map_add_def split: option.splits)
  qed
  show ?case
    by (cases "kv_exist u t")
       (simp_all only: update_field_table.simps if_True if_False Cons.IH app old new kv_exist_iff
         simp_thms)
qed simp

lemma prefix_update_field_table: "\<exists>new. update_field_table us t = t @ new"
proof (induction us arbitrary: t)
  case (Cons u us)
  from Cons.IH [of "if kv_exist u t then t else t @ [u]"] show ?case
    by (cases "kv_exist u t") auto
qed simp

lemma distinct_update_field_table:
  "distinct (map fst t) \<Longrightarrow> distinct (map fst (update_field_table us t))"
  by (induction us arbitrary: t) (auto simp: kv_exist_iff)

lemma update_field_table_fresh:
  "distinct (map fst (t @ us)) \<Longrightarrow> update_field_table us t = t @ us"
proof (induction us arbitrary: t)
  case (Cons u us)
  then have "\<not> kv_exist u t" by (auto simp: kv_exist_iff)
  then show ?case using Cons.IH [of "t @ [u]"] Cons.prems by simp
qed simp

lemma update_field_table_Nil [simp]: "distinct (map fst us) \<Longrightarrow> update_field_table us [] = us"
  using update_field_table_fresh [of "[]" us] by simp

lemma update_field_table_stable:
  "set (map fst us) \<subseteq> set (map fst t) \<Longrightarrow> update_field_table us t = t"
  by (induction us) (auto simp: kv_exist_iff)

end
