(* ===== verification/Pool_Tree.thy ===== *)
theory Pool_Tree
  imports Field_Table
begin

text \<open>
  The B+ tree of the Ethernet backend (YCSB-BPlusTree-Backend/lib/b_plus_tree.h). Nodes live
  in one array \<open>pool\<close> and point to each other by address; the model addresses them by their
  index in the pool, so the root, \<open>pool[0]\<close>, is the index 0 and a null pointer is \<open>None\<close>.
  A leaf's children are value nodes, one per key. The key type is a parameter: the backend
  uses std::string, compared lexicographically.

  \<open>None\<close> as a result stands for undefined behaviour of the C++ code (an index outside a vector
  or outside the pool, a null dereference) or for a walk that never ends: the walks take as
  fuel the number of nodes in the pool, and a walk over pointers that do not change meanwhile
  and that has visited more nodes than there are runs in a cycle for ever.
\<close>

section \<open>Nodes and trees\<close>

record ('k, 'v) node =
  isLeaf :: bool
  isValue :: bool
  parent :: "nat option"
  nkey :: "'k list"
  nval :: 'v
  child :: "nat list"
  access_count :: "32 word"
  isLoaded2Switch :: bool

record ('k, 'v) tree =
  pool :: "nat \<Rightarrow> ('k, 'v) node"
  nb_node :: nat
  depth :: "32 word"
  nb_query :: "32 word"
  nb_access :: "32 word"

text \<open>The member initialisers of class Node and of class BPlusTree.\<close>

definition new_Node :: "'v \<Rightarrow> ('k, 'v) node" where
  "new_Node v0 = \<lparr>isLeaf = True, isValue = False, parent = None, nkey = [], nval = v0,
     child = [], access_count = 0, isLoaded2Switch = False\<rparr>"

definition new_BPlusTree :: "'v \<Rightarrow> ('k, 'v) tree" where
  "new_BPlusTree v0 = \<lparr>pool = (\<lambda>_. new_Node v0), nb_node = 1, depth = 1, nb_query = 0,
     nb_access = 0\<rparr>"

definition MAX_NODE_SIZE :: nat where
  "MAX_NODE_SIZE = 100000000"

text \<open>The template argument of \<open>BPlusTree<16>\<close> and of every node of the deployed trees.\<close>

definition tree_M :: nat where
  "tree_M = 16"

definition upd_node :: "nat \<Rightarrow> (('k, 'v) node \<Rightarrow> ('k, 'v) node) \<Rightarrow> ('k, 'v) tree \<Rightarrow> ('k, 'v) tree" where
  "upd_node n f s = s\<lparr>pool := (pool s)(n := f (pool s n))\<rparr>"

text \<open>\<open>&pool[nb_node++]\<close> in a pool of \<open>mx\<close> nodes.\<close>

definition alloc :: "nat \<Rightarrow> ('k, 'v) tree \<Rightarrow> (nat \<times> ('k, 'v) tree) option" where
  "alloc mx s = (if nb_node s < mx then Some (nb_node s, s\<lparr>nb_node := nb_node s + 1\<rparr>) else None)"

section \<open>Walking down\<close>

text \<open>One step of every walk: \<open>cur->child[lower_bound(cur->key, in_key) - begin]\<close>.\<close>

definition next_child :: "('k::linorder, 'v) tree \<Rightarrow> nat \<Rightarrow> 'k \<Rightarrow> nat option" where
  "next_child s cur in_key = nth_opt (child (pool s cur)) (lower_bound (nkey (pool s cur)) in_key)"

text \<open>\<open>while (!cur->isLeaf)\<close> of \<open>insert\<close>.\<close>

fun find_leaf :: "nat \<Rightarrow> ('k::linorder, 'v) tree \<Rightarrow> nat \<Rightarrow> 'k \<Rightarrow> nat option" where
  "find_leaf 0 s cur in_key = None"
| "find_leaf (Suc fuel) s cur in_key =
     (if isLeaf (pool s cur) then Some cur
      else do { cur \<leftarrow> next_child s cur in_key; find_leaf fuel s cur in_key })"

text \<open>
  \<open>while (!cur->isValue)\<close> of \<open>lookup\<close> and \<open>update\<close>, with their counters; \<open>update\<close> does not
  count \<open>nb_access\<close>.
\<close>

fun walk :: "nat \<Rightarrow> bool \<Rightarrow> ('k::linorder, 'v) tree \<Rightarrow> nat \<Rightarrow> 'k \<Rightarrow> (('k, 'v) tree \<times> nat) option" where
  "walk 0 count s cur in_key = None"
| "walk (Suc fuel) count s cur in_key =
     (if isValue (pool s cur) then Some (s, cur)
      else do {
        let s = (if count then s\<lparr>nb_access := nb_access s + 1\<rparr> else s);
        cur \<leftarrow> next_child s cur in_key;
        let s = upd_node cur (\<lambda>n. n\<lparr>access_count := access_count n + 1\<rparr>) s;
        walk fuel count s cur in_key })"

text \<open>
  \<open>(Node *)((uint64_t)root + (bias & 0xFFFFFFFF))\<close>: the node at a byte offset of the pool,
  \<open>sz\<close> being \<open>sizeof(Node)\<close>.
\<close>

definition node_at :: "nat \<Rightarrow> nat \<Rightarrow> 64 word \<Rightarrow> nat option" where
  "node_at mx sz bias =
     (let off = unat (and bias 0xFFFFFFFF) in
      if off mod sz = 0 \<and> off div sz < mx then Some (off div sz) else None)"

definition tree_lookup :: "nat \<Rightarrow> nat \<Rightarrow> ('k::linorder, 'v) tree \<Rightarrow> 'k \<Rightarrow> 64 word
    \<Rightarrow> (('k, 'v) tree \<times> 'v) option" where
  "tree_lookup mx sz s in_key bias = do {
     cur \<leftarrow> node_at mx sz bias;
     let s = s\<lparr>nb_query := nb_query s + 1\<rparr>;
     let s = upd_node cur (\<lambda>n. n\<lparr>access_count := access_count n + 1\<rparr>) s;
     (s, cur) \<leftarrow> walk (Suc (nb_node s)) True s cur in_key;
     Some (s, nval (pool s cur)) }"

definition tree_update :: "nat \<Rightarrow> nat \<Rightarrow> ('k::linorder, fields) tree \<Rightarrow> 'k \<Rightarrow> fields \<Rightarrow> 64 word
    \<Rightarrow> ('k, fields) tree option" where
  "tree_update mx sz s in_key in_val bias = do {
     cur \<leftarrow> node_at mx sz bias;
     let s = upd_node cur (\<lambda>n. n\<lparr>access_count := access_count n + 1\<rparr>) s;
     (s, cur) \<leftarrow> walk (Suc (nb_node s)) False s cur in_key;
     Some (upd_node cur (\<lambda>n. n\<lparr>nval := update_field_table in_val (nval n)\<rparr>) s) }"

section \<open>Splitting\<close>

definition set_parents :: "nat \<Rightarrow> nat list \<Rightarrow> ('k, 'v) tree \<Rightarrow> ('k, 'v) tree" where
  "set_parents p cs s = fold (\<lambda>ch. upd_node ch (\<lambda>n. n\<lparr>parent := Some p\<rparr>)) cs s"

text \<open>
  The copy of an unmodifiable node (the root, or a node the switch points to): its contents
  move to a new node that becomes its only child.
\<close>

definition overflow_copy :: "nat \<Rightarrow> ('k, 'v) tree \<Rightarrow> nat \<Rightarrow> (nat \<times> ('k, 'v) tree) option" where
  "overflow_copy mx s cur = do {
     let s = (if cur = 0 then s\<lparr>depth := depth s + 1\<rparr> else s);
     (copy_node, s) \<leftarrow> alloc mx s;
     let s = upd_node copy_node (\<lambda>n. n\<lparr>isLeaf := isLeaf (pool s cur), parent := Some cur,
       nkey := nkey (pool s cur), child := child (pool s cur), isLoaded2Switch := False\<rparr>) s;
     let s = set_parents copy_node (child (pool s copy_node)) s;
     let s = upd_node cur (\<lambda>n. n\<lparr>isLeaf := False, nkey := [], child := [copy_node]\<rparr>) s;
     Some (copy_node, s) }"

text \<open>The upper half of a leaf moves to \<open>new_node\<close>; the last key that stays becomes the separator.\<close>

definition split_leaf :: "nat \<Rightarrow> ('k::linorder, 'v) tree \<Rightarrow> nat \<Rightarrow> nat \<Rightarrow> nat \<Rightarrow> ('k, 'v) tree option" where
  "split_leaf M s cur new_node par = do {
     let s = upd_node new_node (\<lambda>n. n\<lparr>nkey := drop (M div 2) (nkey (pool s cur)) @ nkey n\<rparr>) s;
     let s = upd_node cur (\<lambda>n. n\<lparr>nkey := take (M div 2) (nkey n)\<rparr>) s;
     _ \<leftarrow> (if M div 2 \<le> length (child (pool s cur)) then Some () else None);
     let s = upd_node new_node (\<lambda>n. n\<lparr>child := drop (M div 2) (child (pool s cur)) @ child n\<rparr>) s;
     let s = upd_node cur (\<lambda>n. n\<lparr>child := take (M div 2) (child n)\<rparr>) s;
     first \<leftarrow> nth_opt (nkey (pool s new_node)) 0;
     let p = lower_bound (nkey (pool s par)) first;
     back \<leftarrow> (if nkey (pool s cur) = [] then None else Some (last (nkey (pool s cur))));
     ks \<leftarrow> vec_insert p back (nkey (pool s par));
     let s = upd_node par (\<lambda>n. n\<lparr>nkey := ks\<rparr>) s;
     cs \<leftarrow> vec_insert (p + 1) new_node (child (pool s par));
     Some (upd_node par (\<lambda>n. n\<lparr>child := cs\<rparr>) s) }"

text \<open>The middle key of an inner node moves up; what is above it moves to \<open>new_node\<close>.\<close>

definition split_inner :: "nat \<Rightarrow> ('k::linorder, 'v) tree \<Rightarrow> nat \<Rightarrow> nat \<Rightarrow> nat \<Rightarrow> ('k, 'v) tree option" where
  "split_inner M s cur new_node par = do {
     _ \<leftarrow> (if M div 2 + 1 \<le> length (nkey (pool s cur)) then Some () else None);
     let s = upd_node new_node (\<lambda>n. n\<lparr>nkey := drop (M div 2 + 1) (nkey (pool s cur)) @ nkey n\<rparr>) s;
     new_key \<leftarrow> nth_opt (nkey (pool s cur)) (M div 2);
     let s = upd_node cur (\<lambda>n. n\<lparr>nkey := take (M div 2) (nkey n)\<rparr>) s;
     _ \<leftarrow> (if M div 2 + 1 \<le> length (child (pool s cur)) then Some () else None);
     let s = upd_node new_node (\<lambda>n. n\<lparr>child := drop (M div 2 + 1) (child (pool s cur)) @ child n\<rparr>) s;
     let s = upd_node cur (\<lambda>n. n\<lparr>child := take (M div 2 + 1) (child n)\<rparr>) s;
     let s = set_parents new_node (child (pool s new_node)) s;
     let p = lower_bound (nkey (pool s par)) new_key;
     ks \<leftarrow> vec_insert p new_key (nkey (pool s par));
     let s = upd_node par (\<lambda>n. n\<lparr>nkey := ks\<rparr>) s;
     cs \<leftarrow> vec_insert (p + 1) new_node (child (pool s par));
     Some (upd_node par (\<lambda>n. n\<lparr>child := cs\<rparr>) s) }"

text \<open>One level of \<open>overflow\<close>: the new state and the parent it goes on with.\<close>

definition overflow_step :: "nat \<Rightarrow> nat \<Rightarrow> ('k::linorder, 'v) tree \<Rightarrow> nat \<Rightarrow> (nat \<times> ('k, 'v) tree) option" where
  "overflow_step M mx s cur = do {
     (cur, s) \<leftarrow> (if cur = 0 \<or> isLoaded2Switch (pool s cur) then overflow_copy mx s cur
                  else Some (cur, s));
     (new_node, s) \<leftarrow> alloc mx s;
     let s = upd_node new_node (\<lambda>n. n\<lparr>parent := parent (pool s cur), isLeaf := isLeaf (pool s cur)\<rparr>) s;
     par \<leftarrow> parent (pool s cur);
     s \<leftarrow> (if isLeaf (pool s cur) then split_leaf M s cur new_node par
           else split_inner M s cur new_node par);
     Some (par, s) }"

fun overflow :: "nat \<Rightarrow> nat \<Rightarrow> nat \<Rightarrow> ('k::linorder, 'v) tree \<Rightarrow> nat \<Rightarrow> ('k, 'v) tree option" where
  "overflow M mx 0 s cur = None"
| "overflow M mx (Suc fuel) s cur =
     (if M \<le> length (nkey (pool s cur))
      then do { (par, s) \<leftarrow> overflow_step M mx s cur; overflow M mx fuel s par }
      else Some s)"

section \<open>Insertion\<close>

definition insert_key :: "('k::linorder, 'v) tree \<Rightarrow> nat \<Rightarrow> nat \<Rightarrow> 'k \<Rightarrow> ('k, 'v) tree option" where
  "insert_key s cur value_node in_key = do {
     let p = lower_bound (nkey (pool s cur)) in_key;
     ks \<leftarrow> vec_insert p in_key (nkey (pool s cur));
     let s = upd_node cur (\<lambda>n. n\<lparr>nkey := ks\<rparr>) s;
     cs \<leftarrow> vec_insert p value_node (child (pool s cur));
     Some (upd_node cur (\<lambda>n. n\<lparr>child := cs\<rparr>) s) }"

definition tree_insert :: "nat \<Rightarrow> nat \<Rightarrow> ('k::linorder, fields) tree \<Rightarrow> 'k \<Rightarrow> fields
    \<Rightarrow> ('k, fields) tree option" where
  "tree_insert M mx s in_key in_val = do {
     (value_node, s) \<leftarrow> alloc mx s;
     cur \<leftarrow> find_leaf (nb_node s) s 0 in_key;
     s \<leftarrow> insert_key s cur value_node in_key;
     let s = upd_node value_node (\<lambda>n. n\<lparr>isLeaf := False, isValue := True, parent := Some cur,
       nval := update_field_table in_val (nval n)\<rparr>) s;
     overflow M mx (Suc (nb_node s)) s cur }"

end
