(* ===== verification/Tree_Inv.thy ===== *)
theory Tree_Inv
  imports Pool_Tree
begin

text \<open>
  The invariant of the pool tree and what it gives for the walks. Three ghost functions
  describe a pool: \<open>R n\<close> is the key range node \<open>n\<close> is responsible for, \<open>rk\<close> is a rank that
  grows from parent to child (rationals, so that a node can be slipped in between two levels),
  and \<open>kv v\<close> is the key of value node \<open>v\<close>. The conditions are local to a node and its
  children, so an operation only has to re-establish them where it writes.
\<close>

definition tree_node :: "('k, 'v) tree \<Rightarrow> nat \<Rightarrow> bool" where
  "tree_node s n \<longleftrightarrow> n < nb_node s \<and> \<not> isValue (pool s n)"

definition unused :: "'v \<Rightarrow> ('k, 'v) node \<Rightarrow> bool" where
  "unused v0 nd \<longleftrightarrow> isLeaf nd \<and> \<not> isValue nd \<and> nkey nd = [] \<and> child nd = []
     \<and> \<not> isLoaded2Switch nd \<and> nval nd = v0"

definition keys_ok :: "('k::linorder, 'v) tree \<Rightarrow> (nat \<Rightarrow> 'k range) \<Rightarrow> nat \<Rightarrow> bool" where
  "keys_ok s R n \<longleftrightarrow> ascending (nkey (pool s n)) \<and> (\<forall>k \<in> set (nkey (pool s n)). in_range (R n) k)"

definition link :: "('k, 'v) tree \<Rightarrow> (nat \<Rightarrow> 'k range) \<Rightarrow> (nat \<Rightarrow> rat) \<Rightarrow> nat \<Rightarrow> nat \<Rightarrow> nat \<Rightarrow> bool" where
  "link s R rk p i c \<longleftrightarrow> c \<noteq> 0 \<and> tree_node s c \<and> parent (pool s c) = Some p
     \<and> R c = sub_range (R p) (nkey (pool s p)) i \<and> rk p < rk c"

definition inner_ok :: "('k, 'v) tree \<Rightarrow> (nat \<Rightarrow> 'k range) \<Rightarrow> (nat \<Rightarrow> rat) \<Rightarrow> nat \<Rightarrow> bool" where
  "inner_ok s R rk n \<longleftrightarrow> length (child (pool s n)) = Suc (length (nkey (pool s n)))
     \<and> (\<forall>i \<le> length (nkey (pool s n)). link s R rk n i (child (pool s n) ! i))"

definition value_ok :: "('k, 'v) tree \<Rightarrow> (nat \<Rightarrow> 'k) \<Rightarrow> nat \<Rightarrow> 'k \<Rightarrow> bool" where
  "value_ok s kv v k \<longleftrightarrow> v < nb_node s \<and> isValue (pool s v) \<and> kv v = k"

definition leaf_ok :: "('k, 'v) tree \<Rightarrow> (nat \<Rightarrow> 'k) \<Rightarrow> nat \<Rightarrow> bool" where
  "leaf_ok s kv n \<longleftrightarrow> length (child (pool s n)) = length (nkey (pool s n))
     \<and> (\<forall>i < length (nkey (pool s n)). value_ok s kv (child (pool s n) ! i) (nkey (pool s n) ! i))"

definition up_ok :: "('k, 'v) tree \<Rightarrow> nat \<Rightarrow> bool" where
  "up_ok s n \<longleftrightarrow> (\<exists>p. parent (pool s n) = Some p \<and> tree_node s p \<and> \<not> isLeaf (pool s p)
     \<and> n \<in> set (child (pool s p)))"

definition inv_at :: "'v \<Rightarrow> ('k::linorder, 'v) tree \<Rightarrow> (nat \<Rightarrow> 'k range) \<Rightarrow> (nat \<Rightarrow> rat) \<Rightarrow> (nat \<Rightarrow> 'k) \<Rightarrow> bool" where
  "inv_at v0 s R rk kv \<longleftrightarrow> tree_node s 0 \<and> R 0 = (None, None) \<and> parent (pool s 0) = None
     \<and> (\<forall>n. nb_node s \<le> n \<longrightarrow> unused v0 (pool s n))
     \<and> (\<forall>n. tree_node s n \<longrightarrow> keys_ok s R n)
     \<and> (\<forall>n. tree_node s n \<longrightarrow> \<not> isLeaf (pool s n) \<longrightarrow> inner_ok s R rk n)
     \<and> (\<forall>n. tree_node s n \<longrightarrow> isLeaf (pool s n) \<longrightarrow> leaf_ok s kv n)
     \<and> (\<forall>n. tree_node s n \<longrightarrow> n \<noteq> 0 \<longrightarrow> up_ok s n)"

definition tree_inv :: "'v \<Rightarrow> ('k::linorder, 'v) tree \<Rightarrow> bool" where
  "tree_inv v0 s \<longleftrightarrow> (\<exists>R rk kv. inv_at v0 s R rk kv)"

lemma inv_atI:
  assumes "tree_node s 0" "R 0 = (None, None)" "parent (pool s 0) = None"
    and "\<And>n. nb_node s \<le> n \<Longrightarrow> unused v0 (pool s n)"
    and "\<And>n. tree_node s n \<Longrightarrow> keys_ok s R n"
    and "\<And>n. tree_node s n \<Longrightarrow> \<not> isLeaf (pool s n) \<Longrightarrow> inner_ok s R rk n"
    and "\<And>n. tree_node s n \<Longrightarrow> isLeaf (pool s n) \<Longrightarrow> leaf_ok s kv n"
    and "\<And>n. tree_node s n \<Longrightarrow> n \<noteq> 0 \<Longrightarrow> up_ok s n"
  shows "inv_at v0 s R rk kv"
  using assms by (simp add: inv_at_def)

lemma inv_atD:
  assumes "inv_at v0 s R rk kv"
  shows inv_root: "tree_node s 0" "R 0 = (None, None)" "parent (pool s 0) = None"
    and inv_unused: "\<And>n. nb_node s \<le> n \<Longrightarrow> unused v0 (pool s n)"
    and inv_keys: "\<And>n. tree_node s n \<Longrightarrow> keys_ok s R n"
    and inv_inner: "\<And>n. tree_node s n \<Longrightarrow> \<not> isLeaf (pool s n) \<Longrightarrow> inner_ok s R rk n"
    and inv_leaf: "\<And>n. tree_node s n \<Longrightarrow> isLeaf (pool s n) \<Longrightarrow> leaf_ok s kv n"
    and inv_up: "\<And>n. tree_node s n \<Longrightarrow> n \<noteq> 0 \<Longrightarrow> up_ok s n"
  using assms by (auto simp: inv_at_def)

lemma inv_ascending: "inv_at v0 s R rk kv \<Longrightarrow> tree_node s n \<Longrightarrow> ascending (nkey (pool s n))"
  using inv_keys by (fastforce simp: keys_ok_def)

lemma inv_in_range:
  "inv_at v0 s R rk kv \<Longrightarrow> tree_node s n \<Longrightarrow> k \<in> set (nkey (pool s n)) \<Longrightarrow> in_range (R n) k"
  using inv_keys by (fastforce simp: keys_ok_def)

lemma inv_link:
  "inv_at v0 s R rk kv \<Longrightarrow> tree_node s n \<Longrightarrow> \<not> isLeaf (pool s n) \<Longrightarrow> i \<le> length (nkey (pool s n))
   \<Longrightarrow> link s R rk n i (child (pool s n) ! i)"
  using inv_inner by (fastforce simp: inner_ok_def)

lemma inv_child_length:
  "inv_at v0 s R rk kv \<Longrightarrow> tree_node s n \<Longrightarrow> \<not> isLeaf (pool s n)
   \<Longrightarrow> length (child (pool s n)) = Suc (length (nkey (pool s n)))"
  using inv_inner by (fastforce simp: inner_ok_def)

lemma inv_leaf_length:
  "inv_at v0 s R rk kv \<Longrightarrow> tree_node s n \<Longrightarrow> isLeaf (pool s n)
   \<Longrightarrow> length (child (pool s n)) = length (nkey (pool s n))"
  using inv_leaf by (fastforce simp: leaf_ok_def)

lemma inv_value:
  "inv_at v0 s R rk kv \<Longrightarrow> tree_node s n \<Longrightarrow> isLeaf (pool s n) \<Longrightarrow> i < length (nkey (pool s n))
   \<Longrightarrow> value_ok s kv (child (pool s n) ! i) (nkey (pool s n) ! i)"
  using inv_leaf by (fastforce simp: leaf_ok_def)

text \<open>The parent of a node other than the root, with the position of the node in it.\<close>

lemma inv_parentE:
  assumes I: "inv_at v0 s R rk kv" and n: "tree_node s n" "n \<noteq> 0"
  obtains p i where "parent (pool s n) = Some p" "tree_node s p" "\<not> isLeaf (pool s p)"
    "i \<le> length (nkey (pool s p))" "child (pool s p) ! i = n" "link s R rk p i n"
proof -
  from inv_up [OF I n] obtain p where p: "parent (pool s n) = Some p" "tree_node s p"
    "\<not> isLeaf (pool s p)" "n \<in> set (child (pool s p))" by (auto simp: up_ok_def)
  from p(4) obtain i where i: "i < length (child (pool s p))" "child (pool s p) ! i = n"
    by (auto simp: in_set_conv_nth)
  then have i': "i \<le> length (nkey (pool s p))" using inv_child_length [OF I p(2,3)] by simp
  with inv_link [OF I p(2,3)] i(2) show thesis using p i' that by blast
qed

lemma inv_childE:
  assumes I: "inv_at v0 s R rk kv" and p: "tree_node s p" "\<not> isLeaf (pool s p)"
    and c: "c \<in> set (child (pool s p))"
  obtains i where "i \<le> length (nkey (pool s p))" "child (pool s p) ! i = c" "link s R rk p i c"
proof -
  from c obtain i where i: "i < length (child (pool s p))" "child (pool s p) ! i = c"
    by (auto simp: in_set_conv_nth)
  then have "i \<le> length (nkey (pool s p))" using inv_child_length [OF I p] by simp
  with inv_link [OF I p] i(2) that show thesis by blast
qed

section \<open>The new tree\<close>

lemma inv_new: "inv_at v0 (new_BPlusTree v0) (\<lambda>_. (None, None)) rk kv"
  by (rule inv_atI)
     (auto simp: new_BPlusTree_def new_Node_def tree_node_def unused_def keys_ok_def leaf_ok_def)

section \<open>Walking down\<close>

definition below :: "('k, 'v) tree \<Rightarrow> (nat \<Rightarrow> rat) \<Rightarrow> nat \<Rightarrow> nat" where
  "below s rk n = card {m. m < nb_node s \<and> rk n < rk m}"

lemma below_less: "rk n < rk c \<Longrightarrow> c < nb_node s \<Longrightarrow> below s rk c < below s rk n"
  unfolding below_def by (intro psubset_card_mono) auto

lemma below_bound: "n < nb_node s \<Longrightarrow> below s rk n < nb_node s"
proof -
  assume n: "n < nb_node s"
  have "{m. m < nb_node s \<and> rk n < rk m} \<subseteq> {..<nb_node s} - {n}" by auto
  then have "below s rk n \<le> card ({..<nb_node s} - {n})"
    unfolding below_def by (intro card_mono) auto
  then show ?thesis using n by simp
qed

lemma next_child_link:
  assumes I: "inv_at v0 s R rk kv" and n: "tree_node s n" "\<not> isLeaf (pool s n)"
    and k: "in_range (R n) k"
  obtains c where "next_child s n k = Some c"
    "link s R rk n (lower_bound (nkey (pool s n)) k) c" "in_range (R c) k"
proof -
  let ?i = "lower_bound (nkey (pool s n)) k"
  have s: "sorted (nkey (pool s n))" using inv_ascending [OF I n(1)] by simp
  have i: "?i \<le> length (nkey (pool s n))" by (rule lower_bound_spec(1) [OF s])
  have l: "link s R rk n ?i (child (pool s n) ! ?i)" using inv_link [OF I n i] .
  then have "in_range (R (child (pool s n) ! ?i)) k"
    using in_sub_range_lower_bound [OF s k] by (simp add: link_def)
  with l i inv_child_length [OF I n] that show thesis
    by (simp add: next_child_def vec_simps)
qed

lemma next_child_of_child:
  assumes I: "inv_at v0 s R rk kv" and p: "tree_node s p" "\<not> isLeaf (pool s p)"
    and i: "i \<le> length (nkey (pool s p))" and k: "in_range (R (child (pool s p) ! i)) k"
  shows "next_child s p k = Some (child (pool s p) ! i)" and "in_range (R p) k"
proof -
  have s: "sorted (nkey (pool s p))" using inv_ascending [OF I p(1)] by simp
  have k': "in_range (sub_range (R p) (nkey (pool s p)) i) k"
    using inv_link [OF I p i] k by (simp add: link_def)
  then have "lower_bound (nkey (pool s p)) k = i" by (rule lower_bound_in_sub_range [OF s i])
  then show "next_child s p k = Some (child (pool s p) ! i)"
    using inv_child_length [OF I p] i by (simp add: next_child_def vec_simps)
  show "in_range (R p) k"
    using in_sub_range_in_range [OF s i _ k'] inv_in_range [OF I p(1)] by blast
qed

lemma find_leaf_total:
  assumes I: "inv_at v0 s R rk kv" and n: "tree_node s n" and k: "in_range (R n) k"
    and f: "below s rk n < fuel"
  shows "\<exists>l. find_leaf fuel s n k = Some l \<and> tree_node s l \<and> isLeaf (pool s l) \<and> in_range (R l) k"
  using n k f
proof (induction fuel arbitrary: n)
  case (Suc fuel)
  show ?case
  proof (cases "isLeaf (pool s n)")
    case False
    obtain c where c: "next_child s n k = Some c" "link s R rk n (lower_bound (nkey (pool s n)) k) c"
      "in_range (R c) k" by (rule next_child_link [OF I Suc.prems(1) False Suc.prems(2)])
    then have "tree_node s c" "rk n < rk c" by (auto simp: link_def)
    moreover from this have "below s rk c < fuel"
      using below_less [of rk n c s] Suc.prems(3) by (auto simp: tree_node_def)
    ultimately show ?thesis using Suc.IH [of c] c False by simp
  qed (use Suc.prems in auto)
qed simp

lemma find_leaf_mono: "find_leaf f s n k = Some l \<Longrightarrow> f \<le> g \<Longrightarrow> find_leaf g s n k = Some l"
proof (induction f arbitrary: n g)
  case (Suc f)
  then obtain g' where g: "g = Suc g'" "f \<le> g'" by (metis Suc_le_D Suc_le_mono)
  with Suc show ?case by (auto split: if_splits bind_splits)
qed simp

text \<open>The leaf responsible for a key, from any node responsible for it.\<close>

definition leaf_of :: "('k::linorder, 'v) tree \<Rightarrow> nat \<Rightarrow> 'k \<Rightarrow> nat option" where
  "leaf_of s n k = find_leaf (nb_node s) s n k"

lemma leaf_of_total:
  assumes "inv_at v0 s R rk kv" "tree_node s n" "in_range (R n) k"
  obtains l where "leaf_of s n k = Some l" "tree_node s l" "isLeaf (pool s l)" "in_range (R l) k"
  using find_leaf_total [OF assms below_bound] assms(2)
  by (auto simp: leaf_of_def tree_node_def)

lemma leaf_of_leaf: "isLeaf (pool s n) \<Longrightarrow> n < nb_node s \<Longrightarrow> leaf_of s n k = Some n"
  unfolding leaf_of_def by (cases "nb_node s") auto

lemma leaf_of_parent:
  assumes I: "inv_at v0 s R rk kv" and p: "tree_node s p" "\<not> isLeaf (pool s p)"
    and i: "i \<le> length (nkey (pool s p))" and k: "in_range (R (child (pool s p) ! i)) k"
  shows "leaf_of s p k = leaf_of s (child (pool s p) ! i) k"
proof -
  note nc = next_child_of_child [OF I p i k]
  obtain l where l: "leaf_of s p k = Some l" by (rule leaf_of_total [OF I p(1) nc(2)])
  obtain f where f: "nb_node s = Suc f" using p(1) by (cases "nb_node s") (auto simp: tree_node_def)
  from l have "find_leaf f s (child (pool s p) ! i) k = Some l"
    using p(2) nc(1) by (simp add: leaf_of_def f)
  then have "leaf_of s (child (pool s p) ! i) k = Some l"
    unfolding leaf_of_def by (rule find_leaf_mono) (simp add: f)
  with l show ?thesis by simp
qed

definition above :: "('k, 'v) tree \<Rightarrow> (nat \<Rightarrow> rat) \<Rightarrow> nat \<Rightarrow> nat" where
  "above s rk n = card {m. m < nb_node s \<and> rk m < rk n}"

lemma above_less: "rk p < rk n \<Longrightarrow> p < nb_node s \<Longrightarrow> above s rk p < above s rk n"
  unfolding above_def by (intro psubset_card_mono) auto

lemma above_bound: "n < nb_node s \<Longrightarrow> above s rk n < nb_node s"
proof -
  assume n: "n < nb_node s"
  have "{m. m < nb_node s \<and> rk m < rk n} \<subseteq> {..<nb_node s} - {n}" by auto
  then have "above s rk n \<le> card ({..<nb_node s} - {n})"
    unfolding above_def by (intro card_mono) auto
  then show ?thesis using n by simp
qed

text \<open>
  Starting at any node that is responsible for the key gives what starting at the root gives.
\<close>

lemma leaf_of_root:
  assumes I: "inv_at v0 s R rk kv"
  shows "tree_node s n \<Longrightarrow> in_range (R n) k \<Longrightarrow> leaf_of s n k = leaf_of s 0 k"
proof (induction "above s rk n" arbitrary: n rule: less_induct)
  case less
  show ?case
  proof (cases "n = 0")
    case False
    obtain p i where p: "parent (pool s n) = Some p" "tree_node s p" "\<not> isLeaf (pool s p)"
      "i \<le> length (nkey (pool s p))" "child (pool s p) ! i = n" "link s R rk p i n"
      by (rule inv_parentE [OF I less.prems(1) False])
    have k: "in_range (R (child (pool s p) ! i)) k" using p(5) less.prems(2) by simp
    have "above s rk p < above s rk n"
      using p(2,6) by (intro above_less) (auto simp: link_def tree_node_def)
    from less.hyps [OF this p(2) next_child_of_child(2) [OF I p(2-4) k]]
    show ?thesis using leaf_of_parent [OF I p(2-4) k] p(5) by simp
  qed simp
qed

lemma leaf_unique:
  assumes I: "inv_at v0 s R rk kv" and "tree_node s m" "isLeaf (pool s m)" "in_range (R m) k"
    and "tree_node s n" "isLeaf (pool s n)" "in_range (R n) k"
  shows "m = n"
  using leaf_of_root [OF I assms(2,4)] leaf_of_root [OF I assms(5,7)] assms
    leaf_of_leaf [of s m k] leaf_of_leaf [of s n k] by (auto simp: tree_node_def)

section \<open>What the tree holds\<close>

text \<open>Key \<open>k\<close> is held by value node \<open>v\<close>, in some leaf.\<close>

definition holds :: "('k, 'v) tree \<Rightarrow> 'k \<Rightarrow> nat \<Rightarrow> bool" where
  "holds s k v \<longleftrightarrow> (\<exists>n i. tree_node s n \<and> isLeaf (pool s n) \<and> i < length (nkey (pool s n))
     \<and> i < length (child (pool s n)) \<and> nkey (pool s n) ! i = k \<and> child (pool s n) ! i = v)"

text \<open>The records of the tree, leaf by leaf in pool order, and the map they make.\<close>

definition node_entries :: "('k, 'v) tree \<Rightarrow> nat \<Rightarrow> ('k \<times> 'v) list" where
  "node_entries s n = (if isLeaf (pool s n) \<and> \<not> isValue (pool s n)
     then zip (nkey (pool s n)) (map (\<lambda>v. nval (pool s v)) (child (pool s n))) else [])"

definition contents :: "('k, 'v) tree \<Rightarrow> 'k \<Rightarrow> 'v option" where
  "contents s = map_of (concat (map (node_entries s) [0..<nb_node s]))"

lemma holds_value:
  assumes "inv_at v0 s R rk kv" "holds s k v"
  shows "value_ok s kv v k"
  using assms inv_value by (fastforce simp: holds_def)

lemma holds_functional:
  assumes I: "inv_at v0 s R rk kv" and "holds s k v" "holds s k w"
  shows "v = w"
proof -
  from assms(2) obtain m i where m: "tree_node s m" "isLeaf (pool s m)" "i < length (nkey (pool s m))"
    "nkey (pool s m) ! i = k" "child (pool s m) ! i = v" by (auto simp: holds_def)
  from assms(3) obtain n j where n: "tree_node s n" "isLeaf (pool s n)" "j < length (nkey (pool s n))"
    "nkey (pool s n) ! j = k" "child (pool s n) ! j = w" by (auto simp: holds_def)
  have "in_range (R m) k" "in_range (R n) k"
    using inv_in_range [OF I m(1)] inv_in_range [OF I n(1)] nth_mem [OF m(3)] nth_mem [OF n(3)] m(4) n(4)
    by auto
  with leaf_unique [OF I] m n have eq: "m = n" by blast
  have "distinct (nkey (pool s n))"
    using inv_ascending [OF I n(1)] by (simp add: strict_sorted_iff)
  with m n eq have "i = j" by (auto simp: nth_eq_iff_index_eq)
  with m n eq show ?thesis by simp
qed

lemma holds_injective:
  assumes "inv_at v0 s R rk kv" "holds s k v" "holds s k' v"
  shows "k = k'"
  using holds_value [OF assms(1,2)] holds_value [OF assms(1,3)] by (simp add: value_ok_def)

lemma in_node_entries:
  "(k, x) \<in> set (node_entries s n) \<longleftrightarrow> isLeaf (pool s n) \<and> \<not> isValue (pool s n)
     \<and> (\<exists>i. i < length (nkey (pool s n)) \<and> i < length (child (pool s n))
          \<and> nkey (pool s n) ! i = k \<and> nval (pool s (child (pool s n) ! i)) = x)"
  by (auto simp: node_entries_def set_zip)

lemma in_entries_iff:
  "(k, x) \<in> set (concat (map (node_entries s) [0..<nb_node s]))
     \<longleftrightarrow> (\<exists>v. holds s k v \<and> nval (pool s v) = x)"
  by (auto simp: in_node_entries holds_def tree_node_def) blast

lemma contents_iff:
  assumes I: "inv_at v0 s R rk kv"
  shows "contents s k = Some x \<longleftrightarrow> (\<exists>v. holds s k v \<and> nval (pool s v) = x)"
proof
  assume "contents s k = Some x"
  then show "\<exists>v. holds s k v \<and> nval (pool s v) = x"
    using in_entries_iff map_of_SomeD unfolding contents_def by metis
next
  assume a: "\<exists>v. holds s k v \<and> nval (pool s v) = x"
  then have "k \<in> fst ` set (concat (map (node_entries s) [0..<nb_node s]))"
    using in_entries_iff by (metis fst_conv imageI)
  then obtain y where y: "contents s k = Some y"
    unfolding contents_def using map_of_eq_None_iff by (metis not_None_eq)
  then obtain w where "holds s k w" "nval (pool s w) = y"
    using in_entries_iff map_of_SomeD unfolding contents_def by metis
  with a holds_functional [OF I] have "y = x" by blast
  with y show "contents s k = Some x" by simp
qed

lemma contents_None_iff:
  "inv_at v0 s R rk kv \<Longrightarrow> contents s k = None \<longleftrightarrow> (\<forall>v. \<not> holds s k v)"
  using contents_iff by (metis not_None_eq)

end
