(* ===== verification/Tree_Walk.thy ===== *)
theory Tree_Walk
  imports Tree_Inv
begin

text \<open>
  The walks of \<open>tree_lookup\<close> and \<open>tree_update\<close> on a tree that satisfies the invariant: they
  end, they change counters only, and they reach the value node that holds the key - from the
  root, or from any node on the key's route, which is what a query that enters the tree at the
  address the switch supplied relies on.
\<close>

section \<open>Trees that differ in counters only\<close>

definition counts_only :: "('k, 'v) tree \<Rightarrow> ('k, 'v) tree \<Rightarrow> bool" where
  "counts_only s t \<longleftrightarrow> nb_node t = nb_node s \<and> depth t = depth s
     \<and> (\<forall>n. pool t n = (pool s n)\<lparr>access_count := access_count (pool t n)\<rparr>)"

lemma counts_only_refl [simp]: "counts_only s s"
  by (simp add: counts_only_def)

lemma counts_only_pool:
  assumes "counts_only s t"
  shows "isLeaf (pool t n) = isLeaf (pool s n)" "isValue (pool t n) = isValue (pool s n)"
    "parent (pool t n) = parent (pool s n)" "nkey (pool t n) = nkey (pool s n)"
    "nval (pool t n) = nval (pool s n)" "child (pool t n) = child (pool s n)"
    "isLoaded2Switch (pool t n) = isLoaded2Switch (pool s n)"
    "nb_node t = nb_node s" "depth t = depth s"
proof -
  have "pool t n = (pool s n)\<lparr>access_count := access_count (pool t n)\<rparr>"
    using assms by (simp add: counts_only_def)
  from arg_cong [OF this, of isLeaf] arg_cong [OF this, of isValue] arg_cong [OF this, of parent]
    arg_cong [OF this, of nkey] arg_cong [OF this, of nval] arg_cong [OF this, of child]
    arg_cong [OF this, of isLoaded2Switch]
  show "isLeaf (pool t n) = isLeaf (pool s n)" "isValue (pool t n) = isValue (pool s n)"
    "parent (pool t n) = parent (pool s n)" "nkey (pool t n) = nkey (pool s n)"
    "nval (pool t n) = nval (pool s n)" "child (pool t n) = child (pool s n)"
    "isLoaded2Switch (pool t n) = isLoaded2Switch (pool s n)" by simp_all
  show "nb_node t = nb_node s" "depth t = depth s" using assms by (simp_all add: counts_only_def)
qed

lemma counts_only_trans: "counts_only s t \<Longrightarrow> counts_only t u \<Longrightarrow> counts_only s u"
  unfolding counts_only_def by (metis (no_types, lifting) node.update_convs(7) node.surjective)

lemma counts_only_node: "counts_only s (upd_node c (\<lambda>n. n\<lparr>access_count := f n\<rparr>) s)"
  by (simp add: counts_only_def upd_node_def)

lemma counts_only_globals: "counts_only s (s\<lparr>nb_access := a\<rparr>)" "counts_only s (s\<lparr>nb_query := q\<rparr>)"
  by (simp_all add: counts_only_def)

text \<open>The shape of a tree: everything the invariant and the walks look at.\<close>

definition same_shape :: "('k, 'v) tree \<Rightarrow> ('k, 'v) tree \<Rightarrow> bool" where
  "same_shape s t \<longleftrightarrow> nb_node t = nb_node s
     \<and> (\<forall>n. isLeaf (pool t n) = isLeaf (pool s n) \<and> isValue (pool t n) = isValue (pool s n)
          \<and> parent (pool t n) = parent (pool s n) \<and> nkey (pool t n) = nkey (pool s n)
          \<and> child (pool t n) = child (pool s n))"

lemma counts_only_shape: "counts_only s t \<Longrightarrow> same_shape s t"
  by (simp add: same_shape_def counts_only_pool)

lemma same_shapeD:
  assumes "same_shape s t"
  shows "tree_node t n = tree_node s n" "holds t k v = holds s k v"
    "next_child t n k = next_child s n k" "find_leaf f t n k = find_leaf f s n k"
    "leaf_of t n k = leaf_of s n k"
proof -
  have nc: "next_child t m k = next_child s m k" for m
    using assms by (simp add: next_child_def same_shape_def)
  have fl: "find_leaf g t m k = find_leaf g s m k" for g m
    using assms by (induction g arbitrary: m) (auto simp: nc same_shape_def split: bind_split)
  show "tree_node t n = tree_node s n" "holds t k v = holds s k v"
    using assms by (simp_all add: tree_node_def holds_def same_shape_def)
  show "next_child t n k = next_child s n k" by (rule nc)
  show "find_leaf f t n k = find_leaf f s n k" by (rule fl)
  show "leaf_of t n k = leaf_of s n k" using assms fl by (simp add: leaf_of_def same_shape_def)
qed

lemma inv_same_shape:
  assumes I: "inv_at v0 s R rk kv" and S: "same_shape s t"
    and U: "\<And>n. nb_node s \<le> n \<Longrightarrow> unused v0 (pool t n)"
  shows "inv_at v0 t R rk kv"
proof -
  have nb: "nb_node t = nb_node s"
    and p: "isLeaf (pool t n) = isLeaf (pool s n)" "isValue (pool t n) = isValue (pool s n)"
      "parent (pool t n) = parent (pool s n)" "nkey (pool t n) = nkey (pool s n)"
      "child (pool t n) = child (pool s n)" for n
    using S by (auto simp: same_shape_def)
  have tn: "tree_node t n = tree_node s n" for n by (simp add: tree_node_def nb p)
  have ok: "keys_ok t R n = keys_ok s R n" "inner_ok t R rk n = inner_ok s R rk n"
    "leaf_ok t kv n = leaf_ok s kv n" "up_ok t n = up_ok s n" for n
    by (simp_all add: keys_ok_def inner_ok_def leaf_ok_def up_ok_def link_def value_ok_def tn p nb)
  show ?thesis
    using I U by (auto simp: inv_at_def tn ok nb p)
qed

lemma inv_counts_only: "inv_at v0 s R rk kv \<Longrightarrow> counts_only s t \<Longrightarrow> inv_at v0 t R rk kv"
  by (rule inv_same_shape [OF _ counts_only_shape])
     (auto dest!: inv_unused simp: unused_def counts_only_pool)

lemma contents_counts_only:
  assumes "counts_only s t"
  shows "contents t = contents s"
proof -
  have "node_entries t n = node_entries s n" for n
    unfolding node_entries_def counts_only_pool [OF assms] by (rule refl)
  then have "node_entries t = node_entries s" by (rule ext)
  then show ?thesis by (simp add: contents_def counts_only_pool [OF assms])
qed

section \<open>Walking to a value node\<close>

lemma walk_counts_only:
  "walk f c s n k = Some (t, v) \<Longrightarrow> counts_only s t \<and> isValue (pool t v)"
proof (induction f arbitrary: s n)
  case (Suc f)
  show ?case
  proof (cases "isValue (pool s n)")
    case False
    let ?s = "if c then s\<lparr>nb_access := nb_access s + 1\<rparr> else s"
    have s: "counts_only s ?s" by (simp add: counts_only_globals)
    from Suc.prems False obtain d where "next_child ?s n k = Some d"
      and w: "walk f c (upd_node d (\<lambda>n. n\<lparr>access_count := access_count n + 1\<rparr>) ?s) d k = Some (t, v)"
      by (auto simp: Let_def split: bind_splits)
    have "counts_only s (upd_node d (\<lambda>n. n\<lparr>access_count := access_count n + 1\<rparr>) ?s)"
      by (rule counts_only_trans [OF s counts_only_node])
    with Suc.IH [OF w] show ?thesis using counts_only_trans by blast
  qed (use Suc.prems in auto)
qed simp

text \<open>One step of a walk from a node that is not a value node.\<close>

lemma walk_step:
  assumes "\<not> isValue (pool s n)"
  shows "\<exists>t. counts_only s t \<and>
    walk (Suc f) c s n k = (case next_child s n k of None \<Rightarrow> None
      | Some d \<Rightarrow> walk f c (upd_node d (\<lambda>n. n\<lparr>access_count := access_count n + 1\<rparr>) t) d k)"
proof -
  let ?t = "if c then s\<lparr>nb_access := nb_access s + 1\<rparr> else s"
  have "next_child ?t n k = next_child s n k" by (simp add: next_child_def)
  then show ?thesis
    using assms by (intro exI [of _ ?t]) (auto simp: Let_def counts_only_globals split: option.split)
qed

lemma walk_to_value:
  assumes "inv_at v0 s R rk kv" and "tree_node s n" and "in_range (R n) k"
    and "find_leaf f s n k = Some l" and "lower_bound (nkey (pool s l)) k < length (nkey (pool s l))"
  shows "\<exists>t. walk (Suc f) c s n k = Some (t, child (pool s l) ! lower_bound (nkey (pool s l)) k)
    \<and> counts_only s t"
  using assms
proof (induction f arbitrary: s n)
  case (Suc f)
  note I = Suc.prems(1)
  have "\<not> isValue (pool s n)" using Suc.prems(2) by (simp add: tree_node_def)
  from walk_step [OF this] obtain t where t: "counts_only s t" and
    w: "walk (Suc (Suc f)) c s n k = (case next_child s n k of None \<Rightarrow> None
      | Some d \<Rightarrow> walk (Suc f) c (upd_node d (\<lambda>n. n\<lparr>access_count := access_count n + 1\<rparr>) t) d k)"
    by blast
  show ?case
  proof (cases "isLeaf (pool s n)")
    case True
    let ?i = "lower_bound (nkey (pool s l)) k" and ?d = "child (pool s l) ! lower_bound (nkey (pool s l)) k"
    from True Suc.prems(4) have l: "l = n" by simp
    have len: "length (child (pool s n)) = length (nkey (pool s n))"
      by (rule inv_leaf_length [OF I Suc.prems(2) True])
    have d: "next_child s n k = Some ?d"
      using len Suc.prems(5) by (simp add: next_child_def vec_simps l)
    have "isValue (pool s ?d)"
      using inv_value [OF I Suc.prems(2) True, of ?i] Suc.prems(5) by (simp add: value_ok_def l)
    then have "isValue (pool (upd_node ?d (\<lambda>n. n\<lparr>access_count := access_count n + 1\<rparr>) t) ?d)"
      by (simp add: upd_node_def counts_only_pool [OF t])
    then show ?thesis using w d counts_only_trans [OF t counts_only_node] by auto
  next
    case False
    obtain d where d: "next_child s n k = Some d" "link s R rk n (lower_bound (nkey (pool s n)) k) d"
      "in_range (R d) k" by (rule next_child_link [OF I Suc.prems(2) False Suc.prems(3)])
    let ?t = "upd_node d (\<lambda>n. n\<lparr>access_count := access_count n + 1\<rparr>) t"
    have ct: "counts_only s ?t" by (rule counts_only_trans [OF t counts_only_node])
    note sh = same_shapeD [OF counts_only_shape [OF ct]]
    have "find_leaf f s d k = Some l" using Suc.prems(4) False d(1) by simp
    then have "\<exists>u. walk (Suc f) c ?t d k = Some (u, child (pool ?t l) ! lower_bound (nkey (pool ?t l)) k)
        \<and> counts_only ?t u"
      using Suc.prems(5) d(2,3)
      by (intro Suc.IH [OF inv_counts_only [OF I ct]])
         (simp_all add: sh link_def counts_only_pool [OF ct])
    then show ?thesis using w d(1) counts_only_trans [OF ct] by (auto simp: counts_only_pool [OF ct])
  qed
qed simp

lemma walk_beyond_leaf:
  assumes "inv_at v0 s R rk kv" and "tree_node s n" and "in_range (R n) k"
    and "find_leaf f s n k = Some l" and "length (nkey (pool s l)) \<le> lower_bound (nkey (pool s l)) k"
  shows "walk g c s n k = None"
  using assms
proof (induction f arbitrary: s n g)
  case (Suc f)
  note I = Suc.prems(1)
  have v: "\<not> isValue (pool s n)" using Suc.prems(2) by (simp add: tree_node_def)
  show ?case
  proof (cases g)
    case (Suc g')
    from walk_step [OF v] obtain t where t: "counts_only s t" and
      w: "walk (Suc g') c s n k = (case next_child s n k of None \<Rightarrow> None
        | Some d \<Rightarrow> walk g' c (upd_node d (\<lambda>n. n\<lparr>access_count := access_count n + 1\<rparr>) t) d k)"
      by blast
    show ?thesis
    proof (cases "isLeaf (pool s n)")
      case True
      then show ?thesis
        using Suc.prems(4,5) inv_leaf_length [OF I Suc.prems(2) True] w
        by (simp add: next_child_def vec_simps \<open>g = Suc g'\<close>)
    next
      case False
      obtain d where d: "next_child s n k = Some d" "link s R rk n (lower_bound (nkey (pool s n)) k) d"
        "in_range (R d) k" by (rule next_child_link [OF I Suc.prems(2) False Suc.prems(3)])
      let ?t = "upd_node d (\<lambda>n. n\<lparr>access_count := access_count n + 1\<rparr>) t"
      have ct: "counts_only s ?t" by (rule counts_only_trans [OF t counts_only_node])
      note sh = same_shapeD [OF counts_only_shape [OF ct]]
      have "walk g' c ?t d k = None"
        using Suc.prems(4,5) False d
        by (intro Suc.IH [OF inv_counts_only [OF I ct]])
           (simp_all add: sh link_def counts_only_pool [OF ct])
      then show ?thesis using w d(1) \<open>g = Suc g'\<close> by simp
    qed
  qed simp
qed simp

text \<open>
  Where a walk ends, by the leaf it passes: at a value node exactly if the leaf has a key that
  is not below the one searched for.
\<close>

definition value_of :: "('k::linorder, 'v) tree \<Rightarrow> 'k \<Rightarrow> nat option" where
  "value_of s k = do { l \<leftarrow> leaf_of s 0 k; next_child s l k }"

lemma walk_value_of:
  assumes I: "inv_at v0 s R rk kv" and n: "tree_node s n" and k: "in_range (R n) k"
  shows "case value_of s k of None \<Rightarrow> walk (Suc (nb_node s)) c s n k = None
    | Some v \<Rightarrow> \<exists>t. walk (Suc (nb_node s)) c s n k = Some (t, v) \<and> counts_only s t"
proof -
  obtain l where l: "leaf_of s n k = Some l" "tree_node s l" "isLeaf (pool s l)"
    by (rule leaf_of_total [OF I n k])
  have r: "leaf_of s 0 k = Some l" using leaf_of_root [OF I n k] l(1) by simp
  note len = inv_leaf_length [OF I l(2,3)]
  show ?thesis
  proof (cases "lower_bound (nkey (pool s l)) k < length (nkey (pool s l))")
    case True
    with r len have "value_of s k = Some (child (pool s l) ! lower_bound (nkey (pool s l)) k)"
      by (simp add: value_of_def next_child_def vec_simps)
    with walk_to_value [OF I n k _ True, of "nb_node s" c] l(1) show ?thesis
      unfolding leaf_of_def by (simp del: walk.simps)
  next
    case False
    with r len have "value_of s k = None"
      by (simp add: value_of_def next_child_def vec_simps)
    with walk_beyond_leaf [OF I n k, of "nb_node s" l "Suc (nb_node s)" c] l(1) False show ?thesis
      unfolding leaf_of_def by (simp del: walk.simps)
  qed
qed

lemma value_of_Some:
  assumes I: "inv_at v0 s R rk kv" and v: "value_of s k = Some v"
  obtains k' where "k \<le> k'" "holds s k' v" "(\<exists>w. holds s k w) \<Longrightarrow> k' = k"
proof -
  obtain l where l: "leaf_of s 0 k = Some l" "tree_node s l" "isLeaf (pool s l)" "in_range (R l) k"
    using leaf_of_total [OF I inv_root(1) [OF I], of k] inv_root(2) [OF I] by auto
  let ?ks = "nkey (pool s l)" let ?i = "lower_bound ?ks k"
  have s: "sorted ?ks" using inv_ascending [OF I l(2)] by simp
  note len = inv_leaf_length [OF I l(2,3)]
  from v l(1) len have i: "?i < length ?ks" "v = child (pool s l) ! ?i"
    by (auto simp: value_of_def next_child_def dest!: nth_opt_SomeE)
  then have h: "holds s (?ks ! ?i) v"
    using l(2,3) len unfolding holds_def by (intro exI [of _ l] exI [of _ ?i]) simp
  have ge: "k \<le> ?ks ! ?i" by (rule lower_bound_spec(3) [OF s order_refl i(1)])
  have eq: "?ks ! ?i = k" if "holds s k w" for w
  proof -
    from that obtain m j where m: "tree_node s m" "isLeaf (pool s m)" "j < length (nkey (pool s m))"
      "nkey (pool s m) ! j = k" by (auto simp: holds_def)
    have "in_range (R m) k" using inv_in_range [OF I m(1)] nth_mem [OF m(3)] m(4) by auto
    then have "m = l" using leaf_unique [OF I m(1,2) _ l(2-4)] by blast
    with m have j: "j < length ?ks" "?ks ! j = k" by auto
    have "?i \<le> j" using lower_bound_spec(2) [OF s, of j k] j by (metis linorder_not_less order_less_irrefl)
    then have "?ks ! ?i \<le> ?ks ! j" using sorted_nth_mono [OF s] j by blast
    with ge j show ?thesis by simp
  qed
  show thesis by (rule that [OF ge h]) (use eq in blast)
qed

lemma value_of_holds:
  assumes I: "inv_at v0 s R rk kv" and h: "holds s k v"
  shows "value_of s k = Some v"
proof -
  from h obtain m j where m: "tree_node s m" "isLeaf (pool s m)" "j < length (nkey (pool s m))"
    "nkey (pool s m) ! j = k" by (auto simp: holds_def)
  let ?ks = "nkey (pool s m)"
  have s: "sorted ?ks" using inv_ascending [OF I m(1)] by simp
  have r: "in_range (R m) k" using inv_in_range [OF I m(1)] nth_mem [OF m(3)] m(4) by auto
  have l: "leaf_of s 0 k = Some m"
    using leaf_of_root [OF I m(1) r] leaf_of_leaf [OF m(2), of k] m(1) by (simp add: tree_node_def)
  have "lower_bound ?ks k \<le> j" using lower_bound_spec(2) [OF s, of j k] m
    by (metis linorder_not_less order_less_irrefl)
  with m(3) l inv_leaf_length [OF I m(1,2)]
  obtain w where w: "value_of s k = Some w"
    by (auto simp: value_of_def next_child_def vec_simps)
  obtain k' where "holds s k' w" "k' = k" by (rule value_of_Some [OF I w]) (use h in blast)
  with holds_functional [OF I h] w show ?thesis by simp
qed

section \<open>The route of a key\<close>

fun path :: "nat \<Rightarrow> ('k::linorder, 'v) tree \<Rightarrow> nat \<Rightarrow> 'k \<Rightarrow> nat list" where
  "path 0 s cur k = []"
| "path (Suc fuel) s cur k = cur # (if isLeaf (pool s cur) then []
     else case next_child s cur k of None \<Rightarrow> [] | Some c \<Rightarrow> path fuel s c k)"

definition route :: "('k::linorder, 'v) tree \<Rightarrow> 'k \<Rightarrow> nat list" where
  "route s k = path (nb_node s) s 0 k"

lemma path_in_range:
  assumes I: "inv_at v0 s R rk kv"
  shows "tree_node s m \<Longrightarrow> in_range (R m) k \<Longrightarrow> n \<in> set (path f s m k)
    \<Longrightarrow> tree_node s n \<and> in_range (R n) k"
proof (induction f arbitrary: m)
  case (Suc f)
  show ?case
  proof (cases "n = m \<or> isLeaf (pool s m)")
    case False
    then have "\<not> isLeaf (pool s m)" by simp
    then obtain c where c: "next_child s m k = Some c" "link s R rk m (lower_bound (nkey (pool s m)) k) c"
      "in_range (R c) k" by (rule next_child_link [OF I Suc.prems(1) _ Suc.prems(2)])
    with Suc.prems(3) False Suc.IH [of c] show ?thesis by (simp add: link_def)
  qed (use Suc.prems in auto)
qed simp

lemma path_next:
  assumes I: "inv_at v0 s R rk kv"
  shows "tree_node s m \<Longrightarrow> in_range (R m) k \<Longrightarrow> below s rk m < f \<Longrightarrow> p \<in> set (path f s m k)
    \<Longrightarrow> \<not> isLeaf (pool s p) \<Longrightarrow> next_child s p k = Some c \<Longrightarrow> c \<in> set (path f s m k)"
proof (induction f arbitrary: m)
  case (Suc f)
  show ?case
  proof (cases "isLeaf (pool s m)")
    case False
    obtain d where d: "next_child s m k = Some d" "link s R rk m (lower_bound (nkey (pool s m)) k) d"
      "in_range (R d) k" by (rule next_child_link [OF I Suc.prems(1) False Suc.prems(2)])
    have b: "below s rk d < f"
      using below_less [of rk m d s] d(2) Suc.prems(3) by (auto simp: link_def tree_node_def)
    show ?thesis
    proof (cases "p = m")
      case True
      with d Suc.prems(6) have "c = d" by simp
      moreover obtain f' where "f = Suc f'" using b by (cases f) auto
      ultimately show ?thesis using d False by simp
    next
      case f: False
      then show ?thesis
        using Suc.IH [of d] Suc.prems d False b by (auto simp: link_def)
    qed
  qed (use Suc.prems in auto)
qed simp

lemma on_route_iff:
  assumes I: "inv_at v0 s R rk kv"
  shows "n \<in> set (route s k) \<longleftrightarrow> tree_node s n \<and> in_range (R n) k"
proof
  assume "n \<in> set (route s k)"
  then show "tree_node s n \<and> in_range (R n) k"
    unfolding route_def by (rule path_in_range [OF I inv_root(1) [OF I], rotated])
      (simp add: inv_root(2) [OF I])
next
  assume "tree_node s n \<and> in_range (R n) k"
  then show "n \<in> set (route s k)"
  proof (induction "above s rk n" arbitrary: n rule: less_induct)
    case less
    have b: "below s rk 0 < nb_node s"
      using below_bound inv_root(1) [OF I] by (auto simp: tree_node_def)
    show ?case
    proof (cases "n = 0")
      case True
      then show ?thesis using b by (cases "nb_node s") (auto simp: route_def)
    next
      case False
      from less.prems have n: "tree_node s n" "in_range (R n) k" by auto
      obtain p i where p: "parent (pool s n) = Some p" "tree_node s p" "\<not> isLeaf (pool s p)"
        "i \<le> length (nkey (pool s p))" "child (pool s p) ! i = n" "link s R rk p i n"
        by (rule inv_parentE [OF I n(1) False])
      have k: "in_range (R (child (pool s p) ! i)) k" using p(5) n(2) by simp
      note nc = next_child_of_child [OF I p(2-4) k]
      have "above s rk p < above s rk n"
        using p(2,6) by (intro above_less) (auto simp: link_def tree_node_def)
      then have "p \<in> set (route s k)" using less.hyps p(2) nc(2) by blast
      then show ?thesis
        unfolding route_def using path_next [OF I inv_root(1) [OF I] _ b] p(3,5) nc(1) inv_root(2) [OF I]
        by (metis in_range_full)
    qed
  qed
qed

end
