(* ===== verification/Tree_Split.thy ===== *)
theory Tree_Split
  imports Tree_Walk
begin

text \<open>
  The two halves of \<open>overflow\<close> keep the invariant and what the tree holds: copying an
  unmodifiable node into a fresh child, and splitting a node below its parent. Neither changes
  the key range of any old node but the one that is split.
\<close>

lemma set_parents_sel:
  "nb_node (set_parents p cs s) = nb_node s"
  "depth (set_parents p cs s) = depth s"
  "pool (set_parents p cs s) n = (if n \<in> set cs then (pool s n)\<lparr>parent := Some p\<rparr> else pool s n)"
  unfolding set_parents_def
  by (induction cs arbitrary: s) (auto simp: upd_node_def)

lemma upd_node_sel:
  "nb_node (upd_node n f s) = nb_node s"
  "pool (upd_node n f s) = (pool s)(n := f (pool s n))"
  by (simp_all add: upd_node_def)

section \<open>Copying\<close>

definition copied :: "('k, 'v) tree \<Rightarrow> nat \<Rightarrow> nat \<Rightarrow> ('k, 'v) node" where
  "copied s cur n = (let w = nb_node s; nd = pool s cur in
     if n = cur then nd\<lparr>isLeaf := False, nkey := [], child := [w]\<rparr>
     else if n = w then (pool s w)\<lparr>isLeaf := isLeaf nd, parent := Some cur, nkey := nkey nd,
       child := child nd, isLoaded2Switch := False\<rparr>
     else if n \<in> set (child nd) then (pool s n)\<lparr>parent := Some w\<rparr> else pool s n)"

lemma overflow_copy_eq:
  assumes "cur < nb_node s" "nb_node s < mx"
    and "nb_node s \<notin> set (child (pool s cur))" "cur \<notin> set (child (pool s cur))"
  shows "\<exists>t. overflow_copy mx s cur = Some (nb_node s, t) \<and> nb_node t = Suc (nb_node s)
     \<and> pool t = copied s cur"
proof -
  have "cur \<noteq> nb_node s" using assms(1) by simp
  then show ?thesis
    using assms
    by (auto simp: overflow_copy_def alloc_def Let_def copied_def fun_eq_iff upd_node_sel
        set_parents_sel)
qed

lemma inv_children_old:
  assumes I: "inv_at v0 s R rk kv" and n: "tree_node s n" and c: "c \<in> set (child (pool s n))"
  shows "c < nb_node s" "c \<noteq> n" "n < nb_node s" "\<not> isLeaf (pool s n) \<Longrightarrow> link s R rk n 0 c \<or> (\<exists>i. link s R rk n i c)"
    "isLeaf (pool s n) \<Longrightarrow> isValue (pool s c)"
proof -
  have *: "c < nb_node s \<and> c \<noteq> n \<and> (isLeaf (pool s n) \<longrightarrow> isValue (pool s c))
    \<and> (\<not> isLeaf (pool s n) \<longrightarrow> (\<exists>i. link s R rk n i c))"
  proof (cases "isLeaf (pool s n)")
    case True
    from c obtain i where i: "i < length (child (pool s n))" "child (pool s n) ! i = c"
      by (auto simp: in_set_conv_nth)
    then have "value_ok s kv c (nkey (pool s n) ! i)"
      using inv_value [OF I n True, of i] inv_leaf_length [OF I n True] by auto
    then show ?thesis using True n by (auto simp: value_ok_def tree_node_def)
  next
    case False
    obtain i where "i \<le> length (nkey (pool s n))" "child (pool s n) ! i = c" "link s R rk n i c"
      by (rule inv_childE [OF I n False c])
    then show ?thesis using False by (auto simp: link_def tree_node_def)
  qed
  then show "c < nb_node s" "c \<noteq> n" "isLeaf (pool s n) \<Longrightarrow> isValue (pool s c)"
    "\<not> isLeaf (pool s n) \<Longrightarrow> link s R rk n 0 c \<or> (\<exists>i. link s R rk n i c)" by auto
  show "n < nb_node s" using n by (simp add: tree_node_def)
qed

lemma inv_child_not_root:
  assumes I: "inv_at v0 s R rk kv" and n: "tree_node s n"
  shows "0 \<notin> set (child (pool s n))"
proof
  assume c: "0 \<in> set (child (pool s n))"
  have "\<not> isValue (pool s 0)" using inv_root(1) [OF I] by (simp add: tree_node_def)
  then have l: "\<not> isLeaf (pool s n)" using inv_children_old(5) [OF I n c] by blast
  show False using inv_children_old(4) [OF I n c l] by (auto simp: link_def)
qed

lemma overflow_copy_inv:
  assumes I: "inv_at v0 s R rk kv" and cur: "tree_node s cur" and mx: "nb_node s < mx"
  obtains t rk' where "overflow_copy mx s cur = Some (nb_node s, t)" "nb_node t = Suc (nb_node s)"
    "pool t = copied s cur" "inv_at v0 t (R(nb_node s := R cur)) rk' kv" "rk' cur < rk' (nb_node s)"
    "\<And>n. n \<noteq> nb_node s \<Longrightarrow> rk' n = rk n"
proof -
  let ?w = "nb_node s"
  note ch = inv_children_old [OF I cur]
  have w: "?w \<notin> set (child (pool s cur))" and c: "cur \<notin> set (child (pool s cur))"
    using ch by auto
  have cw: "cur < ?w" using cur by (simp add: tree_node_def)
  obtain t where t: "overflow_copy mx s cur = Some (?w, t)" "nb_node t = Suc ?w" "pool t = copied s cur"
    using overflow_copy_eq [OF cw mx w c] by blast
  define C where "C = {x \<in> set (child (pool s cur)). \<not> isLeaf (pool s cur)}"
  have "\<exists>q. rk cur < q \<and> (\<forall>x \<in> rk ` C. q < x)"
    using ch(4) by (intro dense_below_finite) (auto simp: C_def link_def)
  then obtain q where q: "rk cur < q" "\<And>x. x \<in> C \<Longrightarrow> q < rk x" by blast
  define R' where "R' = R(?w := R cur)"
  define rk' where "rk' = rk(?w := q)"
  have un: "unused v0 (pool s n)" if "?w \<le> n" for n using inv_unused [OF I that] .
  have pt: "pool t cur = (pool s cur)\<lparr>isLeaf := False, nkey := [], child := [?w]\<rparr>"
    "isLeaf (pool t ?w) = isLeaf (pool s cur)" "parent (pool t ?w) = Some cur"
    "nkey (pool t ?w) = nkey (pool s cur)" "child (pool t ?w) = child (pool s cur)"
    "\<not> isValue (pool t ?w)"
    using cw un [of ?w] by (auto simp: t(3) copied_def Let_def unused_def)
  have po: "isLeaf (pool t n) = isLeaf (pool s n)" "nkey (pool t n) = nkey (pool s n)"
    "child (pool t n) = child (pool s n)"
    "parent (pool t n) = (if n \<in> set (child (pool s cur)) then Some ?w else parent (pool s n))"
    if "n \<noteq> cur" "n \<noteq> ?w" for n
    using that by (auto simp: t(3) copied_def Let_def)
  have iv: "isValue (pool t n) = isValue (pool s n)" for n
    using un [of ?w] cw by (auto simp: t(3) copied_def Let_def unused_def)
  have tn: "tree_node t n \<longleftrightarrow> tree_node s n \<or> n = ?w" for n
    using un [of ?w] by (auto simp: tree_node_def t(2) iv unused_def less_Suc_eq)
  have w0: "?w \<noteq> 0" using cw by simp
  have Ro: "R' n = R n" "rk' n = rk n" if "n \<noteq> ?w" for n using that by (simp_all add: R'_def rk'_def)
  have Rw: "R' ?w = R cur" "rk' ?w = q" by (simp_all add: R'_def rk'_def)
  have "inv_at v0 t R' rk' kv"
  proof (rule inv_atI)
    show "tree_node t 0" "R' 0 = (None, None)"
      using inv_root [OF I] w0 by (simp_all add: tn R'_def)
    show "parent (pool t 0) = None"
      using inv_root(3) [OF I] po(4) [of 0] pt(1) w0 inv_child_not_root [OF I cur]
      by (cases "cur = 0") auto
  next
    fix n assume "nb_node t \<le> n"
    then have "n \<notin> set (child (pool s cur))" "n \<noteq> cur" "n \<noteq> ?w" "?w \<le> n"
      using cw ch(1) [of n] by (auto simp: t(2))
    then show "unused v0 (pool t n)"
      using un [of n] by (simp add: t(3) copied_def Let_def)
  next
    fix n assume n: "tree_node t n"
    show "keys_ok t R' n"
    proof (cases "n = ?w")
      case True
      then show ?thesis using inv_keys [OF I cur] by (simp add: keys_ok_def pt Rw)
    next
      case False
      then have "tree_node s n" using n tn by simp
      from inv_keys [OF I this] False show ?thesis
        by (cases "n = cur") (auto simp: keys_ok_def pt po Ro)
    qed
  next
    fix n assume n: "tree_node t n" and nl: "\<not> isLeaf (pool t n)"
    consider "n = ?w" | "n = cur" | "n \<noteq> ?w" "n \<noteq> cur" by blast
    then show "inner_ok t R' rk' n"
    proof cases
      case 1
      have l: "\<not> isLeaf (pool s cur)" using nl pt 1 by simp
      have "link t R' rk' ?w i (child (pool s cur) ! i)" if i: "i \<le> length (nkey (pool s cur))" for i
      proof -
        let ?d = "child (pool s cur) ! i"
        have d: "?d \<in> set (child (pool s cur))" using inv_child_length [OF I cur l] i by simp
        have lk: "link s R rk cur i ?d" by (rule inv_link [OF I cur l i])
        have "q < rk ?d" using q(2) [of ?d] d l by (simp add: C_def)
        moreover have "?d \<noteq> cur" "?d \<noteq> ?w" using d w c by metis+
        ultimately show ?thesis using lk d by (auto simp: link_def tn po Ro Rw pt)
      qed
      then show ?thesis using inv_child_length [OF I cur l] by (simp add: inner_ok_def 1 pt)
    next
      case 2
      have "link t R' rk' cur 0 ?w"
        using w0 cw q(1) by (simp add: link_def tn pt Ro Rw)
      then show ?thesis by (simp add: inner_ok_def 2 pt)
    next
      case 3
      then have ns: "tree_node s n" using n tn by simp
      have l: "\<not> isLeaf (pool s n)" using nl po 3 by simp
      have "link t R' rk' n i (child (pool s n) ! i)" if i: "i \<le> length (nkey (pool s n))" for i
      proof -
        let ?d = "child (pool s n) ! i"
        have lk: "link s R rk n i ?d" by (rule inv_link [OF I ns l i])
        then have dw: "?d \<noteq> ?w" by (auto simp: link_def tree_node_def)
        have "?d \<notin> set (child (pool s cur))"
        proof
          assume d: "?d \<in> set (child (pool s cur))"
          from lk have v: "\<not> isValue (pool s ?d)" "parent (pool s ?d) = Some n"
            by (auto simp: link_def tree_node_def)
          with ch(5) [OF d] have "\<not> isLeaf (pool s cur)" by blast
          with ch(4) [OF d] have "parent (pool s ?d) = Some cur" by (auto simp: link_def)
          with v 3 show False by simp
        qed
        then show ?thesis using lk dw 3 po [of ?d] po [of n]
          by (cases "?d = cur") (auto simp: link_def tn Ro pt)
      qed
      then show ?thesis using inv_child_length [OF I ns l] 3 by (simp add: inner_ok_def po)
    qed
  next
    fix n assume n: "tree_node t n" and l: "isLeaf (pool t n)"
    have val: "value_ok t kv v k" if "value_ok s kv v k" for v k
      using that by (auto simp: value_ok_def t(2) iv)
    from l pt(1) have "n \<noteq> cur" by auto
    then show "leaf_ok t kv n"
      using inv_leaf [OF I cur] inv_leaf [OF I, of n] n l val
      by (cases "n = ?w") (auto simp: leaf_ok_def pt po tn)
  next
    fix n assume n: "tree_node t n" "n \<noteq> 0"
    consider "n = ?w" | "n = cur" | "n \<noteq> ?w" "n \<noteq> cur" "n \<in> set (child (pool s cur))"
      | "n \<noteq> ?w" "n \<noteq> cur" "n \<notin> set (child (pool s cur))" by blast
    then show "up_ok t n"
    proof cases
      case 1
      then show ?thesis using cur by (auto simp: up_ok_def pt tn)
    next
      case 2
      from inv_up [OF I cur] n 2 obtain p where p: "parent (pool s cur) = Some p" "tree_node s p"
        "\<not> isLeaf (pool s p)" "cur \<in> set (child (pool s p))" by (auto simp: up_ok_def)
      then have "p \<noteq> cur" "p \<noteq> ?w" using c by (auto simp: tree_node_def)
      with p 2 show ?thesis by (auto simp: up_ok_def pt po tn)
    next
      case 3
      then have "\<not> isLeaf (pool s cur)" using ch(5) n iv by (auto simp: tree_node_def)
      with 3 show ?thesis by (auto simp: up_ok_def pt po tn)
    next
      case 4
      then have ns: "tree_node s n" using n tn by simp
      from inv_up [OF I ns] n obtain p where p: "parent (pool s n) = Some p" "tree_node s p"
        "\<not> isLeaf (pool s p)" "n \<in> set (child (pool s p))" by (auto simp: up_ok_def)
      then have "p \<noteq> cur" "p \<noteq> ?w" using 4 by (auto simp: tree_node_def)
      with p 4 show ?thesis by (auto simp: up_ok_def pt po tn)
    qed
  qed
  moreover have "rk' cur < rk' ?w" using q(1) Rw Ro(2) [of cur] cw by simp
  ultimately show thesis using that [OF t] Ro(2) unfolding R'_def by blast
qed

lemma holds_copied:
  assumes I: "inv_at v0 s R rk kv" and cur: "tree_node s cur"
    and t: "nb_node t = Suc (nb_node s)" "pool t = copied s cur"
  shows "holds t k v \<longleftrightarrow> holds s k v"
proof -
  let ?w = "nb_node s"
  have cw: "cur < ?w" using cur by (simp add: tree_node_def)
  have un: "unused v0 (pool s ?w)" using inv_unused [OF I] by simp
  have ch: "c \<noteq> ?w" "c \<noteq> cur" if "c \<in> set (child (pool s cur))" for c
    using inv_children_old [OF I cur that] by auto
  have tn: "tree_node t n \<longleftrightarrow> tree_node s n \<or> n = ?w" for n
    using un cw by (auto simp: tree_node_def t copied_def Let_def unused_def less_Suc_eq)
  have pt: "\<not> isLeaf (pool t cur)" "isLeaf (pool t ?w) = isLeaf (pool s cur)"
    "nkey (pool t ?w) = nkey (pool s cur)" "child (pool t ?w) = child (pool s cur)"
    using cw by (auto simp: t copied_def Let_def)
  have po: "isLeaf (pool t n) = isLeaf (pool s n)" "nkey (pool t n) = nkey (pool s n)"
    "child (pool t n) = child (pool s n)" if "n \<noteq> cur" "n \<noteq> ?w" for n
    using that by (auto simp: t copied_def Let_def)
  have "\<not> tree_node s ?w" by (simp add: tree_node_def)
  show ?thesis
  proof
    assume "holds t k v"
    then obtain n i where n: "tree_node t n" "isLeaf (pool t n)" "i < length (nkey (pool t n))"
      "i < length (child (pool t n))" "nkey (pool t n) ! i = k" "child (pool t n) ! i = v"
      by (auto simp: holds_def)
    then have "n \<noteq> cur" using pt by auto
    with n show "holds s k v"
      using cur by (cases "n = ?w") (fastforce simp: holds_def tn pt po)+
  next
    assume "holds s k v"
    then obtain n i where n: "tree_node s n" "isLeaf (pool s n)" "i < length (nkey (pool s n))"
      "i < length (child (pool s n))" "nkey (pool s n) ! i = k" "child (pool s n) ! i = v"
      by (auto simp: holds_def)
    show "holds t k v"
    proof (cases "n = cur")
      case True
      with n show ?thesis unfolding holds_def
        by (intro exI [of _ ?w] exI [of _ i]) (simp add: tn pt)
    next
      case False
      moreover have "n \<noteq> ?w" using n \<open>\<not> tree_node s ?w\<close> by auto
      ultimately show ?thesis using n unfolding holds_def
        by (intro exI [of _ n] exI [of _ i]) (simp add: tn po)
    qed
  qed
qed

section \<open>Splitting\<close>

lemma inv_children_distinct:
  assumes I: "inv_at v0 s R rk kv" and n: "tree_node s n" "\<not> isLeaf (pool s n)"
  shows "distinct (child (pool s n))"
proof -
  let ?ks = "nkey (pool s n)" and ?cs = "child (pool s n)"
  note len = inv_child_length [OF I n]
  have ne: "?cs ! i \<noteq> ?cs ! j" if ij: "i < j" "j < length ?cs" for i j
  proof
    assume eq: "?cs ! i = ?cs ! j"
    have "R (?cs ! i) = sub_range (R n) ?ks i" "R (?cs ! j) = sub_range (R n) ?ks j"
      using inv_link [OF I n, of i] inv_link [OF I n, of j] ij len by (simp_all add: link_def)
    with eq have "fst (sub_range (R n) ?ks i) = Some (?ks ! (j - 1))"
      using ij by (simp add: sub_range_def)
    moreover have "in_range (R n) (?ks ! (j - 1))"
      using inv_in_range [OF I n(1)] ij len by simp
    moreover have "?ks ! (i - 1) < ?ks ! (j - 1)" if "i \<noteq> 0"
      using inv_ascending [OF I n(1)] ij len that by (intro ascending_nth) auto
    ultimately show False by (auto simp: sub_range_def in_range_def split: if_splits)
  qed
  then show ?thesis
    by (simp add: distinct_conv_nth) (metis linorder_neqE_nat)
qed

text \<open>The pool after a split of \<open>cur\<close>, child \<open>p\<close> of \<open>par\<close>, into \<open>cur\<close> and the new node.\<close>

definition splitted :: "('k, 'v) tree \<Rightarrow> nat \<Rightarrow> nat \<Rightarrow> nat \<Rightarrow> 'k \<Rightarrow> nat \<Rightarrow> nat \<Rightarrow> nat \<Rightarrow> ('k, 'v) node" where
  "splitted s cur par p sep a b n = (let w = nb_node s; nd = pool s cur; pn = pool s par in
     if n = cur then nd\<lparr>nkey := take a (nkey nd), child := take b (child nd)\<rparr>
     else if n = w then (pool s w)\<lparr>parent := Some par, isLeaf := isLeaf nd,
       nkey := drop b (nkey nd), child := drop b (child nd)\<rparr>
     else if n = par then pn\<lparr>nkey := take p (nkey pn) @ sep # drop p (nkey pn),
       child := take (Suc p) (child pn) @ w # drop (Suc p) (child pn)\<rparr>
     else if \<not> isLeaf nd \<and> n \<in> set (drop b (child nd)) then (pool s n)\<lparr>parent := Some w\<rparr>
     else pool s n)"

text \<open>What the two kinds of split have in common: \<open>a\<close> keys and \<open>b\<close> children stay.\<close>

definition split_point :: "('k::linorder, 'v) tree \<Rightarrow> (nat \<Rightarrow> 'k range) \<Rightarrow> nat \<Rightarrow> 'k \<Rightarrow> nat \<Rightarrow> nat \<Rightarrow> bool" where
  "split_point s R cur sep a b \<longleftrightarrow> a < length (nkey (pool s cur)) \<and> in_range (R cur) sep
     \<and> (case snd (R cur) of None \<Rightarrow> True | Some h \<Rightarrow> sep < h)
     \<and> (if isLeaf (pool s cur) then b = a \<and> 0 < a \<and> sep = nkey (pool s cur) ! (a - 1)
        else b = Suc a \<and> b \<le> length (nkey (pool s cur)) \<and> sep = nkey (pool s cur) ! a)"

lemma split_inv:
  assumes I: "inv_at v0 s R rk kv" and cur: "tree_node s cur"
    and par: "tree_node s par" "\<not> isLeaf (pool s par)" "p \<le> length (nkey (pool s par))"
      "child (pool s par) ! p = cur"
    and sp: "split_point s R cur sep a b"
    and t: "nb_node t = Suc (nb_node s)" "pool t = splitted s cur par p sep a b"
  shows "inv_at v0 t (R(cur := (fst (R cur), Some sep), nb_node s := (Some sep, snd (R cur))))
    (rk(nb_node s := rk cur)) kv"
proof -
  let ?w = "nb_node s" and ?K = "nkey (pool s cur)" and ?C = "child (pool s cur)"
    and ?ks = "nkey (pool s par)" and ?cs = "child (pool s par)" and ?lf = "isLeaf (pool s cur)"
  define R' where "R' = R(cur := (fst (R cur), Some sep), ?w := (Some sep, snd (R cur)))"
  define rk' where "rk' = rk(?w := rk cur)"
  define ks' where "ks' = take p ?ks @ sep # drop p ?ks"
  define cs' where "cs' = take (Suc p) ?cs @ ?w # drop (Suc p) ?cs"
  have cw: "cur < ?w" "par < ?w" using cur par by (simp_all add: tree_node_def)
  have lk: "link s R rk par p cur" using inv_link [OF I par(1-3)] par(4) by simp
  then have cp: "cur \<noteq> par" "cur \<noteq> 0" "parent (pool s cur) = Some par"
    "R cur = sub_range (R par) ?ks p" "rk par < rk cur" by (auto simp: link_def)
  note ch = inv_children_old [OF I cur]
  have un: "unused v0 (pool s n)" if "?w \<le> n" for n using inv_unused [OF I that] .
  have C2: "x \<noteq> cur" "x \<noteq> ?w" "x \<noteq> par" "x < ?w" if "x \<in> set ?C" for x
  proof -
    show "x \<noteq> cur" "x < ?w" "x \<noteq> ?w" using ch(1,2) [OF that] by auto
    show "x \<noteq> par"
    proof
      assume "x = par"
      moreover from this have "\<not> ?lf" using ch(5) [OF that] par(1) by (auto simp: tree_node_def)
      ultimately show False using ch(4) [OF that] cp(5) by (auto simp: link_def)
    qed
  qed
  define moved where "moved = (\<lambda>n. \<not> ?lf \<and> n \<in> set (drop b ?C))"
  have mv: "n \<in> set ?C" "n \<noteq> cur" "n \<noteq> ?w" "n \<noteq> par" if "moved n" for n
    using that C2 [of n] by (auto simp: moved_def dest: in_set_dropD)
  have pt: "nkey (pool t cur) = take a ?K" "child (pool t cur) = take b ?C"
    "isLeaf (pool t cur) = ?lf" "parent (pool t cur) = Some par"
    "nkey (pool t ?w) = drop b ?K" "child (pool t ?w) = drop b ?C" "isLeaf (pool t ?w) = ?lf"
    "parent (pool t ?w) = Some par" "nkey (pool t par) = ks'" "child (pool t par) = cs'"
    "\<not> isLeaf (pool t par)" "parent (pool t par) = parent (pool s par)"
    using cw cp par(2) un [of ?w] by (auto simp: t(2) splitted_def Let_def ks'_def cs'_def)
  have po: "isLeaf (pool t n) = isLeaf (pool s n)" "nkey (pool t n) = nkey (pool s n)"
    "child (pool t n) = child (pool s n)"
    "parent (pool t n) = (if moved n then Some ?w else parent (pool s n))"
    if "n \<noteq> cur" "n \<noteq> ?w" "n \<noteq> par" for n
    using that by (auto simp: t(2) splitted_def Let_def moved_def)
  have iv: "isValue (pool t n) = isValue (pool s n)" for n
    using un [of ?w] cw cp by (auto simp: t(2) splitted_def Let_def unused_def)
  have tn: "tree_node t n \<longleftrightarrow> tree_node s n \<or> n = ?w" for n
    using un [of ?w] by (auto simp: tree_node_def t(1) iv unused_def less_Suc_eq)
  have w0: "?w \<noteq> 0" using cw by simp
  have Ro: "R' n = R n" "rk' n = rk n" if "n \<noteq> ?w" "n \<noteq> cur" for n using that by (simp_all add: R'_def rk'_def)
  have Rc: "R' cur = (fst (R cur), Some sep)" "R' ?w = (Some sep, snd (R cur))" "rk' ?w = rk cur"
    "rk' cur = rk cur" using cw by (auto simp: R'_def rk'_def)
  have Rp: "R' par = R par" "rk' par = rk par" using cw cp by (auto simp: R'_def rk'_def)
  have asK: "ascending ?K" by (rule inv_ascending [OF I cur])
  have inK: "in_range (R cur) (?K ! i)" if "i < length ?K" for i
    using inv_in_range [OF I cur] that by simp
  have aK: "a < length ?K" and sR: "in_range (R cur) sep"
    and sh: "snd (R cur) = Some h \<Longrightarrow> sep < h" for h
    using sp by (auto simp: split_point_def)
  have leaf: "b = a" "0 < a" "sep = ?K ! (a - 1)" if ?lf using sp that by (auto simp: split_point_def)
  have inner: "b = Suc a" "b \<le> length ?K" "sep = ?K ! a" if "\<not> ?lf"
    using sp that by (auto simp: split_point_def)
  have lowK: "?K ! i \<le> sep" if "i < a" for i
    using sorted_nth_mono [OF ascending_sorted [OF asK], of i "a - 1"] leaf aK that
      ascending_nth [OF asK, of i a] inner by (cases ?lf) auto
  have highK: "sep < ?K ! (b + i)" if "b + i < length ?K" for i
    using leaf inner aK that ascending_nth [OF asK, of "a - 1" "b + i"]
      ascending_nth [OF asK, of a "b + i"] by (cases ?lf) auto
  have asks: "ascending ?ks" by (rule inv_ascending [OF I par(1)])
  note lcs = inv_child_length [OF I par(1,2)]
  have nthcs': "cs' ! j = (if j \<le> p then ?cs ! j else if j = Suc p then ?w else ?cs ! (j - 1))" for j
    using nth_insert [of "Suc p" ?cs ?w j] lcs par(3) by (auto simp: cs'_def)
  have cs_cur: "?cs ! j = cur \<longleftrightarrow> j = p" if "j < length ?cs" for j
    using inv_children_distinct [OF I par(1,2)] that par(3,4) lcs
    by (metis Suc_n_not_le_n le_imp_less_Suc nth_eq_iff_index_eq)
  have setcs': "set cs' = set ?cs \<union> {?w}"
    unfolding cs'_def using set_insert [of "Suc p" ?cs ?w] by simp
  have "inv_at v0 t R' rk' kv"
  proof (rule inv_atI)
    show "tree_node t 0" "R' 0 = (None, None)"
      using inv_root [OF I] w0 cp(2) by (simp_all add: tn R'_def)
    show "parent (pool t 0) = None"
      using inv_root(3) [OF I] po(4) [of 0] pt(12) w0 cp(2) mv(1) [of 0]
        inv_child_not_root [OF I cur] by (cases "par = 0") auto
  next
    fix n assume "nb_node t \<le> n"
    then have "n \<noteq> cur" "n \<noteq> ?w" "n \<noteq> par" "\<not> moved n" "?w \<le> n"
      using cw C2(4) [of n] mv(1) [of n] by (auto simp: t(1))
    then show "unused v0 (pool t n)"
      using un [of n] by (auto simp: t(2) splitted_def Let_def moved_def)
  next
    fix n assume n: "tree_node t n"
    consider "n = cur" | "n = ?w" | "n = par" | "n \<noteq> cur" "n \<noteq> ?w" "n \<noteq> par" by blast
    then show "keys_ok t R' n"
    proof cases
      case 1
      have "in_range (fst (R cur), Some sep) (?K ! i)" if "i < a" for i
        using inK [of i] lowK [OF that] aK that by (auto simp: in_range_def)
      then show ?thesis
        using ascending_take [OF asK] aK cw by (auto simp: keys_ok_def 1 pt Rc in_set_conv_nth)
    next
      case 2
      have "in_range (Some sep, snd (R cur)) (?K ! (b + i))" if "b + i < length ?K" for i
        using inK [OF that] highK [OF that] by (auto simp: in_range_def)
      then show ?thesis
        using ascending_drop [OF asK] leaf inner aK
        by (cases ?lf) (auto simp: keys_ok_def 2 pt Rc in_set_conv_nth less_diff_conv add.commute)
    next
      case 3
      have "ascending ks'" unfolding ks'_def
        using sR sh cp(4) par(3) by (intro ascending_insert [OF asks par(3)])
          (auto simp: sub_range_def in_range_def split: option.splits if_splits)
      moreover have "in_range (R par) sep"
        using in_sub_range_in_range [OF ascending_sorted [OF asks] par(3)] inv_in_range [OF I par(1)]
          sR cp(4) by simp
      moreover have "set ks' = insert sep (set ?ks)" unfolding ks'_def by (rule set_insert)
      ultimately show ?thesis
        using inv_in_range [OF I par(1)] by (auto simp: keys_ok_def 3 pt Rp)
    next
      case 4
      then show ?thesis using inv_keys [OF I, of n] n tn by (simp add: keys_ok_def po Ro)
    qed
  next
    fix n assume n: "tree_node t n" and nl: "\<not> isLeaf (pool t n)"
    consider "n = cur" | "n = ?w" | "n = par" | "n \<noteq> cur" "n \<noteq> ?w" "n \<noteq> par" by blast
    then show "inner_ok t R' rk' n"
    proof cases
      case 1
      then have l: "\<not> ?lf" using nl pt by simp
      note cl = inv_child_length [OF I cur l]
      have "link t R' rk' cur i (?C ! i)" if i: "i \<le> a" for i
      proof -
        have lki: "link s R rk cur i (?C ! i)" by (rule inv_link [OF I cur l]) (use i aK in simp)
        have m: "?C ! i \<in> set ?C" using i aK cl by simp
        have "?C ! i \<notin> set (drop b ?C)"
          using inv_children_distinct [OF I cur l] inner [OF l] i aK cl
          by (auto simp: in_set_conv_nth nth_eq_iff_index_eq)
        then have "\<not> moved (?C ! i)" by (simp add: moved_def)
        then show ?thesis using lki C2 [OF m] i aK inner [OF l] sub_range_take [OF aK i, of "R cur"]
          by (auto simp: link_def tn po Ro Rc pt)
      qed
      then show ?thesis using inner [OF l] aK cl by (auto simp: inner_ok_def 1 pt)
    next
      case 2
      then have l: "\<not> ?lf" using nl pt by simp
      note cl = inv_child_length [OF I cur l]
      have "link t R' rk' ?w i (?C ! (b + i))" if i: "b + i \<le> length ?K" for i
      proof -
        have lki: "link s R rk cur (b + i) (?C ! (b + i))" by (rule inv_link [OF I cur l i])
        have m: "?C ! (b + i) \<in> set ?C" using i cl by simp
        have "drop b ?C ! i = ?C ! (b + i)" "i < length (drop b ?C)" using i cl by auto
        then have "moved (?C ! (b + i))" using l nth_mem unfolding moved_def by metis
        moreover have "sub_range (Some sep, snd (R cur)) (drop b ?K) i = sub_range (R cur) ?K (b + i)"
          using sub_range_drop [OF aK, of "R cur" i] inner [OF l] by simp
        ultimately show ?thesis using lki C2 [OF m] by (auto simp: link_def tn po Ro Rc pt)
      qed
      then show ?thesis using inner [OF l] cl by (auto simp: inner_ok_def 2 pt)
    next
      case 3
      have "link t R' rk' par j (cs' ! j)" if j: "j \<le> length ks'" for j
      proof -
        have len: "length ks' = Suc (length ?ks)" using par(3) by (simp add: ks'_def)
        note sub = sub_range_insert [OF par(3), of "R par" sep j, folded ks'_def]
        have old: "link t R' rk' par j (?cs ! i)"
          if i: "i \<le> length ?ks" "i \<noteq> p" "sub_range (R par) ks' j = sub_range (R par) ?ks i" for i
        proof -
          have lki: "link s R rk par i (?cs ! i)" by (rule inv_link [OF I par(1,2) i(1)])
          have m: "?cs ! i \<noteq> cur" using cs_cur [of i] i lcs by simp
          have "\<not> moved (?cs ! i)"
          proof
            assume mvd: "moved (?cs ! i)"
            then have "\<exists>j. link s R rk cur j (?cs ! i)" using ch(4) mv(1) by (auto simp: moved_def)
            with lki cp(1) show False by (auto simp: link_def)
          qed
          moreover have "?cs ! i \<noteq> ?w" "?cs ! i \<noteq> par" using lki by (auto simp: link_def tree_node_def)
          ultimately show ?thesis using lki m i(3) by (auto simp: link_def tn po Ro Rp pt)
        qed
        consider "j < p" | "j = p" | "j = Suc p" | i where "j = Suc i" "p < i"
          by (metis Suc_lessI lessE linorder_neqE_nat)
        then show ?thesis
        proof cases
          case 1
          then show ?thesis using old [of j] sub par(3) by (simp add: nthcs')
        next
          case 2
          then show ?thesis using lk sub cp(4,5) par(4)
            by (simp add: nthcs' link_def tn cur Rc Rp pt)
        next
          case 3
          then show ?thesis using w0 sub cp(4,5)
            by (simp add: nthcs' link_def tn Rc Rp pt)
        next
          case 4
          then show ?thesis using old [of i] sub j len by (simp add: nthcs')
        qed
      qed
      then show ?thesis using lcs par(3) by (auto simp: inner_ok_def 3 pt) (simp add: cs'_def ks'_def)
    next
      case 4
      then have ns: "tree_node s n" and l: "\<not> isLeaf (pool s n)" using n nl tn po by auto
      have "link t R' rk' n i (child (pool s n) ! i)" if i: "i \<le> length (nkey (pool s n))" for i
      proof -
        let ?d = "child (pool s n) ! i"
        have lki: "link s R rk n i ?d" by (rule inv_link [OF I ns l i])
        have "?d \<noteq> cur" using lki cp(3) 4 by (auto simp: link_def)
        moreover have "?d \<noteq> ?w" using lki by (auto simp: link_def tree_node_def)
        moreover have "\<not> moved ?d"
        proof
          assume mvd: "moved ?d"
          then have "\<exists>j. link s R rk cur j ?d" using ch(4) mv(1) by (auto simp: moved_def)
          with lki 4 show False by (auto simp: link_def)
        qed
        ultimately show ?thesis using lki 4
          by (cases "?d = par") (auto simp: link_def tn po Ro Rp pt)
      qed
      then show ?thesis using inv_child_length [OF I ns l] 4 by (simp add: inner_ok_def po)
    qed
  next
    fix n assume n: "tree_node t n" and l: "isLeaf (pool t n)"
    have val: "value_ok t kv v k" if "value_ok s kv v k" for v k
      using that by (auto simp: value_ok_def t(1) iv)
    consider "n = cur" | "n = ?w" | "n = par" | "n \<noteq> cur" "n \<noteq> ?w" "n \<noteq> par" by blast
    then show "leaf_ok t kv n"
    proof cases
      case 1
      then have "?lf" using l pt by simp
      then show ?thesis using inv_leaf_length [OF I cur] inv_value [OF I cur] leaf aK val
        by (auto simp: leaf_ok_def 1 pt)
    next
      case 2
      then have "?lf" using l pt by simp
      then show ?thesis using inv_leaf_length [OF I cur] inv_value [OF I cur] leaf aK val
        by (auto simp: leaf_ok_def 2 pt)
    next
      case 3
      then show ?thesis using l pt by simp
    next
      case 4
      then show ?thesis using inv_leaf [OF I, of n] n l tn val by (auto simp: leaf_ok_def po)
    qed
  next
    fix n assume n: "tree_node t n" "n \<noteq> 0"
    have up: "up_ok t n" if "parent (pool t n) = Some q" "tree_node s q" "\<not> isLeaf (pool s q)"
      "n \<in> set (child (pool t q))" for q
    proof -
      have "q \<noteq> ?w" using that(2) by (auto simp: tree_node_def)
      then have "\<not> isLeaf (pool t q)" using that(3) pt po
        by (cases "q = cur"; cases "q = par") auto
      then show ?thesis using that tn by (auto simp: up_ok_def)
    qed
    consider "n = cur" | "n = ?w" | "moved n" | "n \<noteq> cur" "n \<noteq> ?w" "\<not> moved n" by blast
    then show "up_ok t n"
    proof cases
      case 1
      have "cur \<in> set ?cs" using par(3,4) lcs by (metis le_imp_less_Suc nth_mem)
      then show ?thesis using up [of par] par setcs' 1 by (simp add: pt)
    next
      case 2
      then show ?thesis using up [of par] par setcs' by (simp add: pt)
    next
      case 3
      then show ?thesis using mv [OF 3] po(4) [of n] pt un [of ?w]
        by (auto simp: up_ok_def tn moved_def)
    next
      case 4
      then have ns: "tree_node s n" using n tn by simp
      from inv_up [OF I ns] n obtain q where q: "parent (pool s n) = Some q" "tree_node s q"
        "\<not> isLeaf (pool s q)" "n \<in> set (child (pool s q))" by (auto simp: up_ok_def)
      have "parent (pool t n) = Some q" using 4 q(1) po(4) pt(12) by (cases "n = par") auto
      moreover have "n \<in> set (child (pool t q))"
      proof -
        have "q \<noteq> ?w" using q(2) by (auto simp: tree_node_def)
        then consider "q = cur" | "q = par" | "q \<noteq> cur" "q \<noteq> par" "q \<noteq> ?w" by blast
        then show ?thesis
        proof cases
          case 1
          then have "n \<notin> set (drop b ?C)" using 4 q(3) by (auto simp: moved_def)
          moreover have "n \<in> set (take b ?C) \<union> set (drop b ?C)"
            using q(4) 1 by (metis append_take_drop_id set_append)
          ultimately show ?thesis using 1 by (simp add: pt)
        next
          case 2
          then show ?thesis using q(4) setcs' by (simp add: pt)
        next
          case 3
          then show ?thesis using q(4) by (simp add: po)
        qed
      qed
      ultimately show ?thesis using up q(2,3) by blast
    qed
  qed
  then show ?thesis by (simp add: R'_def rk'_def)
qed

end
