(* ===== verification/Tree_Insert.thy ===== *)
theory Tree_Insert
  imports Tree_Split
begin

text \<open>
  \<open>overflow\<close> and \<open>tree_insert\<close> as a whole: from a tree that satisfies the invariant they
  return a tree that satisfies it, holding exactly one more record, with every node filled
  below M again, provided the pool has room for the nodes one insertion can take. The key
  range of the root and of every node the switch points to stays what it was.
\<close>

section \<open>Frames\<close>

definition frame :: "('k, 'v) tree \<Rightarrow> ('k, 'v) tree \<Rightarrow> bool" where
  "frame s t \<longleftrightarrow> nb_node s \<le> nb_node t
     \<and> (\<forall>n. isValue (pool t n) = isValue (pool s n) \<and> nval (pool t n) = nval (pool s n)
          \<and> isLoaded2Switch (pool t n) = isLoaded2Switch (pool s n)
          \<and> (isValue (pool s n) \<longrightarrow> child (pool t n) = child (pool s n) \<and> nkey (pool t n) = nkey (pool s n)))
     \<and> (\<forall>k v. holds t k v = holds s k v)"

lemma frame_refl: "frame s s"
  by (simp add: frame_def)

lemma frame_trans: "frame s t \<Longrightarrow> frame t u \<Longrightarrow> frame s u"
  by (auto simp: frame_def)

lemma frame_tree_node: "frame s t \<Longrightarrow> tree_node s n \<Longrightarrow> tree_node t n"
  by (auto simp: frame_def tree_node_def)

text \<open>The nodes whose addresses the switch may hold: the root and the loaded ones.\<close>

definition pinned :: "('k, 'v) tree \<Rightarrow> nat \<Rightarrow> bool" where
  "pinned s n \<longleftrightarrow> n = 0 \<or> isLoaded2Switch (pool s n)"

text \<open>
  The nodes that are not split in place when node \<open>c\<close> overflows, or when one key is inserted (then
  \<open>c\<close> is \<open>None\<close>): the pinned ones, which are copied, and those that do not become full.
\<close>

definition steady :: "nat \<Rightarrow> nat option \<Rightarrow> ('k, 'v) tree \<Rightarrow> nat \<Rightarrow> bool" where
  "steady M c s n \<longleftrightarrow> pinned s n \<or> length (nkey (pool s n)) < (if c = Some n then M else M - 1)"

lemma pinned_steady: "pinned s n \<Longrightarrow> steady M c s n"
  by (simp add: steady_def)

definition keeps_ranges :: "nat \<Rightarrow> nat option \<Rightarrow> ('k, 'v) tree \<Rightarrow> (nat \<Rightarrow> 'k range) \<Rightarrow> (nat \<Rightarrow> 'k range) \<Rightarrow> bool" where
  "keeps_ranges M c s R R' \<longleftrightarrow> (\<forall>n. tree_node s n \<longrightarrow> steady M c s n \<longrightarrow> R' n = R n)"

lemma keeps_ranges_trans:
  assumes "frame s t" "keeps_ranges M c s R R'" "keeps_ranges M d t R' R''"
    and "\<And>n. tree_node s n \<Longrightarrow> steady M c s n \<Longrightarrow> steady M d t n"
  shows "keeps_ranges M c s R R''"
  using assms frame_tree_node [OF assms(1)] by (auto simp: keeps_ranges_def)

section \<open>The depth of a node\<close>

text \<open>\<open>Node::depth()\<close>: the number of parents above a node.\<close>

fun depth_loop :: "nat \<Rightarrow> ('k, 'v) tree \<Rightarrow> nat option \<Rightarrow> nat \<Rightarrow> nat option" where
  "depth_loop 0 s p ret = None"
| "depth_loop (Suc fuel) s p ret = (case p of None \<Rightarrow> Some ret
     | Some q \<Rightarrow> depth_loop fuel s (parent (pool s q)) (ret + 1))"

definition node_depth :: "('k, 'v) tree \<Rightarrow> nat \<Rightarrow> nat option" where
  "node_depth s n = depth_loop (Suc (nb_node s)) s (parent (pool s n)) 0"

definition at_depth :: "('k, 'v) tree \<Rightarrow> nat \<Rightarrow> nat \<Rightarrow> bool" where
  "at_depth s n d \<longleftrightarrow> (\<exists>f. depth_loop f s (parent (pool s n)) 0 = Some d)"

lemma depth_loop_shift: "depth_loop f s p (r + c) = map_option (\<lambda>d. d + c) (depth_loop f s p r)"
proof (induction f arbitrary: p r)
  case (Suc f)
  then show ?case
    using Suc.IH [of _ "r + 1"] by (auto simp: add.commute add.left_commute split: option.split)
qed simp

lemma depth_loop_Suc: "depth_loop f s p (Suc 0) = map_option Suc (depth_loop f s p 0)"
  using depth_loop_shift [of f s p 0 1] by simp

lemma at_depth_root: "parent (pool s n) = None \<Longrightarrow> at_depth s n d \<longleftrightarrow> d = 0"
proof
  assume p: "parent (pool s n) = None"
  show "d = 0" if a: "at_depth s n d"
  proof -
    from a obtain f where "depth_loop f s None 0 = Some d" using p by (auto simp: at_depth_def)
    then show "d = 0" by (cases f) auto
  qed
  show "at_depth s n d" if "d = 0" using p that unfolding at_depth_def by (intro exI [of _ 1]) simp
qed

lemma at_depth_parent:
  assumes p: "parent (pool s n) = Some p"
  shows "at_depth s n d \<longleftrightarrow> (\<exists>e. d = Suc e \<and> at_depth s p e)"
proof
  assume "at_depth s n d"
  then obtain f where "depth_loop f s (Some p) 0 = Some d" using p by (auto simp: at_depth_def)
  then show "\<exists>e. d = Suc e \<and> at_depth s p e"
    by (cases f) (auto simp: depth_loop_Suc at_depth_def)
next
  assume "\<exists>e. d = Suc e \<and> at_depth s p e"
  then obtain e f where "d = Suc e" "depth_loop f s (parent (pool s p)) 0 = Some e"
    by (auto simp: at_depth_def)
  then show "at_depth s n d"
    unfolding at_depth_def using p by (intro exI [of _ "Suc f"]) (simp add: depth_loop_Suc)
qed

lemma at_depth_exists:
  assumes I: "inv_at v0 s R rk kv"
  shows "tree_node s n \<Longrightarrow> \<exists>d \<le> above s rk n. at_depth s n d"
proof (induction "above s rk n" arbitrary: n rule: less_induct)
  case less
  show ?case
  proof (cases "n = 0")
    case True
    then show ?thesis using at_depth_root inv_root(3) [OF I] by auto
  next
    case False
    obtain p i where p: "parent (pool s n) = Some p" "tree_node s p" "link s R rk p i n"
      by (rule inv_parentE [OF I less.prems False])
    have lt: "above s rk p < above s rk n"
      using p(2,3) by (intro above_less) (auto simp: link_def tree_node_def)
    from less.hyps [OF lt p(2)] obtain d where "d \<le> above s rk p" "at_depth s p d" by blast
    then show ?thesis using lt at_depth_parent [OF p(1)] by (intro exI [of _ "Suc d"]) auto
  qed
qed

lemma at_depth_mono:
  assumes I: "inv_at v0 s R rk kv"
    and eq: "\<And>m. tree_node s m \<Longrightarrow> rk m \<le> rk n \<Longrightarrow> parent (pool t m) = parent (pool s m)"
  shows "tree_node s n \<Longrightarrow> at_depth s n d \<Longrightarrow> at_depth t n d"
  using eq
proof (induction d arbitrary: n)
  case 0
  then have "parent (pool s n) = None"
    using at_depth_parent [of s n _ 0] by (cases "parent (pool s n)") auto
  with 0 show ?case by (simp add: at_depth_root)
next
  case (Suc d)
  then obtain p where p: "parent (pool s n) = Some p" "at_depth s p d"
    using at_depth_root [of s n] at_depth_parent [of s n _ "Suc d"] by (cases "parent (pool s n)") auto
  then have "n \<noteq> 0" using inv_root(3) [OF I] by (metis option.distinct(1))
  obtain i where q: "tree_node s p" "link s R rk p i n"
    by (rule inv_parentE [OF I Suc.prems(1) \<open>n \<noteq> 0\<close>]) (use p in auto)
  then have "rk p < rk n" by (simp add: link_def)
  then have "at_depth t p d" using Suc.prems(3) by (intro Suc.IH [OF q(1) p(2)]) force
  moreover have "parent (pool t n) = Some p" using Suc.prems(1,3) p(1) by simp
  ultimately show ?case using at_depth_parent by blast
qed

section \<open>One level of overflow\<close>

lemma holds_splitted:
  assumes I: "inv_at v0 s R rk kv" and cur: "tree_node s cur"
    and par: "tree_node s par" "\<not> isLeaf (pool s par)"
    and sp: "split_point s R cur sep a b"
    and t: "nb_node t = Suc (nb_node s)" "pool t = splitted s cur par p sep a b"
  shows "holds t k v \<longleftrightarrow> holds s k v"
proof -
  let ?w = "nb_node s" and ?K = "nkey (pool s cur)" and ?C = "child (pool s cur)"
  have cw: "cur < ?w" "par < ?w" using cur par by (simp_all add: tree_node_def)
  have un: "unused v0 (pool s ?w)" using inv_unused [OF I] by simp
  have b: "isLeaf (pool s cur) \<Longrightarrow> b = a" "a < length ?K" using sp by (auto simp: split_point_def)
  have tn: "tree_node t n \<longleftrightarrow> tree_node s n \<or> n = ?w" for n
    using un cw by (auto simp: tree_node_def t splitted_def Let_def unused_def less_Suc_eq)
  have lf: "isLeaf (pool t n) = (if n = ?w then isLeaf (pool s cur) else isLeaf (pool s n))" for n
    using cw by (auto simp: t splitted_def Let_def)
  have kc: "nkey (pool t cur) = take a ?K" "child (pool t cur) = take b ?C"
    "nkey (pool t ?w) = drop b ?K" "child (pool t ?w) = drop b ?C"
    using cw by (auto simp: t splitted_def Let_def)
  have po: "nkey (pool t n) = nkey (pool s n)" "child (pool t n) = child (pool s n)"
    if "n \<noteq> cur" "n \<noteq> ?w" "isLeaf (pool s n)" for n
    using that par(2) by (auto simp: t splitted_def Let_def)
  have nw: "\<not> tree_node s ?w" by (simp add: tree_node_def)
  show ?thesis
  proof
    assume "holds t k v"
    then obtain n i where n: "tree_node t n" "isLeaf (pool t n)" "i < length (nkey (pool t n))"
      "i < length (child (pool t n))" "nkey (pool t n) ! i = k" "child (pool t n) ! i = v"
      by (auto simp: holds_def)
    consider "n = cur" | "n = ?w" | "n \<noteq> cur" "n \<noteq> ?w" by blast
    then show "holds s k v"
    proof cases
      case 1
      with n cw cur show ?thesis unfolding holds_def
        by (intro exI [of _ cur] exI [of _ i]) (auto simp: lf kc)
    next
      case 2
      with n cw cur show ?thesis unfolding holds_def
        by (intro exI [of _ cur] exI [of _ "b + i"]) (auto simp: lf kc)
    next
      case 3
      with n show ?thesis unfolding holds_def
        by (intro exI [of _ n] exI [of _ i]) (auto simp: lf po tn)
    qed
  next
    assume "holds s k v"
    then obtain n i where n: "tree_node s n" "isLeaf (pool s n)" "i < length (nkey (pool s n))"
      "i < length (child (pool s n))" "nkey (pool s n) ! i = k" "child (pool s n) ! i = v"
      by (auto simp: holds_def)
    then have "n \<noteq> ?w" using nw by auto
    consider "n = cur" "i < a" | "n = cur" "a \<le> i" | "n \<noteq> cur" by linarith
    then show "holds t k v"
    proof cases
      case 1
      with n cw b show ?thesis unfolding holds_def
        by (intro exI [of _ cur] exI [of _ i]) (auto simp: lf kc tn)
    next
      case 2
      with n cw b show ?thesis unfolding holds_def
        by (intro exI [of _ ?w] exI [of _ "i - a"]) (auto simp: lf kc tn)
    next
      case 3
      with n \<open>n \<noteq> ?w\<close> show ?thesis unfolding holds_def
        by (intro exI [of _ n] exI [of _ i]) (auto simp: lf po tn)
    qed
  qed
qed

text \<open>The new node of a split, before anything has moved into it.\<close>

definition with_new :: "('k, 'v) tree \<Rightarrow> nat \<Rightarrow> ('k, 'v) tree" where
  "with_new s cur = upd_node (nb_node s)
     (\<lambda>n. n\<lparr>parent := parent (pool s cur), isLeaf := isLeaf (pool s cur)\<rparr>)
     (s\<lparr>nb_node := nb_node s + 1\<rparr>)"

lemma overflow_step_unloaded:
  assumes "cur \<noteq> 0" "\<not> isLoaded2Switch (pool s cur)" "nb_node s < mx"
    and "cur < nb_node s" "parent (pool s cur) = Some par"
  shows "overflow_step M mx s cur = (do {
     t \<leftarrow> (if isLeaf (pool s cur) then split_leaf M (with_new s cur) cur (nb_node s) par
          else split_inner M (with_new s cur) cur (nb_node s) par);
     Some (par, t) })"
  using assms
  by (auto simp: overflow_step_def alloc_def with_new_def upd_node_sel Let_def)

lemma overflow_step_loaded:
  assumes "cur = 0 \<or> isLoaded2Switch (pool s cur)" "overflow_copy mx s cur = Some (w, t)"
    and "w \<noteq> 0" "\<not> isLoaded2Switch (pool t w)"
  shows "overflow_step M mx s cur = overflow_step M mx t w"
  using assms by (auto simp: overflow_step_def)

lemma split_leaf_eq:
  assumes d: "cur \<noteq> w" "cur \<noteq> par" "par \<noteq> w" "w = nb_node s"
    and un: "nkey (pool s w) = []" "child (pool s w) = []"
    and lf: "isLeaf (pool s cur)" "parent (pool s cur) = Some par"
    and len: "length (child (pool s cur)) = length (nkey (pool s cur))"
    and M: "0 < M div 2" "M div 2 < length (nkey (pool s cur))"
    and p: "lower_bound (nkey (pool s par)) (nkey (pool s cur) ! (M div 2)) = p"
      "p \<le> length (nkey (pool s par))" "Suc p \<le> length (child (pool s par))"
  shows "\<exists>t. split_leaf M (with_new s cur) cur w par = Some t \<and> nb_node t = Suc (nb_node s)
    \<and> pool t = splitted s cur par p (nkey (pool s cur) ! (M div 2 - 1)) (M div 2) (M div 2)"
proof -
  let ?a = "M div 2" and ?K = "nkey (pool s cur)" and ?C = "child (pool s cur)"
  define s1 where "s1 = upd_node cur (\<lambda>n. n\<lparr>nkey := take ?a (nkey n)\<rparr>)
    (upd_node w (\<lambda>n. n\<lparr>nkey := drop ?a ?K @ nkey n\<rparr>) (with_new s cur))"
  define s2 where "s2 = upd_node cur (\<lambda>n. n\<lparr>child := take ?a (child n)\<rparr>)
    (upd_node w (\<lambda>n. n\<lparr>child := drop ?a ?C @ child n\<rparr>) s1)"
  define s3 where "s3 = upd_node par (\<lambda>n. n\<lparr>nkey := take p (nkey (pool s par)) @ ?K ! (?a - Suc 0) # drop p (nkey (pool s par))\<rparr>) s2"
  define t where "t = upd_node par
    (\<lambda>n. n\<lparr>child := take (Suc p) (child (pool s par)) @ w # drop (Suc p) (child (pool s par))\<rparr>) s3"
  have p2: "pool s2 cur = (pool s cur)\<lparr>nkey := take ?a ?K, child := take ?a ?C\<rparr>"
    "pool s2 w = (pool s w)\<lparr>parent := Some par, isLeaf := True, nkey := drop ?a ?K,
       child := drop ?a ?C\<rparr>"
    "n \<noteq> cur \<Longrightarrow> n \<noteq> w \<Longrightarrow> pool s2 n = pool s n" for n
    using d un lf by (simp_all add: s2_def s1_def with_new_def upd_node_sel)
  have par2: "pool s2 par = pool s par" "child (pool s3 par) = child (pool s par)"
    using d p2(3) by (simp_all add: s3_def upd_node_sel)
  have pt: "pool t n = splitted s cur par p (?K ! (?a - 1)) ?a ?a n" for n
    using d lf p2 par2 by (auto simp: t_def s3_def upd_node_sel splitted_def Let_def)
  have nb: "nb_node t = Suc (nb_node s)"
    by (simp add: t_def s3_def s2_def s1_def with_new_def upd_node_sel)
  have ne: "take ?a ?K \<noteq> []" using M by auto
  have last: "last (take ?a ?K) = ?K ! (?a - 1)"
    using M by (simp add: last_conv_nth [OF ne] min_absorb2)
  have k0: "nkey (pool (with_new s cur) cur) = ?K" and c1: "child (pool s1 cur) = ?C"
    and c1': "child (pool (upd_node w (\<lambda>n. n\<lparr>child := drop ?a ?C @ child n\<rparr>) s1) cur) = ?C"
    using d un by (simp_all add: s1_def with_new_def upd_node_sel)
  have k2: "nkey (pool s2 w) = drop ?a ?K" "nkey (pool s2 cur) = take ?a ?K"
    by (simp_all add: p2(1,2))
  have hd: "nth_opt (drop ?a ?K) 0 = Some (?K ! ?a)" using M(2) by (simp add: nth_opt_def)
  have "split_leaf M (with_new s cur) cur w par = Some t"
    using M len p ne
    by (simp add: split_leaf_def k0 Let_def s1_def [symmetric] c1 s2_def [symmetric]
        k2 hd last par2 vec_insert_Some s3_def [symmetric] t_def [symmetric]
        del: take_eq_Nil take_eq_Nil2)
  with pt nb show ?thesis by blast
qed

lemma split_inner_eq:
  assumes d: "cur \<noteq> w" "cur \<noteq> par" "par \<noteq> w" "w = nb_node s"
    and un: "nkey (pool s w) = []" "child (pool s w) = []"
    and lf: "\<not> isLeaf (pool s cur)" "parent (pool s cur) = Some par"
    and len: "length (child (pool s cur)) = Suc (length (nkey (pool s cur)))"
    and M: "Suc (M div 2) \<le> length (nkey (pool s cur))"
    and C: "w \<notin> set (child (pool s cur))" "cur \<notin> set (child (pool s cur))" "par \<notin> set (child (pool s cur))"
    and p: "lower_bound (nkey (pool s par)) (nkey (pool s cur) ! (M div 2)) = p"
      "p \<le> length (nkey (pool s par))" "Suc p \<le> length (child (pool s par))"
  shows "\<exists>t. split_inner M (with_new s cur) cur w par = Some t \<and> nb_node t = Suc (nb_node s)
    \<and> pool t = splitted s cur par p (nkey (pool s cur) ! (M div 2)) (M div 2) (Suc (M div 2))"
proof -
  have C2: "x \<notin> set (drop (Suc (M div 2)) (child (pool s cur)))"
    if "x \<notin> set (child (pool s cur))" for x
    using that by (auto dest: in_set_dropD)
  let ?a = "M div 2" and ?K = "nkey (pool s cur)" and ?C = "child (pool s cur)"
  define s1 where "s1 = upd_node cur (\<lambda>n. n\<lparr>nkey := take ?a (nkey n)\<rparr>)
    (upd_node w (\<lambda>n. n\<lparr>nkey := drop (Suc ?a) ?K @ nkey n\<rparr>) (with_new s cur))"
  define s2 where "s2 = upd_node cur (\<lambda>n. n\<lparr>child := take (Suc ?a) (child n)\<rparr>)
    (upd_node w (\<lambda>n. n\<lparr>child := drop (Suc ?a) ?C @ child n\<rparr>) s1)"
  define s3 where "s3 = set_parents w (drop (Suc ?a) ?C) s2"
  define s4 where "s4 = upd_node par (\<lambda>n. n\<lparr>nkey := take p (nkey (pool s par)) @ ?K ! ?a # drop p (nkey (pool s par))\<rparr>) s3"
  define t where "t = upd_node par
    (\<lambda>n. n\<lparr>child := take (Suc p) (child (pool s par)) @ w # drop (Suc p) (child (pool s par))\<rparr>) s4"
  have p2: "pool s2 cur = (pool s cur)\<lparr>nkey := take ?a ?K, child := take (Suc ?a) ?C\<rparr>"
    "pool s2 w = (pool s w)\<lparr>parent := Some par, isLeaf := False, nkey := drop (Suc ?a) ?K,
       child := drop (Suc ?a) ?C\<rparr>"
    "n \<noteq> cur \<Longrightarrow> n \<noteq> w \<Longrightarrow> pool s2 n = pool s n" for n
    using d un lf by (simp_all add: s2_def s1_def with_new_def upd_node_sel)
  have p3: "pool s3 n = (if n \<in> set (drop (Suc ?a) ?C) then (pool s2 n)\<lparr>parent := Some w\<rparr> else pool s2 n)" for n
    by (simp add: s3_def set_parents_sel)
  have par3: "pool s3 par = pool s par" "pool s4 par = (pool s par)\<lparr>nkey := take p (nkey (pool s par)) @ ?K ! ?a # drop p (nkey (pool s par))\<rparr>"
    using d C2 [OF C(3)] p2(3) by (simp_all add: p3 s4_def upd_node_sel)
  have pt: "pool t n = splitted s cur par p (?K ! ?a) ?a (Suc ?a) n" for n
    using d lf p2 C2 [OF C(1)] C2 [OF C(2)] C2 [OF C(3)] par3
    by (auto simp: t_def s4_def upd_node_sel p3 splitted_def Let_def)
  have nb: "nb_node t = Suc (nb_node s)"
    by (simp add: t_def s4_def s3_def s2_def s1_def with_new_def upd_node_sel set_parents_sel)
  have k0: "nkey (pool (with_new s cur) cur) = ?K" "nkey (pool (with_new s cur) par) = nkey (pool s par)"
    and k1: "nkey (pool (upd_node w (\<lambda>n. n\<lparr>nkey := drop (Suc ?a) ?K @ nkey n\<rparr>) (with_new s cur)) cur) = ?K"
    and c1: "child (pool s1 cur) = ?C"
    and c1': "child (pool (upd_node w (\<lambda>n. n\<lparr>child := drop (Suc ?a) ?C @ child n\<rparr>) s1) cur) = ?C"
    and c2: "child (pool s2 w) = drop (Suc ?a) ?C"
    using d un by (simp_all add: s2_def s1_def with_new_def upd_node_sel)
  have "split_inner M (with_new s cur) cur w par = Some t"
    using M len p
    by (simp add: split_inner_def k0 k1 nth_opt_Some Let_def c1 s1_def [symmetric] s2_def [symmetric]
        c2 s3_def [symmetric] par3 vec_insert_Some s4_def [symmetric] t_def [symmetric])
  with pt nb show ?thesis by blast
qed

end
