(* ===== verification/Tree_Overflow.thy ===== *)
theory Tree_Overflow
  imports Tree_Insert
begin

text \<open>
  \<open>overflow\<close> as a whole, by induction on the depth of the node it starts at: every level
  either splits the node and goes on with its parent, or copies an unmodifiable node, splits
  the copy and stops there.
\<close>

text \<open>Every node but \<open>c\<close> is below its limit.\<close>

definition filled :: "nat \<Rightarrow> ('k, 'v) tree \<Rightarrow> nat \<Rightarrow> bool" where
  "filled M s c \<longleftrightarrow> (\<forall>n. tree_node s n \<longrightarrow> n \<noteq> c \<longrightarrow> length (nkey (pool s n)) < M)"

definition all_filled :: "nat \<Rightarrow> ('k, 'v) tree \<Rightarrow> bool" where
  "all_filled M s \<longleftrightarrow> (\<forall>n. tree_node s n \<longrightarrow> length (nkey (pool s n)) < M)"

lemma filled_within: "filled M s c \<Longrightarrow> length (nkey (pool s c)) < M \<Longrightarrow> all_filled M s"
  by (auto simp: filled_def all_filled_def)

text \<open>Every node but \<open>c\<close> has a key, except a root that is a leaf.\<close>

definition busy_but :: "nat option \<Rightarrow> ('k, 'v) tree \<Rightarrow> bool" where
  "busy_but c s \<longleftrightarrow> (\<forall>n. tree_node s n \<longrightarrow> c \<noteq> Some n \<longrightarrow> n \<noteq> 0 \<or> \<not> isLeaf (pool s n)
     \<longrightarrow> nkey (pool s n) \<noteq> [])"

abbreviation busy :: "('k, 'v) tree \<Rightarrow> bool" where
  "busy \<equiv> busy_but None"

lemma busy_but_mono: "busy s \<Longrightarrow> busy_but c s"
  by (simp add: busy_but_def)

lemma frame_copied:
  assumes "inv_at v0 s R rk kv" "tree_node s cur" "nb_node t = Suc (nb_node s)" "pool t = copied s cur"
  shows "frame s t"
proof -
  have "unused v0 (pool s (nb_node s))" using inv_unused [OF assms(1)] by simp
  then show ?thesis
    using holds_copied [OF assms] assms(2) [unfolded tree_node_def]
    by (auto simp: frame_def assms(3,4) copied_def Let_def unused_def)
qed

lemma frame_splitted:
  assumes "inv_at v0 s R rk kv" "tree_node s cur" "tree_node s par" "\<not> isLeaf (pool s par)"
    "split_point s R cur sep a b" "nb_node t = Suc (nb_node s)" "pool t = splitted s cur par p sep a b"
  shows "frame s t"
proof -
  have "unused v0 (pool s (nb_node s))" using inv_unused [OF assms(1)] by simp
  then show ?thesis
    using holds_splitted [OF assms] assms(2,3) [unfolded tree_node_def]
    by (auto simp: frame_def assms(6,7) splitted_def Let_def unused_def)
qed

text \<open>Splitting a node that is neither the root nor loaded.\<close>

lemma split_step:
  assumes I: "inv_at v0 s R rk kv" and cur: "tree_node s cur" "cur \<noteq> 0"
    and ul: "\<not> isLoaded2Switch (pool s cur)" and mx: "nb_node s < mx"
    and M: "3 \<le> M" "M \<le> length (nkey (pool s cur))"
  obtains par p sep b t where "overflow_step M mx s cur = Some (par, t)"
    "parent (pool s cur) = Some par" "tree_node s par" "\<not> isLeaf (pool s par)"
    "p \<le> length (nkey (pool s par))" "child (pool s par) ! p = cur" "rk par < rk cur"
    "split_point s R cur sep (M div 2) b" "nb_node t = Suc (nb_node s)"
    "pool t = splitted s cur par p sep (M div 2) b"
proof -
  let ?w = "nb_node s" and ?K = "nkey (pool s cur)" and ?a = "M div 2"
  obtain par p where par: "parent (pool s cur) = Some par" "tree_node s par" "\<not> isLeaf (pool s par)"
    "p \<le> length (nkey (pool s par))" "child (pool s par) ! p = cur" "link s R rk par p cur"
    by (rule inv_parentE [OF I cur])
  have d: "cur \<noteq> ?w" "cur \<noteq> par" "par \<noteq> ?w"
    using cur par(2,6) by (auto simp: tree_node_def link_def)
  have un: "nkey (pool s ?w) = []" "child (pool s ?w) = []"
    using inv_unused [OF I, of ?w] by (auto simp: unused_def)
  have asK: "ascending ?K" by (rule inv_ascending [OF I cur(1)])
  have inK: "in_range (R cur) (?K ! i)" if "i < length ?K" for i
    using inv_in_range [OF I cur(1)] that by simp
  have a: "0 < ?a" "Suc ?a < length ?K" using M by auto
  have low: "in_range (R cur) k \<Longrightarrow> lower_bound (nkey (pool s par)) k = p" for k
    using lower_bound_in_sub_range [OF ascending_sorted [OF inv_ascending [OF I par(2)]] par(4)] par(6)
    by (simp add: link_def)
  have len: "Suc p \<le> length (child (pool s par))" using inv_child_length [OF I par(2,3)] par(4) by simp
  note st = overflow_step_unloaded [OF cur(2) ul mx _ par(1), of M]
  have cw: "cur < ?w" using cur by (simp add: tree_node_def)
  show thesis
  proof (cases "isLeaf (pool s cur)")
    case True
    obtain t where t: "split_leaf M (with_new s cur) cur ?w par = Some t" "nb_node t = Suc ?w"
      "pool t = splitted s cur par p (?K ! (?a - 1)) ?a ?a"
      using split_leaf_eq [OF d refl un True par(1) inv_leaf_length [OF I cur(1) True] a(1) _ low [OF inK] par(4) len] a
      by (metis Suc_lessD)
    have "?K ! (?a - 1) < ?K ! ?a" using a by (intro ascending_nth [OF asK]) auto
    then have "split_point s R cur (?K ! (?a - 1)) ?a ?a"
      using True a inK [of ?a] inK [of "?a - 1"]
      by (auto simp: split_point_def in_range_def split: option.splits)
    with that [of par t p _ ?a] st [OF cw] t True par show thesis by (auto simp: link_def)
  next
    case False
    have C: "?w \<notin> set (child (pool s cur))" "cur \<notin> set (child (pool s cur))" "par \<notin> set (child (pool s cur))"
      using inv_children_old [OF I cur(1)] False par(6) by (auto simp: link_def) (metis order_less_asym)+
    obtain t where t: "split_inner M (with_new s cur) cur ?w par = Some t" "nb_node t = Suc ?w"
      "pool t = splitted s cur par p (?K ! ?a) ?a (Suc ?a)"
      using split_inner_eq [OF d refl un False par(1) inv_child_length [OF I cur(1) False] _ C low [OF inK] par(4) len] a
      by (metis Suc_lessD less_imp_le_nat)
    have "?K ! ?a < ?K ! Suc ?a" using a by (intro ascending_nth [OF asK]) auto
    then have "split_point s R cur (?K ! ?a) ?a (Suc ?a)"
      using False a inK [of ?a] inK [of "Suc ?a"]
      by (auto simp: split_point_def in_range_def split: option.splits)
    with that [of par t p _ "Suc ?a"] st [OF cw] t False par show thesis by (auto simp: link_def)
  qed
qed

lemma splitted_lengths:
  assumes "cur < nb_node s" "par < nb_node s" "cur \<noteq> par" "p \<le> length (nkey (pool s par))"
    and "pool t = splitted s cur par p sep a b" "a \<le> length (nkey (pool s cur))"
  shows "length (nkey (pool t n)) = (if n = cur then a
    else if n = nb_node s then length (nkey (pool s cur)) - b
    else if n = par then Suc (length (nkey (pool s par))) else length (nkey (pool s n)))"
  using assms by (auto simp: splitted_def Let_def)

lemma filled_splitted:
  assumes "tree_node s cur" "tree_node s par" "cur \<noteq> par" "p \<le> length (nkey (pool s par))"
    and "nb_node t = Suc (nb_node s)" "pool t = splitted s cur par p sep (M div 2) b"
    and "filled M s cur" "length (nkey (pool s cur)) = M" "0 < b" "0 < M" "unused v0 (pool s (nb_node s))"
  shows "filled M t par" "length (nkey (pool t par)) = Suc (length (nkey (pool s par)))"
proof -
  have l: "length (nkey (pool t n)) = (if n = cur then M div 2
    else if n = nb_node s then M - b
    else if n = par then Suc (length (nkey (pool s par))) else length (nkey (pool s n)))" for n
    using splitted_lengths [of cur s par p t sep "M div 2" b n] assms by (auto simp: tree_node_def)
  have iv: "isValue (pool t n) = isValue (pool s n)" for n
    using assms(6,11) by (auto simp: splitted_def Let_def unused_def)
  have "tree_node s n" if "tree_node t n" "n \<noteq> nb_node s" for n
    using that assms(5) by (auto simp: tree_node_def iv)
  then show "filled M t par" "length (nkey (pool t par)) = Suc (length (nkey (pool s par)))"
    using assms(1,2,3,7,9,10) by (auto simp: filled_def l tree_node_def)
qed

lemma busy_splitted:
  assumes "tree_node s cur" "tree_node s par" "cur \<noteq> par" "p \<le> length (nkey (pool s par))"
    and "nb_node t = Suc (nb_node s)" "pool t = splitted s cur par p sep (M div 2) b"
    and "busy_but (Some par) s" "length (nkey (pool s cur)) = M" "b < M" "2 \<le> M" "unused v0 (pool s (nb_node s))"
  shows "busy t"
proof -
  have l: "length (nkey (pool t n)) = (if n = cur then M div 2
    else if n = nb_node s then M - b
    else if n = par then Suc (length (nkey (pool s par))) else length (nkey (pool s n)))" for n
    using splitted_lengths [of cur s par p t sep "M div 2" b n] assms by (auto simp: tree_node_def)
  have old: "tree_node s n \<and> (isLeaf (pool t n) \<longleftrightarrow> isLeaf (pool s n))"
    if "tree_node t n" "n \<noteq> nb_node s" for n
    using that assms(5,6,11) by (auto simp: splitted_def Let_def unused_def tree_node_def split: if_splits)
  have "0 < length (nkey (pool t n))" if n: "tree_node t n" "n \<noteq> 0 \<or> \<not> isLeaf (pool t n)" for n
  proof (cases "n = cur \<or> n = nb_node s \<or> n = par")
    case False
    then show ?thesis using old [OF n(1)] n(2) assms(7) l [of n] by (auto simp: busy_but_def)
  qed (use l assms(9,10) in auto)
  then show ?thesis by (auto simp: busy_but_def)
qed

lemma at_depth_splitted:
  assumes I: "inv_at v0 s R rk kv" and cur: "tree_node s cur"
    and par: "parent (pool s cur) = Some par" "tree_node s par" "rk par < rk cur"
    and t: "pool t = splitted s cur par p sep a b" and d: "at_depth s cur d"
  obtains e where "d = Suc e" "at_depth t par e"
proof -
  from d obtain e where e: "d = Suc e" "at_depth s par e" using at_depth_parent [OF par(1)] by blast
  have "parent (pool t m) = parent (pool s m)" if m: "tree_node s m" "rk m \<le> rk par" for m
  proof -
    have "m \<noteq> nb_node s" "m \<noteq> cur" using m par(3) by (auto simp: tree_node_def)
    moreover have "m \<notin> set (drop b (child (pool s cur)))" if l: "\<not> isLeaf (pool s cur)"
    proof
      assume "m \<in> set (drop b (child (pool s cur)))"
      then have "m \<in> set (child (pool s cur))" by (rule in_set_dropD)
      from inv_children_old(4) [OF I cur this l] show False using m(2) par(3) by (auto simp: link_def)
    qed
    ultimately show ?thesis by (auto simp: t splitted_def Let_def)
  qed
  from at_depth_mono [OF I this par(2) e(2)] e(1) that show thesis by blast
qed

section \<open>All levels\<close>

lemma overflow_inv:
  assumes "inv_at v0 s R rk kv" "tree_node s cur" "3 \<le> M" "filled M s cur"
    and "length (nkey (pool s cur)) \<le> M" "at_depth s cur d" "d + 2 \<le> fuel"
    and "nb_node s + d + 2 \<le> mx"
  shows "\<exists>t R' rk'. overflow M mx fuel s cur = Some t \<and> inv_at v0 t R' rk' kv \<and> frame s t
    \<and> keeps_ranges M (Some cur) s R R' \<and> all_filled M t \<and> nb_node t \<le> nb_node s + d + 2
    \<and> (busy s \<longrightarrow> busy t)"
  using assms
proof (induction d arbitrary: s cur R rk fuel rule: less_induct)
  case (less d)
  note I = less.prems(1) and cur = less.prems(2) and M = less.prems(3)
  let ?w = "nb_node s"
  have cw: "cur < ?w" using cur by (simp add: tree_node_def)
  obtain fuel' where f: "fuel = Suc fuel'" "d + 1 \<le> fuel'" using less.prems(7) by (cases fuel) auto
  have un: "unused v0 (pool s ?w)" using inv_unused [OF I] by simp
  consider "length (nkey (pool s cur)) < M" | "length (nkey (pool s cur)) = M" "pinned s cur"
    | "length (nkey (pool s cur)) = M" "\<not> pinned s cur"
    using less.prems(5) by linarith
  then show ?case
  proof cases
    case 1
    then have "overflow M mx fuel s cur = Some s" by (simp add: f)
    then show ?thesis
      using I less.prems(4) 1 by (auto intro!: frame_refl filled_within simp: keeps_ranges_def)
  next
    case 2
    have "?w < mx" using less.prems(8) by simp
    from overflow_copy_inv [OF I cur this] obtain t1 rk1 where
      t1: "overflow_copy mx s cur = Some (?w, t1)" "nb_node t1 = Suc ?w" "pool t1 = copied s cur"
      and I1: "inv_at v0 t1 (R(?w := R cur)) rk1 kv" by blast
    have w: "tree_node t1 ?w" "?w \<noteq> 0" "\<not> isLoaded2Switch (pool t1 ?w)" "nkey (pool t1 ?w) = nkey (pool s cur)"
      "nkey (pool t1 cur) = []" "parent (pool t1 ?w) = Some cur"
      using un cw by (auto simp: tree_node_def t1(2,3) copied_def Let_def unused_def)
    have st: "overflow_step M mx s cur = overflow_step M mx t1 ?w"
      using overflow_step_loaded [OF _ t1(1) w(2,3)] 2(2) by (simp add: pinned_def)
    have "nb_node t1 < mx" "M \<le> length (nkey (pool t1 ?w))"
      using less.prems(8) t1(2) w(4) 2(1) by simp_all
    then obtain par p sep b t where
      ov: "overflow_step M mx t1 ?w = Some (par, t)" and
      par: "parent (pool t1 ?w) = Some par" "tree_node t1 par" "\<not> isLeaf (pool t1 par)"
        "p \<le> length (nkey (pool t1 par))" "child (pool t1 par) ! p = ?w" "rk1 par < rk1 ?w"
      and sp: "split_point t1 (R(?w := R cur)) ?w sep (M div 2) b"
      and t: "nb_node t = Suc (nb_node t1)" "pool t = splitted t1 ?w par p sep (M div 2) b"
      by (rule split_step [OF I1 w(1,2,3) _ M])
    have pc: "par = cur" using par(1) w(6) by simp
    note I2 = split_inv [OF I1 w(1) par(2-5) sp t]
    have fr: "frame s t"
      using frame_trans [OF frame_copied [OF I cur t1(2,3)] frame_splitted [OF I1 w(1) par(2,3) sp t]] .
    have tn: "tree_node s n" if "tree_node t1 n" "n \<noteq> ?w" for n
      using that un by (auto simp: tree_node_def t1(2,3) copied_def Let_def unused_def split: if_splits)
    have "filled M t1 ?w"
      using less.prems(4) M tn w(5) by (auto simp: filled_def t1(3) copied_def Let_def)
    moreover have "0 < b" using sp by (auto simp: split_point_def split: if_splits)
    moreover have "?w \<noteq> par" using pc cw by simp
    ultimately have fl: "filled M t par" "length (nkey (pool t par)) = 1"
      using filled_splitted [OF w(1) par(2) _ par(4) t] M w(4,5) 2(1) pc inv_unused [OF I1, of "nb_node t1"]
      by simp_all
    obtain g where "fuel' = Suc g" using f by (cases fuel') auto
    then have "overflow M mx fuel s cur = Some t"
      using 2(1) st ov fl(2) M by (simp add: f)
    moreover have "all_filled M t" using filled_within [OF fl(1)] fl(2) M by simp
    moreover have "keeps_ranges M (Some cur) s R
      ((R(?w := R cur))(?w := (fst ((R(?w := R cur)) ?w), Some sep), nb_node t1 := (Some sep, snd ((R(?w := R cur)) ?w))))"
      by (auto simp: keeps_ranges_def tree_node_def t1(2))
    moreover have "nb_node t \<le> ?w + d + 2" by (simp add: t(1) t1(2))
    moreover have "busy t" if "busy s"
    proof -
      have "busy_but (Some par) t1"
        using that tn w(4) 2(1) M pc by (auto simp: busy_but_def t1(3) copied_def Let_def split: if_splits)
      moreover have "b < M" using sp w(4) 2(1) M by (auto simp: split_point_def split: if_splits)
      ultimately show ?thesis
        using busy_splitted [OF w(1) par(2) _ par(4) t] \<open>?w \<noteq> par\<close> w(4) 2(1) M
          inv_unused [OF I1, of "nb_node t1"] by simp
    qed
    ultimately show ?thesis using I2 fr by blast
  next
    case 3
    have mx: "?w < mx" using less.prems(8) by simp
    have np: "cur \<noteq> 0" "\<not> isLoaded2Switch (pool s cur)" using 3(2) by (auto simp: pinned_def)
    obtain par p sep b t where
      ov: "overflow_step M mx s cur = Some (par, t)" and
      par: "parent (pool s cur) = Some par" "tree_node s par" "\<not> isLeaf (pool s par)"
        "p \<le> length (nkey (pool s par))" "child (pool s par) ! p = cur" "rk par < rk cur"
      and sp: "split_point s R cur sep (M div 2) b"
      and t: "nb_node t = Suc ?w" "pool t = splitted s cur par p sep (M div 2) b"
      by (rule split_step [OF I cur np mx M]) (use 3(1) in auto)
    note I2 = split_inv [OF I cur par(2-5) sp t]
    have fr: "frame s t" by (rule frame_splitted [OF I cur par(2,3) sp t])
    obtain e where e: "d = Suc e" "at_depth t par e"
      by (rule at_depth_splitted [OF I cur par(1,2,6) t(2) less.prems(6)])
    have "0 < b" using sp by (auto simp: split_point_def split: if_splits)
    then have fl: "filled M t par" "length (nkey (pool t par)) = Suc (length (nkey (pool s par)))"
      using filled_splitted [OF cur par(2) _ par(4) t less.prems(4) 3(1)] M par(6) un by auto
    have "length (nkey (pool s par)) < M"
      using less.prems(4) par(2,6) by (auto simp: filled_def)
    with fl(2) have le: "length (nkey (pool t par)) \<le> M" by simp
    have kr: "keeps_ranges M (Some cur) s R (R(cur := (fst (R cur), Some sep), ?w := (Some sep, snd (R cur))))"
      using 3 by (auto simp: keeps_ranges_def tree_node_def steady_def)
    have sd: "steady M (Some par) t n" if "tree_node s n" "steady M (Some cur) s n" for n
    proof -
      have "n \<noteq> cur" "n \<noteq> ?w" using that 3 by (auto simp: steady_def tree_node_def)
      then show ?thesis
        using that(2) fl(2) fr by (auto simp: steady_def pinned_def frame_def t(2) splitted_def Let_def)
    qed
    have b: "e + 2 \<le> fuel'" "nb_node t + e + 2 \<le> mx" using f e t(1) less.prems(8) by simp_all
    obtain u R' rk' where u: "overflow M mx fuel' t par = Some u" "inv_at v0 u R' rk' kv" "frame t u"
      "keeps_ranges M (Some par) t (R(cur := (fst (R cur), Some sep), ?w := (Some sep, snd (R cur)))) R'"
      "all_filled M u" "nb_node u \<le> nb_node t + e + 2" "busy t \<longrightarrow> busy u"
      using less.IH [OF _ I2 frame_tree_node [OF fr par(2)] M fl(1) le e(2) b] e(1) by blast
    have "busy t" if "busy s"
    proof -
      have "b < M" using sp 3(1) M by (auto simp: split_point_def split: if_splits)
      then show ?thesis
        using busy_splitted [OF cur par(2) _ par(4) t busy_but_mono [OF that] 3(1)] par(6) M un by auto
    qed
    moreover have "overflow M mx fuel s cur = Some u" using 3(1) ov u(1) by (simp add: f)
    ultimately show ?thesis
      using u frame_trans [OF fr u(3)] keeps_ranges_trans [OF fr kr u(4) sd] e(1) t(1)
      by (intro exI [of _ u] exI [of _ R'] exI [of _ rk']) auto
  qed
qed

end
