(* ===== verification/Tree_Map.thy ===== *)
theory Tree_Map
  imports Tree_Overflow
begin

text \<open>
  The operations of the tree as operations on a finite map: what \<open>insert\<close>, \<open>lookup\<close> and
  \<open>update\<close> do to the records the tree holds, from which nodes a walk may start, and what
  happens with a key that is not there.
\<close>

section \<open>Putting a record into its leaf\<close>

definition put_in_leaf :: "('k, 'v) tree \<Rightarrow> nat \<Rightarrow> nat \<Rightarrow> 'k \<Rightarrow> 'v \<Rightarrow> nat \<Rightarrow> ('k, 'v) node" where
  "put_in_leaf s l p k x n = (let w = nb_node s; nd = pool s l in
     if n = l then nd\<lparr>nkey := take p (nkey nd) @ k # drop p (nkey nd),
       child := take p (child nd) @ w # drop p (child nd)\<rparr>
     else if n = w then (pool s w)\<lparr>isLeaf := False, isValue := True, parent := Some l, nval := x\<rparr>
     else pool s n)"

lemma put_in_leaf_sel:
  assumes t: "nb_node t = Suc (nb_node s)" "pool t = put_in_leaf s l p k x" and l: "l < nb_node s"
  shows "pool t l = (pool s l)\<lparr>nkey := take p (nkey (pool s l)) @ k # drop p (nkey (pool s l)),
      child := take p (child (pool s l)) @ nb_node s # drop p (child (pool s l))\<rparr>"
    and "pool t (nb_node s) = (pool s (nb_node s))\<lparr>isLeaf := False, isValue := True,
      parent := Some l, nval := x\<rparr>"
    and "n \<noteq> l \<Longrightarrow> n \<noteq> nb_node s \<Longrightarrow> pool t n = pool s n"
    and "tree_node t n \<longleftrightarrow> tree_node s n"
  using l by (auto simp: t put_in_leaf_def Let_def tree_node_def less_Suc_eq)

lemma put_in_leaf_leaf_ok:
  assumes ok: "leaf_ok s kv l" and p: "p \<le> length (nkey (pool s l))" and l: "l < nb_node s"
    and t: "nb_node t = Suc (nb_node s)" "pool t = put_in_leaf s l p k x" and lf: "\<not> isValue (pool s l)"
  shows "leaf_ok t (kv(nb_node s := k)) l"
proof -
  let ?w = "nb_node s" and ?ks = "nkey (pool s l)" and ?cs = "child (pool s l)"
  note sel = put_in_leaf_sel [OF t l]
  have len: "length ?cs = length ?ks" using ok by (simp add: leaf_ok_def)
  have old: "value_ok t (kv(?w := k)) (?cs ! i) (?ks ! i)" if "i < length ?ks" for i
  proof -
    have v: "value_ok s kv (?cs ! i) (?ks ! i)" using ok that by (simp add: leaf_ok_def)
    then have "?cs ! i \<noteq> ?w" "?cs ! i \<noteq> l" using lf by (auto simp: value_ok_def)
    with v show ?thesis by (auto simp: value_ok_def sel(3) t(1))
  qed
  have new: "value_ok t (kv(?w := k)) ?w k" by (simp add: value_ok_def sel(2) t(1))
  have "value_ok t (kv(?w := k)) ((take p ?cs @ ?w # drop p ?cs) ! i) ((take p ?ks @ k # drop p ?ks) ! i)"
    if "i < Suc (length ?ks)" for i
    using that p len old new by (simp only: nth_insert) (auto simp: nth_insert)
  then show ?thesis using p len by (simp add: leaf_ok_def sel(1))
qed

lemma put_in_leaf_inv:
  assumes I: "inv_at v0 s R rk kv" and l: "tree_node s l" "isLeaf (pool s l)" "in_range (R l) k"
    and p: "p = lower_bound (nkey (pool s l)) k" and fresh: "k \<notin> set (nkey (pool s l))"
    and t: "nb_node t = Suc (nb_node s)" "pool t = put_in_leaf s l p k x"
  shows "inv_at v0 t R rk (kv(nb_node s := k))"
proof -
  let ?w = "nb_node s" and ?ks = "nkey (pool s l)" and ?cs = "child (pool s l)"
  have lw: "l < ?w" "\<not> isValue (pool s l)" using l(1) by (simp_all add: tree_node_def)
  note sel = put_in_leaf_sel [OF t lw(1)]
  have as: "ascending ?ks" by (rule inv_ascending [OF I l(1)])
  note lb = lower_bound_spec [OF ascending_sorted [OF as], where v = k, folded p]
  have pl: "p \<le> length ?ks" by (rule lb(1))
  have "ascending (take p ?ks @ k # drop p ?ks)"
  proof (rule ascending_insert [OF as pl])
    show "p = 0 \<or> ?ks ! (p - 1) < k" using lb(2) [of "p - 1"] by (cases p) auto
    show "p = length ?ks \<or> k < ?ks ! p"
      using lb(3) [of p] pl fresh nth_mem [of p ?ks] by (cases "p = length ?ks") (auto simp: order_less_le)
  qed
  then have kl: "keys_ok t R l"
    using inv_in_range [OF I l(1)] l(3) set_insert [of p ?ks k] by (auto simp: keys_ok_def sel(1))
  have un: "unused v0 (pool s ?w)" using inv_unused [OF I] by simp
  have leaf: "isLeaf (pool t n) = isLeaf (pool s n)" and par: "parent (pool t n) = parent (pool s n)"
    if "tree_node s n" for n
    using that sel(1) sel(3) [of n] by (cases "n = l"; auto simp: tree_node_def)+
  have same: "pool t n = pool s n" if "tree_node s n" "n \<noteq> l" for n
    using that sel(3) by (auto simp: tree_node_def)
  have lk: "link t R rk n i c" if "link s R rk n i c" "tree_node s n" "n \<noteq> l" for n i c
    using that same par by (auto simp: link_def sel(4))
  show ?thesis
  proof (rule inv_atI)
    show "tree_node t 0" "R 0 = (None, None)" "parent (pool t 0) = None"
      using inv_root [OF I] par by (auto simp: sel(4))
    show "unused v0 (pool t n)" if "nb_node t \<le> n" for n
      using that inv_unused [OF I, of n] sel(3) [of n] lw(1) by (simp add: t(1))
    show "keys_ok t R n" if "tree_node t n" for n
      using that kl same [of n] inv_keys [OF I, of n] by (cases "n = l") (auto simp: sel(4) keys_ok_def)
    show "inner_ok t R rk n" if "tree_node t n" "\<not> isLeaf (pool t n)" for n
    proof -
      have n: "tree_node s n" "n \<noteq> l" "\<not> isLeaf (pool s n)" using that leaf l(2) by (auto simp: sel(4))
      then show ?thesis
        using inv_inner [OF I n(1,3)] lk [OF _ n(1,2)] by (auto simp: inner_ok_def same)
    qed
    show "leaf_ok t (kv(?w := k)) n" if "tree_node t n" "isLeaf (pool t n)" for n
    proof (cases "n = l")
      case True
      then show ?thesis
        using put_in_leaf_leaf_ok [OF inv_leaf [OF I l(1,2)] pl lw(1) t lw(2)] by simp
    next
      case False
      have n: "tree_node s n" "isLeaf (pool s n)" using that leaf by (auto simp: sel(4))
      have "value_ok t (kv(?w := k)) v k'" if "value_ok s kv v k'" for v k'
      proof -
        have "v \<noteq> l" "v \<noteq> ?w" using that lw by (auto simp: value_ok_def)
        with that show ?thesis by (auto simp: value_ok_def sel(3) t(1))
      qed
      then show ?thesis using inv_leaf [OF I n] same [OF n(1) False] by (simp add: leaf_ok_def)
    qed
    show "up_ok t n" if "tree_node t n" "n \<noteq> 0" for n
    proof -
      have n: "tree_node s n" using that by (simp add: sel(4))
      from inv_up [OF I n that(2)] obtain q where q: "parent (pool s n) = Some q" "tree_node s q"
        "\<not> isLeaf (pool s q)" "n \<in> set (child (pool s q))" by (auto simp: up_ok_def)
      moreover from q(3) l(2) have "q \<noteq> l" by auto
      ultimately show ?thesis using n same par by (auto simp: up_ok_def sel(4))
    qed
  qed
qed

lemma put_in_leaf_holds:
  assumes I: "inv_at v0 (s :: ('k::linorder, 'v) tree) R rk kv" and l: "tree_node s l" "isLeaf (pool s l)"
    and p: "p \<le> length (nkey (pool s l))"
    and t: "nb_node t = Suc (nb_node s)" "pool t = put_in_leaf s l p k x"
  shows "holds t k' v \<longleftrightarrow> holds s k' v \<or> k' = k \<and> v = nb_node s"
proof -
  let ?w = "nb_node s" and ?ks = "nkey (pool s l)" and ?cs = "child (pool s l)"
  have lw: "l < ?w" using l(1) by (simp add: tree_node_def)
  note sel = put_in_leaf_sel [OF t lw]
  have len: "length ?cs = length ?ks" by (rule inv_leaf_length [OF I l])
  define slot where "slot m n i k' v \<longleftrightarrow> tree_node s n \<and> isLeaf (pool m n) \<and> i < length (nkey (pool m n))
    \<and> i < length (child (pool m n)) \<and> nkey (pool m n) ! i = k' \<and> child (pool m n) ! i = v"
    for m :: "('k, 'v) tree" and n i k' v
  have h: "holds s k' v \<longleftrightarrow> (\<exists>n i. slot s n i k' v)" "holds t k' v \<longleftrightarrow> (\<exists>n i. slot t n i k' v)" for k' v
    by (simp_all add: holds_def slot_def sel(4))
  have o: "slot t n i k' v = slot s n i k' v" if "n \<noteq> l" for n i k' v
    using that sel(3) by (auto simp: slot_def tree_node_def)
  have a: "slot t l i k' v \<longleftrightarrow> (if i < p then slot s l i k' v else if i = p then k' = k \<and> v = ?w
      else slot s l (i - 1) k' v)" for i k' v
    using p len l by (auto simp: slot_def sel(1) nth_insert)
  have new: "slot t l p k ?w" using a by simp
  have old: "\<exists>j. slot t l j k' v" if "slot s l i k' v" for i
    using that a [of i k' v] a [of "Suc i" k' v] by (cases "i < p") (auto intro: exI [of _ i] exI [of _ "Suc i"])
  show ?thesis
    unfolding h using o a new old by metis
qed

section \<open>The depth function\<close>

lemma at_depth_loop: "at_depth s n d \<Longrightarrow> d < f \<Longrightarrow> depth_loop f s (parent (pool s n)) 0 = Some d"
proof (induction d arbitrary: n f)
  case 0
  then have "parent (pool s n) = None"
    using at_depth_parent [of s n _ 0] by (cases "parent (pool s n)") auto
  then show ?case using 0 by (cases f) auto
next
  case (Suc d)
  then obtain p where p: "parent (pool s n) = Some p" "at_depth s p d"
    using at_depth_root [of s n] at_depth_parent [of s n _ "Suc d"] by (cases "parent (pool s n)") auto
  obtain g where "f = Suc g" "d < g" using Suc.prems(2) by (cases f) auto
  with Suc.IH [OF p(2)] p(1) show ?case by (simp add: depth_loop_Suc)
qed

lemma node_depth_total:
  assumes I: "inv_at v0 s R rk kv" and n: "tree_node s n"
  obtains d where "node_depth s n = Some d" "at_depth s n d" "d < nb_node s"
proof -
  obtain d where d: "d \<le> above s rk n" "at_depth s n d" using at_depth_exists [OF I n] by blast
  moreover have "above s rk n < nb_node s" using above_bound [of n s rk] n by (simp add: tree_node_def)
  ultimately show thesis using that [of d] at_depth_loop [OF d(2)] by (simp add: node_depth_def del: depth_loop.simps)
qed

section \<open>Insertion\<close>

text \<open>The nodes one insertion may take: its value node, one per level, and two for a copied root.\<close>

definition insert_room :: "nat \<Rightarrow> ('k::linorder, 'v) tree \<Rightarrow> 'k \<Rightarrow> bool" where
  "insert_room mx s k = (case leaf_of s 0 k of None \<Rightarrow> False
     | Some l \<Rightarrow> (case node_depth s l of None \<Rightarrow> False | Some d \<Rightarrow> nb_node s + d + 3 \<le> mx))"

text \<open>Every value node holds the record of some key.\<close>

definition all_held :: "('k, 'v) tree \<Rightarrow> bool" where
  "all_held s \<longleftrightarrow> (\<forall>v < nb_node s. isValue (pool s v) \<longrightarrow> (\<exists>k. holds s k v))"

text \<open>Value nodes have no keys and no children.\<close>

definition childless :: "('k, 'v) tree \<Rightarrow> bool" where
  "childless s \<longleftrightarrow> (\<forall>v. isValue (pool s v) \<longrightarrow> child (pool s v) = [] \<and> nkey (pool s v) = [])"

text \<open>The well-formed trees: what every operation keeps.\<close>

definition tree_wf :: "nat \<Rightarrow> ('k::linorder, fields) tree \<Rightarrow> bool" where
  "tree_wf M s \<longleftrightarrow> tree_inv [] s \<and> all_filled M s \<and> busy s \<and> all_held s
     \<and> childless s"

lemma tree_insert_unfold:
  assumes I: "inv_at [] s R rk kv" and l: "leaf_of s 0 k = Some l" "tree_node s l"
    and p: "p = lower_bound (nkey (pool s l)) k" "p \<le> length (nkey (pool s l))"
      "p \<le> length (child (pool s l))" and mx: "nb_node s < mx"
  obtains t where "tree_insert M mx s k v = overflow M mx (Suc (nb_node t)) t l"
    "nb_node t = Suc (nb_node s)" "pool t = put_in_leaf s l p k (update_field_table v [])"
proof -
  let ?w = "nb_node s"
  define s1 where "s1 = s\<lparr>nb_node := Suc ?w\<rparr>"
  have S: "same_shape (s\<lparr>nb_node := Suc ?w\<rparr>) s1" by (simp add: s1_def same_shape_def)
  have nc: "next_child s1 n k = next_child s n k" for n by (simp add: next_child_def s1_def)
  have fl: "find_leaf f s1 n k = find_leaf f s n k" for f n
    by (induction f arbitrary: n) (simp_all add: nc, simp add: s1_def)
  have fl1: "find_leaf (nb_node s1) s1 0 k = Some l"
    using l(1) find_leaf_mono [of ?w s 0 k l "Suc ?w"] unfolding fl by (simp add: leaf_of_def s1_def del: find_leaf.simps)
  define s2 where "s2 = upd_node l (\<lambda>n. n\<lparr>child := take p (child (pool s l)) @ ?w # drop p (child (pool s l))\<rparr>)
    (upd_node l (\<lambda>n. n\<lparr>nkey := take p (nkey (pool s l)) @ k # drop p (nkey (pool s l))\<rparr>) s1)"
  have ik: "insert_key s1 l ?w k = Some s2"
    using p by (simp add: insert_key_def Let_def s1_def upd_node_sel vec_insert_Some s2_def)
  define t where "t = upd_node ?w (\<lambda>n. n\<lparr>isLeaf := False, isValue := True, parent := Some l,
       nval := update_field_table v (nval n)\<rparr>) s2"
  have "nval (pool s ?w) = []" using inv_unused [OF I, of ?w] by (simp add: unused_def)
  moreover have "l \<noteq> ?w" using l(2) by (simp add: tree_node_def)
  ultimately have "pool t = put_in_leaf s l p k (update_field_table v [])"
    by (auto simp: fun_eq_iff t_def s2_def s1_def upd_node_sel put_in_leaf_def Let_def)
  moreover have "nb_node t = Suc ?w" by (simp add: t_def s2_def s1_def upd_node_sel)
  moreover have "nb_node s2 = Suc ?w" by (simp add: s2_def s1_def upd_node_sel)
  moreover have "tree_insert M mx s k v = overflow M mx (Suc (nb_node t)) t l"
    using mx fl1 ik by (simp add: tree_insert_def alloc_def s1_def [symmetric] t_def [symmetric] Let_def)
  ultimately show thesis using that by blast
qed

lemma tree_insert_inv:
  assumes I: "inv_at [] s R rk kv" and fl: "all_filled M s" and M: "3 \<le> M"
    and fresh: "contents s k = None" and room: "insert_room mx s k"
  obtains t R' rk' kv' where "tree_insert M mx s k v = Some t" "inv_at [] t R' rk' kv'"
    "all_filled M t" "contents t = (contents s)(k \<mapsto> update_field_table v [])"
    "keeps_ranges M None s R R'" "\<And>n. tree_node s n \<Longrightarrow> tree_node t n"
    "\<And>n. pinned t n = pinned s n" "busy s \<Longrightarrow> busy t" "all_held s \<Longrightarrow> all_held t"
    "childless s \<Longrightarrow> childless t" "\<And>k' v'. holds s k' v' \<Longrightarrow> holds t k' v'"
proof -
  let ?w = "nb_node s" and ?x = "update_field_table v []"
  obtain l d where l: "leaf_of s 0 k = Some l" "node_depth s l = Some d" "?w + d + 3 \<le> mx"
    using room by (auto simp: insert_room_def split: option.splits)
  have "in_range (R 0) k" by (simp add: inv_root(2) [OF I])
  then obtain l' where "leaf_of s 0 k = Some l'" "tree_node s l'" "isLeaf (pool s l')" "in_range (R l') k"
    using leaf_of_total [OF I inv_root(1) [OF I]] by blast
  with l(1) have L: "tree_node s l" "isLeaf (pool s l)" "in_range (R l) k" by auto
  define p where "p = lower_bound (nkey (pool s l)) k"
  have lw: "l < ?w" using L(1) by (simp add: tree_node_def)
  have pl: "p \<le> length (nkey (pool s l))"
    unfolding p_def by (rule lower_bound_spec(1) [OF ascending_sorted [OF inv_ascending [OF I L(1)]]])
  have len: "length (child (pool s l)) = length (nkey (pool s l))" by (rule inv_leaf_length [OF I L(1,2)])
  obtain t where t: "tree_insert M mx s k v = overflow M mx (Suc (nb_node t)) t l"
    "nb_node t = Suc ?w" "pool t = put_in_leaf s l p k ?x"
    by (rule tree_insert_unfold [OF I l(1) L(1) p_def pl, of mx M v]) (use pl len l(3) in auto)
  have nk: "k \<notin> set (nkey (pool s l))"
  proof
    assume "k \<in> set (nkey (pool s l))"
    then obtain i where "i < length (nkey (pool s l))" "nkey (pool s l) ! i = k" by (auto simp: in_set_conv_nth)
    then have "holds s k (child (pool s l) ! i)"
      unfolding holds_def using L len by (intro exI [of _ l] exI [of _ i]) auto
    with fresh contents_None_iff [OF I] show False by blast
  qed
  note I1 = put_in_leaf_inv [OF I L p_def nk t(2,3)]
  note sel = put_in_leaf_sel [OF t(2,3) lw]
  note hold1 = put_in_leaf_holds [OF I L(1,2) pl t(2,3)]
  obtain d' where d': "node_depth s l = Some d'" "at_depth s l d'" "d' < ?w"
    by (rule node_depth_total [OF I L(1)])
  with l(2) have d: "at_depth s l d" "d < ?w" by auto
  have "parent (pool t m) = parent (pool s m)" if "tree_node s m" for m
    using that sel(1) sel(3) [of m] by (cases "m = l") (auto simp: tree_node_def)
  then have dt: "at_depth t l d" using at_depth_mono [OF I _ L(1) d(1)] by blast
  have lent: "length (nkey (pool t l)) = Suc (length (nkey (pool s l)))" using pl by (simp add: sel(1))
  have "filled M t l"
    using fl sel(3) by (auto simp: filled_def all_filled_def sel(4)) (metis tree_node_def less_irrefl)
  moreover have "length (nkey (pool t l)) \<le> M" using fl L(1) by (auto simp: all_filled_def lent Suc_le_eq)
  ultimately obtain u R' rk' where u: "overflow M mx (Suc (nb_node t)) t l = Some u"
    "inv_at [] u R' rk' (kv(?w := k))" "frame t u" "keeps_ranges M (Some l) t R R'" "all_filled M u" "busy t \<longrightarrow> busy u"
    using overflow_inv [OF I1 _ M _ _ dt, of "Suc (nb_node t)" mx] L(1) sel(4) d(2) t(2) l(3) by auto
  have ht: "holds u k' v' \<longleftrightarrow> holds s k' v' \<or> k' = k \<and> v' = ?w" for k' v'
    using u(3) hold1 by (simp add: frame_def)
  have nv: "nval (pool u v') = (if v' = ?w then ?x else nval (pool s v'))" for v'
    using u(3) sel(1,2) sel(3) [of v'] lw by (cases "v' = l"; cases "v' = ?w") (auto simp: frame_def)
  have hs: "v' \<noteq> ?w" if "holds s k' v'" for k' v'
    using holds_value [OF I that] by (auto simp: value_ok_def)
  have nh: "\<not> holds s k v'" for v' using fresh contents_None_iff [OF I] by blast
  have C: "contents u k' = Some y \<longleftrightarrow> ((contents s)(k \<mapsto> ?x)) k' = Some y" for k' y
  proof (cases "k' = k")
    case True
    then show ?thesis unfolding contents_iff [OF u(2)] ht using nh nv by auto
  next
    case False
    then have "(\<exists>v'. holds u k' v' \<and> nval (pool u v') = y) \<longleftrightarrow> (\<exists>v'. holds s k' v' \<and> nval (pool s v') = y)"
      unfolding ht nv using hs by metis
    then show ?thesis using False contents_iff [OF u(2)] contents_iff [OF I] by simp
  qed
  have "contents u = (contents s)(k \<mapsto> ?x)"
    by (rule ext) (metis C not_None_eq)
  moreover have pin: "pinned t n = pinned s n" for n
    using sel(1,2) sel(3) [of n] by (cases "n = l"; cases "n = ?w") (auto simp: pinned_def)
  moreover have "pinned u n = pinned t n" for n using u(3) by (simp add: pinned_def frame_def)
  moreover have "keeps_ranges M None s R R'"
  proof -
    have "steady M (Some l) t n" if "tree_node s n" "steady M None s n" for n
      using that pin [of n] lent sel(3) [of n] by (cases "n = l") (auto simp: steady_def tree_node_def)
    then show ?thesis using u(4) sel(4) by (auto simp: keeps_ranges_def)
  qed
  moreover have "tree_node u n" if "tree_node s n" for n
    using that frame_tree_node [OF u(3)] sel(4) by blast
  moreover have "busy u" if "busy s"
  proof -
    have "busy t"
      using that sel(1) sel(3) L(2) unfolding busy_but_def
      by (metis lent list.size(3) nat.distinct(1) sel(4) tree_node_def order_less_irrefl)
    then show ?thesis using u(6) by simp
  qed
  moreover have "childless u" if c: "childless s"
    unfolding childless_def
  proof (intro allI impI)
    fix v' assume "isValue (pool u v')"
    then have v': "isValue (pool t v')" "child (pool u v') = child (pool t v')"
      "nkey (pool u v') = nkey (pool t v')" using u(3) by (auto simp: frame_def)
    have "child (pool s ?w) = []" "nkey (pool s ?w) = []"
      using inv_unused [OF I, of ?w] by (simp_all add: unused_def)
    then have "child (pool t v') = [] \<and> nkey (pool t v') = []"
      using v'(1) c lw L(1) sel(1,2) sel(3) [of v'] unfolding childless_def
      by (cases "v' = l"; cases "v' = ?w") (auto simp: tree_node_def)
    then show "child (pool u v') = [] \<and> nkey (pool u v') = []" using v'(2,3) by simp
  qed
  moreover have "all_held u" if a: "all_held s"
    unfolding all_held_def
  proof (intro allI impI)
    fix v' assume v': "v' < nb_node u" "isValue (pool u v')"
    have iv: "isValue (pool u v') = isValue (pool t v')" using u(3) by (simp add: frame_def)
    show "\<exists>k. holds u k v'"
    proof (cases "v' = ?w")
      case False
      have "isValue (pool t v')" using v'(2) iv by simp
      then have "isValue (pool s v')" using False sel(1) sel(3) [of v'] by (cases "v' = l") auto
      moreover from this have "v' < ?w" using inv_unused [OF I, of v'] by (force simp: unused_def)
      ultimately show ?thesis using a ht by (auto simp: all_held_def)
    qed (use ht in auto)
  qed
  moreover have "\<And>k' v'. holds s k' v' \<Longrightarrow> holds u k' v'" using ht by simp
  ultimately show thesis using that [of u R' rk' "kv(?w := k)"] u(1,2,5) t(1) by simp
qed

text \<open>
  A node that is not split in place stays on the way to every key it was on the way to, so a walk
  that goes on there still ends at the right record.
\<close>

lemma tree_insert_steady:
  assumes "tree_wf M s" "3 \<le> M" "contents s k = None" "insert_room mx s k"
  obtains t where "tree_insert M mx s k v = Some t" "tree_wf M t"
    "contents t = (contents s)(k \<mapsto> update_field_table v [])" "\<And>n. pinned t n = pinned s n"
    "\<And>n k'. steady M None s n \<Longrightarrow> n \<in> set (route s k') \<Longrightarrow> n \<in> set (route t k')"
    "\<And>k' v'. holds s k' v' \<Longrightarrow> holds t k' v'"
proof -
  from assms(1) obtain R rk kv where I: "inv_at [] s R rk kv" and fl: "all_filled M s" "busy s" "all_held s" "childless s"
    by (auto simp: tree_wf_def tree_inv_def)
  obtain t R' rk' kv' where t: "tree_insert M mx s k v = Some t" "inv_at [] t R' rk' kv'" "all_filled M t"
    "contents t = (contents s)(k \<mapsto> update_field_table v [])" "keeps_ranges M None s R R'"
    "\<And>n. tree_node s n \<Longrightarrow> tree_node t n" "\<And>n. pinned t n = pinned s n" "busy t" "all_held t" "childless t"
    "\<And>k' v'. holds s k' v' \<Longrightarrow> holds t k' v'"
    using tree_insert_inv [OF I fl(1) assms(2-4)] fl(2-4) by metis
  have "n \<in> set (route t k')" if "steady M None s n" "n \<in> set (route s k')" for n k'
    using that t(5,6,7) unfolding on_route_iff [OF I] on_route_iff [OF t(2)]
    by (auto simp: keeps_ranges_def)
  moreover have "tree_wf M t" using t(2,3,8-10) by (auto simp: tree_wf_def tree_inv_def)
  ultimately show thesis using that t(1,4,7,11) by blast
qed

lemma tree_insert_step:
  assumes "tree_wf M s" "3 \<le> M" "contents s k = None" "insert_room mx s k"
  obtains t where "tree_insert M mx s k v = Some t" "tree_wf M t"
    "contents t = (contents s)(k \<mapsto> update_field_table v [])"
    "\<And>n. pinned t n = pinned s n" "\<And>n k'. pinned s n \<Longrightarrow> n \<in> set (route s k') \<Longrightarrow> n \<in> set (route t k')"
  using tree_insert_steady [OF assms, of v thesis] pinned_steady [of s] by metis

end
