(* ===== verification/Tree_Store.thy ===== *)
theory Tree_Store
  imports Tree_Map
begin

text \<open>
  The contract of the tree towards its clients, the handlers of backend.cc: a store of
  records that may be entered at the root or at any node address the switch holds. The locale
  states it; the interpretation at the end proves that the pool tree satisfies it.
\<close>

section \<open>Lookup and update\<close>

text \<open>An address from which a walk for a key works, and an address the switch may hold.\<close>

definition reach :: "nat \<Rightarrow> nat \<Rightarrow> ('k::linorder, 'v) tree \<Rightarrow> 64 word \<Rightarrow> 'k \<Rightarrow> bool" where
  "reach mx sz s bias k = (case node_at mx sz bias of None \<Rightarrow> False | Some n \<Rightarrow> n \<in> set (route s k))"

definition held_by_switch :: "nat \<Rightarrow> nat \<Rightarrow> ('k, 'v) tree \<Rightarrow> 64 word \<Rightarrow> bool" where
  "held_by_switch mx sz s bias = (case node_at mx sz bias of None \<Rightarrow> False | Some n \<Rightarrow> pinned s n)"

lemma node_at_root: "0 < mx \<Longrightarrow> node_at mx sz 0 = Some 0"
  by (simp add: node_at_def)

lemma root_on_route: "tree_inv v0 s \<Longrightarrow> 0 \<in> set (route s k)"
  using on_route_iff inv_root by (fastforce simp: tree_inv_def)

lemma reach_root: "0 < mx \<Longrightarrow> tree_inv v0 s \<Longrightarrow> reach mx sz s 0 k"
  by (simp add: reach_def node_at_root root_on_route)

lemma same_shape_route: "same_shape s t \<Longrightarrow> route t k = route s k"
proof -
  assume S: "same_shape s t"
  have "path f t n k = path f s n k" for f n
    using S same_shapeD(3) [OF S] by (induction f arbitrary: n) (auto simp: same_shape_def split: option.split)
  then show ?thesis using S by (simp add: route_def same_shape_def)
qed

lemma same_shape_reach: "same_shape s t \<Longrightarrow> reach mx sz t b k = reach mx sz s b k"
  by (simp add: reach_def same_shape_route split: option.split)

lemma all_filled_shape: "same_shape s t \<Longrightarrow> all_filled M t = all_filled M s"
  by (simp add: all_filled_def tree_node_def same_shape_def)

lemma busy_shape: "same_shape s t \<Longrightarrow> busy t = busy s"
  by (simp add: busy_but_def tree_node_def same_shape_def)

lemma all_held_shape:
  "same_shape s t \<Longrightarrow> all_held t = all_held (s :: ('k::linorder, 'v) tree)"
proof -
  assume S: "same_shape s t"
  note same_shapeD(2) [OF S, simp]
  show ?thesis using S by (simp add: all_held_def same_shape_def)
qed

lemma childless_shape: "same_shape s t \<Longrightarrow> childless t = childless s"
  by (simp add: childless_def same_shape_def)

lemma insert_room_shape: "same_shape s t \<Longrightarrow> insert_room mx t k = insert_room mx s k"
proof -
  assume S: "same_shape s t"
  have "depth_loop f t p r = depth_loop f s p r" for f p r
    using S by (induction f arbitrary: p r) (auto simp: same_shape_def split: option.split)
  then show ?thesis
    using S same_shapeD(5) [OF S]
    by (simp add: insert_room_def node_depth_def same_shape_def del: depth_loop.simps split: option.split)
qed

lemma walk_nb_query: "walk f c s n k = Some (t, v) \<Longrightarrow> nb_query t = nb_query s"
proof (induction f arbitrary: s n)
  case (Suc f)
  show ?case
  proof (cases "isValue (pool s n)")
    case False
    let ?s = "if c then s\<lparr>nb_access := nb_access s + 1\<rparr> else s"
    from Suc.prems False obtain d where
      "walk f c (upd_node d (\<lambda>n. n\<lparr>access_count := access_count n + 1\<rparr>) ?s) d k = Some (t, v)"
      by (auto simp: Let_def split: bind_splits)
    from Suc.IH [OF this] show ?thesis by (simp add: upd_node_def)
  qed (use Suc.prems in simp)
qed simp

text \<open>The lookup of a key from any node on its way, whether the key is there or not.\<close>

lemma tree_lookup_cases:
  assumes I: "inv_at v0 s R rk kv" and n: "node_at mx sz bias = Some n" "n \<in> set (route s k)"
  shows "case value_of s k of None \<Rightarrow> tree_lookup mx sz s k bias = None
    | Some v \<Rightarrow> \<exists>t. tree_lookup mx sz s k bias = Some (t, nval (pool s v)) \<and> counts_only s t
        \<and> nb_query t = nb_query s + 1"
proof -
  define s1 where "s1 = upd_node n (\<lambda>n. n\<lparr>access_count := access_count n + 1\<rparr>) (s\<lparr>nb_query := nb_query s + 1\<rparr>)"
  have c1: "counts_only s s1"
    unfolding s1_def by (rule counts_only_trans [OF counts_only_globals(2) counts_only_node])
  note I1 = inv_counts_only [OF I c1]
  have r: "tree_node s1 n" "in_range (R n) k"
    using n(2) on_route_iff [OF I] same_shapeD(1) [OF counts_only_shape [OF c1]] by auto
  have v1: "value_of s1 k = value_of s k"
    using same_shapeD(3,5) [OF counts_only_shape [OF c1]] by (simp add: value_of_def)
  have lk: "tree_lookup mx sz s k bias
    = do { (t, cur) \<leftarrow> walk (Suc (nb_node s1)) True s1 n k; Some (t, nval (pool t cur)) }"
    by (simp add: tree_lookup_def n(1) s1_def Let_def del: walk.simps)
  show ?thesis
  proof (cases "value_of s k")
    case None
    then show ?thesis using walk_value_of [OF I1 r, of True] by (simp add: v1 lk del: walk.simps)
  next
    case (Some v)
    then obtain t where t: "walk (Suc (nb_node s1)) True s1 n k = Some (t, v)" "counts_only s1 t"
      using walk_value_of [OF I1 r, of True] by (auto simp: v1 simp del: walk.simps)
    have "nb_query t = nb_query s + 1" using walk_nb_query [OF t(1)] by (simp add: s1_def upd_node_def)
    moreover have "nval (pool t v) = nval (pool s v)"
      using counts_only_pool(5) [OF counts_only_trans [OF c1 t(2)]] .
    ultimately show ?thesis
      using t counts_only_trans [OF c1 t(2)] by (simp add: Some lk del: walk.simps)
  qed
qed

lemma tree_lookup_present:
  assumes I: "inv_at v0 s R rk kv" and n: "reach mx sz s bias k" and x: "contents s k = Some x"
  obtains t where "tree_lookup mx sz s k bias = Some (t, x)" "counts_only s t" "nb_query t = nb_query s + 1"
proof -
  obtain m where m: "node_at mx sz bias = Some m" "m \<in> set (route s k)"
    using n by (auto simp: reach_def split: option.splits)
  obtain v where "holds s k v" "nval (pool s v) = x" using x contents_iff [OF I] by blast
  with tree_lookup_cases [OF I m] value_of_holds [OF I] that show thesis by fastforce
qed

text \<open>\<open>update\<close> of a key that is there.\<close>

lemma tree_update_present:
  assumes I: "inv_at [] s R rk kv" and n: "reach mx sz s bias k" and x: "contents s k = Some x"
  obtains t where "tree_update mx sz s k u bias = Some t" "same_shape s t" "inv_at [] t R rk kv"
    "contents t = (contents s)(k \<mapsto> update_field_table u x)"
    "\<And>n. isLoaded2Switch (pool t n) = isLoaded2Switch (pool s n)"
proof -
  obtain m where m: "node_at mx sz bias = Some m" "m \<in> set (route s k)"
    using n by (auto simp: reach_def split: option.splits)
  obtain v where v: "holds s k v" "nval (pool s v) = x" using x contents_iff [OF I] by blast
  define s1 where "s1 = upd_node m (\<lambda>n. n\<lparr>access_count := access_count n + 1\<rparr>) s"
  have c1: "counts_only s s1" unfolding s1_def by (rule counts_only_node)
  note I1 = inv_counts_only [OF I c1]
  note sh1 = same_shapeD [OF counts_only_shape [OF c1]]
  have r: "tree_node s1 m" "in_range (R m) k" using m(2) on_route_iff [OF I] sh1(1) by auto
  have "value_of s1 k = Some v" using value_of_holds [OF I v(1)] sh1(3,5) by (simp add: value_of_def)
  then obtain t where t: "walk (Suc (nb_node s1)) False s1 m k = Some (t, v)" "counts_only s1 t"
    using walk_value_of [OF I1 r, of False] by (auto simp del: walk.simps)
  note c = counts_only_trans [OF c1 t(2)]
  define w where "w = upd_node v (\<lambda>n. n\<lparr>nval := update_field_table u (nval n)\<rparr>) t"
  have up: "tree_update mx sz s k u bias = Some w"
    using t(1) by (simp add: tree_update_def m(1) s1_def [symmetric] Let_def w_def del: walk.simps)
  have S: "same_shape s w"
    by (simp add: same_shape_def w_def upd_node_sel counts_only_pool [OF c])
  have vb: "v < nb_node s" using holds_value [OF I v(1)] by (simp add: value_ok_def)
  have nv: "nval (pool w n) = (if n = v then update_field_table u x else nval (pool s n))" for n
    by (simp add: w_def upd_node_sel counts_only_pool(5) [OF c] v(2))
  have Iw: "inv_at [] w R rk kv"
  proof (rule inv_same_shape [OF I S])
    fix n assume "nb_node s \<le> n"
    then show "unused [] (pool w n)"
      using inv_unused [OF I, of n] vb by (simp add: unused_def w_def upd_node_sel counts_only_pool [OF c])
  qed
  have C: "contents w k' = Some y \<longleftrightarrow> ((contents s)(k \<mapsto> update_field_table u x)) k' = Some y" for k' y
  proof (cases "k' = k")
    case True
    then show ?thesis
      unfolding contents_iff [OF Iw] same_shapeD(2) [OF S] nv using v holds_functional [OF I] by auto
  next
    case False
    then have "(\<exists>v'. holds s k' v' \<and> nval (pool w v') = y) \<longleftrightarrow> (\<exists>v'. holds s k' v' \<and> nval (pool s v') = y)"
      unfolding nv using v(1) holds_injective [OF I] by metis
    then show ?thesis
      using False contents_iff [OF I] by (simp add: contents_iff [OF Iw] same_shapeD(2) [OF S])
  qed
  have "contents w = (contents s)(k \<mapsto> update_field_table u x)"
    by (rule ext) (metis C not_None_eq)
  moreover have "isLoaded2Switch (pool w n) = isLoaded2Switch (pool s n)" for n
    by (simp add: w_def upd_node_sel counts_only_pool(7) [OF c])
  ultimately show thesis using that up S Iw by blast
qed

section \<open>The contract\<close>

text \<open>
  \<open>reach s b k\<close>: address \<open>b\<close> is on the way to \<open>k\<close>. \<open>held s b\<close>: the switch may hold \<open>b\<close>; an
  insertion must not invalidate it.
\<close>

locale record_store =
  fixes wf :: "'s \<Rightarrow> bool" and recs :: "'s \<Rightarrow> 'k \<Rightarrow> fields option" and room :: "'s \<Rightarrow> 'k \<Rightarrow> bool"
    and way :: "'s \<Rightarrow> 64 word \<Rightarrow> 'k \<Rightarrow> bool" and held :: "'s \<Rightarrow> 64 word \<Rightarrow> bool"
    and ins :: "'s \<Rightarrow> 'k \<Rightarrow> fields \<Rightarrow> 's option"
    and look :: "'s \<Rightarrow> 'k \<Rightarrow> 64 word \<Rightarrow> ('s \<times> fields) option"
    and upd :: "'s \<Rightarrow> 'k \<Rightarrow> fields \<Rightarrow> 64 word \<Rightarrow> 's option"
  assumes root_law: "wf s \<Longrightarrow> way s 0 k \<and> held s 0"
    and ins_law: "wf s \<Longrightarrow> recs s k = None \<Longrightarrow> room s k \<Longrightarrow>
      \<exists>t. ins s k v = Some t \<and> wf t \<and> recs t = (recs s)(k \<mapsto> update_field_table v [])
        \<and> (\<forall>b. held s b \<longrightarrow> held t b \<and> (\<forall>k'. way s b k' \<longrightarrow> way t b k'))"
    and look_law: "wf s \<Longrightarrow> way s b k \<Longrightarrow> recs s k = Some x \<Longrightarrow>
      \<exists>t. look s k b = Some (t, x) \<and> wf t \<and> recs t = recs s \<and> room t = room s \<and> way t = way s
        \<and> held t = held s"
    and upd_law: "wf s \<Longrightarrow> way s b k \<Longrightarrow> recs s k = Some x \<Longrightarrow>
      \<exists>t. upd s k u b = Some t \<and> wf t \<and> recs t = (recs s)(k \<mapsto> update_field_table u x)
        \<and> room t = room s \<and> way t = way s \<and> held t = held s"
begin

text \<open>A record is found right after it was inserted, from the root.\<close>

lemma look_after_ins:
  assumes "wf s" "recs s k = None" "room s k"
  obtains t u where "ins s k v = Some t" "look t k 0 = Some (u, update_field_table v [])" "wf u"
proof -
  obtain t where t: "ins s k v = Some t" "wf t" "recs t = (recs s)(k \<mapsto> update_field_table v [])"
    using ins_law [OF assms] by blast
  moreover have "way t 0 k" using root_law t(2) by blast
  ultimately obtain u where "look t k 0 = Some (u, update_field_table v [])" "wf u"
    using look_law [of t 0 k "update_field_table v []"] by auto
  with t(1) that show thesis by blast
qed

text \<open>
  A record found through an address the switch holds is still found through that address after
  another one has been inserted.
\<close>

lemma look_through_held:
  assumes s: "wf s" and b: "held s b" "way s b k" and k: "recs s k = Some x"
    and new: "recs s k' = None" "room s k'"
  obtains t u where "ins s k' v = Some t" "wf t" "held t b" "way t b k"
    "look t k b = Some (u, x)" "wf u"
proof -
  obtain t where t: "ins s k' v = Some t" "wf t" "recs t = (recs s)(k' \<mapsto> update_field_table v [])"
    "\<forall>b. held s b \<longrightarrow> held t b \<and> (\<forall>k'. way s b k' \<longrightarrow> way t b k')"
    using ins_law [OF s new] by blast
  have "recs t k = Some x" using k new(1) by (auto simp: t(3))
  then obtain u where "look t k b = Some (u, x)" "wf u" using look_law [OF t(2)] t(4) b by blast
  with t b that show thesis by blast
qed

lemma look_after_upd:
  assumes s: "wf s" and b: "way s b k" "way s c k" and k: "recs s k = Some x"
  obtains t u' where "upd s k u b = Some t" "wf t"
    "look t k c = Some (u', update_field_table u x)" "recs u' = (recs s)(k \<mapsto> update_field_table u x)"
proof -
  obtain t where t: "upd s k u b = Some t" "wf t" "recs t = (recs s)(k \<mapsto> update_field_table u x)"
    "way t = way s" using upd_law [OF s b(1) k] by blast
  have "recs t k = Some (update_field_table u x)" by (simp add: t(3))
  then obtain u' where "look t k c = Some (u', update_field_table u x)" "recs u' = recs t"
    using look_law [OF t(2)] t(4) b(2) by metis
  with t that show thesis by simp
qed

end

section \<open>The pool tree keeps the contract\<close>

lemma tree_wf_same:
  assumes "tree_wf M s" "same_shape s t" "inv_at [] t R rk kv"
    and "\<And>n. isLoaded2Switch (pool t n) = isLoaded2Switch (pool s n)"
  shows "tree_wf M t \<and> insert_room mx t = insert_room mx s \<and> reach mx sz t = reach mx sz s
    \<and> held_by_switch mx sz t = held_by_switch mx sz s"
proof -
  have "pinned t = pinned s" using assms(4) by (auto simp: pinned_def)
  then have "held_by_switch mx sz t = held_by_switch mx sz s" by (simp add: held_by_switch_def fun_eq_iff split: option.split)
  then show ?thesis
    using assms insert_room_shape [OF assms(2)] same_shape_reach [OF assms(2)] all_filled_shape [OF assms(2)]
      busy_shape [OF assms(2)] all_held_shape [OF assms(2)] childless_shape [OF assms(2)]
    by (auto simp: fun_eq_iff tree_wf_def tree_inv_def)
qed

lemma tree_store:
  assumes M: "3 \<le> M" and mx: "0 < mx"
  shows "record_store (tree_wf M) contents (insert_room mx) (reach mx sz) (held_by_switch mx sz)
    (tree_insert M mx) (tree_lookup mx sz) (tree_update mx sz)"
proof
  fix s :: "('k::linorder, fields) tree" and k v b x u
  assume s: "tree_wf M s"
  then obtain R rk kv where I: "inv_at [] s R rk kv" by (auto simp: tree_wf_def tree_inv_def)
  show "reach mx sz s 0 k \<and> held_by_switch mx sz s 0"
    using s reach_root [OF mx] by (auto simp: tree_wf_def held_by_switch_def node_at_root [OF mx] pinned_def)
  show "\<exists>t. tree_insert M mx s k v = Some t \<and> tree_wf M t
      \<and> contents t = (contents s)(k \<mapsto> update_field_table v [])
      \<and> (\<forall>b. held_by_switch mx sz s b \<longrightarrow> held_by_switch mx sz t b
           \<and> (\<forall>k'. reach mx sz s b k' \<longrightarrow> reach mx sz t b k'))"
    if new: "contents s k = None" "insert_room mx s k"
  proof -
    obtain t where t: "tree_insert M mx s k v = Some t" "tree_wf M t"
      "contents t = (contents s)(k \<mapsto> update_field_table v [])"
      "\<And>n. pinned t n = pinned s n"
      "\<And>n k'. pinned s n \<Longrightarrow> n \<in> set (route s k') \<Longrightarrow> n \<in> set (route t k')"
      using tree_insert_step [OF s M new, where v = v] by metis
    have "held_by_switch mx sz t b \<and> (\<forall>k'. reach mx sz s b k' \<longrightarrow> reach mx sz t b k')"
      if "held_by_switch mx sz s b" for b
      using that t(4,5)
      by (auto simp: held_by_switch_def reach_def split: option.splits)
    with t(1-3) show ?thesis by blast
  qed
  show "\<exists>t. tree_lookup mx sz s k b = Some (t, x) \<and> tree_wf M t \<and> contents t = contents s
      \<and> insert_room mx t = insert_room mx s \<and> reach mx sz t = reach mx sz s
      \<and> held_by_switch mx sz t = held_by_switch mx sz s"
    if at: "reach mx sz s b k" "contents s k = Some x"
  proof -
    obtain t where t: "tree_lookup mx sz s k b = Some (t, x)" "counts_only s t"
      by (rule tree_lookup_present [OF I at])
    then show ?thesis
      using tree_wf_same [OF s counts_only_shape [OF t(2)] inv_counts_only [OF I t(2)]]
        counts_only_pool(7) [OF t(2)] contents_counts_only [OF t(2)] by blast
  qed
  show "\<exists>t. tree_update mx sz s k u b = Some t \<and> tree_wf M t
      \<and> contents t = (contents s)(k \<mapsto> update_field_table u x) \<and> insert_room mx t = insert_room mx s
      \<and> reach mx sz t = reach mx sz s \<and> held_by_switch mx sz t = held_by_switch mx sz s"
    if at: "reach mx sz s b k" "contents s k = Some x"
  proof -
    obtain t where "tree_update mx sz s k u b = Some t" "same_shape s t" "inv_at [] t R rk kv"
      "contents t = (contents s)(k \<mapsto> update_field_table u x)"
      "\<And>n. isLoaded2Switch (pool t n) = isLoaded2Switch (pool s n)"
      using tree_update_present [OF I at, where u = u] by metis
    with tree_wf_same [OF s] show ?thesis by blast
  qed
qed

interpretation backend_tree: record_store "tree_wf tree_M" contents "insert_room MAX_NODE_SIZE"
    "reach MAX_NODE_SIZE sz" "held_by_switch MAX_NODE_SIZE sz" "tree_insert tree_M MAX_NODE_SIZE"
    "tree_lookup MAX_NODE_SIZE sz" "tree_update MAX_NODE_SIZE sz"
  for sz :: nat
  by (rule tree_store) (simp_all add: tree_M_def MAX_NODE_SIZE_def)

section \<open>Keys that are not there\<close>

text \<open>
  The walk does not compare the key it ends at with the key it looks for: for a key that is
  not in the tree it returns the record of a greater key, or runs over the end of a leaf.
\<close>

lemma tree_lookup_absent:
  assumes I: "inv_at v0 s R rk kv" and n: "reach mx sz s bias k" and no: "contents s k = None"
    and l: "tree_lookup mx sz s k bias = Some (t, x)"
  obtains k' where "k < k'" "contents s k' = Some x"
proof -
  obtain m where m: "node_at mx sz bias = Some m" "m \<in> set (route s k)"
    using n by (auto simp: reach_def split: option.splits)
  from tree_lookup_cases [OF I m] l obtain v where v: "value_of s k = Some v" "x = nval (pool s v)"
    by (cases "value_of s k") auto
  obtain k' where k': "k \<le> k'" "holds s k' v" by (rule value_of_Some [OF I v(1)])
  then have "contents s k' = Some x" using v(2) contents_iff [OF I] by blast
  moreover from this no k'(1) have "k < k'" by (cases "k = k'") auto
  ultimately show thesis using that by blast
qed

end
