(* ===== verification/Tree_Room.thy ===== *)
theory Tree_Room
  imports Tree_Store
begin

text \<open>
  How many pool nodes a tree uses for the records it holds. Every node but an empty root has a
  key, so there are fewer inner nodes than leaves and no more leaves than records; the pool
  therefore has room for the next insertion as long as it has six nodes per record.
\<close>

section \<open>Counting nodes\<close>

definition tree_nodes :: "('k, 'v) tree \<Rightarrow> nat set" where
  "tree_nodes s = {n. tree_node s n}"

definition leaves :: "('k, 'v) tree \<Rightarrow> nat set" where
  "leaves s = {n. tree_node s n \<and> isLeaf (pool s n)}"

definition inners :: "('k, 'v) tree \<Rightarrow> nat set" where
  "inners s = {n. tree_node s n \<and> \<not> isLeaf (pool s n)}"

definition value_nodes :: "('k, 'v) tree \<Rightarrow> nat set" where
  "value_nodes s = {v. v < nb_node s \<and> isValue (pool s v)}"

lemma finite_nodes: "finite (tree_nodes s)" "finite (leaves s)" "finite (inners s)" "finite (value_nodes s)"
proof -
  have "tree_nodes s \<subseteq> {..<nb_node s}" "leaves s \<subseteq> {..<nb_node s}" "inners s \<subseteq> {..<nb_node s}"
    "value_nodes s \<subseteq> {..<nb_node s}"
    by (auto simp: tree_nodes_def leaves_def inners_def value_nodes_def tree_node_def)
  then show "finite (tree_nodes s)" "finite (leaves s)" "finite (inners s)" "finite (value_nodes s)"
    using finite_subset finite_lessThan by blast+
qed

lemma card_tree_nodes: "card (tree_nodes s) = card (leaves s) + card (inners s)"
proof -
  have "tree_nodes s = leaves s \<union> inners s" "leaves s \<inter> inners s = {}"
    by (auto simp: tree_nodes_def leaves_def inners_def)
  then show ?thesis using card_Un_disjoint finite_nodes by metis
qed

lemma nb_node_split: "nb_node s = card (tree_nodes s) + card (value_nodes s)"
proof -
  have "{..<nb_node s} = tree_nodes s \<union> value_nodes s" "tree_nodes s \<inter> value_nodes s = {}"
    by (auto simp: tree_nodes_def value_nodes_def tree_node_def)
  then show ?thesis using card_Un_disjoint finite_nodes card_lessThan by metis
qed

text \<open>The edges between tree nodes reach every node but the root exactly once.\<close>

lemma child_edges:
  assumes I: "inv_at v0 s R rk kv"
  shows "bij_betw (\<lambda>(n, i). child (pool s n) ! i) (SIGMA n : inners s. {..length (nkey (pool s n))})
    (tree_nodes s - {0})"
proof (rule bij_betwI')
  fix x y
  assume x: "x \<in> (SIGMA n : inners s. {..length (nkey (pool s n))})"
    and y: "y \<in> (SIGMA n : inners s. {..length (nkey (pool s n))})"
  obtain m i n j where xy: "x = (m, i)" "y = (n, j)" by fastforce
  have m: "tree_node s m" "\<not> isLeaf (pool s m)" "i \<le> length (nkey (pool s m))"
    and n: "tree_node s n" "\<not> isLeaf (pool s n)" "j \<le> length (nkey (pool s n))"
    using x y xy by (auto simp: inners_def)
  note lm = inv_link [OF I m] and ln = inv_link [OF I n]
  have "m = n \<and> i = j" if eq: "child (pool s m) ! i = child (pool s n) ! j"
  proof -
    have "m = n" using lm ln eq by (auto simp: link_def)
    then show ?thesis
      using inv_children_distinct [OF I n(1,2)] inv_child_length [OF I n(1,2)] m(3) n(3) eq
      by (auto simp: nth_eq_iff_index_eq)
  qed
  then show "(case x of (n, i) \<Rightarrow> child (pool s n) ! i) = (case y of (n, i) \<Rightarrow> child (pool s n) ! i) \<longleftrightarrow> x = y"
    by (auto simp: xy)
next
  fix x
  assume "x \<in> (SIGMA n : inners s. {..length (nkey (pool s n))})"
  then show "(case x of (n, i) \<Rightarrow> child (pool s n) ! i) \<in> tree_nodes s - {0}"
    using inv_link [OF I] by (auto simp: inners_def tree_nodes_def link_def)
next
  fix c
  assume "c \<in> tree_nodes s - {0}"
  then have c: "tree_node s c" "c \<noteq> 0" by (auto simp: tree_nodes_def)
  obtain p i where "tree_node s p" "\<not> isLeaf (pool s p)" "i \<le> length (nkey (pool s p))"
    "child (pool s p) ! i = c" by (rule inv_parentE [OF I c])
  then show "\<exists>x \<in> (SIGMA n : inners s. {..length (nkey (pool s n))}). c = (case x of (n, i) \<Rightarrow> child (pool s n) ! i)"
    by (intro bexI [of _ "(p, i)"]) (auto simp: inners_def)
qed

lemma fewer_inners:
  assumes I: "inv_at v0 s R rk kv" and b: "busy s"
  shows "card (inners s) < card (leaves s)"
proof -
  have "0 \<in> tree_nodes s" using inv_root(1) [OF I] by (simp add: tree_nodes_def)
  then have t: "Suc (card (tree_nodes s - {0})) = card (tree_nodes s)"
    using card_Suc_Diff1 finite_nodes(1) by metis
  have "card (tree_nodes s - {0}) = (\<Sum>n \<in> inners s. Suc (length (nkey (pool s n))))"
    unfolding bij_betw_same_card [OF child_edges [OF I], symmetric]
    using finite_nodes(3) [of s] by (subst card_SigmaI) auto
  moreover have "(\<Sum>n \<in> inners s. 2) \<le> (\<Sum>n \<in> inners s. Suc (length (nkey (pool s n))))"
  proof (rule sum_mono)
    fix n assume "n \<in> inners s"
    then have "nkey (pool s n) \<noteq> []" using b by (auto simp: inners_def busy_but_def)
    then show "2 \<le> Suc (length (nkey (pool s n)))" by (cases "nkey (pool s n)") auto
  qed
  ultimately show ?thesis using t card_tree_nodes [of s] by simp
qed

lemma leaves_below_values:
  assumes I: "inv_at v0 s R rk kv" and ne: "\<And>n. n \<in> leaves s \<Longrightarrow> nkey (pool s n) \<noteq> []"
  shows "card (leaves s) \<le> card (value_nodes s)"
proof (rule card_inj_on_le [OF _ _ finite_nodes(4)])
  have v: "value_ok s kv (child (pool s n) ! 0) (nkey (pool s n) ! 0)" if "n \<in> leaves s" for n
    using inv_value [OF I, of n 0] ne [OF that] that by (simp add: leaves_def)
  then show "(\<lambda>n. child (pool s n) ! 0) ` leaves s \<subseteq> value_nodes s"
    by (auto simp: value_nodes_def value_ok_def)
  show "inj_on (\<lambda>n. child (pool s n) ! 0) (leaves s)"
  proof (rule inj_onI)
    fix m n
    assume mn: "m \<in> leaves s" "n \<in> leaves s" "child (pool s m) ! 0 = child (pool s n) ! 0"
    then have eq: "nkey (pool s m) ! 0 = nkey (pool s n) ! 0" using v by (metis value_ok_def)
    have "in_range (R x) (nkey (pool s x) ! 0)" if "x \<in> leaves s" for x
      using inv_in_range [OF I, of x] that ne [OF that] by (simp add: leaves_def)
    from this [OF mn(1)] this [OF mn(2)] show "m = n"
      using mn(1,2) leaf_unique [OF I, of m "nkey (pool s m) ! 0" n] by (simp add: leaves_def eq)
  qed
qed

lemma values_are_records:
  assumes I: "inv_at v0 s R rk kv" and h: "all_held s"
  shows "card (value_nodes s) \<le> card (dom (contents s))"
proof (rule card_inj_on_le [where f = kv])
  have v: "holds s (kv v) v" if "v \<in> value_nodes s" for v
  proof -
    obtain k where "holds s k v" using h \<open>v \<in> value_nodes s\<close> by (auto simp: all_held_def value_nodes_def)
    then show ?thesis using holds_value [OF I] by (auto simp: value_ok_def)
  qed
  show "inj_on kv (value_nodes s)"
    using v holds_functional [OF I] by (metis inj_onI)
  show "kv ` value_nodes s \<subseteq> dom (contents s)"
    using v contents_iff [OF I] by blast
  show "finite (dom (contents s))" by (simp add: contents_def finite_dom_map_of)
qed

lemma nb_node_bound:
  assumes "tree_wf M s"
  shows "nb_node s \<le> 3 * card (dom (contents s)) + 1"
proof -
  from assms obtain R rk kv where I: "inv_at [] s R rk kv" and w: "busy s" "all_held s"
    by (auto simp: tree_wf_def tree_inv_def)
  note V = values_are_records [OF I w(2)]
  show ?thesis
  proof (cases "isLeaf (pool s 0)")
    case True
    have "n = 0" if n: "n \<in> leaves s" for n
    proof (rule ccontr)
      assume "n \<noteq> 0"
      then have "nkey (pool s n) \<noteq> []" using n w(1) by (auto simp: leaves_def busy_but_def)
      then have "in_range (R n) (nkey (pool s n) ! 0)" using inv_in_range [OF I, of n] n by (simp add: leaves_def)
      moreover have "in_range (R 0) (nkey (pool s n) ! 0)" by (simp add: inv_root(2) [OF I])
      ultimately have "n = 0" using leaf_unique [OF I] n True inv_root(1) [OF I] by (auto simp: leaves_def)
      with \<open>n \<noteq> 0\<close> show False by simp
    qed
    then have "leaves s \<subseteq> {0}" by blast
    then have "card (leaves s) \<le> 1" using card_mono [of "{0}" "leaves s"] by simp
    then have "card (tree_nodes s) \<le> 1" using fewer_inners [OF I w(1)] card_tree_nodes [of s] by simp
    then show ?thesis using nb_node_split [of s] V by simp
  next
    case False
    have "card (leaves s) \<le> card (value_nodes s)"
      using w(1) False by (intro leaves_below_values [OF I]) (auto simp: busy_but_def leaves_def)
    then show ?thesis
      using fewer_inners [OF I w(1)] V nb_node_split [of s] card_tree_nodes [of s] by simp
  qed
qed

lemma room_for_next:
  assumes w: "tree_wf M s" and mx: "6 * card (dom (contents s)) + 4 \<le> mx"
  shows "insert_room mx s k"
proof -
  from w obtain R rk kv where I: "inv_at [] s R rk kv" by (auto simp: tree_wf_def tree_inv_def)
  have "in_range (R 0) k" by (simp add: inv_root(2) [OF I])
  then obtain l where l: "leaf_of s 0 k = Some l" "tree_node s l"
    using leaf_of_total [OF I inv_root(1) [OF I]] by blast
  obtain d where "node_depth s l = Some d" "d < nb_node s" by (rule node_depth_total [OF I l(2)])
  then show ?thesis using l(1) mx nb_node_bound [OF w] by (simp add: insert_room_def)
qed

section \<open>Loading records\<close>

text \<open>The load phase: one insertion after the other.\<close>

fun tree_load :: "nat \<Rightarrow> nat \<Rightarrow> ('k::linorder, fields) tree \<Rightarrow> ('k \<times> fields) list \<Rightarrow> ('k, fields) tree option" where
  "tree_load M mx s [] = Some s"
| "tree_load M mx s ((k, v) # kvs) = do { s \<leftarrow> tree_insert M mx s k v; tree_load M mx s kvs }"

lemma tree_load_ok:
  assumes "tree_wf M s" "3 \<le> M" "distinct (map fst kvs)" "fst ` set kvs \<inter> dom (contents s) = {}"
    and "6 * (card (dom (contents s)) + length kvs) \<le> mx + 2"
  obtains t where "tree_load M mx s kvs = Some t" "tree_wf M t"
    "contents t = contents s ++ map_of (map (\<lambda>(k, v). (k, update_field_table v [])) kvs)"
    "\<And>n. pinned t n = pinned s n"
    "\<And>n k'. pinned s n \<Longrightarrow> n \<in> set (route s k') \<Longrightarrow> n \<in> set (route t k')"
proof -
  have "\<exists>t. tree_load M mx s kvs = Some t \<and> tree_wf M t
    \<and> contents t = contents s ++ map_of (map (\<lambda>(k, v). (k, update_field_table v [])) kvs)
    \<and> (\<forall>n. pinned t n = pinned s n)
    \<and> (\<forall>n k'. pinned s n \<longrightarrow> n \<in> set (route s k') \<longrightarrow> n \<in> set (route t k'))"
    using assms
  proof (induction kvs arbitrary: s)
    case (Cons kv kvs)
    obtain k v where kv: "kv = (k, v)" by fastforce
    have k: "contents s k = None" using Cons.prems(4) kv by auto
    have "insert_room mx s k" using Cons.prems(5) by (intro room_for_next [OF Cons.prems(1)]) simp
    then obtain t where t: "tree_insert M mx s k v = Some t" "tree_wf M t"
      "contents t = (contents s)(k \<mapsto> update_field_table v [])" "\<And>n. pinned t n = pinned s n"
      "\<And>n k'. pinned s n \<Longrightarrow> n \<in> set (route s k') \<Longrightarrow> n \<in> set (route t k')"
      using tree_insert_step [OF Cons.prems(1,2) k, where v = v] by metis
    have fin: "finite (dom (contents s))" by (simp add: contents_def finite_dom_map_of)
    have c: "card (dom (contents t)) = Suc (card (dom (contents s)))"
      using k fin by (simp add: t(3) domIff)
    have d: "distinct (map fst kvs)" "k \<notin> fst ` set kvs" using Cons.prems(3) kv by auto
    have i: "fst ` set kvs \<inter> dom (contents t) = {}" using Cons.prems(4) d(2) by (auto simp: t(3))
    from Cons.IH [OF t(2) Cons.prems(2) d(1) i] Cons.prems(5) c obtain u where
      u: "tree_load M mx t kvs = Some u" "tree_wf M u"
      "contents u = contents t ++ map_of (map (\<lambda>(k, v). (k, update_field_table v [])) kvs)"
      "\<forall>n. pinned u n = pinned t n"
      "\<forall>n k'. pinned t n \<longrightarrow> n \<in> set (route t k') \<longrightarrow> n \<in> set (route u k')" by auto
    have nm: "k \<notin> dom (map_of (map (\<lambda>(k, v). (k, update_field_table v [])) kvs))"
      using d(2) by (simp add: domIff map_of_eq_None_iff image_image split_def)
    have "contents u = contents s ++ map_of (map (\<lambda>(k, v). (k, update_field_table v [])) (kv # kvs))"
      using nm by (auto simp: fun_eq_iff u(3) t(3) kv map_add_def split: option.splits)
    moreover have "tree_load M mx s (kv # kvs) = Some u" by (simp add: kv t(1) u(1))
    ultimately show ?case
      using u(2,4,5) t(4,5) by (intro exI [of _ u]) (simp only: simp_thms, blast)
  qed simp
  then show thesis using that by blast
qed

lemma tree_wf_new: "0 < M \<Longrightarrow> tree_wf M (new_BPlusTree [])"
proof -
  assume M: "0 < M"
  have "tree_inv [] (new_BPlusTree [])" unfolding tree_inv_def by (intro exI, rule inv_new)
  then show ?thesis
    using M by (auto simp: tree_wf_def all_filled_def busy_but_def all_held_def childless_def new_BPlusTree_def
      new_Node_def tree_node_def)
qed

lemma contents_new: "contents (new_BPlusTree v0) = Map.empty"
  by (simp add: contents_def new_BPlusTree_def new_Node_def node_entries_def)

end
