(* ===== verification/Tree_Switch.thy ===== *)
theory Tree_Switch
  imports Tree_Room "HOL-Library.AList" "HOL-Library.Product_Lexorder"
begin

text \<open>
  Which nodes the backend hands to the switch: \<open>print_info\<close>, \<open>load2switch\<close> and
  \<open>load2switch_greedy\<close> of the backend's lib/b_plus_tree.h. An ofstream is the list of the node
  descriptions written to it. The library leaves open which of several nodes with the same
  access count std::priority_queue and std::sort take first, so \<open>pick\<close> (the top of a queue)
  and \<open>srt\<close> (a sort by falling access count) are parameters; \<open>enc\<close> is
  \<open>remove_key_index_prefix\<close>.
\<close>

section \<open>Printing a node\<close>

text \<open>The address the switch gets for node \<open>n\<close>: its byte offset in the pool under a mask.\<close>

definition node_address :: "nat \<Rightarrow> 64 word \<Rightarrow> nat \<Rightarrow> 64 word" where
  "node_address sz msk n = or msk (of_nat (n * sz))"

record node_info =
  info_addr :: "64 word"
  info_depth :: nat
  info_keys :: "(32 word \<times> 32 word) list"
  info_child :: "64 word list"

definition set_loaded :: "nat list \<Rightarrow> ('k, 'v) tree \<Rightarrow> ('k, 'v) tree" where
  "set_loaded ns s = fold (\<lambda>n. upd_node n (\<lambda>nd. nd\<lparr>isLoaded2Switch := True\<rparr>)) ns s"

definition key_halves :: "64 word \<Rightarrow> 32 word \<times> 32 word" where
  "key_halves fbt_key = (ucast (and (drop_bit 32 fbt_key) 0xFFFFFFFF), ucast (and fbt_key 0xFFFFFFFF))"

text \<open>
  The root's address is printed as 0x0, without the mask. The result is \<open>None\<close> when \<open>enc\<close> throws
  on one of the keys.
\<close>

definition print_info :: "('k \<Rightarrow> 64 word option) \<Rightarrow> nat \<Rightarrow> 64 word \<Rightarrow> ('k, 'v) tree \<Rightarrow> nat \<Rightarrow> nat
    \<Rightarrow> 'k list \<Rightarrow> nat list \<Rightarrow> (('k, 'v) tree \<times> node_info) option" where
  "print_info enc sz msk s cur virtual_depth keys childs = do {
     fbt_keys \<leftarrow> those (map enc keys);
     Some (set_loaded childs (set_loaded [cur] s),
      \<lparr>info_addr = (if cur = 0 then 0 else node_address sz msk cur), info_depth = virtual_depth,
       info_keys = (0, 0) # map key_halves fbt_keys,
       info_child = map (node_address sz msk) childs\<rparr>) }"

text \<open>The version without a mask, for \<open>load2switch\<close>: its addresses are the offsets themselves.\<close>

definition print_info_plain :: "('k \<Rightarrow> 64 word option) \<Rightarrow> nat \<Rightarrow> ('k, 'v) tree \<Rightarrow> nat \<Rightarrow> nat
    \<Rightarrow> 'k list \<Rightarrow> nat list \<Rightarrow> (('k, 'v) tree \<times> node_info) option" where
  "print_info_plain enc sz s cur virtual_depth keys childs = do {
     fbt_keys \<leftarrow> those (map enc keys);
     Some (set_loaded childs (set_loaded [cur] s),
      \<lparr>info_addr = (if cur = 0 then 0 else of_nat (cur * sz)), info_depth = virtual_depth,
       info_keys = (0, 0) # map key_halves fbt_keys,
       info_child = map (\<lambda>c. of_nat (c * sz)) childs\<rparr>) }"

lemma print_info_plain: "print_info enc sz 0 s cur vd keys childs = print_info_plain enc sz s cur vd keys childs"
  by (simp add: print_info_def print_info_plain_def node_address_def [abs_def] del: of_nat_mult)

text \<open>The files written so far, the open one last.\<close>

type_synonym files = "(string \<times> node_info list) list"

definition emit :: "node_info \<Rightarrow> files \<Rightarrow> files" where
  "emit i fs = (case rev fs of [] \<Rightarrow> [] | (f, is) # r \<Rightarrow> rev ((f, is @ [i]) # r))"

section \<open>The greedy choice of the nodes below the fat root\<close>

type_synonym 'k node_map = "(nat \<times> 'k) list"

text \<open>The loop over the children of the node just taken from the queue.\<close>

fun take_children :: "('k, 'v) tree \<Rightarrow> nat \<Rightarrow> 'k \<Rightarrow> nat \<Rightarrow> nat \<Rightarrow> nat list \<Rightarrow> 'k node_map \<Rightarrow> nat list
    \<Rightarrow> ('k node_map \<times> nat list) option" where
  "take_children s compress_depth k0 tmp i [] node_map node_pq = Some (node_map, node_pq)"
| "take_children s compress_depth k0 tmp i (ch # chs) node_map node_pq = do {
     k \<leftarrow> (if i = 0 then Some (case map_of node_map tmp of None \<Rightarrow> k0 | Some k \<Rightarrow> k)
          else nth_opt (nkey (pool s tmp)) (i - 1));
     let node_map = AList.update ch k node_map;
     node_pq \<leftarrow> (if isLeaf (pool s ch) then Some node_pq
       else do { d \<leftarrow> node_depth s ch; Some (if d < compress_depth then node_pq @ [ch] else node_pq) });
     take_children s compress_depth k0 tmp (i + 1) chs node_map node_pq }"

fun greedy_loop :: "nat \<Rightarrow> (nat list \<Rightarrow> nat) \<Rightarrow> nat \<Rightarrow> ('k, 'v) tree \<Rightarrow> nat \<Rightarrow> nat \<Rightarrow> 'k
    \<Rightarrow> 'k node_map \<Rightarrow> nat list \<Rightarrow> 'k node_map option" where
  "greedy_loop 0 pick M s root_load_num compress_depth k0 node_map node_pq = None"
| "greedy_loop (Suc fuel) pick M s root_load_num compress_depth k0 node_map node_pq =
     (if length node_map + M \<le> root_load_num \<and> node_pq \<noteq> []
      then do {
        let tmp = pick node_pq;
        let node_pq = remove1 tmp node_pq;
        (node_map, node_pq) \<leftarrow> take_children s compress_depth k0 tmp 0 (child (pool s tmp)) node_map node_pq;
        let node_map = AList.delete tmp node_map;
        greedy_loop fuel pick M s root_load_num compress_depth k0 node_map node_pq }
      else Some node_map)"

text \<open>
  Every node taken from the queue leaves at least one more node in the map (\<open>greedy_loop_ok\<close>
  below), so \<open>root_load_num\<close> rounds are enough.
\<close>

definition fat_root :: "(nat list \<Rightarrow> nat) \<Rightarrow> nat \<Rightarrow> ('k::linorder, 'v) tree \<Rightarrow> nat \<Rightarrow> nat \<Rightarrow> 'k
    \<Rightarrow> ('k list \<times> nat list) option" where
  "fat_root pick M s root_load_num compress_depth k0 = do {
     node_map \<leftarrow> greedy_loop (Suc root_load_num) pick M s root_load_num compress_depth k0 [(0, k0)] [0];
     let node_vec = sort (map (\<lambda>(n, k). (k, n)) node_map);
     (if node_vec = [] then None else Some (map fst (tl node_vec), map snd node_vec)) }"

section \<open>The layers below\<close>

fun for_up :: "nat \<Rightarrow> nat \<Rightarrow> (nat \<Rightarrow> 's \<Rightarrow> 's option) \<Rightarrow> 's \<Rightarrow> 's option" where
  "for_up 0 i body s = Some s"
| "for_up (Suc n) i body s = do { s \<leftarrow> body i s; for_up n (i + 1) body s }"

text \<open>\<open>for (i = a; i <= b; ++i)\<close>.\<close>

abbreviation for_to :: "nat \<Rightarrow> nat \<Rightarrow> (nat \<Rightarrow> 's \<Rightarrow> 's option) \<Rightarrow> 's \<Rightarrow> 's option" where
  "for_to a b \<equiv> for_up (Suc b - a) a"

definition put_at :: "'a list \<Rightarrow> nat \<Rightarrow> 'a \<Rightarrow> 'a list option" where
  "put_at xs i x = (if i < length xs then Some (xs[i := x]) else None)"

text \<open>Layer \<open>i\<close>: the children of the nodes chosen in the layer above, the busiest first.\<close>

definition next_layer :: "(nat list \<Rightarrow> nat list) \<Rightarrow> ('k, 'v) tree \<Rightarrow> nat \<Rightarrow> nat \<Rightarrow> nat list list
    \<Rightarrow> nat list list option" where
  "next_layer srt s max_load_num i cached = do {
     up \<leftarrow> nth_opt cached (i - 1);
     own \<leftarrow> nth_opt cached i;
     put_at cached i (take max_load_num (srt (own @ concat (map (\<lambda>p. child (pool s p)) up)))) }"

text \<open>Printing one layer; every second layer starts the next file.\<close>

definition open_next :: "string list \<Rightarrow> nat \<Rightarrow> nat \<Rightarrow> files \<Rightarrow> files" where
  "open_next filename compress_depth i fs =
     (if (i - compress_depth) mod 2 = 0 \<and> (i - compress_depth) div 2 + 1 < length filename
      then fs @ [(filename ! ((i - compress_depth) div 2 + 1), [])] else fs)"

fun print_nodes :: "('k \<Rightarrow> 64 word option) \<Rightarrow> nat \<Rightarrow> 64 word \<Rightarrow> nat \<Rightarrow> nat list \<Rightarrow> ('k, 'v) tree \<times> files
    \<Rightarrow> (('k, 'v) tree \<times> files) option" where
  "print_nodes enc sz msk vd [] (s, fs) = Some (s, fs)"
| "print_nodes enc sz msk vd (n # ns) (s, fs) = do {
     (t, i) \<leftarrow> print_info enc sz msk s n vd (nkey (pool s n)) (child (pool s n));
     print_nodes enc sz msk vd ns (t, emit i fs) }"

definition load2switch_greedy :: "('k::linorder \<Rightarrow> 64 word option) \<Rightarrow> 'k
    \<Rightarrow> (('k, 'v) tree \<Rightarrow> nat list \<Rightarrow> nat) \<Rightarrow> (('k, 'v) tree \<Rightarrow> nat list \<Rightarrow> nat list) \<Rightarrow> nat \<Rightarrow> nat
    \<Rightarrow> ('k, 'v) tree \<Rightarrow> string list \<Rightarrow> nat \<Rightarrow> nat \<Rightarrow> nat \<Rightarrow> 64 word \<Rightarrow> (('k, 'v) tree \<times> files) option" where
  "load2switch_greedy enc k0 pick srt M sz s filename root_load_num max_load_num compress_depth msk = do {
     f0 \<leftarrow> nth_opt filename 0;
     let cached = replicate (max (unat (depth s)) (compress_depth + 1)) [];
     (keys, nodes) \<leftarrow> fat_root (pick s) M s root_load_num compress_depth k0;
     (t, i0) \<leftarrow> print_info enc sz msk s 0 0 keys nodes;
     let fs = emit i0 [(f0, [])];
     cached \<leftarrow> put_at cached compress_depth (take max_load_num (srt s nodes));
     cached \<leftarrow> for_to (compress_depth + 1) (unat (depth s - 2)) (next_layer (srt s) s max_load_num) cached;
     for_to compress_depth (unat (depth s - 2)) (\<lambda>i (t, fs). do {
       ns \<leftarrow> nth_opt cached i;
       print_nodes enc sz msk (i - compress_depth + 1) ns (t, open_next filename compress_depth i fs) })
       (t, fs) }"

section \<open>The layer-wise choice\<close>

text \<open>
  \<open>load2switch\<close>, the version without a greedy root: the layers above \<open>compress_depth\<close> become the
  fat root. Its two loops over the lower layers run up to \<open>depth - 1\<close>.
\<close>

definition fat_layer_node :: "('k, 'v) tree \<Rightarrow> nat \<Rightarrow> nat \<Rightarrow> nat list list \<times> 'k list list
    \<Rightarrow> (nat list list \<times> 'k list list) option" where
  "fat_layer_node s i j st = (case st of (nodes, keys) \<Rightarrow> do {
     up \<leftarrow> nth_opt nodes (i - 1);
     n \<leftarrow> nth_opt up j;
     ki \<leftarrow> nth_opt keys i;
     kup \<leftarrow> nth_opt keys (i - 1);
     own \<leftarrow> nth_opt nodes i;
     keys \<leftarrow> put_at keys i (ki @ nkey (pool s n) @ (if j < length kup then [kup ! j] else []));
     nodes \<leftarrow> put_at nodes i (own @ child (pool s n));
     Some (nodes, keys) })"

definition load2switch :: "('k \<Rightarrow> 64 word option) \<Rightarrow> (('k, 'v) tree \<Rightarrow> nat list \<Rightarrow> nat list) \<Rightarrow> nat
    \<Rightarrow> ('k, 'v) tree \<Rightarrow> string \<Rightarrow> nat \<Rightarrow> nat \<Rightarrow> (('k, 'v) tree \<times> files) option" where
  "load2switch enc srt sz s filename max_load_num compress_depth = do {
     let nodes = replicate (unat (depth s - 1)) [];
     let keys = replicate (compress_depth + 1) [];
     nodes \<leftarrow> (do { n0 \<leftarrow> nth_opt nodes 0; put_at nodes 0 (n0 @ [0]) });
     (nodes, keys) \<leftarrow> for_to 1 compress_depth (\<lambda>i (nodes, keys). do {
       up \<leftarrow> nth_opt nodes (i - 1);
       for_up (length up) 0 (fat_layer_node s i) (nodes, keys) }) (nodes, keys);
     ks \<leftarrow> nth_opt keys compress_depth;
     ns \<leftarrow> nth_opt nodes compress_depth;
     (t, i0) \<leftarrow> print_info enc sz 0 s 0 0 ks ns;
     let fs = emit i0 [(filename, [])];
     nodes \<leftarrow> put_at nodes compress_depth (take max_load_num (srt s ns));
     nodes \<leftarrow> for_to (compress_depth + 1) (unat (depth s - 1)) (next_layer (srt s) s max_load_num) nodes;
     for_to compress_depth (unat (depth s - 1)) (\<lambda>i (t, fs). do {
       ns \<leftarrow> nth_opt nodes i;
       print_nodes enc sz 0 (i - compress_depth + 1) ns (t, fs) }) (t, fs) }"

end
