(* ===== verification/Fat_Root.thy ===== *)
theory Fat_Root
  imports Tree_Switch
begin

text \<open>
  The fat root the switch gets: the nodes chosen by the greedy loop split the keys among them,
  the keys next to them are the borders of their ranges, so the place of a key among the
  borders is a node on the way to that key; and there are no more of them than the switch has
  room for.
\<close>

section \<open>Loops\<close>

lemma for_up_keeps:
  assumes "\<And>i s t. body i s = Some t \<Longrightarrow> P s \<Longrightarrow> P t"
  shows "for_up n i body s = Some t \<Longrightarrow> P s \<Longrightarrow> P t"
  by (induction n arbitrary: i s) (auto split: bind_splits intro: assms)

lemma for_up_visits:
  "for_up n i body s = Some t \<Longrightarrow> i \<le> j \<Longrightarrow> j < i + n \<Longrightarrow> \<exists>u v. body j u = Some v"
proof (induction n arbitrary: i s)
  case (Suc n)
  then obtain u where u: "body i s = Some u" "for_up n (i + 1) body u = Some t" by (auto split: bind_splits)
  show ?case
  proof (cases "i = j")
    case False
    then show ?thesis using Suc.IH [OF u(2)] Suc.prems by simp
  qed (use u in blast)
qed simp

section \<open>One round of the greedy loop\<close>

text \<open>The nodes in the map split the keys; each comes with the lower border of its range.\<close>

definition border :: "'k \<Rightarrow> 'k::linorder range \<Rightarrow> 'k \<Rightarrow> bool" where
  "border k0 r k \<longleftrightarrow> (case fst r of None \<Rightarrow> k = k0 | Some l \<Rightarrow> k = l \<and> k0 < l)"

text \<open>A key or separator of the tree.\<close>

definition tree_key :: "('k, 'v) tree \<Rightarrow> 'k \<Rightarrow> bool" where
  "tree_key s k \<longleftrightarrow> (\<exists>n. tree_node s n \<and> k \<in> set (nkey (pool s n)))"

definition frontier :: "('k::linorder, 'v) tree \<Rightarrow> (nat \<Rightarrow> 'k range) \<Rightarrow> 'k \<Rightarrow> 'k node_map \<Rightarrow> bool" where
  "frontier s R k0 m \<longleftrightarrow> distinct (map fst m)
     \<and> (\<forall>(n, k) \<in> set m. tree_node s n \<and> border k0 (R n) k \<and> (k = k0 \<or> tree_key s k))
     \<and> (\<forall>x. \<exists>n \<in> fst ` set m. in_range (R n) x)
     \<and> (\<forall>x. \<forall>n \<in> fst ` set m. \<forall>n' \<in> fst ` set m. in_range (R n) x \<longrightarrow> in_range (R n') x \<longrightarrow> n = n')"

text \<open>Every key of the tree is greater than \<open>k0\<close>, the empty key.\<close>

definition above_empty :: "('k::linorder, 'v) tree \<Rightarrow> 'k \<Rightarrow> bool" where
  "above_empty s k0 \<longleftrightarrow> (\<forall>n. tree_node s n \<longrightarrow> (\<forall>k \<in> set (nkey (pool s n)). k0 < k))"

lemma update_new: "k \<notin> fst ` set m \<Longrightarrow> AList.update k v m = m @ [(k, v)]"
  by (induction m) auto

lemma take_children_eq:
  assumes I: "inv_at v0 s R rk kv" and tmp: "map_of m tmp = Some kt"
    and "\<And>c. c \<in> set cs \<Longrightarrow> tree_node s c"
    and "distinct cs" "set cs \<inter> fst ` set m = {}" "i + length cs \<le> Suc (length (nkey (pool s tmp)))"
  shows "\<exists>new. take_children s cd k0 tmp i cs m q
      = Some (m @ zip cs (drop i (kt # nkey (pool s tmp))), q @ new)
    \<and> set new \<subseteq> {c \<in> set cs. \<not> isLeaf (pool s c)} \<and> distinct new"
  using assms(2-)
proof (induction cs arbitrary: i m q)
  case (Cons c cs)
  let ?ks = "nkey (pool s tmp)"
  have c: "tree_node s c" "c \<notin> fst ` set m" using Cons.prems(2,4) by auto
  define k where "k = (kt # ?ks) ! i"
  have k: "(if i = 0 then Some (case map_of m tmp of None \<Rightarrow> k0 | Some k \<Rightarrow> k) else nth_opt ?ks (i - 1)) = Some k"
    using Cons.prems(1,5) by (cases i) (auto simp: k_def nth_opt_Some)
  obtain d where d: "node_depth s c = Some d" by (rule node_depth_total [OF I c(1)])
  define q' where "q' = (if isLeaf (pool s c) then q else if d < cd then q @ [c] else q)"
  have st: "take_children s cd k0 tmp i (c # cs) m q = take_children s cd k0 tmp (i + 1) cs (m @ [(c, k)]) q'"
    using k d by (simp add: update_new [OF c(2)] q'_def)
  have cm: "c \<noteq> tmp" using c(2) map_of_SomeD [OF Cons.prems(1)] by force
  have "map_of (m @ [(c, k)]) tmp = Some kt" using Cons.prems(1) by (simp add: map_add_def)
  moreover have "set cs \<inter> fst ` set (m @ [(c, k)]) = {}" using Cons.prems(3,4) by auto
  ultimately obtain new where n: "take_children s cd k0 tmp (i + 1) cs (m @ [(c, k)]) q'
      = Some ((m @ [(c, k)]) @ zip cs (drop (i + 1) (kt # ?ks)), q' @ new)"
    "set new \<subseteq> {c \<in> set cs. \<not> isLeaf (pool s c)}" "distinct new"
    using Cons.IH [of "m @ [(c, k)]" "i + 1" q'] Cons.prems(2,3,5) by auto
  have "drop i (kt # ?ks) = k # drop (i + 1) (kt # ?ks)"
    using Cons.prems(5) unfolding k_def Suc_eq_plus1 [symmetric]
    by (intro Cons_nth_drop_Suc [symmetric]) simp
  then have z: "(m @ [(c, k)]) @ zip cs (drop (i + 1) (kt # ?ks)) = m @ zip (c # cs) (drop i (kt # ?ks))"
    by simp
  have "c \<notin> set new" using n(2) Cons.prems(3) by auto
  have e: "take_children s cd k0 tmp i (c # cs) m q
      = Some (m @ zip (c # cs) (drop i (kt # ?ks)), q' @ new)"
    unfolding st n(1) z ..
  show ?case
    unfolding e q'_def using n(2,3) \<open>c \<notin> set new\<close>
    by (intro exI [of _ "(if isLeaf (pool s c) then [] else if d < cd then [c] else []) @ new"]) auto
qed (simp add: exI [of _ "[]"])

text \<open>The range of a node below the root is not empty.\<close>

lemma busy_range:
  assumes I: "inv_at v0 s R rk kv" and "busy s" "tree_node s n" "n \<noteq> 0"
  obtains x where "x \<in> set (nkey (pool s n))" "in_range (R n) x"
proof -
  have "nkey (pool s n) \<noteq> []" using assms(2-4) by (auto simp: busy_but_def)
  then have "hd (nkey (pool s n)) \<in> set (nkey (pool s n))" by simp
  with inv_in_range [OF I assms(3)] that show thesis by blast
qed

lemma child_range:
  assumes I: "inv_at v0 s R rk kv" and p: "tree_node s p" "\<not> isLeaf (pool s p)"
    and c: "c \<in> set (child (pool s p))" and x: "in_range (R c) x"
  shows "in_range (R p) x" "next_child s p x = Some c"
proof -
  obtain i where i: "i \<le> length (nkey (pool s p))" "child (pool s p) ! i = c"
    by (rule inv_childE [OF I p c])
  show "in_range (R p) x" "next_child s p x = Some c"
    using next_child_of_child [OF I p i(1)] x i(2) by auto
qed

lemma frontier_step:
  assumes I: "inv_at v0 s R rk kv" and b: "busy s" and e: "above_empty s k0"
    and f: "frontier s R k0 m" and t: "map_of m tmp = Some kt" "\<not> isLeaf (pool s tmp)"
  shows "frontier s R k0 (AList.delete tmp m @ zip (child (pool s tmp)) (kt # nkey (pool s tmp)))"
    and "set (child (pool s tmp)) \<inter> fst ` set m = {}"
proof -
  let ?cs = "child (pool s tmp)" and ?ks = "nkey (pool s tmp)"
  have mem: "(tmp, kt) \<in> set m" by (rule map_of_SomeD [OF t(1)])
  then have tn: "tree_node s tmp" "border k0 (R tmp) kt" "kt = k0 \<or> tree_key s kt" using f by (auto simp: frontier_def)
  have tm: "tmp \<in> fst ` set m" using mem by force
  have un: "n = n'" if "n \<in> fst ` set m" "n' \<in> fst ` set m" "in_range (R n) x" "in_range (R n') x" for n n' x
    using f that unfolding frontier_def by blast
  note len = inv_child_length [OF I tn(1) t(2)]
  have ch: "tree_node s c" "c \<noteq> 0" "c \<noteq> tmp" if c: "c \<in> set ?cs" for c
  proof -
    obtain i where "link s R rk tmp i c" by (rule inv_childE [OF I tn(1) t(2) c])
    then show "tree_node s c" "c \<noteq> 0" "c \<noteq> tmp" by (auto simp: link_def)
  qed
  have "c \<notin> fst ` set m" if c: "c \<in> set ?cs" for c
  proof
    assume cm: "c \<in> fst ` set m"
    obtain x where "in_range (R c) x" by (rule busy_range [OF I b ch(1,2) [OF c]])
    then show False using un [OF cm tm] child_range(1) [OF I tn(1) t(2) c] ch(3) [OF c] by blast
  qed
  then show dj: "set ?cs \<inter> fst ` set m = {}" by blast
  have zs: "map fst (zip ?cs (kt # ?ks)) = ?cs" using len by simp
  have del: "(n, k) \<in> set (AList.delete tmp m) \<longleftrightarrow> (n, k) \<in> set m \<and> n \<noteq> tmp" for n k
    by (auto simp: AList.delete_eq)
  have dfst: "fst ` set (AList.delete tmp m) = fst ` set m - {tmp}" using del by force
  have zfst: "fst ` set (zip ?cs (kt # ?ks)) = set ?cs" using zs by (metis list.set_map)
  have fstU: "fst ` set (AList.delete tmp m @ zip ?cs (kt # ?ks)) = (fst ` set m - {tmp}) \<union> set ?cs"
    by (simp only: set_append image_Un dfst zfst)
  have dist: "distinct (map fst (AList.delete tmp m @ zip ?cs (kt # ?ks)))"
    using f dj inv_children_distinct [OF I tn(1) t(2)] dfst zs distinct_delete [of m tmp]
    by (auto simp: frontier_def simp del: AList.delete_eq)
  have bd: "tree_node s n \<and> border k0 (R n) k \<and> (k = k0 \<or> tree_key s k)" if nk: "(n, k) \<in> set (zip ?cs (kt # ?ks))" for n k
  proof -
    from nk obtain i where i: "i < length ?cs" "?cs ! i = n" "(kt # ?ks) ! i = k" by (auto simp: in_set_zip)
    have l: "link s R rk tmp i n" using inv_link [OF I tn(1) t(2), of i] i len by simp
    show ?thesis
    proof (cases i)
      case 0
      then show ?thesis using l tn(2,3) i(3) by (auto simp: link_def border_def sub_range_def)
    next
      case (Suc j)
      then have "k = ?ks ! j" "j < length ?ks" using i len by auto
      then have "k \<in> set ?ks" by simp
      then have "k0 < k" "tree_key s k" using e tn(1) by (auto simp: above_empty_def tree_key_def)
      then show ?thesis using l i(3) Suc by (auto simp: link_def border_def sub_range_def)
    qed
  qed
  have cover: "\<exists>n \<in> (fst ` set m - {tmp}) \<union> set ?cs. in_range (R n) x" for x
  proof -
    obtain n where n: "n \<in> fst ` set m" "in_range (R n) x" using f unfolding frontier_def by blast
    show ?thesis
    proof (cases "n = tmp")
      case True
      obtain c where c: "next_child s tmp x = Some c" "in_range (R c) x"
        by (rule next_child_link [OF I tn(1) t(2)]) (use n True in auto)
      then have "c \<in> set ?cs" by (auto simp: next_child_def dest!: nth_opt_SomeE)
      with c(2) show ?thesis by blast
    qed (use n in blast)
  qed
  have one: "n = n'" if "n \<in> (fst ` set m - {tmp}) \<union> set ?cs" "n' \<in> (fst ` set m - {tmp}) \<union> set ?cs"
    "in_range (R n) x" "in_range (R n') x" for n n' x
    using that un [of n n' x] un [of tmp n' x] un [of n tmp x] child_range [OF I tn(1) t(2)] tm
    by (metis DiffE Un_iff option.inject singletonI)
  have old: "tree_node s n \<and> border k0 (R n) k \<and> (k = k0 \<or> tree_key s k)" if "(n, k) \<in> set (AList.delete tmp m)" for n k
    using that del f by (auto simp: frontier_def)
  have all: "\<forall>(n, k) \<in> set (AList.delete tmp m @ zip ?cs (kt # ?ks)). tree_node s n \<and> border k0 (R n) k
    \<and> (k = k0 \<or> tree_key s k)"
    unfolding set_append using old bd by blast
  show "frontier s R k0 (AList.delete tmp m @ zip ?cs (kt # ?ks))"
    unfolding frontier_def fstU using dist all cover one by blast
qed

section \<open>The whole loop\<close>

definition queue_ok :: "('k, 'v) tree \<Rightarrow> 'k node_map \<Rightarrow> nat list \<Rightarrow> bool" where
  "queue_ok s m q \<longleftrightarrow> distinct q \<and> set q \<subseteq> fst ` set m \<and> (\<forall>n \<in> set q. \<not> isLeaf (pool s n))"

lemma greedy_loop_ok:
  assumes I: "inv_at v0 s R rk kv" and b: "busy s" and fl: "all_filled M s" and e: "above_empty s k0"
    and pick: "\<And>q. q \<noteq> [] \<Longrightarrow> pick q \<in> set q"
  shows "frontier s R k0 m \<Longrightarrow> queue_ok s m q \<Longrightarrow> bound < fuel + length m \<Longrightarrow> 0 < fuel
    \<Longrightarrow> \<exists>m'. greedy_loop fuel pick M s bound cd k0 m q = Some m' \<and> frontier s R k0 m'
        \<and> length m' \<le> max (length m) bound"
proof (induction fuel arbitrary: m q)
  case (Suc fuel)
  show ?case
  proof (cases "length m + M \<le> bound \<and> q \<noteq> []")
    case True
    define tmp where "tmp = pick q"
    let ?cs = "child (pool s tmp)" and ?ks = "nkey (pool s tmp)"
    have q: "tmp \<in> set q" "tmp \<in> fst ` set m" "\<not> isLeaf (pool s tmp)"
      using pick [of q] True Suc.prems(2) by (auto simp: tmp_def queue_ok_def)
    have dm: "distinct (map fst m)" using Suc.prems(1) by (simp add: frontier_def)
    obtain kt where kt: "map_of m tmp = Some kt" using q(2) by (metis map_of_eq_None_iff not_None_eq)
    have tn: "tree_node s tmp" using map_of_SomeD [OF kt] Suc.prems(1) by (auto simp: frontier_def)
    note F = frontier_step [OF I b e Suc.prems(1) kt q(3)]
    note len = inv_child_length [OF I tn q(3)]
    have ch: "tree_node s c \<and> c \<noteq> tmp" if c: "c \<in> set ?cs" for c
    proof -
      obtain i where "link s R rk tmp i c" by (rule inv_childE [OF I tn q(3) c])
      then show ?thesis by (auto simp: link_def)
    qed
    obtain new where n: "take_children s cd k0 tmp 0 ?cs m (remove1 tmp q)
        = Some (m @ zip ?cs (kt # ?ks), remove1 tmp q @ new)"
      "set new \<subseteq> {c \<in> set ?cs. \<not> isLeaf (pool s c)}" "distinct new"
      using take_children_eq [OF I kt, of ?cs 0 cd k0 "remove1 tmp q"] ch F(2) len
        inv_children_distinct [OF I tn q(3)] by auto
    have zf: "map fst (zip ?cs (kt # ?ks)) = ?cs" using len by simp
    define m' where "m' = AList.delete tmp m @ zip ?cs (kt # ?ks)"
    have "tmp \<notin> fst ` set (zip ?cs (kt # ?ks))" using ch zf by (metis list.set_map)
    then have "\<forall>p \<in> set (zip ?cs (kt # ?ks)). tmp \<noteq> fst p" by (metis image_eqI)
    then have "AList.delete tmp (zip ?cs (kt # ?ks)) = zip ?cs (kt # ?ks)"
      by (simp add: AList.delete_eq filter_id_conv split_def)
    then have dl: "AList.delete tmp (m @ zip ?cs (kt # ?ks)) = m'"
      by (simp add: m'_def AList.delete_eq)
    have lm: "Suc (length (AList.delete tmp m)) = length m"
    proof -
      have "filter (\<lambda>(k', _). tmp \<noteq> k') m = removeAll (tmp, kt) m"
      proof -
        have "(tmp = fst x) \<longleftrightarrow> x = (tmp, kt)" if "x \<in> set m" for x
          using that kt map_of_is_SomeI [OF dm, of "fst x" "snd x"] by (cases x) auto
        then show ?thesis
          unfolding removeAll_filter_not_eq by (intro filter_cong refl) (auto simp: split_def)
      qed
      moreover have "distinct m" using dm by (simp add: distinct_map)
      ultimately show ?thesis
        using map_of_SomeD [OF kt] by (simp add: AList.delete_eq distinct_remove1_removeAll [symmetric] length_remove1)
           (metis Suc_pred length_pos_if_in_set)
    qed
    have lz: "length (zip ?cs (kt # ?ks)) = Suc (length ?ks)" using len by simp
    have kn0: "0 < length ?ks" using b tn q(3) by (auto simp: busy_but_def)
    have "length ?ks < M" using fl tn by (simp add: all_filled_def)
    then have ml: "length m < length m'" "length m' \<le> bound"
      unfolding m'_def length_append lz using lm True kn0 by linarith+
    have cu: "set ?cs \<subseteq> fst ` set m'"
      using zf by (metis m'_def Un_upper2 image_Un list.set_map set_append)
    have qm: "n \<in> fst ` set m'" if n: "n \<in> set q" "n \<noteq> tmp" for n
    proof -
      from n(1) Suc.prems(2) obtain k where "(n, k) \<in> set m" by (auto simp: queue_ok_def)
      then have "(n, k) \<in> set (AList.delete tmp m)" using n(2) by (auto simp: AList.delete_eq)
      then show ?thesis unfolding m'_def by force
    qed
    have qo: "queue_ok s m' (remove1 tmp q @ new)"
      using Suc.prems(2) n(2,3) F(2) cu qm unfolding queue_ok_def
      by (auto simp: set_remove1_eq)
    have st: "greedy_loop (Suc fuel) pick M s bound cd k0 m q
        = greedy_loop fuel pick M s bound cd k0 m' (remove1 tmp q @ new)"
      using True by (simp add: tmp_def [symmetric] Let_def n(1) dl)
    have "0 < fuel" using Suc.prems(3) True ml by (cases fuel) auto
    then obtain m'' where "greedy_loop fuel pick M s bound cd k0 m' (remove1 tmp q @ new) = Some m''"
      "frontier s R k0 m''" "length m'' \<le> max (length m') bound"
      using Suc.IH [OF F(1) [folded m'_def] qo] Suc.prems(3) ml by auto
    then show ?thesis using ml st by auto
  qed (use Suc.prems in auto)
qed simp

lemma fat_root_ok:
  assumes I: "inv_at v0 s R rk kv" and b: "busy s" and fl: "all_filled M s" and e: "above_empty s k0"
    and k0: "\<And>k. k0 \<le> k" and pick: "\<And>q. q \<noteq> [] \<Longrightarrow> pick q \<in> set q" and lf: "\<not> isLeaf (pool s 0)"
  obtains ks ns where "fat_root pick M s bound cd k0 = Some (ks, ns)" "length ns = Suc (length ks)"
    "length ns \<le> max 1 bound" "\<And>n. n \<in> set ns \<Longrightarrow> tree_node s n" "sorted ks" "distinct ns"
    "\<And>k. k \<in> set ks \<Longrightarrow> tree_key s k"
    "\<And>k. ns ! lower_bound ks k \<in> set (route s k)"
proof -
  have f0: "frontier s R k0 [(0, k0)]"
    using inv_root [OF I] by (auto simp: frontier_def border_def)
  have "queue_ok s [(0, k0)] [0]" using lf by (simp add: queue_ok_def)
  then obtain m where m: "greedy_loop (Suc bound) pick M s bound cd k0 [(0, k0)] [0] = Some m"
    "frontier s R k0 m" "length m \<le> max 1 bound"
    using greedy_loop_ok [OF I b fl e pick f0, of "[0]" bound "Suc bound" cd] by auto
  define vec where "vec = sort (map (\<lambda>(n, k). (k, n)) m)"
  have vm: "(k, n) \<in> set vec \<longleftrightarrow> (n, k) \<in> set m" for k n by (force simp: vec_def)
  have "m \<noteq> []" using m(2) by (auto simp: frontier_def)
  have lv: "length vec = length m" by (simp add: vec_def)
  with \<open>m \<noteq> []\<close> have vne: "vec \<noteq> []" by auto
  define ks ns where "ks = map fst (tl vec)" and "ns = map snd vec"
  have fr: "fat_root pick M s bound cd k0 = Some (ks, ns)"
    using m(1) vne by (simp add: fat_root_def vec_def [symmetric] Let_def ks_def ns_def)
  have len: "length ns = Suc (length ks)" using vne by (simp add: ks_def ns_def)
  have srt: "sorted vec" by (simp add: vec_def)
  have mono: "fst (vec ! i) \<le> fst (vec ! j)" if "i \<le> j" "j < length vec" for i j
    using sorted_nth_mono [OF srt that] by (auto simp: less_eq_prod_def)
  have kv': "ks ! i = fst (vec ! Suc i)" if "i < length ks" for i
    using that by (simp add: ks_def nth_tl)
  have sk: "sorted ks"
    unfolding sorted_iff_nth_mono using mono kv' len lv by (auto simp: ns_def)
  have node: "tree_node s (snd (vec ! i))" "border k0 (R (snd (vec ! i))) (fst (vec ! i))"
    "snd (vec ! i) \<in> fst ` set m" "fst (vec ! i) = k0 \<or> tree_key s (fst (vec ! i))"
    if i: "i < length vec" for i
  proof -
    have "vec ! i \<in> set vec" using i by simp
    then have mem: "(snd (vec ! i), fst (vec ! i)) \<in> set m" using vm [of "fst (vec ! i)" "snd (vec ! i)"] by simp
    then show "tree_node s (snd (vec ! i))" "border k0 (R (snd (vec ! i))) (fst (vec ! i))"
      "fst (vec ! i) = k0 \<or> tree_key s (fst (vec ! i))"
      using m(2) by (auto simp: frontier_def)
    show "snd (vec ! i) \<in> fst ` set m" using mem by force
  qed
  have un: "n = n'" if "n \<in> fst ` set m" "n' \<in> fst ` set m" "in_range (R n) x" "in_range (R n') x" for n n' x
    using m(2) that unfolding frontier_def by blast
  have dn: "distinct ns"
  proof -
    have dm: "distinct (map fst m)" using m(2) by (simp add: frontier_def)
    then have "distinct (map (\<lambda>(n, k). (k, n)) m)"
      by (auto simp: distinct_map inj_on_def)
    then have "distinct vec" by (simp add: vec_def)
    moreover have "inj_on snd (set vec)"
      using vm map_of_is_SomeI [OF dm] by (intro inj_onI) (metis option.inject prod.collapse)
    ultimately show ?thesis by (simp add: ns_def distinct_map)
  qed
  have first: "fst (R (snd (vec ! j))) \<noteq> None" if j: "0 < j" "j < length vec" for j
  proof
    assume None: "fst (R (snd (vec ! j))) = None"
    let ?n = "snd (vec ! j)" and ?o = "snd (vec ! 0)"
    have lt0: "0 < length vec" using j(2) by linarith
    have ne: "?o \<noteq> ?n"
      using j dn lt0 by (metis length_map less_irrefl ns_def nth_eq_iff_index_eq nth_map)
    have "fst (vec ! j) = k0" using node(2) [OF j(2)] None by (simp add: border_def)
    then have "fst (vec ! 0) = k0" using mono [of 0 j] j(2) k0 by (metis le0 order_antisym)
    then have N0: "fst (R ?o) = None" using node(2) [OF lt0] by (auto simp: border_def split: option.splits)
    have pt: "\<exists>y. in_range (R n) y" if n: "n \<in> {?o, ?n}" for n
    proof (cases "n = 0")
      case True
      then show ?thesis using inv_root(2) [OF I] by simp
    next
      case False
      then show ?thesis using busy_range [OF I b _ False] node(1) [OF lt0] node(1) [OF j(2)] n by blast
    qed
    obtain x y where "in_range (R ?n) x" "in_range (R ?o) y" using pt by blast
    then have "in_range (R ?o) (min x y) \<and> in_range (R ?n) (min x y)"
      using N0 None by (auto simp: in_range_def min_def split: option.splits)
    then show False using un [OF node(3) [OF lt0] node(3) [OF j(2)]] ne by blast
  qed
  have rt: "ns ! lower_bound ks x \<in> set (route s x)" for x
  proof -
    obtain n where n: "n \<in> fst ` set m" "in_range (R n) x" using m(2) unfolding frontier_def by blast
    then obtain kn where "(kn, n) \<in> set vec" using vm by force
    then obtain j where j: "j < length vec" "vec ! j = (kn, n)" by (auto simp: in_set_conv_nth)
    have up: "x \<le> fst (vec ! i)" if i: "j < i" "i < length vec" for i
    proof (rule ccontr)
      assume lt: "\<not> x \<le> fst (vec ! i)"
      let ?n = "snd (vec ! i)"
      have ne: "?n \<noteq> n" using i j dn by (metis length_map ns_def nth_eq_iff_index_eq nth_map less_irrefl snd_conv)
      have jk: "fst (vec ! j) \<le> fst (vec ! i)" using mono i by simp
      have nz: "?n \<noteq> 0"
      proof
        assume "?n = 0"
        then have "in_range (R ?n) x" using inv_root(2) [OF I] by simp
        then show False using un [OF node(3) [OF i(2)] n(1) _ n(2)] ne by blast
      qed
      obtain y where y: "in_range (R ?n) y" by (rule busy_range [OF I b node(1) [OF i(2)] nz])
      have lo: "case fst (R ?n) of None \<Rightarrow> True | Some l \<Rightarrow> l < x"
        using node(2) [OF i(2)] lt k0 by (auto simp: border_def split: option.splits)
      have yx: "y < x"
      proof (rule ccontr)
        assume "\<not> y < x"
        then have "in_range (R ?n) x" using y lo by (auto simp: in_range_def split: option.splits)
        then show False using un [OF node(3) [OF i(2)] n(1) _ n(2)] ne by blast
      qed
      have "in_range (R n) y"
      proof -
        have bj: "border k0 (R n) kn" using node(2) [OF j(1)] j(2) by simp
        have "case fst (R n) of None \<Rightarrow> True | Some l \<Rightarrow> l < y"
        proof (cases "fst (R n)")
          case (Some l)
          then have l: "l = kn" "k0 < l" using bj by (auto simp: border_def)
          then have "l \<le> fst (vec ! i)" using jk j(2) by simp
          moreover have "fst (vec ! i) < y"
          proof (cases "fst (R ?n)")
            case None
            then have "fst (vec ! i) = k0" using node(2) [OF i(2)] by (simp add: border_def)
            then show ?thesis using \<open>l \<le> fst (vec ! i)\<close> l(2) by simp
          next
            case (Some l')
            then show ?thesis using node(2) [OF i(2)] y by (auto simp: border_def in_range_def)
          qed
          ultimately show ?thesis using Some by simp
        qed simp
        then show ?thesis using n(2) yx by (auto simp: in_range_def split: option.splits)
      qed
      then show False using un [OF node(3) [OF i(2)] n(1) y] ne by blast
    qed
    have dn': "fst (vec ! j) < x" if "0 < j"
    proof (cases "fst (R n)")
      case (Some l)
      then show ?thesis using node(2) [OF j(1)] j(2) n(2) by (auto simp: border_def in_range_def)
    next
      case None
      then show ?thesis using first [OF that j(1)] j(2) by simp
    qed
    have "lower_bound ks x = j"
    proof (rule lower_bound_eqI [OF sk])
      show "j \<le> length ks" using j(1) len by (simp add: ns_def)
      show "j = 0 \<or> ks ! (j - 1) < x" using dn' kv' [of "j - 1"] j(1) len by (cases j) (auto simp: ns_def)
      show "j = length ks \<or> x \<le> ks ! j" using up [of "Suc j"] kv' [of j] j(1) len
        by (cases "j = length ks") (auto simp: ns_def)
    qed
    moreover have "ns ! j = n" using j by (simp add: ns_def)
    moreover have "tree_node s n" using node(1) [OF j(1)] j(2) by simp
    ultimately show ?thesis using on_route_iff [OF I] n(2) by simp
  qed
  have "length ns \<le> max 1 bound" using m(3) lv by (simp add: ns_def)
  moreover have "tree_node s n" if "n \<in> set ns" for n
  proof -
    from that obtain i where "i < length vec" "snd (vec ! i) = n" by (auto simp: ns_def set_conv_nth)
    then show ?thesis using node(1) [of i] by simp
  qed
  moreover have "tree_key s k" if k: "k \<in> set ks" for k
  proof -
    obtain i where "i < length ks" "ks ! i = k" using k by (auto simp: in_set_conv_nth)
    then have i: "Suc i < length vec" "k = fst (vec ! Suc i)" using kv' [of i] len by (auto simp: ns_def)
    have "k \<noteq> k0"
      using first [OF _ i(1)] node(2) [OF i(1)] i(2) by (auto simp: border_def split: option.splits)
    then show ?thesis using node(4) [OF i(1)] i(2) by simp
  qed
  ultimately show thesis using that [OF fr len] sk dn rt by blast
qed

end
