(* ===== verification/Tree_Loaded.thy ===== *)
theory Tree_Loaded
  imports Fat_Root
begin

text \<open>
  \<open>load2switch_greedy\<close> as a whole: it runs to its end, changes nothing but the mark of the nodes
  it hands out, and marks every node whose address it prints. \<open>load2switch\<close>, the older
  version, indexes its vector of layers beyond the end on every tree.
\<close>

section \<open>Marking nodes\<close>

lemma set_loaded_sel:
  "nb_node (set_loaded ns s) = nb_node s" "depth (set_loaded ns s) = depth s"
  "pool (set_loaded ns s) n = (if n \<in> set ns then (pool s n)\<lparr>isLoaded2Switch := True\<rparr> else pool s n)"
  unfolding set_loaded_def by (induction ns arbitrary: s) (auto simp: upd_node_def)

definition marks :: "('k, 'v) tree \<Rightarrow> ('k, 'v) tree \<Rightarrow> bool" where
  "marks s t \<longleftrightarrow> same_shape s t \<and> (\<forall>n. nval (pool t n) = nval (pool s n)
     \<and> access_count (pool t n) = access_count (pool s n)
     \<and> (isLoaded2Switch (pool s n) \<longrightarrow> isLoaded2Switch (pool t n))
     \<and> (nb_node s \<le> n \<longrightarrow> isLoaded2Switch (pool t n) = isLoaded2Switch (pool s n)))"

lemma marks_refl: "marks s s"
  by (simp add: marks_def same_shape_def)

lemma marks_trans: "marks s t \<Longrightarrow> marks t u \<Longrightarrow> marks s u"
  by (auto simp: marks_def same_shape_def)

lemma marks_nb: "marks s t \<Longrightarrow> nb_node t = nb_node s"
  by (simp add: marks_def same_shape_def)

lemma marks_set_loaded: "set ns \<subseteq> {..<nb_node s} \<Longrightarrow> marks s (set_loaded ns s)"
  by (auto simp: marks_def same_shape_def set_loaded_sel)

lemma marks_pinned: "marks s t \<Longrightarrow> pinned s n \<Longrightarrow> pinned t n"
  by (auto simp: marks_def pinned_def)

lemma marks_inv:
  assumes I: "inv_at v0 s R rk kv" and m: "marks s t"
  shows "inv_at v0 t R rk kv"
proof (rule inv_same_shape [OF I])
  show S: "same_shape s t" using m by (simp add: marks_def)
  fix n assume "nb_node s \<le> n"
  then show "unused v0 (pool t n)" using inv_unused [OF I, of n] m S by (auto simp: unused_def marks_def same_shape_def)
qed

lemma marks_wf:
  assumes w: "tree_wf M s" and m: "marks s t"
  shows "tree_wf M t" "contents t = contents s"
proof -
  from w obtain R rk kv where I: "inv_at [] s R rk kv" by (auto simp: tree_wf_def tree_inv_def)
  note It = marks_inv [OF I m]
  have S: "same_shape s t" using m by (simp add: marks_def)
  show "tree_wf M t"
    using w It all_filled_shape [OF S] busy_shape [OF S] all_held_shape [OF S] childless_shape [OF S]
    by (auto simp: tree_wf_def tree_inv_def)
  have "contents t k = Some x \<longleftrightarrow> contents s k = Some x" for k x
    unfolding contents_iff [OF I] contents_iff [OF It] same_shapeD(2) [OF S]
    using m by (simp add: marks_def)
  then show "contents t = contents s" by (metis ext not_None_eq)
qed

section \<open>What is printed\<close>

text \<open>
  A pair of keys and children sends every key that gets to node \<open>n\<close> on along its route.
\<close>

definition sends_on :: "('k::linorder, 'v) tree \<Rightarrow> nat \<Rightarrow> 'k list \<Rightarrow> nat list \<Rightarrow> bool" where
  "sends_on s n ks cs \<longleftrightarrow> (\<forall>k. n \<in> set (route s k) \<longrightarrow> \<not> isLeaf (pool s n) \<longrightarrow>
     lower_bound ks k < length cs \<and> cs ! lower_bound ks k \<in> set (route s k))"

text \<open>
  A description names a marked node, keys of the tree and marked children, in which the keys are
  found.
\<close>

definition describes_at :: "('k::linorder \<Rightarrow> 64 word option) \<Rightarrow> nat \<Rightarrow> 64 word \<Rightarrow> ('k, 'v) tree \<Rightarrow> nat
    \<Rightarrow> node_info \<Rightarrow> bool" where
  "describes_at enc sz msk s n i \<longleftrightarrow> (\<exists>ks ws cs. n < nb_node s \<and> pinned s n
     \<and> info_addr i = (if n = 0 then 0 else node_address sz msk n)
     \<and> (\<forall>k \<in> set ks. tree_key s k) \<and> those (map enc ks) = Some ws \<and> info_keys i = (0, 0) # map key_halves ws
     \<and> (\<forall>c \<in> set cs. c < nb_node s \<and> pinned s c) \<and> info_child i = map (node_address sz msk) cs
     \<and> sends_on s n ks cs)"

definition describes :: "('k::linorder \<Rightarrow> 64 word option) \<Rightarrow> nat \<Rightarrow> 64 word \<Rightarrow> ('k, 'v) tree \<Rightarrow> node_info \<Rightarrow> bool" where
  "describes enc sz msk s i \<longleftrightarrow> (\<exists>n. describes_at enc sz msk s n i)"

text \<open>The first description in the first file is the one of the root.\<close>

definition root_first :: "('k::linorder \<Rightarrow> 64 word option) \<Rightarrow> nat \<Rightarrow> 64 word \<Rightarrow> ('k, 'v) tree \<Rightarrow> files \<Rightarrow> bool" where
  "root_first enc sz msk s fs \<longleftrightarrow> fs \<noteq> [] \<and> snd (hd fs) \<noteq> [] \<and> describes_at enc sz msk s 0 (hd (snd (hd fs)))"

definition files_ok :: "('k::linorder \<Rightarrow> 64 word option) \<Rightarrow> nat \<Rightarrow> 64 word \<Rightarrow> ('k, 'v) tree \<Rightarrow> files \<Rightarrow> bool" where
  "files_ok enc sz msk s fs \<longleftrightarrow> (\<forall>f \<in> set fs. \<forall>i \<in> set (snd f). describes enc sz msk s i)"

lemma marks_tree_key: "marks s t \<Longrightarrow> tree_key t k = tree_key s k"
  by (simp add: tree_key_def tree_node_def marks_def same_shape_def)

lemma marks_sends_on: "marks s t \<Longrightarrow> sends_on t n ks cs = sends_on s n ks cs"
  using same_shape_route [of s t] by (simp add: sends_on_def marks_def same_shape_def)

lemma describes_at_marks:
  assumes m: "marks s t" and d: "describes_at enc sz msk s n i"
  shows "describes_at enc sz msk t n i"
proof -
  from d obtain ks ws cs where "n < nb_node s" "pinned s n"
    "info_addr i = (if n = 0 then 0 else node_address sz msk n)" "\<forall>k \<in> set ks. tree_key s k"
    "those (map enc ks) = Some ws" "info_keys i = (0, 0) # map key_halves ws"
    "\<forall>c \<in> set cs. c < nb_node s \<and> pinned s c" "info_child i = map (node_address sz msk) cs"
    "sends_on s n ks cs"
    unfolding describes_at_def by blast
  then show ?thesis
    unfolding describes_at_def marks_nb [OF m] marks_tree_key [OF m] marks_sends_on [OF m]
    by (intro exI [of _ ks] exI [of _ ws] exI [of _ cs]) (simp add: marks_pinned [OF m])
qed

lemma describes_marks: "marks s t \<Longrightarrow> describes enc sz msk s i \<Longrightarrow> describes enc sz msk t i"
  unfolding describes_def using describes_at_marks by blast

lemma root_first_marks: "marks s t \<Longrightarrow> root_first enc sz msk s fs \<Longrightarrow> root_first enc sz msk t fs"
  unfolding root_first_def using describes_at_marks by blast

lemma root_first_open: "root_first enc sz msk s fs \<Longrightarrow> root_first enc sz msk s (open_next fl cd i fs)"
  by (auto simp: root_first_def open_next_def)

lemma root_first_emit:
  assumes "root_first enc sz msk s fs"
  shows "root_first enc sz msk s (emit i fs)"
proof (cases "rev fs")
  case (Cons f r)
  then have "fs = rev r @ [f]" by (metis rev.simps(2) rev_rev_ident)
  with Cons assms show ?thesis by (cases f; cases "rev r") (auto simp: emit_def root_first_def)
qed (use assms in \<open>simp add: root_first_def\<close>)

lemma files_ok_marks: "marks s t \<Longrightarrow> files_ok enc sz msk s fs \<Longrightarrow> files_ok enc sz msk t fs"
  unfolding files_ok_def using describes_marks by blast

lemma files_ok_emit:
  assumes "files_ok enc sz msk s fs" "describes enc sz msk s i"
  shows "files_ok enc sz msk s (emit i fs)"
proof (cases "rev fs")
  case (Cons f r)
  then have "fs = rev r @ [f]" by (metis rev.simps(2) rev_rev_ident)
  with Cons assms show ?thesis by (cases f) (auto simp: emit_def files_ok_def)
qed (simp add: emit_def files_ok_def)

lemma files_ok_open: "files_ok enc sz msk s fs \<Longrightarrow> files_ok enc sz msk s (open_next fl cd i fs)"
  by (auto simp: files_ok_def open_next_def)

lemma print_info_ok:
  assumes p: "print_info enc sz msk s n vd ks cs = Some (t, i)" and n: "n < nb_node s" "set cs \<subseteq> {..<nb_node s}"
    and ks: "\<forall>k \<in> set ks. tree_key s k" "sends_on s n ks cs"
  shows "marks s t" "describes_at enc sz msk t n i" "describes enc sz msk t i"
proof -
  have t: "t = set_loaded cs (set_loaded [n] s)" using p by (auto simp: print_info_def split: bind_splits)
  have i: "info_addr i = (if n = 0 then 0 else node_address sz msk n)" "info_child i = map (node_address sz msk) cs"
    using p by (auto simp: print_info_def split: bind_splits)
  have "marks (set_loaded [n] s) t" unfolding t using n(2) by (intro marks_set_loaded) (simp add: set_loaded_sel)
  moreover have "marks s (set_loaded [n] s)" using n(1) by (intro marks_set_loaded) simp
  ultimately show m: "marks s t" using marks_trans by blast
  obtain ws where w: "those (map enc ks) = Some ws" "info_keys i = (0, 0) # map key_halves ws"
    using p by (auto simp: print_info_def split: bind_splits)
  show d: "describes_at enc sz msk t n i"
    unfolding describes_at_def marks_tree_key [OF m] marks_sends_on [OF m] using i n ks w
    by (intro exI [of _ ks] exI [of _ ws] exI [of _ cs]) (auto simp: t set_loaded_sel pinned_def)
  then show "describes enc sz msk t i" unfolding describes_def ..
qed

lemma those_total: "\<forall>k \<in> set ks. enc k \<noteq> None \<Longrightarrow> \<exists>ws. those (map enc ks) = Some ws"
  by (induction ks) auto

lemma print_info_total:
  "\<forall>k \<in> set ks. enc k \<noteq> None \<Longrightarrow> \<exists>t i. print_info enc sz msk s n vd ks cs = Some (t, i)"
  using those_total [of ks enc] by (auto simp: print_info_def)

text \<open>Every key of the tree has a number.\<close>

definition keys_encode :: "('k \<Rightarrow> 64 word option) \<Rightarrow> ('k, 'v) tree \<Rightarrow> bool" where
  "keys_encode enc s \<longleftrightarrow> (\<forall>k. tree_key s k \<longrightarrow> enc k \<noteq> None)"

lemma keys_encode_marks: "marks s t \<Longrightarrow> keys_encode enc s \<Longrightarrow> keys_encode enc t"
  by (simp add: keys_encode_def tree_key_def tree_node_def marks_def same_shape_def)

text \<open>Children are pool nodes that are in use.\<close>

lemma children_used:
  assumes w: "tree_wf M s" and n: "n < nb_node s"
  shows "set (child (pool s n)) \<subseteq> {..<nb_node s}"
proof (cases "isValue (pool s n)")
  case True
  then show ?thesis using w by (auto simp: tree_wf_def childless_def)
next
  case False
  from w obtain R rk kv where I: "inv_at [] s R rk kv" by (auto simp: tree_wf_def tree_inv_def)
  show ?thesis using inv_children_old(1) [OF I] n False by (auto simp: tree_node_def)
qed

lemma value_keyless:
  assumes w: "tree_wf M s" and e: "keys_encode enc s" and n: "n < nb_node s" "k \<in> set (nkey (pool s n))"
  shows "enc k \<noteq> None"
proof (cases "isValue (pool s n)")
  case True
  then show ?thesis using w n by (auto simp: tree_wf_def childless_def)
next
  case False
  then show ?thesis using e n by (auto simp: keys_encode_def tree_key_def tree_node_def)
qed

lemma own_sends_on:
  assumes w: "tree_wf M s"
  shows "sends_on s n (nkey (pool s n)) (child (pool s n))"
  unfolding sends_on_def
proof (intro allI impI)
  fix k assume n: "n \<in> set (route s k)" "\<not> isLeaf (pool s n)"
  from w obtain R rk kv where I: "inv_at [] s R rk kv" by (auto simp: tree_wf_def tree_inv_def)
  have r: "tree_node s n" "in_range (R n) k" using n(1) on_route_iff [OF I] by auto
  obtain c where c: "next_child s n k = Some c" "link s R rk n (lower_bound (nkey (pool s n)) k) c" "in_range (R c) k"
    by (rule next_child_link [OF I r(1) n(2) r(2)])
  then have "c \<in> set (route s k)" using on_route_iff [OF I] by (simp add: link_def)
  then show "lower_bound (nkey (pool s n)) k < length (child (pool s n))
    \<and> child (pool s n) ! lower_bound (nkey (pool s n)) k \<in> set (route s k)"
    using c(1) by (auto simp: next_child_def dest!: nth_opt_SomeE)
qed

lemma own_keys:
  assumes w: "tree_wf M s" and n: "n < nb_node s"
  shows "\<forall>k \<in> set (nkey (pool s n)). tree_key s k"
  using w n by (cases "isValue (pool s n)") (auto simp: tree_wf_def childless_def tree_key_def tree_node_def)

lemma print_nodes_ok:
  assumes "tree_wf M s" "set ns \<subseteq> {..<nb_node s}" "files_ok enc sz msk s fs" "keys_encode enc s"
  shows "\<exists>t gs. print_nodes enc sz msk vd ns (s, fs) = Some (t, gs) \<and> marks s t \<and> files_ok enc sz msk t gs
    \<and> (root_first enc sz msk s fs \<longrightarrow> root_first enc sz msk t gs)"
  using assms
proof (induction ns arbitrary: s fs)
  case (Cons n ns)
  have n: "n < nb_node s" using Cons.prems(2) by simp
  obtain u i where p: "print_info enc sz msk s n vd (nkey (pool s n)) (child (pool s n)) = Some (u, i)"
    using print_info_total [of "nkey (pool s n)" enc] value_keyless [OF Cons.prems(1,4) n] by blast
  note pi = print_info_ok [OF p n children_used [OF Cons.prems(1) n] own_keys [OF Cons.prems(1) n] own_sends_on [OF Cons.prems(1)]]
  have "files_ok enc sz msk u (emit i fs)"
    using files_ok_emit [OF files_ok_marks [OF pi(1) Cons.prems(3)] pi(3)] .
  moreover have "root_first enc sz msk u (emit i fs)" if "root_first enc sz msk s fs"
    using root_first_emit [OF root_first_marks [OF pi(1) that]] .
  moreover have "set ns \<subseteq> {..<nb_node u}" using Cons.prems(2) marks_nb [OF pi(1)] by simp
  ultimately obtain t gs where "print_nodes enc sz msk vd ns (u, emit i fs) = Some (t, gs)"
    "marks u t" "files_ok enc sz msk t gs" "root_first enc sz msk s fs \<longrightarrow> root_first enc sz msk t gs"
    using Cons.IH [OF marks_wf(1) [OF Cons.prems(1) pi(1)] _ _ keys_encode_marks [OF pi(1) Cons.prems(4)]]
    by blast
  then show ?case using marks_trans [OF pi(1)] p by auto
qed (simp add: marks_refl)

section \<open>The greedy loading as a whole\<close>

lemma for_up_total:
  assumes "\<And>i s. a \<le> i \<Longrightarrow> i < a + n \<Longrightarrow> P s \<Longrightarrow> \<exists>t. body i s = Some t \<and> P t"
  shows "P s \<Longrightarrow> \<exists>t. for_up n a body s = Some t \<and> P t"
  using assms
proof (induction n arbitrary: a s)
  case (Suc n)
  obtain u where u: "body a s = Some u" "P u" using Suc.prems(2) [of a s] Suc.prems(1) by auto
  have "\<exists>t. for_up n (a + 1) body u = Some t \<and> P t"
    using Suc.prems(2) by (intro Suc.IH [OF u(2)]) auto
  then show ?case using u(1) by simp
qed simp

text \<open>The layers: as many as at the start, and all of nodes in use.\<close>

definition layers_ok :: "nat \<Rightarrow> ('k, 'v) tree \<Rightarrow> nat list list \<Rightarrow> bool" where
  "layers_ok l s cached \<longleftrightarrow> length cached = l \<and> (\<forall>ns \<in> set cached. set ns \<subseteq> {..<nb_node s})"

lemma layers_ok_put:
  assumes "layers_ok l s cached" "i < l" "set ns \<subseteq> {..<nb_node s}"
  shows "\<exists>c. put_at cached i ns = Some c \<and> layers_ok l s c"
  using assms set_update_subset_insert [of cached i ns] by (auto simp: layers_ok_def put_at_def)

lemma next_layer_ok:
  assumes w: "tree_wf M s" and srt: "\<And>xs. set (srt xs) = set xs" and i: "0 < i" "i < l"
    and c: "layers_ok l s cached"
  shows "\<exists>c. next_layer srt s m i cached = Some c \<and> layers_ok l s c"
proof -
  have n: "nth_opt cached (i - Suc 0) = Some (cached ! (i - 1))" "nth_opt cached i = Some (cached ! i)"
    using c i by (simp_all add: layers_ok_def nth_opt_Some)
  have b: "set (cached ! (i - 1)) \<subseteq> {..<nb_node s}" "set (cached ! i) \<subseteq> {..<nb_node s}"
    using c i by (simp_all add: layers_ok_def)
  let ?ns = "take m (srt (cached ! i @ concat (map (\<lambda>p. child (pool s p)) (cached ! (i - 1)))))"
  have "set ?ns \<subseteq> set (cached ! i) \<union> (\<Union>p \<in> set (cached ! (i - 1)). set (child (pool s p)))"
    using set_take_subset [of m] srt by fastforce
  also have "\<dots> \<subseteq> {..<nb_node s}" using b children_used [OF w] by blast
  finally show ?thesis
    using layers_ok_put [OF c i(2), of ?ns] by (simp add: next_layer_def n)
qed

lemma load2switch_greedy_total:
  assumes w: "tree_wf M (s :: ('k::linorder, fields) tree)" and e: "above_empty s k0" and k0: "\<And>k. k0 \<le> k"
    and pick: "\<And>q. q \<noteq> [] \<Longrightarrow> pick s q \<in> set q" and srt: "\<And>xs. set (srt s xs) = set xs"
    and lf: "\<not> isLeaf (pool s 0)" and d: "2 \<le> unat (depth s)" and f: "filename \<noteq> []"
    and en: "keys_encode enc s"
  obtains t fs where "load2switch_greedy enc k0 pick srt M sz s filename bound m cd msk = Some (t, fs)"
    "marks s t" "files_ok enc sz msk t fs" "root_first enc sz msk t fs"
proof -
  from w obtain R rk kv where I: "inv_at [] s R rk kv" by (auto simp: tree_wf_def tree_inv_def)
  have bf: "busy s" "all_filled M s" using w by (auto simp: tree_wf_def)
  obtain ks ns where fr: "fat_root (pick s) M s bound cd k0 = Some (ks, ns)" "\<And>n. n \<in> set ns \<Longrightarrow> tree_node s n"
    "\<And>k. k \<in> set ks \<Longrightarrow> tree_key s k" "length ns = Suc (length ks)" "sorted ks"
    "\<And>k. ns ! lower_bound ks k \<in> set (route s k)"
    using fat_root_ok [OF I bf e k0, of "pick s" bound cd] pick lf by metis
  have ns: "set ns \<subseteq> {..<nb_node s}" using fr(2) by (auto simp: tree_node_def)
  define l where "l = max (unat (depth s)) (cd + 1)"
  have d2: "unat (depth s - 2) = unat (depth s) - 2"
    using d by (simp add: unat_sub word_le_nat_alt)
  obtain t0 i0 where p0: "print_info enc sz msk s 0 0 ks ns = Some (t0, i0)"
    using print_info_total [of ks enc] fr(3) en unfolding keys_encode_def by blast
  have z: "0 < nb_node s" using inv_root(1) [OF I] by (simp add: tree_node_def)
  have so: "sends_on s 0 ks ns"
    using lower_bound_spec(1) [OF fr(5)] fr(4,6) by (auto simp: sends_on_def less_Suc_eq_le)
  note P0 = print_info_ok [OF p0 z ns _ so]
  have f0: "nth_opt filename 0 = Some (filename ! 0)" using f by (simp add: nth_opt_Some)
  have cl: "cd < l" by (simp add: l_def)
  have L0: "layers_ok l s (replicate l [])" by (simp add: layers_ok_def)
  have sn: "set (take m (srt s ns)) \<subseteq> {..<nb_node s}"
    using ns srt set_take_subset [of m "srt s ns"] by auto
  obtain c1 where c1: "put_at (replicate l []) cd (take m (srt s ns)) = Some c1" "layers_ok l s c1"
    using layers_ok_put [OF L0 cl sn] by blast
  obtain c2 where c2: "for_to (cd + 1) (unat (depth s - 2)) (next_layer (srt s) s m) c1 = Some c2" "layers_ok l s c2"
    using for_up_total [of "cd + 1" "Suc (unat (depth s - 2)) - (cd + 1)" "layers_ok l s" "next_layer (srt s) s m" c1]
      next_layer_ok [OF w, of "srt s" _ l _ m] srt c1(2) d2 d by (fastforce simp: l_def)
  define body where "body = (\<lambda>i (t :: ('k, fields) tree, fs). do {
       ns \<leftarrow> nth_opt c2 i;
       print_nodes enc sz msk (i - cd + 1) ns (t, open_next filename cd i fs) })"
  define Q where "Q = (\<lambda>(t, fs). marks s t \<and> files_ok enc sz msk t fs \<and> root_first enc sz msk t fs)"
  have step: "\<exists>v. body i u = Some v \<and> Q v" if i: "cd \<le> i" "i < cd + (Suc (unat (depth s - 2)) - cd)" and q: "Q u" for i u
  proof -
    obtain t fs where u: "u = (t, fs)" by fastforce
    have il: "i < l" using i d d2 by (simp add: l_def)
    then have n: "nth_opt c2 i = Some (c2 ! i)" "set (c2 ! i) \<subseteq> {..<nb_node s}"
      using c2(2) by (auto simp: layers_ok_def nth_opt_Some)
    have m: "marks s t" "files_ok enc sz msk t fs" "root_first enc sz msk t fs"
      using q by (simp_all add: u Q_def)
    obtain v gs where v: "print_nodes enc sz msk (i - cd + 1) (c2 ! i) (t, open_next filename cd i fs) = Some (v, gs)"
      "marks t v" "files_ok enc sz msk v gs" "root_first enc sz msk v gs"
      using root_first_open [OF m(3)] print_nodes_ok [OF marks_wf(1) [OF w m(1)] _ files_ok_open [OF m(2)] keys_encode_marks [OF m(1) en]]
        n(2) marks_nb [OF m(1)] by metis
    then show ?thesis using marks_trans [OF m(1)] by (auto simp: body_def u n(1) v(1) [simplified] Q_def)
  qed
  have Q0: "Q (t0, emit i0 [(filename ! 0, [])])"
    using P0 fr(3) files_ok_emit [of enc sz msk t0 "[(filename ! 0, [])]" i0] by (simp add: Q_def files_ok_def root_first_def emit_def)
  obtain t fs where r: "for_to cd (unat (depth s - 2)) body (t0, emit i0 [(filename ! 0, [])]) = Some (t, fs)" "Q (t, fs)"
    using for_up_total [of cd "Suc (unat (depth s - 2)) - cd" Q body, OF _ Q0] step by fastforce
  have "load2switch_greedy enc k0 pick srt M sz s filename bound m cd msk = Some (t, fs)"
    unfolding load2switch_greedy_def l_def [symmetric] body_def [symmetric]
    using r(1) c1(1) c2(1) by (simp add: f0 fr(1) p0 body_def)
  then show thesis using that r(2) by (simp add: Q_def)
qed

section \<open>The layer-wise loading runs off its layers\<close>

lemma put_at_length: "put_at xs i x = Some ys \<Longrightarrow> length ys = length xs"
  by (auto simp: put_at_def split: if_splits)

lemma next_layer_length: "next_layer srt s m i xs = Some ys \<Longrightarrow> length ys = length xs"
  by (auto simp: next_layer_def put_at_length split: bind_splits)

lemma fat_layer_node_length:
  "fat_layer_node s i j (nodes, keys) = Some (nodes', keys') \<Longrightarrow> length nodes' = length nodes"
  by (auto simp: fat_layer_node_def put_at_length split: bind_splits)

lemma nth_opt_None_iff: "nth_opt xs i = None \<longleftrightarrow> length xs \<le> i"
  by (simp add: nth_opt_def)

lemma load2switch_None: "load2switch enc srt sz s filename m cd = None"
proof (rule ccontr)
  assume "load2switch enc srt sz s filename m cd \<noteq> None"
  then obtain r where r: "load2switch enc srt sz s filename m cd = Some r" by blast
  let ?D = "unat (depth s - 1)"
  define fat where "fat = (\<lambda>i (nodes :: nat list list, keys). do {
       up \<leftarrow> nth_opt nodes (i - 1);
       for_up (length up) 0 (fat_layer_node s i) (nodes, keys) })"
  define pr where "pr nodes = (\<lambda>i (t :: ('a, 'b) tree, fs). do {
       ns \<leftarrow> nth_opt nodes i;
       print_nodes enc sz 0 (i - cd + 1) ns (t, fs) })" for nodes
  from r obtain n0 n1 n2 n3 n4 k2 ns t i0 where
    n1: "put_at (replicate ?D []) 0 (n0 @ [0]) = Some n1"
    and n2: "for_to 1 cd fat (n1, replicate (cd + 1) []) = Some (n2, k2)"
    and ns: "nth_opt n2 cd = Some ns"
    and n3: "put_at n2 cd (take m (srt s ns)) = Some n3"
    and n4: "for_to (cd + 1) ?D (next_layer (srt s) s m) n3 = Some n4"
    and last: "for_to cd ?D (pr n4) (t, emit i0 [(filename, [])]) = Some r"
    unfolding load2switch_def fat_def [symmetric] pr_def [symmetric]
    by (auto split: bind_splits prod.splits simp: Let_def)
  have L1: "length n1 = ?D" using put_at_length [OF n1] by simp
  have fl: "length (fst t) = ?D" if "fat i u = Some t" "length (fst u) = ?D" for i u t
  proof -
    obtain nodes keys where u: "u = (nodes, keys)" by fastforce
    have "\<exists>n. for_up n 0 (fat_layer_node s i) u = Some t"
      using that(1) by (auto simp: u fat_def split: bind_splits)
    then obtain n where "for_up n 0 (fat_layer_node s i) u = Some t" ..
    then show ?thesis
      using for_up_keeps [of "fat_layer_node s i" "\<lambda>u. length (fst u) = ?D"] fat_layer_node_length that(2)
      by (metis prod.collapse)
  qed
  have L2: "length n2 = ?D"
    using for_up_keeps [of fat "\<lambda>u. length (fst u) = ?D", OF fl n2] L1 by simp
  have L4: "length n4 = ?D"
    using for_up_keeps [of "next_layer (srt s) s m" "\<lambda>u. length u = ?D", OF _ n4]
      next_layer_length put_at_length [OF n3] L2 by metis
  have cd: "cd < ?D" using ns L2 by (auto dest!: nth_opt_SomeE)
  then obtain u v where "pr n4 ?D u = Some v" using for_up_visits [OF last, of ?D] by auto
  then show False using L4 by (auto simp: pr_def nth_opt_def split: bind_splits prod.splits)
qed

end
