(* ===== verification/Keys.thy ===== *)
theory Keys
  imports Tree_Loaded "HOL-Library.List_Lexorder" "HOL-Library.Char_ord"
begin

text \<open>
  Record keys: how core_workload.h builds them from a number, how lib/fbt_utils.h reads the
  number back, the hash of core/utils.h, and why the order of the strings in the tree is the
  order of the numbers in the switch. Strings are lists of characters ordered
  lexicographically, as std::string compares them.
\<close>

section \<open>The hash of utils.h\<close>

definition kFNVOffsetBasis64 :: "64 word" where
  "kFNVOffsetBasis64 = 0xCBF29CE484222325"

definition kFNVPrime64 :: "64 word" where
  "kFNVPrime64 = 1099511628211"

fun FNVHash64_loop :: "nat \<Rightarrow> 64 word \<Rightarrow> 64 word \<Rightarrow> 64 word" where
  "FNVHash64_loop 0 val hash = hash"
| "FNVHash64_loop (Suc i) val hash =
     (let octet = and val 0x00ff; val = drop_bit 8 val; hash = xor hash octet; hash = hash * kFNVPrime64
      in FNVHash64_loop i val hash)"

definition FNVHash64 :: "64 word \<Rightarrow> 64 word" where
  "FNVHash64 val = FNVHash64_loop 8 val kFNVOffsetBasis64"

section \<open>Decimal numbers\<close>

definition digit :: "nat \<Rightarrow> char" where
  "digit d = char_of (48 + d)"

text \<open>std::to_string.\<close>

fun to_string :: "nat \<Rightarrow> string" where
  "to_string n = (if n < 10 then [digit n] else to_string (n div 10) @ [digit (n mod 10)])"

declare to_string.simps [simp del]

definition is_digit :: "char \<Rightarrow> bool" where
  "is_digit c \<longleftrightarrow> 48 \<le> (of_char c :: nat) \<and> (of_char c :: nat) \<le> 57"

definition digit_val :: "char \<Rightarrow> nat" where
  "digit_val c = of_char c - 48"

definition is_space :: "char \<Rightarrow> bool" where
  "is_space c \<longleftrightarrow> (of_char c :: nat) \<in> {9, 10, 11, 12, 13, 32}"

fun dec_val :: "nat \<Rightarrow> string \<Rightarrow> nat" where
  "dec_val acc [] = acc"
| "dec_val acc (c # cs) = dec_val (10 * acc + digit_val c) cs"

text \<open>
  What \<open>>> uint64_t\<close> of a stringstream and \<open>%lu\<close> of sscanf have in common: white space, a sign,
  digits; a number out of range becomes the greatest one. \<open>None\<close>: there is no digit.
\<close>

definition scan_sign :: "string \<Rightarrow> bool \<times> string" where
  "scan_sign s = (case s of [] \<Rightarrow> (False, [])
     | c # cs \<Rightarrow> (if c = CHR ''-'' then (True, cs) else if c = CHR ''+'' then (False, cs) else (False, s)))"

definition scan_u64 :: "string \<Rightarrow> 64 word option" where
  "scan_u64 s =
     (let (neg, s) = scan_sign (dropWhile is_space s); ds = takeWhile is_digit s; v = dec_val 0 ds
      in if ds = [] then None
         else if 2 ^ 64 \<le> v then Some (- 1)
         else Some (if neg then - of_nat v else of_nat v))"

section \<open>Key names\<close>

text \<open>\<open>CoreWorkload::BuildKeyName\<close>.\<close>

definition BuildKeyName :: "bool \<Rightarrow> int \<Rightarrow> 64 word \<Rightarrow> string" where
  "BuildKeyName ordered_inserts zero_padding key_num =
     (let key_num = (if \<not> ordered_inserts then FNVHash64 key_num else key_num);
          key_num_str = to_string (unat key_num);
          zeros = max 0 (zero_padding - int (length key_num_str))
      in ''user'' @ replicate (nat zeros) (CHR ''0'') @ key_num_str)"

text \<open>The key under which a record is stored: the table name followed by the key name.\<close>

definition table_key :: "string \<Rightarrow> string \<Rightarrow> string" where
  "table_key table key = table @ key"

text \<open>
  \<open>remove_key_index_prefix\<close> of the backend: \<open>substr\<close> throws on a short key; when nothing but white
  space is left, the stream does not set the variable, which is returned unset (both \<open>None\<close>); when
  what is left is no number, the stream sets it to 0.
\<close>

definition remove_key_index_prefix :: "string \<Rightarrow> 64 word option" where
  "remove_key_index_prefix key =
     (if 13 \<le> length key \<and> dropWhile is_space (drop 13 key) \<noteq> []
      then Some (case scan_u64 (drop 13 key) of None \<Rightarrow> 0 | Some ret \<Rightarrow> ret) else None)"

text \<open>The one of the frontend: \<open>ret\<close> stays unset when there is no number.\<close>

definition remove_key_index_prefix_sscanf :: "string \<Rightarrow> 64 word option" where
  "remove_key_index_prefix_sscanf key = (if 13 \<le> length key then scan_u64 (drop 13 key) else None)"

definition get_part_id :: "string \<Rightarrow> 8 word option" where
  "get_part_id key = (case remove_key_index_prefix_sscanf key of None \<Rightarrow> None
     | Some ret \<Rightarrow> Some (ucast (drop_bit 62 ret)))"

section \<open>Reading a printed number\<close>

lemma of_char_digit: "d < 10 \<Longrightarrow> (of_char (digit d) :: nat) = 48 + d"
  by (simp add: digit_def)

lemma digit_is_digit [simp]: "d < 10 \<Longrightarrow> is_digit (digit d)" "d < 10 \<Longrightarrow> digit_val (digit d) = d"
  by (simp_all add: is_digit_def digit_val_def of_char_digit)

lemma to_string_digits: "list_all is_digit (to_string n)"
  by (induction n rule: to_string.induct)
     (subst to_string.simps, auto)

lemma dec_val_append: "dec_val acc (xs @ ys) = dec_val (dec_val acc xs) ys"
  by (induction xs arbitrary: acc) auto

lemma dec_val_to_string: "dec_val 0 (to_string n) = n"
proof (induction n rule: to_string.induct)
  case (1 n)
  show ?case
  proof (cases "n < 10")
    case True
    then show ?thesis by (simp add: to_string.simps)
  next
    case False
    then show ?thesis using 1 by (subst to_string.simps) (simp add: dec_val_append)
  qed
qed

lemma to_string_ne: "to_string n \<noteq> []"
  by (subst to_string.simps) auto

lemma dec_val_zeros: "dec_val 0 (replicate z (CHR ''0'') @ ds) = dec_val 0 ds"
  by (induction z) (auto simp: digit_val_def)

lemma length_to_string: "n < 10 ^ m \<Longrightarrow> 0 < m \<Longrightarrow> length (to_string n) \<le> m"
proof (induction n arbitrary: m rule: to_string.induct)
  case (1 n)
  show ?case
  proof (cases "n < 10")
    case True
    then show ?thesis using 1 by (subst to_string.simps) simp
  next
    case False
    then obtain m' where m: "m = Suc m'" "0 < m'" using 1 by (cases m; cases "m - 1") auto
    have "n div 10 < 10 ^ m'" using 1(2) m by (simp add: less_mult_imp_div_less mult.commute)
    then show ?thesis using 1(1) [OF False, of m'] False m by (subst to_string.simps) simp
  qed
qed

lemma padded_digits: "list_all is_digit (replicate z (CHR ''0'') @ to_string m)"
  using to_string_digits [of m] by (induction z) (simp_all add: is_digit_def)

lemma digits_scan:
  assumes "list_all is_digit ds" "ds \<noteq> []" "dec_val 0 ds < 2 ^ 64"
  shows "scan_u64 ds = Some (of_nat (dec_val 0 ds))"
proof -
  obtain c cs where ds: "ds = c # cs" using assms(2) by (cases ds) auto
  then have c: "is_digit c" using assms(1) by simp
  then have "\<not> is_space c" "c \<noteq> CHR ''-''" "c \<noteq> CHR ''+''"
    by (auto simp: is_digit_def is_space_def)
  then have "scan_sign (dropWhile is_space ds) = (False, ds)" by (simp add: scan_sign_def ds)
  moreover have tw: "takeWhile is_digit ds = ds" using assms(1) by (simp only: takeWhile_eq_all_conv list_all_iff)
  ultimately show ?thesis using assms(2,3) unfolding scan_u64_def by (simp only: tw Let_def prod.case) simp
qed

lemma scan_BuildKeyName:
  "scan_u64 (drop 4 (BuildKeyName ordered zp n)) = Some (if ordered then n else FNVHash64 n)"
proof -
  let ?n = "if ordered then n else FNVHash64 n"
  note d = padded_digits
  have v: "dec_val 0 (replicate z (CHR ''0'') @ to_string (unat ?n)) = unat ?n" for z
    by (simp only: dec_val_zeros dec_val_to_string)
  have lt: "unat ?n < 2 ^ 64" by (rule order_less_le_trans [OF unsigned_less]) simp
  have b: "drop 4 (BuildKeyName ordered zp n)
    = replicate (nat (max 0 (zp - int (length (to_string (unat ?n)))))) (CHR ''0'') @ to_string (unat ?n)"
    by (simp add: BuildKeyName_def Let_def)
  have "scan_u64 (drop 4 (BuildKeyName ordered zp n)) = Some (of_nat (unat ?n))"
    unfolding b using digits_scan [OF d] v lt to_string_ne by (metis Nil_is_append_conv)
  then show ?thesis by simp
qed

lemma remove_prefix_scan:
  assumes "13 \<le> length key" "scan_u64 (drop 13 key) = Some n"
  shows "remove_key_index_prefix key = Some n"
proof -
  have "scan_u64 s = None" if "dropWhile is_space s = []" for s
    unfolding scan_u64_def that by (simp add: scan_sign_def)
  then have "dropWhile is_space (drop 13 key) \<noteq> []" using assms(2) by force
  then show ?thesis using assms by (simp add: remove_key_index_prefix_def)
qed

section \<open>The order of the keys\<close>

lemma dec_val_acc: "dec_val acc ds = acc * 10 ^ length ds + dec_val 0 ds"
proof (induction ds arbitrary: acc)
  case (Cons c cs)
  show ?case using Cons [of "10 * acc + digit_val c"] Cons [of "digit_val c"] by (simp add: algebra_simps)
qed simp

lemma dec_val_bound: "list_all is_digit ds \<Longrightarrow> dec_val 0 ds < 10 ^ length ds"
proof (induction ds)
  case (Cons c cs)
  have "is_digit c" using Cons.prems by simp
  then have c: "digit_val c \<le> 9" unfolding is_digit_def digit_val_def by linarith
  have "dec_val 0 (c # cs) = digit_val c * 10 ^ length cs + dec_val 0 cs"
    using dec_val_acc [of "digit_val c" cs] by simp
  also have "\<dots> < digit_val c * 10 ^ length cs + 10 ^ length cs" using Cons by simp
  also have "\<dots> \<le> 10 * 10 ^ length cs"
    using mult_le_mono1 [of "Suc (digit_val c)" 10 "10 ^ length cs"] c by simp
  finally show ?case by simp
qed simp

text \<open>Numerals of the same length compare like the numbers they stand for.\<close>

lemma numeral_order:
  "list_all is_digit xs \<Longrightarrow> list_all is_digit ys \<Longrightarrow> length xs = length ys
   \<Longrightarrow> xs < ys \<longleftrightarrow> dec_val 0 xs < dec_val 0 ys"
proof (induction xs ys rule: list_induct2')
  case (4 x xs y ys)
  have b: "dec_val 0 xs < 10 ^ length xs" "dec_val 0 ys < 10 ^ length xs"
    using dec_val_bound [of xs] dec_val_bound [of ys] 4 by auto
  have cmp: "x < y \<longleftrightarrow> digit_val x < digit_val y" "x = y \<longleftrightarrow> digit_val x = digit_val y"
  proof -
    have d: "48 \<le> (of_char x :: nat)" "48 \<le> (of_char y :: nat)" using 4(2,3) by (auto simp: is_digit_def)
    show "x < y \<longleftrightarrow> digit_val x < digit_val y" using d by (auto simp: digit_val_def less_char_def)
    have "x = y \<longleftrightarrow> (of_char x :: nat) = of_char y" by simp
    then show "x = y \<longleftrightarrow> digit_val x = digit_val y" unfolding digit_val_def using d by linarith
  qed
  have step: "a * B + p < b * B + q \<longleftrightarrow> a < b \<or> a = b \<and> p < q"
    if "p < B" "q < B" for a b p q B :: nat
  proof -
    consider "a < b" | "a = b" | "b < a" by linarith
    then show ?thesis
    proof cases
      case 1
      then have "Suc a * B \<le> b * B" by (intro mult_le_mono1) simp
      then show ?thesis using that 1 by simp
    next
      case 3
      then have "Suc b * B \<le> a * B" by (intro mult_le_mono1) simp
      then show ?thesis using that 3 by simp
    qed (use that in auto)
  qed
  show ?case
    using 4 step [OF b, of "digit_val x" "digit_val y"] cmp
      dec_val_acc [of "digit_val x" xs] dec_val_acc [of "digit_val y" ys] by simp
qed auto

lemma prefix_order: "(p @ xs :: string) < p @ ys \<longleftrightarrow> xs < ys"
  by (induction p) auto

lemma key_order:
  assumes "20 \<le> zp"
  shows "table_key table (BuildKeyName True zp a) < table_key table (BuildKeyName True zp b) \<longleftrightarrow> a < b"
proof -
  define num where "num n = replicate (nat (max 0 (zp - int (length (to_string (unat n)))))) (CHR ''0'')
    @ to_string (unat n)" for n :: "64 word"
  have d: "list_all is_digit (num n)" for n unfolding num_def by (rule padded_digits)
  have l: "length (num n) = nat zp" for n
  proof -
    have "unat n < 2 ^ 64" by (rule order_less_le_trans [OF unsigned_less]) simp
    then have "unat n < 10 ^ 20" by simp
    then have "length (to_string (unat n)) \<le> 20" by (rule length_to_string) simp
    then show ?thesis using assms by (simp add: num_def)
  qed
  have v: "dec_val 0 (num n) = unat n" for n by (simp only: num_def dec_val_zeros dec_val_to_string)
  have k: "table_key table (BuildKeyName True zp n) = (table @ ''user'') @ num n" for n
    by (simp add: table_key_def BuildKeyName_def num_def Let_def)
  show ?thesis
    unfolding k prefix_order using numeral_order [OF d d, of a b] l v by (simp add: word_less_nat_alt)
qed

section \<open>Searching by number\<close>

lemma lower_bound_loop_map:
  "(\<And>x. x \<in> set xs \<Longrightarrow> f x < f v \<longleftrightarrow> x < v) \<Longrightarrow> first + len \<le> length xs
   \<Longrightarrow> lower_bound_loop (map f xs) (f v) first len = lower_bound_loop xs v first len"
proof (induction xs v first len rule: lower_bound_loop.induct)
  case (1 xs v first len)
  show ?case
  proof (cases "len = 0")
    case False
    let ?half = "len div 2" and ?mid = "first + len div 2"
    have mid: "?mid < length xs" using False "1.prems"(2) by linarith
    then have "(map f xs ! ?mid < f v) = (xs ! ?mid < v)" using "1.prems"(1) by simp
    moreover have "?mid + 1 + (len - ?half - 1) \<le> length xs" "first + ?half \<le> length xs"
      using False "1.prems"(2) by simp_all
    ultimately show ?thesis
      using False "1.IH" [OF False refl refl] "1.prems"(1)
      by (simp add: lower_bound_loop.simps [of _ _ first len] Let_def)
  qed (simp add: lower_bound_loop.simps [of _ _ first])
qed

lemma lower_bound_map:
  "(\<And>x. x \<in> set xs \<Longrightarrow> f x < f v \<longleftrightarrow> x < v) \<Longrightarrow> lower_bound (map f xs) (f v) = lower_bound xs v"
  by (simp add: lower_bound_def lower_bound_loop_map)

end
