(* ===== verification/Wire.thy ===== *)
theory Wire
  imports Keys
begin

text \<open>
  The message formats of driver/driver.cc (backend and frontend): \<open>inject_*\<close> write a field of a
  message, \<open>extract_*\<close> read it back. A buffer is a list of bytes; what is injected one after the
  other is concatenated, and the length \<open>inject_*\<close> returns is the length of the list. An
  \<open>extract_*\<close> function returns the value and the rest of the buffer, or \<open>None\<close> when it would
  read beyond the buffer. Numbers that are not converted by \<open>htonl\<close> are written in the byte
  order of the machine, little-endian on the x86 hosts DPDK runs on here.
\<close>

section \<open>Bytes\<close>

type_synonym bytes = "8 word list"

definition byte_of :: "char \<Rightarrow> 8 word" where
  "byte_of c = of_nat (of_char c)"

definition char_of_byte :: "8 word \<Rightarrow> char" where
  "char_of_byte b = char_of (unat b)"

text \<open>The low \<open>n\<close> bytes of a number, the least significant first, and back.\<close>

fun le :: "nat \<Rightarrow> nat \<Rightarrow> bytes" where
  "le 0 x = []"
| "le (Suc n) x = of_nat x # le n (x div 256)"

fun un_le :: "bytes \<Rightarrow> nat" where
  "un_le [] = 0"
| "un_le (b # bs) = unat b + 256 * un_le bs"

definition le32 :: "32 word \<Rightarrow> bytes" where
  "le32 w = le 4 (unat w)"

definition le16 :: "16 word \<Rightarrow> bytes" where
  "le16 w = le 2 (unat w)"

definition htonl :: "32 word \<Rightarrow> 32 word" where
  "htonl w = of_nat (un_le (rev (le32 w)))"

definition htons :: "16 word \<Rightarrow> 16 word" where
  "htons w = of_nat (un_le (rev (le16 w)))"

text \<open>\<open>*(unsigned *)(msg + msg_len)\<close>, and \<open>len\<close> bytes at \<open>msg + msg_len\<close>.\<close>

definition read_bytes :: "nat \<Rightarrow> bytes \<Rightarrow> (bytes \<times> bytes) option" where
  "read_bytes len msg = (if len \<le> length msg then Some (take len msg, drop len msg) else None)"

definition read_unsigned :: "bytes \<Rightarrow> (32 word \<times> bytes) option" where
  "read_unsigned msg = do { (bs, msg) \<leftarrow> read_bytes 4 msg; Some (of_nat (un_le bs), msg) }"

section \<open>Message types and the header of the tree\<close>

text \<open>
  The frontend writes the partition id after the message type. The backend passes the id, too,
  but copies the first byte of \<open>ubuf\<close>, the most significant byte of the message type.
\<close>

definition inject_msg_type :: "32 word \<Rightarrow> 8 word \<Rightarrow> bytes" where
  "inject_msg_type msg_type pid = (let ubuf = htonl msg_type in le32 ubuf @ [pid])"

definition inject_msg_type_backend :: "32 word \<Rightarrow> 8 word \<Rightarrow> bytes" where
  "inject_msg_type_backend msg_type pid = (let ubuf = htonl msg_type in le32 ubuf @ take 1 (le32 ubuf))"

definition inject_fbt_hdr :: "64 word \<Rightarrow> bytes" where
  "inject_fbt_hdr fbt_key =
     (let key_hi = htonl (ucast (drop_bit 32 fbt_key)); key_lo = htonl (ucast (and fbt_key 0xffffffff));
          fbt_idx = replicate 6 0
      in le32 key_hi @ le32 key_lo @ fbt_idx)"

definition extract_msg_type :: "bytes \<Rightarrow> (32 word \<times> bytes) option" where
  "extract_msg_type msg = do {
     (ubuf, msg) \<leftarrow> read_unsigned msg;
     let msg_type = htonl ubuf;
     (_, msg) \<leftarrow> read_bytes 1 msg;
     Some (msg_type, msg) }"

text \<open>The six bytes of the node address come most significant first; two zero bytes are added.\<close>

definition extract_fbt_hdr :: "bytes \<Rightarrow> (64 word \<times> bytes) option" where
  "extract_fbt_hdr msg = do {
     (_, msg) \<leftarrow> read_unsigned msg;
     (_, msg) \<leftarrow> read_unsigned msg;
     (bs, msg) \<leftarrow> read_bytes 6 msg;
     let in_idx = [bs ! 5, bs ! 4, bs ! 3, bs ! 2, bs ! 1, bs ! 0, 0, 0];
     Some (of_nat (un_le in_idx), msg) }"

section \<open>Keys and values\<close>

definition inject_string :: "string \<Rightarrow> bytes" where
  "inject_string s = le32 (of_nat (length s)) @ map byte_of s"

definition extract_string :: "bytes \<Rightarrow> (string \<times> bytes) option" where
  "extract_string msg = do {
     (ubuf, msg) \<leftarrow> read_unsigned msg;
     (bs, msg) \<leftarrow> read_bytes (unat ubuf) msg;
     Some (map char_of_byte bs, msg) }"

definition inject_key_index :: "string \<Rightarrow> bytes" where
  "inject_key_index key_index = inject_string key_index"

definition extract_key_index :: "bytes \<Rightarrow> (string \<times> bytes) option" where
  "extract_key_index msg = extract_string msg"

text \<open>One round of the loops over the pairs of a record.\<close>

definition inject_pair :: "string \<times> string \<Rightarrow> bytes" where
  "inject_pair kv = inject_string (fst kv) @ inject_string (snd kv)"

definition extract_pair :: "bytes \<Rightarrow> ((string \<times> string) \<times> bytes) option" where
  "extract_pair msg = do {
     (k, msg) \<leftarrow> extract_string msg;
     (v, msg) \<leftarrow> extract_string msg;
     Some ((k, v), msg) }"

definition inject_values :: "fields \<Rightarrow> bytes" where
  "inject_values values = le32 (of_nat (length values)) @ concat (map inject_pair values)"

fun extract_items :: "(bytes \<Rightarrow> ('a \<times> bytes) option) \<Rightarrow> nat \<Rightarrow> bytes \<Rightarrow> ('a list \<times> bytes) option" where
  "extract_items item 0 msg = Some ([], msg)"
| "extract_items item (Suc n) msg = do {
     (x, msg) \<leftarrow> item msg;
     (xs, msg) \<leftarrow> extract_items item n msg;
     Some (x # xs, msg) }"

definition extract_values :: "bytes \<Rightarrow> (fields \<times> bytes) option" where
  "extract_values msg = do {
     (ubuf, msg) \<leftarrow> read_unsigned msg;
     extract_items extract_pair (unat ubuf) msg }"

section \<open>Round trips of numbers and characters\<close>

lemma length_le [simp]: "length (le n x) = n"
  by (induction n arbitrary: x) auto

lemma un_le_le: "un_le (le n x) = x mod 256 ^ n"
proof (induction n arbitrary: x)
  case (Suc n)
  have "unat (of_nat x :: 8 word) = x mod 256" by (simp add: unat_of_nat)
  then show ?case using Suc [of "x div 256"] by (simp add: mod_mult2_eq)
qed simp

lemma un_le_bound: "un_le bs < 256 ^ length bs"
proof (induction bs)
  case (Cons b bs)
  have "unat b < 256" using unsigned_less [of b] by (rule order_less_le_trans) simp
  moreover have "Suc (un_le bs) * 256 \<le> 256 ^ length bs * 256" using Cons by (intro mult_le_mono1) simp
  ultimately show ?case by simp
qed simp

lemma le_un_le: "le (length bs) (un_le bs) = bs"
proof (induction bs)
  case (Cons b bs)
  have b: "unat b < 256" using unsigned_less [of b] by (rule order_less_le_trans) simp
  then have "(unat b + 256 * un_le bs) div 256 = un_le bs" by simp
  moreover have "of_nat (unat b + 256 * un_le bs) = b"
  proof -
    have "of_nat (unat b + 256 * un_le bs) = (of_nat (unat b) + of_nat (256 * un_le bs) :: 8 word)" by simp
    also have "of_nat (256 * un_le bs) = (0 :: 8 word)"
      by (simp only: word_of_nat_eq_0_iff) simp
    finally show ?thesis by simp
  qed
  ultimately show ?case using Cons by simp
qed simp

lemma length_le32 [simp]: "length (le32 w) = 4"
  by (simp add: le32_def)

lemma un_le_le32: "un_le (le32 w) = unat w"
proof -
  have "unat w < 256 ^ 4" by (rule order_less_le_trans [OF unsigned_less]) simp
  then show ?thesis by (simp add: le32_def un_le_le)
qed

lemma htonl_htonl [simp]: "htonl (htonl w) = w"
proof -
  have b: "un_le (rev (le32 w)) < 256 ^ 4" using un_le_bound [of "rev (le32 w)"] by simp
  then have "unat (htonl w) = un_le (rev (le32 w))" by (simp add: htonl_def unat_of_nat)
  then have "le32 (htonl w) = le (length (rev (le32 w))) (un_le (rev (le32 w)))" by (simp add: le32_def)
  then have "le32 (htonl w) = rev (le32 w)" by (simp only: le_un_le)
  then show ?thesis by (simp add: htonl_def un_le_le32)
qed

lemma byte_of_char [simp]: "char_of_byte (byte_of c) = c"
  by (simp add: char_of_byte_def byte_of_def unat_of_nat)

lemma read_bytes_append [simp]: "length xs = n \<Longrightarrow> read_bytes n (xs @ rest) = Some (xs, rest)"
  by (simp add: read_bytes_def)

lemma read_unsigned_le32 [simp]: "read_unsigned (le32 w @ rest) = Some (w, rest)"
  by (simp add: read_unsigned_def un_le_le32)

section \<open>Codecs\<close>

text \<open>
  What a reader of the messages relies on: whatever follows an encoded value in the buffer,
  decoding gives the value back and leaves what follows.
\<close>

locale codec =
  fixes enc :: "'a \<Rightarrow> bytes" and dec :: "bytes \<Rightarrow> ('a \<times> bytes) option" and fits :: "'a \<Rightarrow> bool"
  assumes dec_enc: "fits x \<Longrightarrow> dec (enc x @ rest) = Some (x, rest)"
begin

lemma enc_inj: "fits x \<Longrightarrow> fits y \<Longrightarrow> enc x @ r = enc y @ s \<Longrightarrow> x = y \<and> r = s"
  by (metis dec_enc option.inject prod.inject)

text \<open>No encoded value is the beginning of another one.\<close>

lemma prefix_free: "fits x \<Longrightarrow> fits y \<Longrightarrow> enc x @ r = enc y \<Longrightarrow> r = []"
  using enc_inj [of x y r "[]"] append_Nil2 by metis

lemma dec_items:
  "list_all fits xs \<Longrightarrow> extract_items dec (length xs) (concat (map enc xs) @ rest) = Some (xs, rest)"
  by (induction xs) (simp_all add: dec_enc)

text \<open>A vector behind its 32-bit length.\<close>

lemma dec_counted:
  assumes "list_all fits xs" "length xs < 2 ^ 32"
  shows "do { (n, msg) \<leftarrow> read_unsigned (le32 (of_nat (length xs)) @ concat (map enc xs) @ rest);
      extract_items dec (unat n) msg } = Some (xs, rest)"
  using assms by (simp add: dec_items unat_of_nat)

end

definition string_fits :: "string \<Rightarrow> bool" where
  "string_fits s \<longleftrightarrow> length s < 2 ^ 32"

definition pair_fits :: "string \<times> string \<Rightarrow> bool" where
  "pair_fits kv \<longleftrightarrow> string_fits (fst kv) \<and> string_fits (snd kv)"

definition fields_fit :: "fields \<Rightarrow> bool" where
  "fields_fit values \<longleftrightarrow> list_all pair_fits values \<and> length values < 2 ^ 32"

lemma map_char_of_byte [simp]: "map char_of_byte (map byte_of s) = s"
  by (induction s) auto

lemma extract_inject_string:
  assumes "string_fits s"
  shows "extract_string (inject_string s @ rest) = Some (s, rest)"
proof -
  have "unat (of_nat (length s) :: 32 word) = length s"
    using assms by (simp add: string_fits_def unat_of_nat)
  then have "read_bytes (unat (of_nat (length s) :: 32 word)) (map byte_of s @ rest) = Some (map byte_of s, rest)"
    by (intro read_bytes_append) simp
  then show ?thesis
    unfolding extract_string_def inject_string_def append_assoc read_unsigned_le32
    by (simp only: bind.bind_lunit prod.case map_char_of_byte)
qed

interpretation key_codec: codec inject_key_index extract_key_index string_fits
  by unfold_locales (simp add: inject_key_index_def extract_key_index_def extract_inject_string)

interpretation pair_codec: codec inject_pair extract_pair pair_fits
proof
  fix x :: "string \<times> string" and rest :: bytes
  assume "pair_fits x"
  then have "extract_string (inject_string (fst x) @ r) = Some (fst x, r)"
    "extract_string (inject_string (snd x) @ r) = Some (snd x, r)" for r
    using key_codec.dec_enc by (auto simp: pair_fits_def inject_key_index_def extract_key_index_def)
  then show "extract_pair (inject_pair x @ rest) = Some (x, rest)"
    by (simp add: extract_pair_def inject_pair_def)
qed

interpretation values_codec: codec inject_values extract_values fields_fit
proof
  fix x :: fields and rest :: bytes
  assume "fields_fit x"
  then show "extract_values (inject_values x @ rest) = Some (x, rest)"
    using pair_codec.dec_counted [of x rest]
    by (simp add: fields_fit_def extract_values_def inject_values_def)
qed

text \<open>Message types; the partition id is skipped by the reader.\<close>

lemma extract_inject_msg_type [simp]:
  "extract_msg_type (inject_msg_type t pid @ rest) = Some (t, rest)"
  by (simp add: extract_msg_type_def inject_msg_type_def read_bytes_def)

lemma length_take_le32 [simp]: "length (take 1 (le32 w)) = 1"
  by simp

lemma extract_inject_msg_type_backend [simp]:
  "extract_msg_type (inject_msg_type_backend t pid @ rest) = Some (t, rest)"
  by (simp add: extract_msg_type_def inject_msg_type_backend_def Let_def read_bytes_append [OF length_take_le32])

interpretation type_codec: codec "\<lambda>t. inject_msg_type t pid" extract_msg_type "\<lambda>_. True" for pid
  by unfold_locales simp

interpretation type_codec_backend: codec "\<lambda>t. inject_msg_type_backend t pid" extract_msg_type "\<lambda>_. True" for pid
  by unfold_locales simp

text \<open>
  The switch replaces the six address bytes of the header; \<open>with_fbt_idx\<close> is the header with
  address \<open>idx\<close>, most significant byte first.
\<close>

definition with_fbt_idx :: "64 word \<Rightarrow> 64 word \<Rightarrow> bytes" where
  "with_fbt_idx fbt_key idx = take 8 (inject_fbt_hdr fbt_key) @ rev (le 6 (unat idx))"

lemma inject_fbt_hdr_idx: "inject_fbt_hdr k = with_fbt_idx k 0"
proof -
  have "le n 0 = replicate n 0" for n by (induction n) auto
  then show ?thesis by (simp add: inject_fbt_hdr_def with_fbt_idx_def Let_def)
qed

lemma length_fbt_hdr [simp]: "length (with_fbt_idx k idx) = 14"
  by (simp add: with_fbt_idx_def inject_fbt_hdr_def Let_def)

lemma un_le_snoc_zeros: "un_le (bs @ replicate n 0) = un_le bs"
  by (induction bs) (induction n, auto)

lemma extract_with_fbt_idx:
  assumes "idx < 2 ^ 48"
  shows "extract_fbt_hdr (with_fbt_idx k idx @ rest) = Some (idx, rest)"
proof -
  define bs where "bs = le 6 (unat idx)"
  have "unat idx < 2 ^ 48" using assms by (simp add: word_less_nat_alt)
  then have u: "un_le bs = unat idx" by (simp add: bs_def un_le_le)
  have len: "length bs = 6" by (simp add: bs_def)
  have six: "[rev bs ! 5, rev bs ! 4, rev bs ! 3, rev bs ! 2, rev bs ! 1, rev bs ! 0, 0, 0] = bs @ replicate 2 0"
  proof -
    obtain a b c d e f where "bs = [a, b, c, d, e, f]"
      using len by (auto simp: numeral_eq_Suc length_Suc_conv)
    then show ?thesis by (simp add: eval_nat_numeral)
  qed
  have w: "with_fbt_idx k idx @ rest = le32 (htonl (ucast (drop_bit 32 k)))
    @ le32 (htonl (ucast (and k 0xffffffff))) @ rev bs @ rest"
    by (simp add: with_fbt_idx_def inject_fbt_hdr_def Let_def bs_def)
  have r: "read_bytes 6 (rev bs @ rest) = Some (rev bs, rest)" by (rule read_bytes_append) (simp add: len)
  have "extract_fbt_hdr (with_fbt_idx k idx @ rest) = Some (of_nat (un_le (bs @ replicate 2 0)), rest)"
    unfolding w extract_fbt_hdr_def six [symmetric]
    by (simp only: read_unsigned_le32 bind.bind_lunit prod.case r Let_def)
  then show ?thesis by (simp only: un_le_snoc_zeros u) simp
qed

end
