(* ===== verification/Driver.thy ===== *)
theory Driver
  imports Wire
begin

text \<open>
  The DPDK driver (driver/driver.cc): queue numbers of threads, the frames \<open>send_pkt\<close> builds,
  and \<open>recv_pkt\<close> with its queue of packets that have arrived. The two checksum functions and
  the network card are DPDK's: the checksums are parameters, the card is the sequence of bursts
  \<open>rte_eth_rx_burst\<close> will return.
\<close>

section \<open>Queue numbers\<close>

record dpdk_driver =
  nb_queues :: "16 word"
  port_id :: "16 word"
  map_queue_id :: "(nat \<times> 16 word) list"
  map_dest_port :: "(nat \<times> 16 word) list"
  recv_queue :: "nat \<Rightarrow> bytes list"

text \<open>
  \<open>m[id] = m.size()\<close>: C++11, which the Makefiles ask for, does not say whether the size is
  taken before or after \<open>m[id]\<close> has inserted the key; \<open>size_first\<close> is the compiler's choice.
\<close>

definition register_id :: "bool \<Rightarrow> nat \<Rightarrow> (nat \<times> 16 word) list \<Rightarrow> (nat \<times> 16 word) list" where
  "register_id size_first tid m =
     (if map_of m tid = None
      then (let m' = AList.update tid 0 m
            in AList.update tid (of_nat (length (if size_first then m else m'))) m')
      else m)"

definition register_queue_id :: "bool \<Rightarrow> nat \<Rightarrow> dpdk_driver \<Rightarrow> dpdk_driver" where
  "register_queue_id size_first tid d = d\<lparr>map_queue_id := register_id size_first tid (map_queue_id d)\<rparr>"

definition register_dest_port :: "bool \<Rightarrow> nat \<Rightarrow> dpdk_driver \<Rightarrow> dpdk_driver" where
  "register_dest_port size_first tid d = d\<lparr>map_dest_port := register_id size_first tid (map_dest_port d)\<rparr>"

text \<open>\<open>operator[]\<close> inserts 0 for a thread that has not registered.\<close>

definition get_id :: "nat \<Rightarrow> (nat \<times> 16 word) list \<Rightarrow> 16 word \<times> (nat \<times> 16 word) list" where
  "get_id tid m = (case map_of m tid of Some q \<Rightarrow> (q, m) | None \<Rightarrow> (0, AList.update tid 0 m))"

definition get_queue_id :: "nat \<Rightarrow> dpdk_driver \<Rightarrow> 16 word \<times> dpdk_driver" where
  "get_queue_id tid d = (let (q, m) = get_id tid (map_queue_id d) in (q, d\<lparr>map_queue_id := m\<rparr>))"

definition get_dest_port :: "nat \<Rightarrow> dpdk_driver \<Rightarrow> 16 word \<times> dpdk_driver" where
  "get_dest_port tid d = (let (q, m) = get_id tid (map_dest_port d) in (q, d\<lparr>map_dest_port := m\<rparr>))"

section \<open>Frames\<close>

definition udp_hdr :: "16 word \<Rightarrow> 32 word \<Rightarrow> 16 word \<Rightarrow> bytes" where
  "udp_hdr send_no nb_bytes cksum = le16 (htons 0) @ le16 (htons send_no)
     @ le16 (htons (ucast (nb_bytes + 8))) @ le16 cksum"

definition ipv4_hdr :: "32 word \<Rightarrow> 16 word \<Rightarrow> bytes" where
  "ipv4_hdr nb_bytes cksum = [0x45, 0] @ le16 (htons (ucast (nb_bytes + 8 + 20))) @ le16 0 @ le16 0
     @ [64, 17] @ le16 cksum @ le32 (htonl 0) @ le32 (htonl 0)"

definition ether_hdr :: bytes where
  "ether_hdr = replicate 6 0 @ replicate 6 0 @ le16 (htons 0x0800)"

text \<open>
  The frame \<open>send_pkt\<close> hands to \<open>rte_eth_tx_burst\<close>: the UDP checksum is taken over headers
  whose checksums are 0, the IP checksum over an IP header whose checksum is 0.
\<close>

definition send_pkt :: "(bytes \<Rightarrow> bytes \<Rightarrow> 16 word) \<Rightarrow> (bytes \<Rightarrow> 16 word) \<Rightarrow> bytes \<Rightarrow> 32 word
    \<Rightarrow> 16 word \<Rightarrow> bytes" where
  "send_pkt udptcp_cksum ipv4_cksum context nb_bytes send_no =
     (let payload = take (unat nb_bytes) context;
          udp0 = udp_hdr send_no nb_bytes 0; ip0 = ipv4_hdr nb_bytes 0;
          udp = udp_hdr send_no nb_bytes (udptcp_cksum ip0 (udp0 @ payload));
          ip = ipv4_hdr nb_bytes (ipv4_cksum ip0)
      in ether_hdr @ ip @ udp @ payload)"

text \<open>
  What \<open>recv_pkt\<close> takes out of a packet buffer: the destination port, and \<open>nb_bytes\<close> bytes from
  the payload on, whatever the length of the packet is. \<open>mbuf\<close> is the whole buffer, the frame
  followed by what else is in it.
\<close>

definition unpack :: "bytes \<Rightarrow> nat \<Rightarrow> (bytes \<times> 16 word) option" where
  "unpack mbuf nb_bytes = do {
     (_, hdr_ip) \<leftarrow> read_bytes 14 mbuf;
     (_, hdr_udp) \<leftarrow> read_bytes 20 hdr_ip;
     (udp, payload) \<leftarrow> read_bytes 8 hdr_udp;
     let recv_no = htons (of_nat (un_le (take 2 (drop 2 udp))));
     (context, _) \<leftarrow> read_bytes nb_bytes payload;
     Some (context, recv_no) }"

section \<open>Receiving\<close>

text \<open>
  \<open>do ... while (nb_rx < 1)\<close>: polls until a burst is not empty. \<open>None\<close>: no packet ever arrives.
\<close>

fun poll :: "bytes list list \<Rightarrow> (bytes list \<times> bytes list list) option" where
  "poll [] = None"
| "poll (burst # net) = (if burst = [] then poll net else Some (burst, net))"

text \<open>The backend's \<open>recv_pkt\<close> on one queue: its state is the packets taken from the card.\<close>

definition next_mbuf :: "bytes list \<Rightarrow> bytes list list \<Rightarrow> (bytes \<times> bytes list \<times> bytes list list) option" where
  "next_mbuf q net = do {
     (q, net) \<leftarrow> (if q = [] then poll net else Some (q, net));
     Some (hd q, tl q, net) }"

definition recv_pkt :: "nat \<Rightarrow> bytes list \<Rightarrow> bytes list list
    \<Rightarrow> ((bytes \<times> 16 word) \<times> bytes list \<times> bytes list list) option" where
  "recv_pkt nb_bytes q net = do {
     (mbuf, q, net) \<leftarrow> next_mbuf q net;
     r \<leftarrow> unpack mbuf nb_bytes;
     Some (r, q, net) }"

text \<open>The frontend's \<open>recv_pkt\<close> asks the card for one packet and keeps no queue.\<close>

definition recv_pkt_single :: "nat \<Rightarrow> bytes list list \<Rightarrow> ((bytes \<times> 16 word) \<times> bytes list list) option" where
  "recv_pkt_single nb_bytes net = do {
     (burst, net) \<leftarrow> poll net;
     r \<leftarrow> unpack (hd burst) nb_bytes;
     Some (r, net) }"

section \<open>Facts\<close>

lemma length_le16 [simp]: "length (le16 w) = 2"
  by (simp add: le16_def)

lemma un_le_le16: "un_le (le16 w) = unat w"
proof -
  have "unat w < 256 ^ 2" by (rule order_less_le_trans [OF unsigned_less]) simp
  then show ?thesis by (simp add: le16_def un_le_le)
qed

lemma htons_htons [simp]: "htons (htons w) = w"
proof -
  have b: "un_le (rev (le16 w)) < 256 ^ 2" using un_le_bound [of "rev (le16 w)"] by simp
  then have "unat (htons w) = un_le (rev (le16 w))" by (simp add: htons_def unat_of_nat)
  then have "le16 (htons w) = le (length (rev (le16 w))) (un_le (rev (le16 w)))" by (simp add: le16_def)
  then have "le16 (htons w) = rev (le16 w)" by (simp only: le_un_le)
  then show ?thesis by (simp add: htons_def un_le_le16)
qed

lemma length_hdrs [simp]: "length (udp_hdr n b c) = 8" "length (ipv4_hdr b c) = 20" "length ether_hdr = 14"
  by (simp_all add: udp_hdr_def ipv4_hdr_def ether_hdr_def)

text \<open>What is sent arrives, at the port it was sent to, followed by what else is in the buffer.\<close>

lemma unpack_send_pkt:
  assumes "unat nb = length context" "nb_bytes \<le> length (context @ rest)"
  shows "unpack (send_pkt uck ick context nb no @ rest) nb_bytes = Some (take nb_bytes (context @ rest), no)"
proof -
  obtain u i where f: "send_pkt uck ick context nb no @ rest
    = ether_hdr @ ipv4_hdr nb i @ udp_hdr no nb u @ context @ rest"
    using assms(1) by (simp add: send_pkt_def Let_def)
  have p: "take 2 (drop 2 (udp_hdr no nb u)) = le16 (htons no)" by (simp add: udp_hdr_def)
  have r: "read_bytes nb_bytes (context @ rest) = Some (take nb_bytes (context @ rest), drop nb_bytes (context @ rest))"
    using assms(2) by (simp add: read_bytes_def)
  show ?thesis
    unfolding f unpack_def read_bytes_append [OF length_hdrs(3)] read_bytes_append [OF length_hdrs(2)] bind.bind_lunit prod.case
      read_bytes_append [OF length_hdrs(1)] Let_def r
    by (simp add: p un_le_le16)
qed

text \<open>Packets leave the queue in the order in which the card delivered them.\<close>

fun drain :: "nat \<Rightarrow> bytes list \<Rightarrow> bytes list list \<Rightarrow> bytes list \<times> bytes list \<times> bytes list list" where
  "drain 0 q net = ([], q, net)"
| "drain (Suc n) q net = (case next_mbuf q net of None \<Rightarrow> ([], q, net)
     | Some (m, q, net) \<Rightarrow> (let (ms, q, net) = drain n q net in (m # ms, q, net)))"

lemma poll_concat: "poll net = Some (b, net') \<Longrightarrow> concat net = b @ concat net' \<and> b \<noteq> []"
  by (induction net) (auto split: if_splits)

lemma poll_None: "poll net = None \<Longrightarrow> concat net = []"
  by (induction net) (auto split: if_splits)

lemma next_mbuf_concat:
  "next_mbuf q net = Some (m, q', net') \<Longrightarrow> q @ concat net = m # q' @ concat net'"
  using poll_concat [of net] by (auto simp: next_mbuf_def split: if_splits bind_splits)

lemma next_mbuf_None: "next_mbuf q net = None \<Longrightarrow> q @ concat net = []"
  using poll_None [of net] by (auto simp: next_mbuf_def split: if_splits bind_splits)

lemma drain_fifo:
  "drain n q net = (ms, q', net') \<Longrightarrow> ms = take n (q @ concat net) \<and> q' @ concat net' = drop n (q @ concat net)"
proof (induction n arbitrary: q net ms)
  case (Suc n)
  show ?case
  proof (cases "next_mbuf q net")
    case None
    then have "ms = []" "q' = q" "net' = net" using Suc.prems by auto
    then show ?thesis unfolding \<open>q' = q\<close> \<open>net' = net\<close> next_mbuf_None [OF None] by simp
  next
    case (Some r)
    obtain m q1 net1 where r: "r = (m, q1, net1)" by (cases r) auto
    obtain ms1 q2 net2 where d: "drain n q1 net1 = (ms1, q2, net2)" by (cases "drain n q1 net1") auto
    from Suc.prems Some r d have e: "ms = m # ms1" "q' = q2" "net' = net2" by auto
    have c: "q @ concat net = m # (q1 @ concat net1)"
      using next_mbuf_concat [of q net m q1 net1] Some r by simp
    from Suc.IH [of q1 net1 ms1] d e show ?thesis unfolding c by simp
  qed
qed simp

text \<open>
  The threads that register get numbers that are all different; they are the numbers below the
  count of threads only when the size is taken first.
\<close>

lemma register_id_new:
  assumes "tid \<notin> fst ` set m"
  shows "register_id size_first tid m = m @ [(tid, of_nat (length m + (if size_first then 0 else 1)))]"
proof -
  have new: "AList.update tid v m = m @ [(tid, v)]" for v using assms by (induction m) auto
  have upd: "AList.update tid v (m @ [(tid, w)]) = m @ [(tid, v)]" for v w using assms by (induction m) auto
  have "map_of m tid = None" using assms by (simp add: map_of_eq_None_iff)
  then show ?thesis by (simp add: register_id_def Let_def new upd)
qed


lemma register_ids:
  assumes "distinct tids"
  shows "fold (register_id size_first) tids [] = map (\<lambda>i. (tids ! i, of_nat (i + (if size_first then 0 else 1)))) [0..<length tids]"
  using assms
proof (induction tids rule: rev_induct)
  case (snoc t tids)
  let ?f = "\<lambda>ts i. (ts ! i, of_nat (i + (if size_first then 0 else 1)) :: 16 word)"
  have IH: "fold (register_id size_first) tids [] = map (?f tids) [0..<length tids]" using snoc by simp
  have "fst ` set (map (?f tids) [0..<length tids]) = set tids"
    by (auto simp: in_set_conv_nth image_image image_iff Bex_def)
  then have "register_id size_first t (map (?f tids) [0..<length tids])
    = map (?f tids) [0..<length tids] @ [(t, of_nat (length tids + (if size_first then 0 else 1)))]"
    using register_id_new [of t "map (?f tids) [0..<length tids]"] snoc.prems by simp
  moreover have "map (?f tids) [0..<length tids] = map (?f (tids @ [t])) [0..<length tids]"
    by (simp add: nth_append)
  ultimately show ?case by (simp add: IH)
qed simp

end
