(* ===== verification/Backend.thy ===== *)
theory Backend
  imports Driver
begin

text \<open>
  The server, backend.cc (backend-1 to backend-4 differ in the mask they load the switch with):
  one handler per message type and the loop that takes a message, finds its handler and sends
  the reply. The handlers take the operations of the tree as arguments; the second half of the
  theory shows what they do for any store that keeps the contract of Tree_Store.

  A state is the tree; a step returns the new state and the packets it sends, \<open>None\<close> standing
  for a read beyond the message, a write beyond the reply buffer, or undefined behaviour in
  the tree.
\<close>

section \<open>Handlers\<close>

record sent =
  payload :: bytes
  to_port :: "16 word"
  on_queue :: "16 word"

text \<open>\<open>new char[1472]\<close>\<close>

definition reply :: "bytes \<Rightarrow> 16 word \<Rightarrow> sent option" where
  "reply ret dst_qid = (if length ret \<le> 1472
     then Some \<lparr>payload = ret, to_port = dst_qid, on_queue = 0\<rparr> else None)"

definition handle_insert :: "('s \<Rightarrow> string \<Rightarrow> fields \<Rightarrow> 's option) \<Rightarrow> bytes \<Rightarrow> 16 word \<Rightarrow> 's
    \<Rightarrow> ('s \<times> sent list) option" where
  "handle_insert ins msg dst_qid s = do {
     (key_index, msg) \<leftarrow> extract_key_index msg;
     (values, msg) \<leftarrow> extract_values msg;
     s \<leftarrow> ins s key_index values;
     pkt \<leftarrow> reply (inject_msg_type_backend 0x0528 0) dst_qid;
     Some (s, [pkt]) }"

definition handle_update :: "('s \<Rightarrow> string \<Rightarrow> fields \<Rightarrow> 64 word \<Rightarrow> 's option) \<Rightarrow> bytes \<Rightarrow> 16 word \<Rightarrow> 's
    \<Rightarrow> ('s \<times> sent list) option" where
  "handle_update upd msg dst_qid s = do {
     (fbt_idx, msg) \<leftarrow> extract_fbt_hdr msg;
     (key_index, msg) \<leftarrow> extract_key_index msg;
     (values, msg) \<leftarrow> extract_values msg;
     s \<leftarrow> upd s key_index values fbt_idx;
     pkt \<leftarrow> reply (inject_msg_type_backend 0x0530 0) dst_qid;
     Some (s, [pkt]) }"

definition handle_query :: "('s \<Rightarrow> string \<Rightarrow> 64 word \<Rightarrow> ('s \<times> fields) option) \<Rightarrow> int \<Rightarrow> bytes \<Rightarrow> 16 word \<Rightarrow> 's
    \<Rightarrow> ('s \<times> sent list) option" where
  "handle_query look mode msg dst_qid s = do {
     (fbt_idx, msg) \<leftarrow> extract_fbt_hdr msg;
     (key_index, msg) \<leftarrow> extract_key_index msg;
     let fbt_idx = (if mode = 0 then 0 else fbt_idx);
     (s, values) \<leftarrow> look s key_index fbt_idx;
     pkt \<leftarrow> reply (inject_msg_type_backend 0x0529 0 @ inject_values values) dst_qid;
     Some (s, [pkt]) }"

definition handle_load2switch :: "('s \<Rightarrow> ('s \<times> files) option) \<Rightarrow> 's \<Rightarrow> ('s \<times> files \<times> sent list) option" where
  "handle_load2switch load s = do {
     (s, fs) \<leftarrow> load s;
     pkt \<leftarrow> reply (inject_msg_type_backend 0x601 0) 0;
     Some (s, fs, [pkt]) }"

text \<open>One round of the loop in \<open>main\<close>. The files are those written by this round.\<close>

definition backend_step :: "('s \<Rightarrow> string \<Rightarrow> fields \<Rightarrow> 's option) \<Rightarrow> ('s \<Rightarrow> string \<Rightarrow> 64 word \<Rightarrow> ('s \<times> fields) option)
    \<Rightarrow> ('s \<Rightarrow> string \<Rightarrow> fields \<Rightarrow> 64 word \<Rightarrow> 's option) \<Rightarrow> ('s \<Rightarrow> ('s \<times> files) option) \<Rightarrow> ('s \<Rightarrow> 's)
    \<Rightarrow> int \<Rightarrow> bytes \<times> 16 word \<Rightarrow> 's \<Rightarrow> ('s \<times> files \<times> sent list) option" where
  "backend_step ins look upd load reset mode pkt s = (case pkt of (msg, recv_no) \<Rightarrow> do {
     (msg_type, msg) \<leftarrow> extract_msg_type msg;
     if msg_type = 0x0526 then do { (s, out) \<leftarrow> handle_insert ins msg recv_no s; Some (s, [], out) }
     else if msg_type = 0x0527 then do { (s, out) \<leftarrow> handle_query look mode msg recv_no s; Some (s, [], out) }
     else if msg_type = 0x0531 then do { (s, out) \<leftarrow> handle_update upd msg recv_no s; Some (s, [], out) }
     else if msg_type = 0x0600 then do {
       (s, fs, out) \<leftarrow> handle_load2switch load s;
       Some (reset s, fs, out) }
     else Some (s, [], []) })"

text \<open>\<open>while (true)\<close> over the packets that arrive.\<close>

fun backend_run :: "('s \<Rightarrow> string \<Rightarrow> fields \<Rightarrow> 's option) \<Rightarrow> ('s \<Rightarrow> string \<Rightarrow> 64 word \<Rightarrow> ('s \<times> fields) option)
    \<Rightarrow> ('s \<Rightarrow> string \<Rightarrow> fields \<Rightarrow> 64 word \<Rightarrow> 's option) \<Rightarrow> ('s \<Rightarrow> ('s \<times> files) option) \<Rightarrow> ('s \<Rightarrow> 's)
    \<Rightarrow> int \<Rightarrow> (bytes \<times> 16 word) list \<Rightarrow> 's \<Rightarrow> ('s \<times> sent list) option" where
  "backend_run ins look upd load reset mode [] s = Some (s, [])"
| "backend_run ins look upd load reset mode (pkt # pkts) s = do {
     (s, _, out) \<leftarrow> backend_step ins look upd load reset mode pkt s;
     (s, outs) \<leftarrow> backend_run ins look upd load reset mode pkts s;
     Some (s, out @ outs) }"

section \<open>The deployed server\<close>

definition root_load_num :: nat where "root_load_num = 150"
definition max_load_num :: nat where "max_load_num = 800"
definition compress_depth :: nat where "compress_depth = 2"

definition node_info_txt :: "string list" where
  "node_info_txt = [''node_info_0.txt'', ''node_info_1.txt'', ''node_info_2.txt'', ''node_info_3.txt'']"

text \<open>\<open>b_plus_tree.nb_query = 0; b_plus_tree.nb_access = 0;\<close>\<close>

definition reset_counters :: "('k, 'v) tree \<Rightarrow> ('k, 'v) tree" where
  "reset_counters s = s\<lparr>nb_query := 0, nb_access := 0\<rparr>"

text \<open>Backend \<open>part\<close> (0 to 3) loads the switch with the mask \<open>part << 46\<close>.\<close>

definition ethernet_load :: "((string, fields) tree \<Rightarrow> nat list \<Rightarrow> nat)
    \<Rightarrow> ((string, fields) tree \<Rightarrow> nat list \<Rightarrow> nat list) \<Rightarrow> nat \<Rightarrow> 64 word \<Rightarrow> (string, fields) tree
    \<Rightarrow> ((string, fields) tree \<times> files) option" where
  "ethernet_load pick srt sz part s = load2switch_greedy remove_key_index_prefix '''' pick srt tree_M sz s
     node_info_txt root_load_num max_load_num compress_depth (push_bit 46 part)"

definition ethernet_step :: "((string, fields) tree \<Rightarrow> nat list \<Rightarrow> nat)
    \<Rightarrow> ((string, fields) tree \<Rightarrow> nat list \<Rightarrow> nat list) \<Rightarrow> nat \<Rightarrow> 64 word \<Rightarrow> int \<Rightarrow> bytes \<times> 16 word
    \<Rightarrow> (string, fields) tree \<Rightarrow> ((string, fields) tree \<times> files \<times> sent list) option" where
  "ethernet_step pick srt sz part = backend_step (tree_insert tree_M MAX_NODE_SIZE)
     (tree_lookup MAX_NODE_SIZE sz) (tree_update MAX_NODE_SIZE sz) (ethernet_load pick srt sz part) reset_counters"

definition ethernet_run :: "((string, fields) tree \<Rightarrow> nat list \<Rightarrow> nat)
    \<Rightarrow> ((string, fields) tree \<Rightarrow> nat list \<Rightarrow> nat list) \<Rightarrow> nat \<Rightarrow> 64 word \<Rightarrow> int \<Rightarrow> (bytes \<times> 16 word) list
    \<Rightarrow> (string, fields) tree \<Rightarrow> ((string, fields) tree \<times> sent list) option" where
  "ethernet_run pick srt sz part = backend_run (tree_insert tree_M MAX_NODE_SIZE)
     (tree_lookup MAX_NODE_SIZE sz) (tree_update MAX_NODE_SIZE sz) (ethernet_load pick srt sz part) reset_counters"

text \<open>The four server programs; backend.cc of each has its own mask.\<close>

definition backend_1 :: "((string, fields) tree \<Rightarrow> nat list \<Rightarrow> nat)
    \<Rightarrow> ((string, fields) tree \<Rightarrow> nat list \<Rightarrow> nat list) \<Rightarrow> nat \<Rightarrow> int \<Rightarrow> (bytes \<times> 16 word) list
    \<Rightarrow> ((string, fields) tree \<times> sent list) option" where
  "backend_1 pick srt sz mode pkts = ethernet_run pick srt sz 0 mode pkts (new_BPlusTree [])"

definition backend_2 :: "((string, fields) tree \<Rightarrow> nat list \<Rightarrow> nat)
    \<Rightarrow> ((string, fields) tree \<Rightarrow> nat list \<Rightarrow> nat list) \<Rightarrow> nat \<Rightarrow> int \<Rightarrow> (bytes \<times> 16 word) list
    \<Rightarrow> ((string, fields) tree \<times> sent list) option" where
  "backend_2 pick srt sz mode pkts = ethernet_run pick srt sz 1 mode pkts (new_BPlusTree [])"

definition backend_3 :: "((string, fields) tree \<Rightarrow> nat list \<Rightarrow> nat)
    \<Rightarrow> ((string, fields) tree \<Rightarrow> nat list \<Rightarrow> nat list) \<Rightarrow> nat \<Rightarrow> int \<Rightarrow> (bytes \<times> 16 word) list
    \<Rightarrow> ((string, fields) tree \<times> sent list) option" where
  "backend_3 pick srt sz mode pkts = ethernet_run pick srt sz 2 mode pkts (new_BPlusTree [])"

definition backend_4 :: "((string, fields) tree \<Rightarrow> nat list \<Rightarrow> nat)
    \<Rightarrow> ((string, fields) tree \<Rightarrow> nat list \<Rightarrow> nat list) \<Rightarrow> nat \<Rightarrow> int \<Rightarrow> (bytes \<times> 16 word) list
    \<Rightarrow> ((string, fields) tree \<times> sent list) option" where
  "backend_4 pick srt sz mode pkts = ethernet_run pick srt sz 3 mode pkts (new_BPlusTree [])"

section \<open>Requests and what they mean\<close>

text \<open>
  The requests as a client means them. The messages carry the partition id and the address \<open>b\<close>
  that the switch has put into the header.
\<close>

datatype request = Insert_req string fields | Query_req string | Update_req string fields

fun request_msg :: "8 word \<Rightarrow> (string \<Rightarrow> 64 word) \<Rightarrow> (string \<Rightarrow> 64 word) \<Rightarrow> request \<Rightarrow> bytes" where
  "request_msg pid num adr (Insert_req k v) = inject_msg_type 0x0526 pid @ inject_key_index k @ inject_values v"
| "request_msg pid num adr (Query_req k) = inject_msg_type 0x0527 pid @ with_fbt_idx (num k) (adr k) @ inject_key_index k"
| "request_msg pid num adr (Update_req k v) = inject_msg_type 0x0531 pid @ with_fbt_idx (num k) (adr k)
     @ inject_key_index k @ inject_values v"

text \<open>The specification: a map from keys to records, and the replies.\<close>

fun spec_step :: "(string \<rightharpoonup> fields) \<Rightarrow> request \<Rightarrow> (string \<rightharpoonup> fields) \<times> bytes" where
  "spec_step m (Insert_req k v) = (m(k \<mapsto> update_field_table v []), inject_msg_type_backend 0x0528 0)"
| "spec_step m (Query_req k) = (m, inject_msg_type_backend 0x0529 0 @ inject_values (the (m k)))"
| "spec_step m (Update_req k v) = (m(k \<mapsto> update_field_table v (the (m k))), inject_msg_type_backend 0x0530 0)"

fun spec_run :: "(string \<rightharpoonup> fields) \<Rightarrow> request list \<Rightarrow> (string \<rightharpoonup> fields) \<times> bytes list" where
  "spec_run m [] = (m, [])"
| "spec_run m (r # rs) = (let (m, b) = spec_step m r; (m, bs) = spec_run m rs in (m, b # bs))"

text \<open>
  The requests the server answers: keys are inserted once, and looked up and updated when they
  are there; the record fits into the reply.
\<close>

fun sensible :: "(string \<rightharpoonup> fields) \<Rightarrow> request \<Rightarrow> bool" where
  "sensible m (Insert_req k v) \<longleftrightarrow> string_fits k \<and> fields_fit v \<and> m k = None"
| "sensible m (Query_req k) \<longleftrightarrow> string_fits k \<and> (\<exists>x. m k = Some x \<and> length (inject_values x) \<le> 1467)"
| "sensible m (Update_req k v) \<longleftrightarrow> string_fits k \<and> fields_fit v \<and> m k \<noteq> None"

fun sensible_run :: "(string \<rightharpoonup> fields) \<Rightarrow> request list \<Rightarrow> bool" where
  "sensible_run m [] \<longleftrightarrow> True"
| "sensible_run m (r # rs) \<longleftrightarrow> sensible m r \<and> sensible_run (fst (spec_step m r)) rs"

lemma length_backend_type [simp]: "length (inject_msg_type_backend t p) = 5"
  by (simp add: inject_msg_type_backend_def Let_def)

lemma reply_Some: "length b \<le> 1472 \<Longrightarrow> reply b d = Some \<lparr>payload = b, to_port = d, on_queue = 0\<rparr>"
  by (simp add: reply_def)

section \<open>Handlers over a store\<close>

locale string_store = record_store wf recs room way held ins look upd
  for wf :: "'s \<Rightarrow> bool" and recs :: "'s \<Rightarrow> string \<Rightarrow> fields option" and room way held ins look upd
begin

text \<open>One message that carries an address the switch may hold and that is on the way to its key.\<close>

lemma step_ok:
  assumes s: "wf s" and r: "sensible (recs s) r" and rm: "\<And>k. room s k"
    and at: "\<And>k. adr k < 2 ^ 48 \<and> held s (adr k) \<and> way s (adr k) k"
  shows "\<exists>t. backend_step ins look upd load reset 1 (request_msg pid num adr r @ rest, no) s
      = Some (t, [], [\<lparr>payload = snd (spec_step (recs s) r), to_port = no, on_queue = 0\<rparr>])
    \<and> wf t \<and> recs t = fst (spec_step (recs s) r) \<and> (\<forall>k. held t (adr k) \<and> way t (adr k) k)"
proof (cases r)
  case (Insert_req k v)
  with r have k: "string_fits k" "fields_fit v" "recs s k = None" by auto
  obtain t where t: "ins s k v = Some t" "wf t" "recs t = (recs s)(k \<mapsto> update_field_table v [])"
    "\<forall>b. held s b \<longrightarrow> held t b \<and> (\<forall>k'. way s b k' \<longrightarrow> way t b k')"
    using ins_law [OF s k(3) rm] by blast
  have "handle_insert ins (inject_key_index k @ inject_values v @ rest) no s
    = Some (t, [\<lparr>payload = inject_msg_type_backend 0x0528 0, to_port = no, on_queue = 0\<rparr>])"
    using key_codec.dec_enc [OF k(1)] values_codec.dec_enc [OF k(2)] t(1)
    by (simp add: handle_insert_def reply_Some)
  then show ?thesis
    using t at by (auto simp: Insert_req backend_step_def)
next
  case (Query_req k)
  with r obtain x where k: "string_fits k" "recs s k = Some x" "length (inject_values x) \<le> 1467" by auto
  obtain t where t: "look s k (adr k) = Some (t, x)" "wf t" "recs t = recs s" "way t = way s" "held t = held s"
    using look_law [OF s _ k(2)] at by blast
  have "handle_query look 1 (with_fbt_idx (num k) (adr k) @ inject_key_index k @ rest) no s
    = Some (t, [\<lparr>payload = inject_msg_type_backend 0x0529 0 @ inject_values x, to_port = no, on_queue = 0\<rparr>])"
    using extract_with_fbt_idx [of "adr k"] at key_codec.dec_enc [OF k(1)] t(1) k(3)
    by (simp add: handle_query_def reply_Some)
  then show ?thesis
    using t at k(2) by (auto simp: Query_req backend_step_def)
next
  case (Update_req k v)
  with r obtain x where k: "string_fits k" "fields_fit v" "recs s k = Some x" by auto
  obtain t where t: "upd s k v (adr k) = Some t" "wf t" "recs t = (recs s)(k \<mapsto> update_field_table v x)"
    "way t = way s" "held t = held s"
    using upd_law [OF s _ k(3)] at by blast
  have "handle_update upd (with_fbt_idx (num k) (adr k) @ inject_key_index k @ inject_values v @ rest) no s
    = Some (t, [\<lparr>payload = inject_msg_type_backend 0x0530 0, to_port = no, on_queue = 0\<rparr>])"
    using extract_with_fbt_idx [of "adr k"] at key_codec.dec_enc [OF k(1)] values_codec.dec_enc [OF k(2)] t(1)
    by (simp add: handle_update_def reply_Some)
  then show ?thesis
    using t at k(3) by (auto simp: Update_req backend_step_def)
qed

end

text \<open>A packet that carries a request; the receive buffer goes on after the message.\<close>

definition carries :: "8 word \<Rightarrow> (string \<Rightarrow> 64 word) \<Rightarrow> (string \<Rightarrow> 64 word) \<Rightarrow> request \<Rightarrow> bytes \<times> 16 word \<Rightarrow> bool" where
  "carries pid num adr r pkt \<longleftrightarrow> (\<exists>rest. fst pkt = request_msg pid num adr r @ rest)"

text \<open>A store that has room for a new record as long as it holds fewer than \<open>cap\<close>.\<close>

locale bounded_store = string_store wf recs room way held ins look upd
  for wf :: "'s \<Rightarrow> bool" and recs :: "'s \<Rightarrow> string \<Rightarrow> fields option" and room way held ins look upd +
  fixes cap :: nat
  assumes room_law: "wf s \<Longrightarrow> finite (dom (recs s)) \<and> (card (dom (recs s)) < cap \<longrightarrow> room s k)"
begin

lemma run_ok:
  assumes "wf s" "sensible_run (recs s) rs" "card (dom (recs s)) + length rs \<le> cap"
    and "\<And>k. adr k < 2 ^ 48 \<and> held s (adr k) \<and> way s (adr k) k"
    and "list_all2 (carries pid num adr) rs pkts"
  shows "\<exists>t outs. backend_run ins look upd load reset 1 pkts s = Some (t, outs) \<and> wf t
    \<and> spec_run (recs s) rs = (recs t, map payload outs) \<and> map to_port outs = map snd pkts
    \<and> (\<forall>k. held t (adr k) \<and> way t (adr k) k)"
  using assms
proof (induction rs arbitrary: s pkts)
  case (Cons r rs)
  obtain pkt pkts' where p: "pkts = pkt # pkts'" "carries pid num adr r pkt" "list_all2 (carries pid num adr) rs pkts'"
    using Cons.prems(5) by (cases pkts) auto
  obtain rest no where pk: "pkt = (request_msg pid num adr r @ rest, no)"
    using p(2) by (cases pkt) (auto simp: carries_def)
  have sr: "sensible (recs s) r" "sensible_run (fst (spec_step (recs s) r)) rs" using Cons.prems(2) by auto
  note fin = room_law [OF Cons.prems(1)]
  have "room s k" for k using fin Cons.prems(3) by simp
  then obtain t where t: "backend_step ins look upd load reset 1 pkt s
      = Some (t, [], [\<lparr>payload = snd (spec_step (recs s) r), to_port = no, on_queue = 0\<rparr>])"
    "wf t" "recs t = fst (spec_step (recs s) r)" "\<And>k. held t (adr k) \<and> way t (adr k) k"
    using step_ok [OF Cons.prems(1) sr(1) _ Cons.prems(4), of load reset pid num rest no] unfolding pk by blast
  have "card (dom (recs t)) \<le> Suc (card (dom (recs s)))"
    using fin by (cases r) (auto simp: t(3) card_insert_if)
  then have c: "card (dom (recs t)) + length rs \<le> cap" using Cons.prems(3) by simp
  have "sensible_run (recs t) rs" using sr(2) t(3) by simp
  from Cons.IH [OF t(2) this c _ p(3)] t(4) Cons.prems(4) obtain u outs where
    u: "backend_run ins look upd load reset 1 pkts' t = Some (u, outs)" "wf u"
      "spec_run (recs t) rs = (recs u, map payload outs)" "map to_port outs = map snd pkts'"
      "\<forall>k. held u (adr k) \<and> way u (adr k) k" by blast
  show ?case
  proof (intro exI conjI)
    show "backend_run ins look upd load reset 1 pkts s
      = Some (u, \<lparr>payload = snd (spec_step (recs s) r), to_port = no, on_queue = 0\<rparr> # outs)"
      by (simp add: p(1) t(1) u(1))
    show "spec_run (recs s) (r # rs) = (recs u, map payload (\<lparr>payload = snd (spec_step (recs s) r), to_port = no, on_queue = 0\<rparr> # outs))"
      using u(3) t(3) by (simp add: split_def Let_def)
    show "map to_port (\<lparr>payload = snd (spec_step (recs s) r), to_port = no, on_queue = 0\<rparr> # outs) = map snd pkts"
      using u(4) by (simp add: p(1) pk)
  qed (use u in auto)
qed simp

end

definition ethernet_cap :: nat where
  "ethernet_cap = (MAX_NODE_SIZE - 4) div 6 + 1"

interpretation ethernet: bounded_store "tree_wf tree_M" contents "insert_room MAX_NODE_SIZE"
    "reach MAX_NODE_SIZE sz" "held_by_switch MAX_NODE_SIZE sz" "tree_insert tree_M MAX_NODE_SIZE"
    "tree_lookup MAX_NODE_SIZE sz" "tree_update MAX_NODE_SIZE sz" ethernet_cap
  for sz :: nat
proof (intro_locales, unfold_locales)
  fix s :: "(string, fields) tree" and k
  assume w: "tree_wf tree_M s"
  show "finite (dom (contents s)) \<and> (card (dom (contents s)) < ethernet_cap \<longrightarrow> insert_room MAX_NODE_SIZE s k)"
    using room_for_next [OF w, of MAX_NODE_SIZE k]
    by (auto simp: contents_def finite_dom_map_of ethernet_cap_def MAX_NODE_SIZE_def)
qed

end
