(* ===== verification/Tree_Properties.thy ===== *)
theory Tree_Properties
  imports Backend
begin

text \<open>
  The properties of the backend's pool tree: what \<open>insert\<close>, \<open>lookup\<close> and \<open>update\<close> do to the
  map of records, why the addresses the switch holds stay good, what a lookup costs, and
  that the pool does not run out of nodes.
\<close>

section \<open>The cost of a walk\<close>

lemma same_shape_path: "same_shape s t \<Longrightarrow> path f t n k = path f s n k"
proof -
  assume S: "same_shape s t"
  show ?thesis
    using S same_shapeD(3) [OF S] by (induction f arbitrary: n) (auto simp: same_shape_def split: option.split)
qed

lemma walk_cost:
  assumes "inv_at v0 s R rk kv" "tree_node s n" "in_range (R n) k" "below s rk n < g"
    and "walk f True s n k = Some (t, v)"
  shows "nb_access t = nb_access s + of_nat (length (path g s n k))"
  using assms
proof (induction f arbitrary: s n g)
  case (Suc f)
  note I = Suc.prems(1) and n = Suc.prems(2) and k = Suc.prems(3)
  have nv: "\<not> isValue (pool s n)" using n by (simp add: tree_node_def)
  obtain h where g: "g = Suc h" using Suc.prems(4) by (cases g) auto
  define s1 where "s1 = s\<lparr>nb_access := nb_access s + 1\<rparr>"
  from Suc.prems(5) nv obtain d where d: "next_child s1 n k = Some d"
    and w: "walk f True (upd_node d (\<lambda>n. n\<lparr>access_count := access_count n + 1\<rparr>) s1) d k = Some (t, v)"
    by (auto simp: Let_def s1_def split: bind_splits)
  define s2 where "s2 = upd_node d (\<lambda>n. n\<lparr>access_count := access_count n + 1\<rparr>) s1"
  have c: "counts_only s s2"
    unfolding s2_def s1_def by (rule counts_only_trans [OF counts_only_globals(1) counts_only_node])
  note S = counts_only_shape [OF c]
  have d': "next_child s n k = Some d" using d by (simp add: s1_def next_child_def)
  have a2: "nb_access s2 = nb_access s + 1" by (simp add: s2_def s1_def upd_node_def)
  show ?case
  proof (cases "isLeaf (pool s n)")
    case True
    have "d \<in> set (child (pool s n))" using d' by (auto simp: next_child_def dest!: nth_opt_SomeE)
    then have "isValue (pool s2 d)"
      using inv_children_old(5) [OF I n _ True] counts_only_pool(2) [OF c] by simp
    with w have "t = s2" by (cases f) (auto simp: s2_def)
    with True show ?thesis by (simp add: a2 g)
  next
    case False
    obtain d'' where "next_child s n k = Some d''" "link s R rk n (lower_bound (nkey (pool s n)) k) d''"
      "in_range (R d'') k" by (rule next_child_link [OF I n False k])
    with d' have l: "link s R rk n (lower_bound (nkey (pool s n)) k) d" "in_range (R d) k" by auto
    have tn: "tree_node s2 d" using l(1) same_shapeD(1) [OF S] by (simp add: link_def)
    have "below s rk d < below s rk n"
      using l(1) by (intro below_less) (auto simp: link_def tree_node_def)
    then have "below s2 rk d < h" using Suc.prems(4) g counts_only_pool(8) [OF c] by (simp add: below_def)
    from Suc.IH [OF inv_counts_only [OF I c] tn l(2) this] w
    have "nb_access t = nb_access s2 + of_nat (length (path h s d k))"
      by (simp add: s2_def [symmetric] same_shape_path [OF S])
    with False d' show ?thesis by (simp add: a2 g algebra_simps)
  qed
qed simp

lemma path_fuel:
  assumes I: "inv_at v0 s R rk kv"
  shows "tree_node s n \<Longrightarrow> in_range (R n) k \<Longrightarrow> below s rk n < f \<Longrightarrow> below s rk n < g
    \<Longrightarrow> path f s n k = path g s n k"
proof (induction f arbitrary: n g)
  case (Suc f)
  obtain h where g: "g = Suc h" using Suc.prems(4) by (cases g) auto
  show ?case
  proof (cases "isLeaf (pool s n)")
    case False
    obtain d where d: "next_child s n k = Some d" "link s R rk n (lower_bound (nkey (pool s n)) k) d"
      "in_range (R d) k" by (rule next_child_link [OF I Suc.prems(1) False Suc.prems(2)])
    then have l: "tree_node s d" "rk n < rk d" by (auto simp: link_def)
    then have "below s rk d < below s rk n" by (intro below_less) (auto simp: tree_node_def)
    then show ?thesis using Suc.IH [OF l(1) d(3), of h] Suc.prems(3,4) g False d(1) by simp
  qed (simp add: g)
qed simp

text \<open>The walk from a node on the route visits what is left of the route.\<close>

lemma path_suffix:
  assumes I: "inv_at v0 s R rk kv" and g: "below s rk n < g"
  shows "tree_node s m \<Longrightarrow> in_range (R m) k \<Longrightarrow> below s rk m < f \<Longrightarrow> n \<in> set (path f s m k)
    \<Longrightarrow> \<exists>pre. path f s m k = pre @ path g s n k"
proof (induction f arbitrary: m)
  case (Suc f)
  show ?case
  proof (cases "n = m")
    case True
    then show ?thesis using path_fuel [OF I Suc.prems(1,2,3), of g] g by (intro exI [of _ "[]"]) simp
  next
    case ne: False
    then have lf: "\<not> isLeaf (pool s m)" using Suc.prems(4) by (auto split: if_splits)
    obtain d where d: "next_child s m k = Some d" "link s R rk m (lower_bound (nkey (pool s m)) k) d"
      "in_range (R d) k" by (rule next_child_link [OF I Suc.prems(1) lf Suc.prems(2)])
    then have l: "tree_node s d" "rk m < rk d" by (auto simp: link_def)
    then have "below s rk d < below s rk m" by (intro below_less) (auto simp: tree_node_def)
    then have "below s rk d < f" using Suc.prems(3) by simp
    moreover have "n \<in> set (path f s d k)" using Suc.prems(4) ne lf d(1) by simp
    ultimately obtain pre where "path f s d k = pre @ path g s n k" using Suc.IH [OF l(1) d(3)] by blast
    then show ?thesis using lf d(1) by (intro exI [of _ "m # pre"]) simp
  qed
qed simp

lemma lookup_cost_aux:
  assumes w: "tree_wf M s" and n: "node_at mx sz bias = Some n" "n \<in> set (route s k)"
    and l: "tree_lookup mx sz s k bias = Some (t, x)"
  shows "\<exists>before rest. route s k = before @ n # rest \<and> nb_access t = nb_access s + of_nat (length (n # rest))"
proof -
  from w obtain R rk kv where I: "inv_at [] s R rk kv" by (auto simp: tree_wf_def tree_inv_def)
  define s1 where "s1 = upd_node n (\<lambda>n. n\<lparr>access_count := access_count n + 1\<rparr>) (s\<lparr>nb_query := nb_query s + 1\<rparr>)"
  have c: "counts_only s s1"
    unfolding s1_def by (rule counts_only_trans [OF counts_only_globals(2) counts_only_node])
  note S = counts_only_shape [OF c]
  have r: "tree_node s n" "in_range (R n) k" using n(2) on_route_iff [OF I] by auto
  obtain v where wk: "walk (Suc (nb_node s1)) True s1 n k = Some (t, v)"
    using l by (auto simp: tree_lookup_def n(1) s1_def [symmetric] Let_def simp del: walk.simps split: bind_splits)
  have nb: "nb_node s1 = nb_node s" using S by (simp add: same_shape_def)
  have b: "below s rk n < nb_node s" using below_bound [of n s rk] r(1) by (simp add: tree_node_def)
  have "nb_access t = nb_access s1 + of_nat (length (path (nb_node s) s1 n k))"
    using walk_cost [OF inv_counts_only [OF I c] _ r(2) _ wk, of "nb_node s"] r(1) b
      same_shapeD(1) [OF S] nb by (simp add: below_def)
  then have a: "nb_access t = nb_access s + of_nat (length (path (nb_node s) s n k))"
    by (simp add: same_shape_path [OF S]) (simp add: s1_def upd_node_def)
  have r0: "tree_node s 0" "in_range (R 0) k" using inv_root [OF I] by simp_all
  have b0: "below s rk 0 < nb_node s" using below_bound [of 0 s rk] r0(1) by (simp add: tree_node_def)
  obtain pre where p: "route s k = pre @ path (nb_node s) s n k"
    using path_suffix [OF I b r0 b0] n(2) by (auto simp: route_def)
  obtain f where "nb_node s = Suc f" using b by (cases "nb_node s") auto
  then obtain rest where "path (nb_node s) s n k = n # rest" by simp
  with p a show ?thesis by auto
qed

section \<open>Node addresses\<close>

lemma low_word: "unat (and (or msk (of_nat m :: 64 word)) 0xFFFFFFFF) = m"
  if "and msk 0xFFFFFFFF = (0 :: 64 word)" "m < 2 ^ 32" for m
proof -
  have m: "(0xFFFFFFFF :: 64 word) = mask 32" by (simp add: mask_eq_exp_minus_1)
  have "and (or msk (of_nat m :: 64 word)) (mask 32) = and (of_nat m) (mask 32)"
    using that(1) unfolding m by (simp add: bit.conj_disj_distrib2)
  then have "and (or msk (of_nat m :: 64 word)) 0xFFFFFFFF = take_bit 32 (of_nat m)"
    unfolding m take_bit_eq_mask .
  moreover have "unat (of_nat m :: 64 word) = m"
    using that(2) by (simp add: unat_of_nat)
  moreover have "take_bit 32 m = m" using that(2) by (rule take_bit_nat_eq_self)
  ultimately show ?thesis by (simp only: unsigned_take_bit_eq)
qed

lemma node_at_address:
  assumes "and msk 0xFFFFFFFF = 0" "n * sz < 2 ^ 32" "n < mx" "0 < sz"
  shows "node_at mx sz (node_address sz msk n) = Some n"
  using assms low_word [OF assms(1,2)] by (simp add: node_at_def node_address_def)

lemma backend_store_lookup:
  assumes "tree_wf M s" "reach mx sz s b k" "contents s k = Some x"
  obtains t where "tree_lookup mx sz s k b = Some (t, x)" "counts_only s t"
proof -
  from assms(1) obtain R rk kv where I: "inv_at [] s R rk kv" by (auto simp: tree_wf_def tree_inv_def)
  show thesis by (rule tree_lookup_present [OF I assms(2,3)]) (rule that)
qed

section \<open>A tree to try things on\<close>

text \<open>Twenty records, enough for the first split of a leaf, in a pool of 1000 nodes.\<close>

definition sample_load :: "(nat \<times> fields) list" where
  "sample_load = map (\<lambda>i. (i, [(''field0'', to_string i)])) [0..<20]"

lemma sample_tree:
  obtains s where "tree_load tree_M 1000 (new_BPlusTree []) sample_load = Some s" "tree_wf tree_M s"
    "contents s 7 = Some [(''field0'', ''7'')]" "contents s 20 = None" "dom (contents s) = {..<20}"
    "\<forall>k. 0 \<in> set (route s k)"
proof -
  have M: "3 \<le> tree_M" "0 < tree_M" by (simp_all add: tree_M_def)
  have d: "distinct (map fst sample_load)" by (simp add: sample_load_def comp_def)
  have l: "length sample_load = 20" by (simp add: sample_load_def)
  have e: "fst ` set sample_load \<inter> dom (contents (new_BPlusTree [])) = {}" by (simp add: contents_new)
  have b: "6 * (card (dom (contents (new_BPlusTree []))) + length sample_load) \<le> 1000 + 2"
    by (simp add: contents_new l)
  obtain s where s: "tree_load tree_M 1000 (new_BPlusTree []) sample_load = Some s" "tree_wf tree_M s"
    "contents s = contents (new_BPlusTree []) ++ map_of (map (\<lambda>(k, v). (k, update_field_table v [])) sample_load)"
    by (rule tree_load_ok [OF tree_wf_new [OF M(2)] M(1) d e b])
  have "digit 7 = CHR ''7''" unfolding digit_def by code_simp
  then have seven: "to_string 7 = ''7''" by (simp add: to_string.simps)
  have c: "contents s k = (if k < 20 then Some [(''field0'', to_string k)] else None)" for k
    unfolding s(3) contents_new
    by (simp add: sample_load_def comp_def map_of_map_keys map_of_map_restrict restrict_map_def)
  have w: "0 \<in> set (route s k)" for k using s(2) root_on_route by (auto simp: tree_wf_def)
  show thesis
  proof (rule that [OF s(1,2)])
    show "contents s 7 = Some [(''field0'', ''7'')]" "contents s 20 = None" by (simp_all add: c seven)
    show "dom (contents s) = {..<20}" by (auto simp: c domIff split: if_splits)
  qed (simp add: w)
qed

section \<open>Properties\<close>

text \<open>
  C1: an insertion of a key that is not in the tree returns a well-formed tree that holds what
  the old one held and the new record, as long as the pool has room for the nodes it may take.
\<close>

theorem insert_refines_map:
  assumes "tree_wf M s" "3 \<le> M" "contents s k = None" "insert_room mx s k"
  shows "\<exists>t. tree_insert M mx s k v = Some t \<and> tree_wf M t
    \<and> contents t = (contents s)(k \<mapsto> update_field_table v [])"
  using tree_insert_step [OF assms, where v = v] by metis

theorem insert_refines_map_witness:
  "\<exists>s t. tree_load tree_M 1000 (new_BPlusTree []) sample_load = Some s
    \<and> tree_insert tree_M 1000 s 20 [(''field0'', ''x'')] = Some t \<and> tree_wf tree_M t
    \<and> contents t 20 = Some [(''field0'', ''x'')] \<and> contents t 7 = Some [(''field0'', ''7'')]"
proof -
  obtain s where s: "tree_load tree_M 1000 (new_BPlusTree []) sample_load = Some s" "tree_wf tree_M s"
    "contents s 7 = Some [(''field0'', ''7'')]" "contents s 20 = None" "dom (contents s) = {..<20}"
    "\<forall>k. 0 \<in> set (route s k)" by (rule sample_tree)
  have r: "insert_room 1000 s 20" by (rule room_for_next [OF s(2)]) (simp add: s(5))
  have M: "3 \<le> tree_M" by (simp add: tree_M_def)
  show ?thesis using insert_refines_map [OF s(2) M s(4) r, of "[(''field0'', ''x'')]"] s(1,3) by auto
qed

text \<open>
  C9: whatever is inserted, an address the switch may hold (the root, or a node that was handed
  to the switch) stays one it may hold, stays on the way to every key it was on the way to, and a
  lookup of such a key that starts there still finds its record.
\<close>

theorem insert_keeps_switch_addresses:
  assumes "tree_wf M s" "3 \<le> M" "0 < mx" "contents s k = None" "insert_room mx s k"
    and "held_by_switch mx sz s b" "reach mx sz s b k'" "contents s k' = Some x"
  shows "\<exists>t u. tree_insert M mx s k v = Some t \<and> held_by_switch mx sz t b \<and> reach mx sz t b k'
    \<and> tree_lookup mx sz t k' b = Some (u, x)"
proof -
  note look_through_held = record_store.look_through_held [OF tree_store [OF assms(2,3)]]
  show ?thesis
    by (rule look_through_held [OF assms(1,6,7,8,4,5)]) blast
qed

theorem insert_keeps_switch_addresses_witness:
  "\<exists>s t u. tree_load tree_M 1000 (new_BPlusTree []) sample_load = Some s
    \<and> tree_insert tree_M 1000 s 20 [(''field0'', ''x'')] = Some t
    \<and> tree_lookup 1000 96 t 7 0 = Some (u, [(''field0'', ''7'')])"
proof -
  obtain s where s: "tree_load tree_M 1000 (new_BPlusTree []) sample_load = Some s" "tree_wf tree_M s"
    "contents s 7 = Some [(''field0'', ''7'')]" "contents s 20 = None" "dom (contents s) = {..<20}"
    "\<forall>k. 0 \<in> set (route s k)" by (rule sample_tree)
  have r: "insert_room 1000 s 20" by (rule room_for_next [OF s(2)]) (simp add: s(5))
  have M: "3 \<le> tree_M" "0 < (1000 :: nat)" by (simp_all add: tree_M_def)
  have n: "node_at 1000 96 0 = Some 0" by (simp add: node_at_root)
  have h: "held_by_switch 1000 96 s 0" "reach 1000 96 s 0 7"
    by (simp_all add: held_by_switch_def reach_def n pinned_def s(6))
  show ?thesis using insert_keeps_switch_addresses [OF s(2) M s(4) r h s(3), of "[(''field0'', ''x'')]"] s(1) by auto
qed

text \<open>
  C12: a lookup that starts at any node on the way to a key that is in the tree returns the
  record of the key, whichever of these nodes it is; it counts the query and changes nothing but
  counters.
\<close>

theorem lookup_from_route:
  assumes "tree_wf M s" "reach mx sz s b k" "contents s k = Some x"
  shows "\<exists>t. tree_lookup mx sz s k b = Some (t, x) \<and> tree_wf M t \<and> contents t = contents s
    \<and> route t = route s \<and> nb_query t = nb_query s + 1"
proof -
  from assms(1) obtain R rk kv where I: "inv_at [] s R rk kv" by (auto simp: tree_wf_def tree_inv_def)
  obtain t where t: "tree_lookup mx sz s k b = Some (t, x)" "counts_only s t" "nb_query t = nb_query s + 1"
    by (rule tree_lookup_present [OF I assms(2,3)])
  note S = counts_only_shape [OF t(2)]
  have "tree_wf M t"
    using tree_wf_same [OF assms(1) S inv_counts_only [OF I t(2)]] counts_only_pool(7) [OF t(2)] by blast
  with t same_shape_route [OF S] contents_counts_only [OF t(2)] show ?thesis by (auto simp: fun_eq_iff)
qed

theorem lookup_from_route_witness:
  "\<exists>s t. tree_load tree_M 1000 (new_BPlusTree []) sample_load = Some s
    \<and> tree_lookup 1000 96 s 7 0 = Some (t, [(''field0'', ''7'')]) \<and> tree_wf tree_M t"
proof -
  obtain s where s: "tree_load tree_M 1000 (new_BPlusTree []) sample_load = Some s" "tree_wf tree_M s"
    "contents s 7 = Some [(''field0'', ''7'')]" "contents s 20 = None" "dom (contents s) = {..<20}"
    "\<forall>k. 0 \<in> set (route s k)" by (rule sample_tree)
  have "reach 1000 96 s 0 7" by (simp add: reach_def node_at_root s(6))
  from lookup_from_route [OF s(2) this s(3)] s(1) show ?thesis by blast
qed

text \<open>
  C13: an update that starts at any node on the way to a key that is in the tree changes the
  record of this key and of no other one, and lookups from any node on the way see it.
\<close>

theorem update_from_route:
  assumes "tree_wf M s" "3 \<le> M" "0 < mx" "reach mx sz s b k" "reach mx sz s c k" "contents s k = Some x"
  shows "\<exists>t u'. tree_update mx sz s k u b = Some t \<and> tree_wf M t
    \<and> tree_lookup mx sz t k c = Some (u', update_field_table u x)
    \<and> contents u' = (contents s)(k \<mapsto> update_field_table u x)"
proof -
  note look_after_upd = record_store.look_after_upd [OF tree_store [OF assms(2,3)]]
  show ?thesis by (rule look_after_upd [OF assms(1,4,5,6)]) blast
qed

theorem update_from_route_witness:
  "\<exists>s t u'. tree_load tree_M 1000 (new_BPlusTree []) sample_load = Some s
    \<and> tree_update 1000 96 s 7 [(''field1'', ''y'')] 0 = Some t
    \<and> tree_lookup 1000 96 t 7 0 = Some (u', [(''field0'', ''7''), (''field1'', ''y'')])"
proof -
  obtain s where s: "tree_load tree_M 1000 (new_BPlusTree []) sample_load = Some s" "tree_wf tree_M s"
    "contents s 7 = Some [(''field0'', ''7'')]" "contents s 20 = None" "dom (contents s) = {..<20}"
    "\<forall>k. 0 \<in> set (route s k)" by (rule sample_tree)
  have h: "reach 1000 96 s 0 7" by (simp add: reach_def node_at_root s(6))
  have M: "3 \<le> tree_M" "0 < (1000 :: nat)" by (simp_all add: tree_M_def)
  have "update_field_table [(''field1'', ''y'')] [(''field0'', ''7'')] = [(''field0'', ''7''), (''field1'', ''y'')]"
    by simp
  with update_from_route [OF s(2) M h h s(3), of "[(''field1'', ''y'')]"] s(1) show ?thesis by metis
qed

text \<open>
  C14: the load phase, records with different keys inserted one after the other into the new
  tree, succeeds in a pool of six nodes per record, and the tree then holds exactly these
  records.
\<close>

theorem load_phase_succeeds:
  assumes "distinct (map fst kvs)" "6 * length kvs \<le> mx + 2" "3 \<le> M"
  shows "\<exists>t. tree_load M mx (new_BPlusTree []) kvs = Some t \<and> tree_wf M t
    \<and> contents t = map_of (map (\<lambda>(k, v). (k, update_field_table v [])) kvs)
    \<and> nb_node t \<le> 3 * length kvs + 1"
proof -
  have M: "0 < M" using assms(3) by simp
  have d: "fst ` set kvs \<inter> dom (contents (new_BPlusTree [])) = {}" by (simp add: contents_new)
  have c: "6 * (card (dom (contents (new_BPlusTree []))) + length kvs) \<le> mx + 2"
    using assms(2) by (simp add: contents_new)
  obtain t where t: "tree_load M mx (new_BPlusTree []) kvs = Some t" "tree_wf M t"
    "contents t = contents (new_BPlusTree []) ++ map_of (map (\<lambda>(k, v). (k, update_field_table v [])) kvs)"
    by (rule tree_load_ok [OF tree_wf_new [OF M] assms(3,1) d c])
  have e: "contents t = map_of (map (\<lambda>(k, v). (k, update_field_table v [])) kvs)" by (simp add: t(3) contents_new)
  have "dom (contents t) = fst ` set kvs"
    by (auto simp: e dom_map_of_conv_image_fst image_image split_def)
  then have "card (dom (contents t)) \<le> length kvs"
    using card_image_le [of "set kvs" fst] card_length [of kvs] by simp
  with t(1,2) e nb_node_bound [OF t(2)] show ?thesis by (intro exI [of _ t]) simp
qed

theorem load_phase_succeeds_witness:
  "\<exists>t. tree_load tree_M 1000 (new_BPlusTree []) sample_load = Some t \<and> nb_node t \<le> 61"
  using load_phase_succeeds [of sample_load 1000 tree_M]
  by (auto simp: sample_load_def comp_def tree_M_def)

text \<open>
  C17: the walk of a lookup does not compare the key it arrives at with the key it was asked for:
  for a key that is not in the tree it either runs over the end of a leaf or returns the record
  of a greater key that is.
\<close>

theorem lookup_of_absent_key:
  assumes "tree_wf M s" "reach mx sz s b k" "contents s k = None" "tree_lookup mx sz s k b = Some (t, x)"
  shows "\<exists>k'. k < k' \<and> contents s k' = Some x"
proof -
  from assms(1) obtain R rk kv where I: "inv_at [] s R rk kv" by (auto simp: tree_wf_def tree_inv_def)
  show ?thesis by (rule tree_lookup_absent [OF I assms(2-4)]) blast
qed

theorem lookup_of_absent_key_witness:
  "\<exists>s t x k'. tree_insert tree_M 10 (new_BPlusTree []) (5 :: nat) [(''f'', ''v'')] = Some s
    \<and> tree_lookup 10 96 s 3 0 = Some (t, x) \<and> 3 < k' \<and> contents s k' = Some x"
proof -
  have w: "tree_wf tree_M (new_BPlusTree [] :: (nat, fields) tree)" by (rule tree_wf_new) (simp add: tree_M_def)
  have M: "3 \<le> tree_M" by (simp add: tree_M_def)
  have c0: "contents (new_BPlusTree [] :: (nat, fields) tree) 5 = None" by (simp add: contents_new)
  have r: "insert_room 10 (new_BPlusTree [] :: (nat, fields) tree) 5" by (rule room_for_next [OF w]) (simp add: contents_new)
  obtain s where s: "tree_insert tree_M 10 (new_BPlusTree []) (5 :: nat) [(''f'', ''v'')] = Some s" "tree_wf tree_M s"
    "contents s = (contents (new_BPlusTree []))(5 \<mapsto> update_field_table [(''f'', ''v'')] [])"
    by (rule tree_insert_step [OF w M c0 r])
  have c: "contents s 3 = None" by (simp add: s(3) contents_new)
  have h: "reach 10 96 s 0 3" using reach_root [of 10 "[]" s] s(2) by (simp add: tree_wf_def)
  have "tree_lookup 10 96 s 3 0 \<noteq> None"
  proof -
    have "(case tree_insert tree_M 10 (new_BPlusTree []) (5 :: nat) [(''f'', ''v'')] of None \<Rightarrow> False
      | Some s \<Rightarrow> (case tree_lookup 10 96 s 3 0 of None \<Rightarrow> False | Some _ \<Rightarrow> True))" by code_simp
    then show ?thesis using s(1) by (auto split: option.splits)
  qed
  then obtain t x where l: "tree_lookup 10 96 s 3 0 = Some (t, x)" by (cases "tree_lookup 10 96 s 3 0") auto
  from lookup_of_absent_key [OF s(2) h c l] s(1) l show ?thesis by blast
qed

text \<open>
  C16: a lookup that starts at node \<open>n\<close> of the route visits \<open>n\<close> and the nodes after it, so an address
  the switch supplies saves exactly the nodes before it: \<open>nb_access\<close> grows by the length of the
  rest of the route.
\<close>

theorem lookup_visits_rest_of_route:
  assumes "tree_wf M s" "node_at mx sz b = Some n" "n \<in> set (route s k)" "tree_lookup mx sz s k b = Some (t, x)"
  shows "\<exists>before rest. route s k = before @ n # rest
    \<and> nb_access t = nb_access s + of_nat (length (n # rest))"
  by (rule lookup_cost_aux [OF assms])

theorem lookup_visits_rest_of_route_witness:
  "\<exists>s t. tree_load tree_M 1000 (new_BPlusTree []) sample_load = Some s
    \<and> (\<exists>x. tree_lookup 1000 96 s 7 0 = Some (t, x))
    \<and> (\<exists>before rest. route s 7 = before @ 0 # rest \<and> nb_access t = nb_access s + of_nat (length (0 # rest)))"
proof -
  obtain s where s: "tree_load tree_M 1000 (new_BPlusTree []) sample_load = Some s" "tree_wf tree_M s"
    "contents s 7 = Some [(''field0'', ''7'')]" "contents s 20 = None" "dom (contents s) = {..<20}"
    "\<forall>k. 0 \<in> set (route s k)" by (rule sample_tree)
  have n: "node_at 1000 96 0 = Some 0" by (simp add: node_at_root)
  have h: "reach 1000 96 s 0 7" by (simp add: reach_def n s(6))
  obtain t where t: "tree_lookup 1000 96 s 7 0 = Some (t, [(''field0'', ''7'')])"
    using backend_store_lookup [OF s(2) h s(3)] by blast
  show ?thesis using lookup_visits_rest_of_route [OF s(2) n _ t] s(6) s(1) t by blast
qed

end
