(* ===== verification/Tree_Syntactic.thy ===== *)
theory Tree_Syntactic
  imports Tree_Room
begin

text \<open>
  Two more things every insertion keeps, whatever the shape of the tree: the keys in the nodes
  all come from inserted keys, and the counter \<open>depth\<close> is at least 2 once the root is no leaf.
\<close>

section \<open>Where the keys come from\<close>

definition all_keys :: "('k \<Rightarrow> bool) \<Rightarrow> ('k, 'v) tree \<Rightarrow> bool" where
  "all_keys P s \<longleftrightarrow> (\<forall>n. \<forall>k \<in> set (nkey (pool s n)). P k)"

lemma all_keys_upd:
  "all_keys P s \<Longrightarrow> (\<And>k. k \<in> set (nkey (f (pool s n))) \<Longrightarrow> P k) \<Longrightarrow> all_keys P (upd_node n f s)"
  by (auto simp: all_keys_def upd_node_def)

lemma all_keys_node: "all_keys P s \<Longrightarrow> k \<in> set (nkey (pool s n)) \<Longrightarrow> P k"
  by (auto simp: all_keys_def)

lemma all_keys_parents: "all_keys P s \<Longrightarrow> all_keys P (set_parents p cs s)"
  by (auto simp: all_keys_def set_parents_sel)

lemma all_keys_same: "all_keys P s \<Longrightarrow> (\<And>n. nkey (f (pool s n)) = nkey (pool s n)) \<Longrightarrow> all_keys P (upd_node n f s)"
  by (auto simp: all_keys_def upd_node_def)

lemma all_keys_globals [simp]:
  "all_keys P (s\<lparr>nb_node := a\<rparr>) = all_keys P s" "all_keys P (s\<lparr>depth := d\<rparr>) = all_keys P s"
  by (simp_all add: all_keys_def)

lemma vec_insert_set: "vec_insert p x xs = Some ys \<Longrightarrow> set ys = insert x (set xs)"
  by (auto dest!: vec_insert_SomeE simp: set_insert simp del: set_append)

lemma overflow_copy_keys: "overflow_copy mx s cur = Some (w, t) \<Longrightarrow> all_keys P s \<Longrightarrow> all_keys P t"
  by (auto simp: overflow_copy_def alloc_def Let_def all_keys_def upd_node_def set_parents_sel
      split: if_splits)

lemma split_leaf_keys:
  assumes "split_leaf M s cur w par = Some t" "all_keys P s"
  shows "all_keys P t"
proof -
  define s1 where "s1 = upd_node cur (\<lambda>n. n\<lparr>nkey := take (M div 2) (nkey n)\<rparr>)
    (upd_node w (\<lambda>n. n\<lparr>nkey := drop (M div 2) (nkey (pool s cur)) @ nkey n\<rparr>) s)"
  define s2 where "s2 = upd_node cur (\<lambda>n. n\<lparr>child := take (M div 2) (child n)\<rparr>)
    (upd_node w (\<lambda>n. n\<lparr>child := drop (M div 2) (child (pool s1 cur)) @ child n\<rparr>) s1)"
  have k1: "all_keys P s1"
    using assms(2) by (auto simp: s1_def all_keys_def upd_node_def dest: in_set_takeD in_set_dropD)
  have k2: "all_keys P s2" unfolding s2_def by (intro all_keys_same k1) simp_all
  from assms(1) obtain ks cs where ks: "vec_insert (lower_bound (nkey (pool s2 par)) (hd (nkey (pool s2 w))))
      (last (nkey (pool s2 cur))) (nkey (pool s2 par)) = Some ks" "nkey (pool s2 cur) \<noteq> []"
    and t: "t = upd_node par (\<lambda>n. n\<lparr>child := cs\<rparr>) (upd_node par (\<lambda>n. n\<lparr>nkey := ks\<rparr>) s2)"
    by (auto simp: split_leaf_def Let_def s1_def s2_def nth_opt_def hd_conv_nth split: bind_splits if_splits)
  have "P (last (nkey (pool s2 cur)))" by (rule all_keys_node [OF k2 last_in_set [OF ks(2)]])
  then have "k \<in> set ks \<Longrightarrow> P k" for k using vec_insert_set [OF ks(1)] all_keys_node [OF k2] by auto
  then show ?thesis unfolding t by (intro all_keys_same all_keys_upd k2) simp_all
qed

lemma split_inner_keys:
  assumes "split_inner M s cur w par = Some t" "all_keys P s"
  shows "all_keys P t"
proof -
  define s1 where "s1 = upd_node w (\<lambda>n. n\<lparr>nkey := drop (M div 2 + 1) (nkey (pool s cur)) @ nkey n\<rparr>) s"
  define s2 where "s2 = upd_node cur (\<lambda>n. n\<lparr>nkey := take (M div 2) (nkey n)\<rparr>) s1"
  define s3 where "s3 = upd_node cur (\<lambda>n. n\<lparr>child := take (M div 2 + 1) (child n)\<rparr>)
    (upd_node w (\<lambda>n. n\<lparr>child := drop (M div 2 + 1) (child (pool s2 cur)) @ child n\<rparr>) s2)"
  define s4 where "s4 = set_parents w (child (pool s3 w)) s3"
  have k1: "all_keys P s1"
    using assms(2) by (auto simp: s1_def all_keys_def upd_node_def dest: in_set_dropD)
  have k2: "all_keys P s2"
    using k1 by (auto simp: s2_def all_keys_def upd_node_def dest: in_set_takeD)
  have k3: "all_keys P s3" unfolding s3_def by (intro all_keys_same k2) simp_all
  have k4: "all_keys P s4" unfolding s4_def by (rule all_keys_parents [OF k3])
  from assms(1) obtain nk p ks cs where nk: "nth_opt (nkey (pool s1 cur)) (M div 2) = Some nk"
    and ks: "vec_insert p nk (nkey (pool s4 par)) = Some ks"
    and t: "t = upd_node par (\<lambda>n. n\<lparr>child := cs\<rparr>) (upd_node par (\<lambda>n. n\<lparr>nkey := ks\<rparr>) s4)"
    by (auto simp: split_inner_def Let_def s1_def s2_def s3_def s4_def split: bind_splits if_splits)
  have "P nk" using nth_opt_SomeE [OF nk] all_keys_node [OF k1 nth_mem] by simp
  then have "k \<in> set ks \<Longrightarrow> P k" for k using vec_insert_set [OF ks] all_keys_node [OF k4] by auto
  then show ?thesis unfolding t by (intro all_keys_same all_keys_upd k4) simp_all
qed

lemma overflow_step_keys: "overflow_step M mx s cur = Some (p, t) \<Longrightarrow> all_keys P s \<Longrightarrow> all_keys P t"
proof -
  assume o: "overflow_step M mx s cur = Some (p, t)" and k: "all_keys P s"
  obtain c s1 where c: "(if cur = 0 \<or> isLoaded2Switch (pool s cur) then overflow_copy mx s cur else Some (cur, s)) = Some (c, s1)"
    using o by (auto simp: overflow_step_def split: bind_splits)
  have k1: "all_keys P s1" using c k overflow_copy_keys by (auto split: if_splits)
  define s2 where "s2 = upd_node (nb_node s1) (\<lambda>n. n\<lparr>parent := parent (pool s1 c), isLeaf := isLeaf (pool s1 c)\<rparr>)
    (s1\<lparr>nb_node := nb_node s1 + 1\<rparr>)"
  have k2: "all_keys P s2" unfolding s2_def by (intro all_keys_same) (simp_all add: k1)
  from o c obtain par where "(if isLeaf (pool s2 c) then split_leaf M s2 c (nb_node s1) par
      else split_inner M s2 c (nb_node s1) par) = Some t"
    by (auto simp: overflow_step_def alloc_def s2_def Let_def simp del: all_keys_globals split: bind_splits if_splits)
  then show ?thesis using split_leaf_keys split_inner_keys k2 by (auto split: if_splits)
qed

lemma overflow_keys: "overflow M mx f s cur = Some t \<Longrightarrow> all_keys P s \<Longrightarrow> all_keys P t"
proof (induction f arbitrary: s cur)
  case (Suc f)
  then show ?case using overflow_step_keys by (fastforce split: if_splits bind_splits)
qed simp

lemma tree_insert_keys:
  assumes "tree_insert M mx s k v = Some t" "all_keys P s" "P k"
  shows "all_keys P t"
proof -
  define s1 where "s1 = s\<lparr>nb_node := nb_node s + 1\<rparr>"
  have k1: "all_keys P s1" using assms(2) by (simp add: s1_def)
  from assms(1) obtain cur s2 where s2: "insert_key s1 cur (nb_node s) k = Some s2"
    and t: "overflow M mx (Suc (nb_node (upd_node (nb_node s) (\<lambda>n. n\<lparr>isLeaf := False, isValue := True,
      parent := Some cur, nval := update_field_table v (nval n)\<rparr>) s2)))
      (upd_node (nb_node s) (\<lambda>n. n\<lparr>isLeaf := False, isValue := True,
      parent := Some cur, nval := update_field_table v (nval n)\<rparr>) s2) cur = Some t"
    by (auto simp: tree_insert_def alloc_def s1_def Let_def split: bind_splits if_splits)
  obtain p ks cs where ks: "vec_insert p k (nkey (pool s1 cur)) = Some ks"
    "s2 = upd_node cur (\<lambda>n. n\<lparr>child := cs\<rparr>) (upd_node cur (\<lambda>n. n\<lparr>nkey := ks\<rparr>) s1)"
    using s2 by (auto simp: insert_key_def Let_def split: bind_splits)
  have "x \<in> set ks \<Longrightarrow> P x" for x using vec_insert_set [OF ks(1)] all_keys_node [OF k1] assms(3) by auto
  then have "all_keys P s2" unfolding ks(2) by (intro all_keys_same all_keys_upd k1) simp_all
  then have "all_keys P (upd_node (nb_node s) (\<lambda>n. n\<lparr>isLeaf := False, isValue := True,
      parent := Some cur, nval := update_field_table v (nval n)\<rparr>) s2)" by (intro all_keys_same) simp_all
  then show ?thesis by (rule overflow_keys [OF t])
qed

lemma tree_load_keys:
  "tree_load M mx s kvs = Some t \<Longrightarrow> all_keys P s \<Longrightarrow> (\<And>k. k \<in> fst ` set kvs \<Longrightarrow> P k) \<Longrightarrow> all_keys P t"
proof (induction kvs arbitrary: s)
  case (Cons kv kvs)
  obtain k v where kv: "kv = (k, v)" by fastforce
  from Cons.prems(1) obtain u where u: "tree_insert M mx s k v = Some u" "tree_load M mx u kvs = Some t"
    by (auto simp: kv split: bind_splits)
  show ?case
    using Cons.IH [OF u(2)] tree_insert_keys [OF u(1) Cons.prems(2)] Cons.prems(3) by (simp add: kv)
qed simp

section \<open>The depth counter\<close>

definition depth_ok :: "('k, 'v) tree \<Rightarrow> bool" where
  "depth_ok s \<longleftrightarrow> 0 < nb_node s \<and> 1 \<le> unat (depth s) \<and> unat (depth s) \<le> nb_node s
     \<and> (\<not> isLeaf (pool s 0) \<longrightarrow> 2 \<le> unat (depth s))"

text \<open>What the operations on single nodes leave alone.\<close>

definition same_top :: "('k, 'v) tree \<Rightarrow> ('k, 'v) tree \<Rightarrow> bool" where
  "same_top s t \<longleftrightarrow> depth t = depth s \<and> nb_node t = nb_node s \<and> isLeaf (pool t 0) = isLeaf (pool s 0)"

lemma same_top_upd: "(\<And>nd. isLeaf (f nd) = isLeaf nd) \<Longrightarrow> same_top s (upd_node n f t) = same_top s t"
  by (simp add: same_top_def upd_node_def)

lemma same_top_upd_pos: "n \<noteq> 0 \<Longrightarrow> same_top s (upd_node n f t) = same_top s t"
  by (simp add: same_top_def upd_node_def)

lemma same_top_parents: "same_top s (set_parents p cs t) = same_top s t"
  by (simp add: same_top_def set_parents_sel)

lemma same_top_refl: "same_top s s"
  by (simp add: same_top_def)

lemma split_leaf_top: "split_leaf M s cur w par = Some t \<Longrightarrow> same_top s t"
  by (auto simp: split_leaf_def Let_def same_top_upd same_top_refl split: bind_splits if_splits)

lemma split_inner_top: "split_inner M s cur w par = Some t \<Longrightarrow> same_top s t"
  by (auto simp: split_inner_def Let_def same_top_upd same_top_parents same_top_refl split: bind_splits if_splits)

text \<open>One level of overflow: a copied root is no leaf any more and counts in \<open>depth\<close>.\<close>

lemma upd_node_depth: "depth (upd_node n f s) = depth s"
  by (simp add: upd_node_def)

lemma overflow_copy_top:
  assumes "overflow_copy mx s cur = Some (w, t)" "0 < nb_node s"
  shows "w \<noteq> 0 \<and> nb_node t = Suc (nb_node s) \<and> nb_node s < mx
    \<and> depth t = (if cur = 0 then depth s + 1 else depth s)
    \<and> isLeaf (pool t 0) = (if cur = 0 then False else isLeaf (pool s 0))"
  using assms
  by (auto simp: overflow_copy_def alloc_def Let_def set_parents_sel upd_node_sel upd_node_depth split: if_splits)

lemma overflow_step_top:
  assumes o: "overflow_step M mx s cur = Some (p, t)" and d: "depth_ok s" and mx: "mx < 2 ^ 32"
  shows "depth_ok t"
proof -
  obtain c s1 where c: "(if cur = 0 \<or> isLoaded2Switch (pool s cur) then overflow_copy mx s cur else Some (cur, s)) = Some (c, s1)"
    using o by (auto simp: overflow_step_def split: bind_splits)
  have nb0: "0 < nb_node s" using d by (simp add: depth_ok_def)
  have d1: "depth_ok s1"
  proof (cases "cur = 0 \<or> isLoaded2Switch (pool s cur)")
    case True
    then have c': "overflow_copy mx s cur = Some (c, s1)" using c by simp
    note tp = overflow_copy_top [OF c' nb0]
    have ub: "unat (depth s + 1) = Suc (unat (depth s))"
    proof -
      have "unat (depth s) + 1 < 2 ^ 32" using d tp mx by (simp add: depth_ok_def)
      then show ?thesis by (simp add: unat_word_ariths)
    qed
    show ?thesis using d tp by (auto simp: depth_ok_def ub)
  qed (use c d in simp)
  define s2 where "s2 = upd_node (nb_node s1) (\<lambda>n. n\<lparr>parent := parent (pool s1 c), isLeaf := isLeaf (pool s1 c)\<rparr>)
    (s1\<lparr>nb_node := nb_node s1 + 1\<rparr>)"
  have d2: "depth_ok s2" using d1 by (auto simp: depth_ok_def s2_def upd_node_def)
  from o c obtain par where "(if isLeaf (pool s2 c) then split_leaf M s2 c (nb_node s1) par
      else split_inner M s2 c (nb_node s1) par) = Some t"
    by (auto simp: overflow_step_def alloc_def s2_def Let_def split: bind_splits if_splits)
  then have "same_top s2 t" using split_leaf_top split_inner_top by (auto split: if_splits)
  then show ?thesis using d2 by (simp add: same_top_def depth_ok_def)
qed

lemma overflow_top: "overflow M mx f s cur = Some t \<Longrightarrow> depth_ok s \<Longrightarrow> mx < 2 ^ 32 \<Longrightarrow> depth_ok t"
proof (induction f arbitrary: s cur)
  case (Suc f)
  show ?case
  proof (cases "M \<le> length (nkey (pool s cur))")
    case True
    then obtain p u where u: "overflow_step M mx s cur = Some (p, u)" "overflow M mx f u p = Some t"
      using Suc.prems(1) by (auto split: bind_splits)
    then show ?thesis using Suc.IH overflow_step_top [OF u(1) Suc.prems(2,3)] Suc.prems(3) by blast
  qed (use Suc.prems in simp)
qed simp

lemma tree_insert_top:
  assumes "tree_insert M mx s k v = Some t" "depth_ok s" "mx < 2 ^ 32"
  shows "depth_ok t"
proof -
  define s1 where "s1 = s\<lparr>nb_node := nb_node s + 1\<rparr>"
  have d1: "depth_ok s1" and z: "nb_node s \<noteq> 0" using assms(2) by (simp_all add: s1_def depth_ok_def)
  from assms(1) obtain cur s2 where s2: "insert_key s1 cur (nb_node s) k = Some s2"
    and t: "overflow M mx (Suc (nb_node (upd_node (nb_node s) (\<lambda>n. n\<lparr>isLeaf := False, isValue := True,
      parent := Some cur, nval := update_field_table v (nval n)\<rparr>) s2)))
      (upd_node (nb_node s) (\<lambda>n. n\<lparr>isLeaf := False, isValue := True,
      parent := Some cur, nval := update_field_table v (nval n)\<rparr>) s2) cur = Some t"
    by (auto simp: tree_insert_def alloc_def s1_def Let_def split: bind_splits if_splits)
  have "same_top s1 s2"
    using s2 by (auto simp: insert_key_def Let_def same_top_upd same_top_refl split: bind_splits)
  then have "same_top s1 (upd_node (nb_node s) (\<lambda>n. n\<lparr>isLeaf := False, isValue := True,
      parent := Some cur, nval := update_field_table v (nval n)\<rparr>) s2)"
    using same_top_upd_pos [OF z] by blast
  then have "depth_ok (upd_node (nb_node s) (\<lambda>n. n\<lparr>isLeaf := False, isValue := True,
      parent := Some cur, nval := update_field_table v (nval n)\<rparr>) s2)"
    using d1 by (simp add: same_top_def depth_ok_def)
  then show ?thesis using overflow_top [OF t] assms(3) by blast
qed

lemma tree_load_top: "tree_load M mx s kvs = Some t \<Longrightarrow> depth_ok s \<Longrightarrow> mx < 2 ^ 32 \<Longrightarrow> depth_ok t"
proof (induction kvs arbitrary: s)
  case (Cons kv kvs)
  obtain k v where kv: "kv = (k, v)" by fastforce
  from Cons.prems(1) obtain u where "tree_insert M mx s k v = Some u" "tree_load M mx u kvs = Some t"
    by (auto simp: kv split: bind_splits)
  then show ?case using Cons.IH tree_insert_top Cons.prems(2,3) by blast
qed simp

lemma depth_ok_new: "depth_ok (new_BPlusTree v0)"
  by (simp add: depth_ok_def new_BPlusTree_def new_Node_def)

section \<open>A root that is a leaf\<close>

text \<open>A tree whose root is a leaf holds less than M records.\<close>

lemma leaf_root_small:
  assumes w: "tree_wf M s" and lf: "isLeaf (pool s 0)"
  shows "card (dom (contents s)) < M"
proof -
  from w obtain R rk kv where I: "inv_at [] s R rk kv" by (auto simp: tree_wf_def tree_inv_def)
  have "dom (contents s) \<subseteq> set (nkey (pool s 0))"
  proof
    fix k assume "k \<in> dom (contents s)"
    then obtain v where "holds s k v" using contents_iff [OF I] by blast
    then obtain n i where n: "tree_node s n" "isLeaf (pool s n)" "i < length (nkey (pool s n))" "nkey (pool s n) ! i = k"
      by (auto simp: holds_def)
    have "in_range (R n) k" using inv_in_range [OF I n(1)] nth_mem [OF n(3)] n(4) by auto
    moreover have "in_range (R 0) k" by (simp add: inv_root(2) [OF I])
    ultimately have "n = 0" using leaf_unique [OF I] n lf inv_root(1) [OF I] by blast
    then show "k \<in> set (nkey (pool s 0))" using n nth_mem by blast
  qed
  then have "card (dom (contents s)) \<le> card (set (nkey (pool s 0)))" by (intro card_mono) auto
  also have "\<dots> \<le> length (nkey (pool s 0))" by (rule card_length)
  also have "\<dots> < M" using w inv_root(1) [OF I] by (auto simp: tree_wf_def all_filled_def)
  finally show ?thesis .
qed

end
