(* ===== verification/Switch_Routing.thy ===== *)
theory Switch_Routing
  imports Tree_Properties Tree_Syntactic
begin

text \<open>
  What the switch does with the node descriptions: it compares key numbers, not strings, and
  sends a request on to the child whose range of numbers the key is in. For the keys of the
  benchmark, numbers printed with leading zeros behind a fixed prefix, that is the child on the
  way to the key.
\<close>

section \<open>The keys of the benchmark\<close>

text \<open>The table of the workloads, and their \<open>zeropadding=20\<close>.\<close>

definition ycsb_key :: "64 word \<Rightarrow> string" where
  "ycsb_key n = table_key ''usertable'' (BuildKeyName True 20 n)"

definition is_ycsb :: "string \<Rightarrow> bool" where
  "is_ycsb k \<longleftrightarrow> (case remove_key_index_prefix k of None \<Rightarrow> False | Some n \<Rightarrow> k = ycsb_key n)"

lemma drop_ycsb: "drop 13 (ycsb_key n) = drop 4 (BuildKeyName True 20 n)" "13 \<le> length (ycsb_key n)"
  by (simp_all add: ycsb_key_def table_key_def BuildKeyName_def Let_def)

lemma ycsb_number [simp]: "remove_key_index_prefix (ycsb_key n) = Some n"
  using scan_BuildKeyName [of True 20 n] drop_ycsb [of n] by (simp add: remove_prefix_scan)

lemma is_ycsb_key [simp]: "is_ycsb (ycsb_key n)"
  by (simp add: is_ycsb_def)

lemma is_ycsbE: "is_ycsb k \<Longrightarrow> (\<And>n. k = ycsb_key n \<Longrightarrow> P) \<Longrightarrow> P"
  by (auto simp: is_ycsb_def split: option.splits)

lemma ycsb_inj: "ycsb_key a = ycsb_key b \<longleftrightarrow> a = b"
  by (metis option.inject ycsb_number)

lemma ycsb_order: "ycsb_key a < ycsb_key b \<longleftrightarrow> a < b"
  unfolding ycsb_key_def by (rule key_order) simp

lemma ycsb_above_empty: "'''' < ycsb_key n"
  by (simp add: ycsb_key_def table_key_def)

section \<open>Routing by number\<close>

definition join_halves :: "32 word \<times> 32 word \<Rightarrow> 64 word" where
  "join_halves h = or (push_bit 32 (ucast (fst h))) (ucast (snd h))"

text \<open>
  The tables made from a description: with the key numbers \<open>k1 < k2 < ...\<close> behind the entry
  \<open><0,0>\<close>, child \<open>i\<close> gets the numbers above \<open>ki\<close> up to \<open>k(i+1)\<close>.
\<close>

definition info_route :: "node_info \<Rightarrow> 64 word \<Rightarrow> 64 word" where
  "info_route i w = info_child i ! lower_bound (map join_halves (tl (info_keys i))) w"

lemma join_key_halves [simp]: "join_halves (key_halves w) = w"
proof (rule bit_eqI)
  fix n assume "possible_bit TYPE(64 word) n"
  then have "n < 64" by simp
  have m: "(0xFFFFFFFF :: 64 word) = mask 32" by (simp add: mask_eq_exp_minus_1)
  from \<open>n < 64\<close> show "bit (join_halves (key_halves w)) n = bit w n"
    unfolding join_halves_def key_halves_def m by (auto simp: bit_simps not_less)
qed

lemma lower_bound_ycsb:
  assumes "\<And>k. k \<in> set ks \<Longrightarrow> is_ycsb k" "those (map remove_key_index_prefix ks) = Some ws"
  shows "lower_bound ws w = lower_bound ks (ycsb_key w)"
proof -
  have "ks = map ycsb_key ws"
    using assms
  proof (induction ks arbitrary: ws)
    case (Cons k ks)
    obtain n where "k = ycsb_key n" using Cons.prems(1) is_ycsbE by (metis list.set_intros(1))
    with Cons show ?case by (auto split: option.splits)
  qed simp
  then show ?thesis using lower_bound_map [of ws ycsb_key w] ycsb_order by simp
qed

text \<open>A description sends the number of a key on to a node on the way to the key.\<close>

lemma info_route_ok:
  assumes d: "describes_at remove_key_index_prefix sz msk s n i" and y: "all_keys is_ycsb s"
    and n: "n \<in> set (route s (ycsb_key w))" "\<not> isLeaf (pool s n)"
  obtains c where "info_route i w = node_address sz msk c" "c \<in> set (route s (ycsb_key w))"
    "c < nb_node s" "pinned s c"
proof -
  from d obtain ks ws cs where d': "\<forall>k \<in> set ks. tree_key s k" "those (map remove_key_index_prefix ks) = Some ws"
    "info_keys i = (0, 0) # map key_halves ws" "\<forall>c \<in> set cs. c < nb_node s \<and> pinned s c"
    "info_child i = map (node_address sz msk) cs" "sends_on s n ks cs"
    unfolding describes_at_def by blast
  have "is_ycsb k" if "k \<in> set ks" for k
    using that d'(1) y by (auto simp: tree_key_def all_keys_def)
  then have lb: "lower_bound ws w = lower_bound ks (ycsb_key w)" using lower_bound_ycsb d'(2) by blast
  have so: "lower_bound ks (ycsb_key w) < length cs" "cs ! lower_bound ks (ycsb_key w) \<in> set (route s (ycsb_key w))"
    using d'(6) n by (auto simp: sends_on_def)
  have "map join_halves (tl (info_keys i)) = ws" by (simp add: d'(3) comp_def)
  then have "info_route i w = node_address sz msk (cs ! lower_bound ks (ycsb_key w))"
    using so(1) by (simp add: info_route_def d'(5) lb)
  then show thesis using that [of "cs ! lower_bound ks (ycsb_key w)"] so d'(4) nth_mem [OF so(1)] by blast
qed

section \<open>Addresses from the switch\<close>

text \<open>
  The address the switch puts into a request whose key it knows how to route; other requests
  keep the 0 of the client.
\<close>

definition switch_addr :: "node_info \<Rightarrow> string \<Rightarrow> 64 word" where
  "switch_addr i k = (if is_ycsb k then info_route i (the (remove_key_index_prefix k)) else 0)"

definition part_mask :: "64 word \<Rightarrow> 64 word" where
  "part_mask part = push_bit 46 part"

lemma part_mask_low: "and (part_mask part) 0xFFFFFFFF = 0"
proof (rule bit_eqI)
  fix n assume "possible_bit TYPE(64 word) n"
  have m: "(0xFFFFFFFF :: 64 word) = mask 32" by (simp add: mask_eq_exp_minus_1)
  show "bit (and (part_mask part) 0xFFFFFFFF) n = bit (0 :: 64 word) n"
    unfolding m by (auto simp: part_mask_def bit_simps)
qed

lemma word_below_exp: "w < 2 ^ n \<longleftrightarrow> take_bit n w = w" if "n < LENGTH('a)" for w :: "'a::len word"
proof -
  have "unat (2 ^ n :: 'a word) = 2 ^ n" using that by transfer (simp add: take_bit_eq_mod that nat_power_eq)
  then have "w < 2 ^ n \<longleftrightarrow> unat w < 2 ^ n" by (simp add: word_less_nat_alt)
  then show ?thesis
    by (metis take_bit_nat_eq_self_iff unsigned_word_eqI unsigned_take_bit_eq)
qed

lemma node_address_48:
  assumes "part < 4" "n * sz < 2 ^ 32"
  shows "node_address sz (part_mask part) n < 2 ^ 48"
proof -
  have p: "take_bit 2 part = part" using assms(1) word_below_exp [of 2 part] by simp
  have a: "take_bit 48 (push_bit 46 part) = push_bit 46 part"
  proof (rule bit_eqI)
    fix m show "bit (take_bit 48 (push_bit 46 part)) m = bit (push_bit 46 part) m"
      by (subst p [symmetric]) (auto simp: bit_simps)
  qed
  have "unat (of_nat (n * sz) :: 64 word) = (n * sz) mod 2 ^ 64" by (simp only: unat_of_nat) simp
  then have "unat (of_nat (n * sz) :: 64 word) = n * sz" using assms(2) by simp
  then have "(of_nat (n * sz) :: 64 word) < 2 ^ 48"
    using assms(2) by (simp add: word_less_nat_alt)
  then have b: "take_bit 48 (of_nat (n * sz) :: 64 word) = of_nat (n * sz)"
    using word_below_exp [of 48 "of_nat (n * sz) :: 64 word"] by simp
  have "take_bit 48 (node_address sz (part_mask part) n) = node_address sz (part_mask part) n"
    by (simp only: node_address_def part_mask_def take_bit_or a b)
  then show ?thesis using word_below_exp [of 48 "node_address sz (part_mask part) n"] by simp
qed

end
