(* ===== verification/Server_Properties.thy ===== *)
theory Server_Properties
  imports Switch_Routing
begin

text \<open>
  The properties of the server as a whole: what it answers to a sequence of requests, what it
  hands to the switch, and that requests which enter the tree where the switch sends them are
  answered as if they had entered at the root.
\<close>

section \<open>Loading the switch\<close>

text \<open>What the choice of a node and the sort have to be.\<close>

definition picks_one :: "((string, fields) tree \<Rightarrow> nat list \<Rightarrow> nat) \<Rightarrow> bool" where
  "picks_one pick \<longleftrightarrow> (\<forall>s q. q \<noteq> [] \<longrightarrow> pick s q \<in> set q)"

definition sorts :: "((string, fields) tree \<Rightarrow> nat list \<Rightarrow> nat list) \<Rightarrow> bool" where
  "sorts srt \<longleftrightarrow> (\<forall>s xs. set (srt s xs) = set xs)"

lemma ycsb_tree:
  assumes "all_keys is_ycsb s"
  shows "above_empty s ''''" "keys_encode remove_key_index_prefix s"
proof -
  have y: "is_ycsb k" if "k \<in> set (nkey (pool s n))" for n k using assms that by (auto simp: all_keys_def)
  show "above_empty s ''''" unfolding above_empty_def using y ycsb_above_empty by (metis is_ycsbE)
  show "keys_encode remove_key_index_prefix s" unfolding keys_encode_def tree_key_def
    using y ycsb_number by (metis is_ycsbE option.distinct(1))
qed

lemma ethernet_load_ok:
  assumes w: "tree_wf tree_M s" and y: "all_keys is_ycsb s" and d: "depth_ok s" and lf: "\<not> isLeaf (pool s 0)"
    and p: "picks_one pick" and q: "sorts srt"
  obtains t fs where "ethernet_load pick srt sz part s = Some (t, fs)" "marks s t"
    "files_ok remove_key_index_prefix sz (part_mask part) t fs"
    "root_first remove_key_index_prefix sz (part_mask part) t fs"
proof -
  have f: "node_info_txt \<noteq> []" by (simp add: node_info_txt_def)
  have d2: "2 \<le> unat (depth s)" using d lf by (simp add: depth_ok_def)
  have pk: "q \<noteq> [] \<Longrightarrow> pick s q \<in> set q" for q using p by (simp add: picks_one_def)
  have st: "set (srt s xs) = set xs" for xs using q by (simp add: sorts_def)
  have e: "'''' \<le> (k :: string)" for k by (cases k) simp_all
  show thesis
  proof (rule load2switch_greedy_total [where s = s and pick = pick and srt = srt and sz = sz and msk = "part_mask part"
      and M = tree_M and enc = remove_key_index_prefix and ?k0.0 = "''''" and filename = node_info_txt])
    fix t fs
    assume "load2switch_greedy remove_key_index_prefix '''' pick srt tree_M sz s node_info_txt root_load_num
        max_load_num compress_depth (part_mask part) = Some (t, fs)"
      and "marks s t" "files_ok remove_key_index_prefix sz (part_mask part) t fs"
      "root_first remove_key_index_prefix sz (part_mask part) t fs"
    then show thesis by (intro that) (simp_all add: ethernet_load_def part_mask_def)
  qed (use w ycsb_tree [OF y] e pk st lf d2 f in simp_all)
qed

lemma marks_all_keys: "marks s t \<Longrightarrow> all_keys P t = all_keys P s"
  by (simp add: all_keys_def marks_def same_shape_def)

text \<open>The address the switch supplies for a key is one the server accepts.\<close>

lemma switch_addr_ok:
  assumes w: "tree_wf tree_M t" and y: "all_keys is_ycsb t"
    and d: "describes_at remove_key_index_prefix sz (part_mask part) t 0 i" and lf: "\<not> isLeaf (pool t 0)"
    and n: "nb_node t \<le> MAX_NODE_SIZE" "nb_node t * sz \<le> 2 ^ 32" "0 < sz" and part: "part < 4"
  shows "switch_addr i k < 2 ^ 48 \<and> held_by_switch MAX_NODE_SIZE sz t (switch_addr i k)
    \<and> reach MAX_NODE_SIZE sz t (switch_addr i k) k"
proof (cases "is_ycsb k")
  case True
  then obtain m where k: "k = ycsb_key m" by (rule is_ycsbE)
  have r0: "0 \<in> set (route t k)" for k using w root_on_route by (auto simp: tree_wf_def)
  obtain c where c: "info_route i m = node_address sz (part_mask part) c" "c \<in> set (route t (ycsb_key m))"
    "c < nb_node t" "pinned t c"
    by (rule info_route_ok [OF d y r0 lf])
  have "(c + 1) * sz \<le> nb_node t * sz" using c(3) by (intro mult_le_mono1) simp
  then have lt: "c * sz < 2 ^ 32" using n(2,3) by simp
  have a: "node_at MAX_NODE_SIZE sz (node_address sz (part_mask part) c) = Some c"
    using c(3) n by (intro node_at_address part_mask_low lt) auto
  have e: "switch_addr i k = node_address sz (part_mask part) c" using True by (simp add: switch_addr_def k c(1))
  show ?thesis
    unfolding e using node_address_48 [OF part lt] a c(2,4) by (simp add: held_by_switch_def reach_def k)
next
  case False
  have z: "node_at MAX_NODE_SIZE sz 0 = Some 0" by (simp add: node_at_root MAX_NODE_SIZE_def)
  have "0 \<in> set (route t k)" using w root_on_route by (auto simp: tree_wf_def)
  with False z show ?thesis by (simp add: switch_addr_def held_by_switch_def reach_def pinned_def)
qed

section \<open>A loaded server to try things on\<close>

definition ycsb_load :: "(string \<times> fields) list" where
  "ycsb_load = map (\<lambda>i. (ycsb_key (of_nat i), [(''field0'', to_string i)])) [0..<20]"

lemma ycsb_sample:
  obtains s where "tree_load tree_M MAX_NODE_SIZE (new_BPlusTree []) ycsb_load = Some s" "tree_wf tree_M s"
    "all_keys is_ycsb s" "depth_ok s" "\<not> isLeaf (pool s 0)" "nb_node s \<le> 61"
    "contents s (ycsb_key 7) = Some [(''field0'', ''7'')]" "card (dom (contents s)) = 20"
proof -
  have M: "3 \<le> tree_M" "0 < tree_M" by (simp_all add: tree_M_def)
  have inj: "inj_on (\<lambda>i :: nat. ycsb_key (of_nat i)) {0..<20}"
  proof (rule inj_onI)
    fix a b :: nat assume ab: "a \<in> {0..<20}" "b \<in> {0..<20}" "ycsb_key (of_nat a) = ycsb_key (of_nat b)"
    then have "unat (of_nat a :: 64 word) = unat (of_nat b :: 64 word)" by (simp add: ycsb_inj)
    with ab(1,2) show "a = b" by (simp add: unat_of_nat)
  qed
  have d: "distinct (map fst ycsb_load)" using inj by (simp add: ycsb_load_def comp_def distinct_map)
  have l: "length ycsb_load = 20" by (simp add: ycsb_load_def)
  have e: "fst ` set ycsb_load \<inter> dom (contents (new_BPlusTree [])) = {}" by (simp add: contents_new)
  have b: "6 * (card (dom (contents (new_BPlusTree [] :: (string, fields) tree))) + length ycsb_load) \<le> MAX_NODE_SIZE + 2"
    by (simp add: contents_new l MAX_NODE_SIZE_def)
  obtain s where s: "tree_load tree_M MAX_NODE_SIZE (new_BPlusTree []) ycsb_load = Some s" "tree_wf tree_M s"
    "contents s = contents (new_BPlusTree []) ++ map_of (map (\<lambda>(k, v). (k, update_field_table v [])) ycsb_load)"
    by (rule tree_load_ok [OF tree_wf_new [OF M(2)] M(1) d e b])
  have c: "contents s = map_of ycsb_load"
  proof -
    have "map (\<lambda>(k, v). (k, update_field_table v [])) ycsb_load = ycsb_load" by (simp add: ycsb_load_def)
    then show ?thesis by (simp add: s(3) contents_new)
  qed
  have dm: "card (dom (contents s)) = 20"
    using d by (simp add: c dom_map_of_conv_image_fst l flip: distinct_card) (metis d distinct_card l length_map set_map)
  have "digit 7 = CHR ''7''" unfolding digit_def by code_simp
  then have seven: "to_string 7 = ''7''" by (simp add: to_string.simps)
  have "(ycsb_key 7, [(''field0'', to_string 7)]) \<in> set ycsb_load"
    unfolding ycsb_load_def set_map by (rule image_eqI [of _ _ 7]) simp_all
  then have c7: "contents s (ycsb_key 7) = Some [(''field0'', ''7'')]"
    using map_of_is_SomeI [OF d] by (simp add: c seven)
  have ak: "all_keys is_ycsb s"
    by (rule tree_load_keys [OF s(1)]) (auto simp: all_keys_def new_BPlusTree_def new_Node_def ycsb_load_def)
  have dp: "depth_ok s" by (rule tree_load_top [OF s(1) depth_ok_new]) (simp add: MAX_NODE_SIZE_def)
  have lf: "\<not> isLeaf (pool s 0)"
    using leaf_root_small [OF s(2)] dm by (auto simp: tree_M_def)
  have "nb_node s \<le> 61" using nb_node_bound [OF s(2)] dm by simp
  with that s(1,2) ak dp lf c7 dm show thesis by blast
qed

lemma sample_choices: "picks_one (\<lambda>s q. hd q)" "sorts (\<lambda>s xs. xs)"
  by (simp_all add: picks_one_def sorts_def)

section \<open>Properties\<close>

text \<open>
  C10: the server answers a sequence of requests, whatever addresses they carry among those the
  switch may hold, as a map from keys to records does, each reply on the port the request came
  from; the run does not fail as long as the pool has room.
\<close>

theorem server_refines_map:
  assumes "tree_wf tree_M s" "sensible_run (contents s) rs"
    and "card (dom (contents s)) + length rs \<le> ethernet_cap"
    and "\<And>k. adr k < 2 ^ 48 \<and> held_by_switch MAX_NODE_SIZE sz s (adr k) \<and> reach MAX_NODE_SIZE sz s (adr k) k"
    and "list_all2 (carries pid num adr) rs pkts"
  shows "\<exists>t outs. ethernet_run pick srt sz part 1 pkts s = Some (t, outs) \<and> tree_wf tree_M t
    \<and> spec_run (contents s) rs = (contents t, map payload outs) \<and> map to_port outs = map snd pkts"
  using ethernet.run_ok [OF assms, of "ethernet_load pick srt sz part" reset_counters]
  unfolding ethernet_run_def by blast

theorem server_refines_map_witness:
  "\<exists>t outs. ethernet_run (\<lambda>s q. hd q) (\<lambda>s xs. xs) 96 0 1
      [(request_msg 0 (\<lambda>_. 5) (\<lambda>_. 0) (Insert_req ''k'' [(''f'', ''v'')]), 3),
       (request_msg 0 (\<lambda>_. 5) (\<lambda>_. 0) (Query_req ''k''), 4)] (new_BPlusTree []) = Some (t, outs)
    \<and> map payload outs = [inject_msg_type_backend 0x0528 0,
        inject_msg_type_backend 0x0529 0 @ inject_values [(''f'', ''v'')]]
    \<and> map to_port outs = [3, 4]"
proof -
  let ?rs = "[Insert_req ''k'' [(''f'', ''v'')], Query_req ''k'']" and ?n = "new_BPlusTree [] :: (string, fields) tree"
  have w: "tree_wf tree_M ?n" by (rule tree_wf_new) (simp add: tree_M_def)
  have sr: "sensible_run (contents ?n) ?rs"
    by (simp add: contents_new string_fits_def fields_fit_def pair_fits_def inject_values_def inject_pair_def inject_string_def)
  have c: "card (dom (contents ?n)) + length ?rs \<le> ethernet_cap"
    by (simp add: contents_new ethernet_cap_def MAX_NODE_SIZE_def)
  have "0 < MAX_NODE_SIZE" by (simp add: MAX_NODE_SIZE_def)
  then have a: "(0 :: 64 word) < 2 ^ 48 \<and> held_by_switch MAX_NODE_SIZE 96 ?n 0 \<and> reach MAX_NODE_SIZE 96 ?n 0 k" for k
    using w reach_root [of MAX_NODE_SIZE "[]" ?n] by (simp add: held_by_switch_def node_at_root pinned_def tree_wf_def)
  have p: "list_all2 (carries 0 (\<lambda>_. 5) (\<lambda>_. 0)) ?rs
    [(request_msg 0 (\<lambda>_. 5) (\<lambda>_. 0) (Insert_req ''k'' [(''f'', ''v'')]), 3),
     (request_msg 0 (\<lambda>_. 5) (\<lambda>_. 0) (Query_req ''k''), 4)]"
    by (simp add: carries_def)
  from server_refines_map [OF w sr c a p, of "\<lambda>s q. hd q" "\<lambda>s xs. xs" 0] show ?thesis
    by (auto simp: contents_new)
qed

text \<open>
  C8: after the load phase a server hands the switch descriptions of its nodes; from then on
  requests whose address is the one the switch finds in the description of the root, by
  comparing key numbers, are answered as a map from keys to records answers them, even after
  later insertions have split the nodes the switch knows.
\<close>

theorem switch_routed_requests_answered:
  assumes "tree_wf tree_M s" "all_keys is_ycsb s" "depth_ok s" "\<not> isLeaf (pool s 0)"
    and "nb_node s \<le> MAX_NODE_SIZE" "nb_node s * sz \<le> 2 ^ 32" "0 < sz" "part < 4"
    and "picks_one pick" "sorts srt"
    and "sensible_run (contents s) rs" "card (dom (contents s)) + length rs \<le> ethernet_cap"
  shows "\<exists>t f i is fs. ethernet_load pick srt sz part s = Some (t, (f, i # is) # fs)
    \<and> (\<forall>pkts. list_all2 (carries pid num (switch_addr i)) rs pkts \<longrightarrow>
      (\<exists>u outs. ethernet_run pick srt sz part 1 pkts t = Some (u, outs)
        \<and> spec_run (contents s) rs = (contents u, map payload outs) \<and> map to_port outs = map snd pkts))"
proof -
  obtain t fs where l: "ethernet_load pick srt sz part s = Some (t, fs)" and m: "marks s t"
    and r: "root_first remove_key_index_prefix sz (part_mask part) t fs"
    by (rule ethernet_load_ok [OF assms(1-4,9,10)])
  obtain f i "is" fs' where fs: "fs = (f, i # is) # fs'" "describes_at remove_key_index_prefix sz (part_mask part) t 0 i"
    using r by (cases fs; cases "snd (hd fs)") (auto simp: root_first_def)
  note t = marks_wf [OF assms(1) m]
  have lf: "\<not> isLeaf (pool t 0)" using assms(4) m by (simp add: marks_def same_shape_def)
  have nb: "nb_node t \<le> MAX_NODE_SIZE" "nb_node t * sz \<le> 2 ^ 32" using assms(5,6) marks_nb [OF m] by simp_all
  have y: "all_keys is_ycsb t" using assms(2) marks_all_keys [OF m] by simp
  note a = switch_addr_ok [OF t(1) y fs(2) lf nb assms(7,8)]
  have sr: "sensible_run (contents t) rs" "card (dom (contents t)) + length rs \<le> ethernet_cap"
    using assms(11,12) by (simp_all add: t(2))
  have "\<exists>u outs. ethernet_run pick srt sz part 1 pkts t = Some (u, outs)
    \<and> spec_run (contents s) rs = (contents u, map payload outs) \<and> map to_port outs = map snd pkts"
    if "list_all2 (carries pid num (switch_addr i)) rs pkts" for pkts
    using ethernet.run_ok [OF t(1) sr a that, of "ethernet_load pick srt sz part" reset_counters]
    unfolding ethernet_run_def t(2) by blast
  then show ?thesis using l fs(1) by blast
qed

theorem switch_routed_requests_answered_witness:
  "\<exists>s t f i is fs. tree_load tree_M MAX_NODE_SIZE (new_BPlusTree []) ycsb_load = Some s
    \<and> ethernet_load (\<lambda>s q. hd q) (\<lambda>s xs. xs) 96 1 s = Some (t, (f, i # is) # fs)
    \<and> (\<exists>u outs. ethernet_run (\<lambda>s q. hd q) (\<lambda>s xs. xs) 96 1 1
        [(request_msg 1 (\<lambda>_. 7) (switch_addr i) (Query_req (ycsb_key 7)), 3)] t = Some (u, outs)
      \<and> map payload outs = [inject_msg_type_backend 0x0529 0 @ inject_values [(''field0'', ''7'')]])"
proof -
  obtain s where s: "tree_load tree_M MAX_NODE_SIZE (new_BPlusTree []) ycsb_load = Some s" "tree_wf tree_M s"
    "all_keys is_ycsb s" "depth_ok s" "\<not> isLeaf (pool s 0)" "nb_node s \<le> 61"
    "contents s (ycsb_key 7) = Some [(''field0'', ''7'')]" "card (dom (contents s)) = 20" by (rule ycsb_sample)
  let ?rs = "[Query_req (ycsb_key 7)]"
  have n: "nb_node s \<le> MAX_NODE_SIZE" "nb_node s * 96 \<le> 2 ^ 32" "0 < (96 :: nat)" "(1 :: 64 word) < 4"
    using s(6) by (simp_all add: MAX_NODE_SIZE_def)
  have "length (ycsb_key 7) \<le> 1000"
  proof -
    have "digit 7 = CHR ''7''" unfolding digit_def by code_simp
    then have "to_string 7 = ''7''" by (simp add: to_string.simps)
    then show ?thesis by (simp add: ycsb_key_def table_key_def BuildKeyName_def Let_def)
  qed
  then have sr: "sensible_run (contents s) ?rs"
    by (simp add: s(7) string_fits_def inject_values_def inject_pair_def inject_string_def)
  have c: "card (dom (contents s)) + length ?rs \<le> ethernet_cap"
    by (simp add: s(8) ethernet_cap_def MAX_NODE_SIZE_def)
  from switch_routed_requests_answered [OF s(2-5) n sample_choices sr c, of 1 "\<lambda>_. 7"]
  obtain t f i "is" fs where t: "ethernet_load (\<lambda>s q. hd q) (\<lambda>s xs. xs) 96 1 s = Some (t, (f, i # is) # fs)"
    "\<And>pkts. list_all2 (carries 1 (\<lambda>_. 7) (switch_addr i)) ?rs pkts \<Longrightarrow>
      \<exists>u outs. ethernet_run (\<lambda>s q. hd q) (\<lambda>s xs. xs) 96 1 1 pkts t = Some (u, outs)
        \<and> spec_run (contents s) ?rs = (contents u, map payload outs) \<and> map to_port outs = map snd pkts" by blast
  have "list_all2 (carries 1 (\<lambda>_. 7) (switch_addr i)) ?rs [(request_msg 1 (\<lambda>_. 7) (switch_addr i) (Query_req (ycsb_key 7)), 3)]"
    by (simp add: carries_def)
  from t(2) [OF this] t(1) s(1,7) show ?thesis by (fastforce simp: Let_def)
qed

end
