(* ===== verification/Switch_Properties.thy ===== *)
theory Switch_Properties
  imports Server_Properties
begin

text \<open>
  The properties of what surrounds the tree on the Ethernet path: the nodes chosen for the
  switch, node addresses, keys and field tables, messages, frames and queues.
\<close>

section \<open>Nodes chosen for the switch\<close>

text \<open>
  C11: the greedy choice ends with at most \<open>root_load_num\<close> nodes, all different, with one
  separator between any two; whatever key is looked up, the node the separators lead to is on
  the route to the key.
\<close>

theorem fat_root_routes_every_key:
  assumes "tree_wf M s" "above_empty s k0" "\<And>k. k0 \<le> k" "\<And>q. q \<noteq> [] \<Longrightarrow> pick q \<in> set q" "\<not> isLeaf (pool s 0)"
  shows "\<exists>ks ns. fat_root pick M s bound cd k0 = Some (ks, ns) \<and> length ns = Suc (length ks) \<and> distinct ns
    \<and> length ns \<le> max 1 bound \<and> sorted ks \<and> (\<forall>k. ns ! lower_bound ks k \<in> set (route s k))"
proof -
  from assms(1) obtain R rk kv where I: "inv_at [] s R rk kv" and b: "busy s" "all_filled M s"
    by (auto simp: tree_wf_def tree_inv_def)
  show ?thesis
    by (rule fat_root_ok [OF I b assms(2-5), of bound cd]) (assumption, intro exI conjI allI, assumption+)
qed

theorem fat_root_routes_every_key_witness:
  "\<exists>s ks ns. tree_load tree_M MAX_NODE_SIZE (new_BPlusTree []) ycsb_load = Some s
    \<and> fat_root hd tree_M s root_load_num compress_depth '''' = Some (ks, ns) \<and> length ns \<le> 150
    \<and> ns ! lower_bound ks (ycsb_key 7) \<in> set (route s (ycsb_key 7))"
proof -
  obtain s where s: "tree_load tree_M MAX_NODE_SIZE (new_BPlusTree []) ycsb_load = Some s" "tree_wf tree_M s"
    "all_keys is_ycsb s" "depth_ok s" "\<not> isLeaf (pool s 0)" "nb_node s \<le> 61"
    "contents s (ycsb_key 7) = Some [(''field0'', ''7'')]" "card (dom (contents s)) = 20" by (rule ycsb_sample)
  have e: "'''' \<le> (k :: string)" for k by (cases k) simp_all
  have h: "q \<noteq> [] \<Longrightarrow> hd q \<in> set q" for q :: "nat list" by simp
  from fat_root_routes_every_key [OF s(2) ycsb_tree(1) [OF s(3)] e h s(5), of root_load_num compress_depth] s(1)
  show ?thesis by (auto simp: root_load_num_def)
qed

text \<open>
  C15: \<open>load2switch_greedy\<close> ends, leaves the records as they are, and every description it prints
  names a node and children that are marked as known to the switch, so that \<open>overflow\<close> copies
  them and does not split them in place.
\<close>

theorem ethernet_load_marks_what_it_prints:
  assumes "tree_wf tree_M s" "all_keys is_ycsb s" "depth_ok s" "\<not> isLeaf (pool s 0)" "picks_one pick" "sorts srt"
  shows "\<exists>t fs. ethernet_load pick srt sz part s = Some (t, fs) \<and> tree_wf tree_M t \<and> contents t = contents s
    \<and> (\<forall>f \<in> set fs. \<forall>i \<in> set (snd f). \<exists>n cs. info_addr i = (if n = 0 then 0 else node_address sz (part_mask part) n)
        \<and> pinned t n \<and> info_child i = map (node_address sz (part_mask part)) cs \<and> (\<forall>c \<in> set cs. pinned t c))"
proof -
  obtain t fs where l: "ethernet_load pick srt sz part s = Some (t, fs)" "marks s t"
    "files_ok remove_key_index_prefix sz (part_mask part) t fs"
    by (rule ethernet_load_ok [OF assms])
  then show ?thesis
    using marks_wf [OF assms(1) l(2)] unfolding files_ok_def describes_def describes_at_def by blast
qed

theorem ethernet_load_marks_what_it_prints_witness:
  "\<exists>s t fs. tree_load tree_M MAX_NODE_SIZE (new_BPlusTree []) ycsb_load = Some s
    \<and> ethernet_load (\<lambda>s q. hd q) (\<lambda>s xs. xs) 96 2 s = Some (t, fs) \<and> tree_wf tree_M t"
proof -
  obtain s where s: "tree_load tree_M MAX_NODE_SIZE (new_BPlusTree []) ycsb_load = Some s" "tree_wf tree_M s"
    "all_keys is_ycsb s" "depth_ok s" "\<not> isLeaf (pool s 0)" "nb_node s \<le> 61"
    "contents s (ycsb_key 7) = Some [(''field0'', ''7'')]" "card (dom (contents s)) = 20" by (rule ycsb_sample)
  from ethernet_load_marks_what_it_prints [OF s(2-5) sample_choices, of 96 2] s(1) show ?thesis by blast
qed

text \<open>
  C18: the layer-wise \<open>load2switch\<close> cannot be used: it has one layer too few in its vector, and
  runs over its end on every tree.
\<close>

theorem load2switch_out_of_bounds:
  "load2switch enc srt sz s filename max_load_num compress_depth = None"
  by (rule load2switch_None)

section \<open>Node addresses\<close>

lemma address_offset:
  "unat (and (node_address sz (part_mask part) n) 0xFFFFFFFF) = n * sz mod 2 ^ 32"
proof -
  have m: "(0xFFFFFFFF :: 64 word) = mask 32" by (simp add: mask_eq_exp_minus_1)
  have "and (or (part_mask part) (of_nat (n * sz))) (mask 32) = and (of_nat (n * sz)) (mask 32)"
    using part_mask_low [of part] unfolding m by (simp only: bit.conj_disj_distrib2) simp
  then have "and (node_address sz (part_mask part) n) 0xFFFFFFFF = take_bit 32 (of_nat (n * sz))"
    unfolding m node_address_def take_bit_eq_mask .
  then show ?thesis by (simp only: unsigned_take_bit_eq unat_of_nat) (simp add: take_bit_eq_mod mod_mod_cancel)
qed

text \<open>
  C19: the server finds the node an address of its part stands for exactly when the node lies in
  the first 4 GiB of the pool; for nodes beyond, the offset is cut to 32 bits.
\<close>

theorem node_address_round_trip:
  assumes "0 < sz" "n < mx"
  shows "node_at mx sz (node_address sz (part_mask part) n) = Some n \<longleftrightarrow> n * sz < 2 ^ 32"
proof
  assume "n * sz < 2 ^ 32"
  then have "n * sz mod 2 ^ 32 = n * sz" by (rule mod_less)
  then show "node_at mx sz (node_address sz (part_mask part) n) = Some n"
    unfolding node_at_def address_offset using assms by simp
next
  assume "node_at mx sz (node_address sz (part_mask part) n) = Some n"
  then have "n * sz mod 2 ^ 32 mod sz = 0" "n * sz mod 2 ^ 32 div sz = n"
    unfolding node_at_def address_offset by (auto simp: Let_def split: if_splits)
  then have "n * sz = n * sz mod 2 ^ 32" by (metis add.right_neutral div_mult_mod_eq)
  then show "n * sz < 2 ^ 32" by (metis mod_less_divisor zero_less_numeral zero_less_power)
qed

theorem node_address_round_trip_witness:
  "node_at MAX_NODE_SIZE 96 (node_address 96 (part_mask 3) 44739242) = Some 44739242
   \<and> node_at MAX_NODE_SIZE 96 (node_address 96 (part_mask 3) 44739243) \<noteq> Some 44739243"
  using node_address_round_trip [of 96 44739242 MAX_NODE_SIZE 3] node_address_round_trip [of 96 44739243 MAX_NODE_SIZE 3]
  by (simp add: MAX_NODE_SIZE_def)

section \<open>Records and keys\<close>

text \<open>
  C20: updating a record adds the fields it does not have, with the first value given for each,
  and leaves the fields it has as they are: no value is ever overwritten.
\<close>

theorem update_never_overwrites:
  "map_of (update_field_table us t) = map_of us ++ map_of t"
  by (rule map_of_update_field_table)

text \<open>
  C21: the number of a key is read back by both versions of \<open>remove_key_index_prefix\<close>, and with
  at least 20 digits the order of the keys in the tree is the order of the numbers in the
  switch; the partition is the two highest bits of the number.
\<close>

theorem key_numbers:
  assumes "20 \<le> zp"
  shows "remove_key_index_prefix (table_key ''usertable'' (BuildKeyName True zp a)) = Some a
    \<and> remove_key_index_prefix_sscanf (table_key ''usertable'' (BuildKeyName True zp a)) = Some a
    \<and> get_part_id (table_key ''usertable'' (BuildKeyName True zp a)) = Some (ucast (drop_bit 62 a))
    \<and> (table_key ''usertable'' (BuildKeyName True zp a) < table_key ''usertable'' (BuildKeyName True zp b) \<longleftrightarrow> a < b)"
proof -
  let ?k = "table_key ''usertable'' (BuildKeyName True zp a)"
  have d: "drop 13 ?k = drop 4 (BuildKeyName True zp a)" "13 \<le> length ?k"
    by (simp_all add: table_key_def BuildKeyName_def Let_def)
  note n = scan_BuildKeyName [of True zp a]
  have "remove_key_index_prefix ?k = Some a" "remove_key_index_prefix_sscanf ?k = Some a"
    "get_part_id ?k = Some (ucast (drop_bit 62 a))"
    using d n by (simp_all add: remove_prefix_scan remove_key_index_prefix_sscanf_def get_part_id_def)
  moreover have "?k < table_key ''usertable'' (BuildKeyName True zp b) \<longleftrightarrow> a < b" by (rule key_order [OF assms])
  ultimately show ?thesis by simp
qed

theorem key_numbers_witness:
  "remove_key_index_prefix (table_key ''usertable'' (BuildKeyName True 20 9)) = Some 9
   \<and> get_part_id (table_key ''usertable'' (BuildKeyName True 20 (push_bit 62 3))) = Some 3
   \<and> table_key ''usertable'' (BuildKeyName True 20 9) < table_key ''usertable'' (BuildKeyName True 20 10)"
  using key_numbers [of 20 9 10] key_numbers [of 20 "push_bit 62 3" 0]
  by simp

section \<open>Messages and frames\<close>

text \<open>
  C22: what the frontend writes into a request the backend reads back, field by field: the
  message type, the address the switch has put into the header, the key and the record.
\<close>

theorem update_request_round_trip:
  assumes "string_fits k" "fields_fit v" "adr k < 2 ^ 48"
  shows "do {
      (ty, msg) \<leftarrow> extract_msg_type (request_msg pid num adr (Update_req k v) @ rest);
      (idx, msg) \<leftarrow> extract_fbt_hdr msg;
      (key, msg) \<leftarrow> extract_key_index msg;
      (values, msg) \<leftarrow> extract_values msg;
      Some (ty, idx, key, values, msg) } = Some (0x0531, adr k, k, v, rest)"
  using assms by (simp add: extract_with_fbt_idx key_codec.dec_enc values_codec.dec_enc)

theorem update_request_round_trip_witness:
  "do {
      (ty, msg) \<leftarrow> extract_msg_type (request_msg 1 (\<lambda>_. 7) (\<lambda>_. 96) (Update_req ''k'' [(''f'', ''v'')]) @ [0, 0]);
      (idx, msg) \<leftarrow> extract_fbt_hdr msg;
      (key, msg) \<leftarrow> extract_key_index msg;
      (values, msg) \<leftarrow> extract_values msg;
      Some (ty, idx, key, values, msg) } = Some (0x0531, 96, ''k'', [(''f'', ''v'')], [0, 0])"
  by (rule update_request_round_trip) (simp_all add: string_fits_def fields_fit_def pair_fits_def)

text \<open>
  C23: a message that is sent in a frame is received as the beginning of the buffer, with the
  port number it was sent to, whatever checksums the card computes.
\<close>

theorem frame_round_trip:
  assumes "unat nb = length ctx" "nb_bytes \<le> length (ctx @ rest)" "poll net = Some (f # fs, net')"
    and "f = send_pkt udptcp_cksum ipv4_cksum ctx nb no @ rest"
  shows "recv_pkt nb_bytes [] net = Some ((take nb_bytes (ctx @ rest), no), fs, net')
    \<and> recv_pkt_single nb_bytes net = Some ((take nb_bytes (ctx @ rest), no), net')"
  using assms unpack_send_pkt [OF assms(1,2)] by (simp_all add: recv_pkt_def recv_pkt_single_def next_mbuf_def)

theorem frame_round_trip_witness:
  "recv_pkt 4 [] [[], [send_pkt (\<lambda>_ _. 0) (\<lambda>_. 0) [1, 2, 3] 3 9 @ [0, 0]]] = Some (([1, 2, 3, 0], 9), [], [])"
  using frame_round_trip [of 3 "[1, 2, 3]" 4 "[0, 0]"
      "[[], [send_pkt (\<lambda>_ _. 0) (\<lambda>_. 0) [1, 2, 3] 3 9 @ [0, 0]]]"
      "send_pkt (\<lambda>_ _. 0) (\<lambda>_. 0) [1, 2, 3] 3 9 @ [0, 0]" "[]" "[]" "\<lambda>_ _. 0" "\<lambda>_. 0" 9]
  by simp

text \<open>
  Taking packets off a queue of the backend's driver hands them out in the order in which
  the card delivered them, none lost and none twice, however they were grouped into bursts.
\<close>

theorem receive_in_order:
  assumes "drain n q net = (ms, q', net')"
  shows "ms = take n (q @ concat net) \<and> q' @ concat net' = drop n (q @ concat net)"
  using drain_fifo [OF assms] by simp_all

theorem receive_in_order_witness:
  "fst (drain 3 [] [[[1]], [], [[2], [3]]]) = [[1], [2], [3 :: 8 word]]"
proof -
  obtain ms q net where d: "drain 3 [] [[[1]], [], [[2], [3 :: 8 word]]] = (ms, q, net)" by (rule prod_cases3)
  from receive_in_order [OF d] show ?thesis by (simp add: d)
qed

text \<open>
  Threads that register one after the other get queue numbers that are all different; they
  start at 0 or at 1, depending on which side of \<open>m[id] = m.size()\<close> the compiler evaluates first.
\<close>

theorem registered_queues_distinct:
  assumes "distinct tids" "length tids < 2 ^ 16" "i < length tids"
  shows "fst (get_queue_id (tids ! i) (fold (register_queue_id size_first) tids (d\<lparr>map_queue_id := []\<rparr>)))
    = of_nat (i + (if size_first then 0 else 1))"
proof -
  have f: "fold (register_queue_id size_first) ts (d\<lparr>map_queue_id := m\<rparr>)
    = d\<lparr>map_queue_id := fold (register_id size_first) ts m\<rparr>" for ts m
    by (induction ts arbitrary: m) (simp_all add: register_queue_id_def)
  let ?m = "map (\<lambda>i. (tids ! i, of_nat (i + (if size_first then 0 else 1)) :: 16 word)) [0..<length tids]"
  have "map fst ?m = tids" by (simp add: comp_def map_nth)
  then have d: "distinct (map fst ?m)" using assms(1) by simp
  have "(tids ! i, of_nat (i + (if size_first then 0 else 1))) \<in> set ?m" using assms(3) by auto
  then have "map_of ?m (tids ! i) = Some (of_nat (i + (if size_first then 0 else 1)))"
    by (rule map_of_is_SomeI [OF d])
  then show ?thesis by (simp add: f register_ids [OF assms(1)] get_queue_id_def get_id_def Let_def)
qed

theorem registered_queues_distinct_witness:
  "\<forall>d. fst (get_queue_id 12 (fold (register_queue_id True) [11, 12] (d\<lparr>map_queue_id := []\<rparr>))) = 1
   \<and> fst (get_queue_id 12 (fold (register_queue_id False) [11, 12] (d\<lparr>map_queue_id := []\<rparr>))) = 2"
proof
  fix d
  show "fst (get_queue_id 12 (fold (register_queue_id True) [11, 12] (d\<lparr>map_queue_id := []\<rparr>))) = 1
   \<and> fst (get_queue_id 12 (fold (register_queue_id False) [11, 12] (d\<lparr>map_queue_id := []\<rparr>))) = 2"
    using registered_queues_distinct [of "[11, 12]" 1 True d] registered_queues_distinct [of "[11, 12]" 1 False d]
    by simp
qed

end
