(* ===== verification/Frontend.thy ===== *)
theory Frontend
  imports Server_Properties
begin

text \<open>
  The client side of the Ethernet path, db/b_plus_tree_db.cc of the frontend: each operation
  writes a request, sends it from the thread's queue and waits for the reply. Failures are
  values of \<open>db_error\<close>: a failed assertion, a C++ exception, an access out of bounds (or the use
  of an uninitialised number), or a wait for a packet that never arrives.
\<close>

section \<open>Errors\<close>

datatype db_error = Assertion "32 word" | Thrown string | Undefined | Blocked

text \<open>An option as a result.\<close>

definition need :: "'a option \<Rightarrow> db_error + 'a" where
  "need x = (case x of None \<Rightarrow> Inl Undefined | Some y \<Rightarrow> Inr y)"

lemma need_simps [simp]: "need (Some x) = Inr x" "need None = Inl Undefined"
  by (simp_all add: need_def)

lemma need_Inr: "need x = Inr y \<longleftrightarrow> x = Some y"
  by (cases x) simp_all

section \<open>State\<close>

text \<open>
  \<open>driver\<close> is the driver's state, \<open>arriving q\<close> the bursts the card will deliver on queue \<open>q\<close>,
  \<open>out\<close> what has been sent. \<open>flows\<close> and \<open>cpus\<close> are what \<open>Init\<close> asks of the card and of the
  system.
\<close>

record frontend =
  driver :: dpdk_driver
  init_count :: int
  flows :: "(16 word \<times> 16 word) list"
  cpus :: "(nat \<times> nat) list"
  out :: "sent list"
  arriving :: "16 word \<Rightarrow> bytes list list"

definition thread_ids :: "nat \<Rightarrow> frontend \<Rightarrow> 16 word \<times> 16 word \<times> frontend" where
  "thread_ids tid s = (let (queue_id, d) = get_queue_id tid (driver s);
      (dest_port, d) = get_dest_port tid d in (queue_id, dest_port, s\<lparr>driver := d\<rparr>))"

definition db_Init :: "bool \<Rightarrow> nat \<Rightarrow> frontend \<Rightarrow> frontend" where
  "db_Init size_first tid s =
     (let s = s\<lparr>init_count := init_count s + 1\<rparr>;
          s = s\<lparr>driver := register_dest_port size_first tid (register_queue_id size_first tid (driver s))\<rparr>;
          (q, p, s) = thread_ids tid s;
          s = (if init_count s \<le> 16 then s\<lparr>flows := flows s @ [(q, p)]\<rparr> else s)
      in s\<lparr>cpus := cpus s @ [(tid, unat p + 1)]\<rparr>)"

section \<open>Sending and waiting\<close>

text \<open>A message in a buffer of 1472 bytes, handed to the driver.\<close>

definition db_send :: "bytes \<Rightarrow> 16 word \<Rightarrow> 16 word \<Rightarrow> frontend \<Rightarrow> db_error + frontend" where
  "db_send msg dest_port queue_id s = (if length msg \<le> 1472
     then Inr (s\<lparr>out := out s @ [\<lparr>payload = msg, to_port = dest_port, on_queue = queue_id\<rparr>]\<rparr>) else Inl Undefined)"

text \<open>
  \<open>do { recv_pkt; extract_msg_type; assert; body } while (msg_type == 0)\<close>: \<open>body\<close> is what the
  operation does with every message, also with those of type 0.
\<close>

function await :: "32 word \<Rightarrow> (bytes \<Rightarrow> 'r \<Rightarrow> 'r option) \<Rightarrow> 'r \<Rightarrow> bytes list list
    \<Rightarrow> db_error + ('r \<times> bytes list list)" where
  "await want body r net = (case poll net of None \<Rightarrow> Inl Blocked
     | Some (burst, net') \<Rightarrow>
       ok (need (unpack (hd burst) 1472)) (\<lambda>(msg, _).
       ok (need (extract_msg_type msg)) (\<lambda>(msg_type, msg).
         if msg_type \<noteq> want \<and> msg_type \<noteq> 0 then Inl (Assertion msg_type)
         else ok (need (body msg r)) (\<lambda>r. if msg_type = 0 then await want body r net' else Inr (r, net')))))"
  by pat_completeness auto

lemma poll_shorter: "poll net = Some (b, net') \<Longrightarrow> length net' < length net"
  by (induction net) (auto split: if_splits)

termination await
  by (relation "measure (\<lambda>(_, _, _, net). length net)") (auto dest: poll_shorter)

declare await.simps [simp del]

definition db_await :: "32 word \<Rightarrow> (bytes \<Rightarrow> 'r \<Rightarrow> 'r option) \<Rightarrow> 'r \<Rightarrow> 16 word \<Rightarrow> frontend
    \<Rightarrow> db_error + ('r \<times> frontend)" where
  "db_await want body r queue_id s = ok (await want body r (arriving s queue_id))
     (\<lambda>(r, net). Inr (r, s\<lparr>arriving := (arriving s)(queue_id := net)\<rparr>))"

text \<open>\<open>extract_values\<close> resizes the caller's vector and assigns every element of it.\<close>

definition set_values :: "bytes \<Rightarrow> fields \<Rightarrow> fields option" where
  "set_values msg result = do { (vs, _) \<leftarrow> extract_values msg; Some vs }"

definition no_body :: "bytes \<Rightarrow> unit \<Rightarrow> unit option" where
  "no_body msg u = Some u"

section \<open>The operations\<close>

text \<open>The beginning of every request that the switch routes.\<close>

definition routed_request :: "32 word \<Rightarrow> string \<Rightarrow> db_error + bytes" where
  "routed_request msg_type key_index =
     ok (need (get_part_id key_index)) (\<lambda>pid.
     ok (need (remove_key_index_prefix_sscanf key_index)) (\<lambda>num.
       Inr (inject_msg_type msg_type pid @ inject_fbt_hdr num @ inject_key_index key_index)))"

text \<open>\<open>Read\<close> does not look at the list of fields it is asked for.\<close>

definition db_Read :: "nat \<Rightarrow> string \<Rightarrow> string \<Rightarrow> string list option \<Rightarrow> fields \<Rightarrow> frontend
    \<Rightarrow> db_error + (fields \<times> frontend)" where
  "db_Read tid table key field_names result s =
     (let key_index = table_key table key; (queue_id, dest_port, s) = thread_ids tid s in
      ok (routed_request 0x0527 key_index) (\<lambda>msg.
      ok (db_send msg dest_port queue_id s) (db_await 0x0529 set_values result queue_id)))"

definition db_Update :: "nat \<Rightarrow> string \<Rightarrow> string \<Rightarrow> fields \<Rightarrow> frontend \<Rightarrow> db_error + (unit \<times> frontend)" where
  "db_Update tid table key values s =
     (let key_index = table_key table key; (queue_id, dest_port, s) = thread_ids tid s in
      ok (routed_request 0x0531 key_index) (\<lambda>msg.
      ok (db_send (msg @ inject_values values) dest_port queue_id s) (db_await 0x0530 no_body () queue_id)))"

definition db_Insert :: "nat \<Rightarrow> string \<Rightarrow> string \<Rightarrow> fields \<Rightarrow> frontend \<Rightarrow> db_error + (unit \<times> frontend)" where
  "db_Insert tid table key values s =
     (let key_index = table_key table key; (queue_id, dest_port, s) = thread_ids tid s in
      ok (need (get_part_id key_index)) (\<lambda>pid.
      ok (db_send (inject_msg_type 0x0526 pid @ inject_key_index key_index @ inject_values values)
            dest_port queue_id s) (db_await 0x0528 no_body () queue_id)))"

definition db_Scan :: "string \<Rightarrow> string \<Rightarrow> int \<Rightarrow> string list option \<Rightarrow> frontend \<Rightarrow> db_error + (fields list \<times> frontend)" where
  "db_Scan table key len field_names s = Inl (Thrown ''Scan: function not implemented!'')"

definition db_Delete :: "string \<Rightarrow> string \<Rightarrow> frontend \<Rightarrow> db_error + (unit \<times> frontend)" where
  "db_Delete table key s = Inl (Thrown ''Delete: function not implemented!'')"

text \<open>
  \<open>Load2Switch\<close> asks the four servers one after the other, then waits until the word \<open>done\<close> is
  typed; at the end of the input it waits for ever.
\<close>

fun wait_done :: "string list \<Rightarrow> db_error + string list" where
  "wait_done [] = Inl Blocked"
| "wait_done (str # cin) = (if str = ''done'' then Inr cin else wait_done cin)"

fun load_parts :: "nat \<Rightarrow> 8 word \<Rightarrow> frontend \<Rightarrow> db_error + frontend" where
  "load_parts 0 part_id s = Inr s"
| "load_parts (Suc n) part_id s =
     ok (db_send (inject_msg_type 0x0600 part_id) 0 0 s) (\<lambda>s.
     ok (db_await 0x0601 no_body () 0 s) (\<lambda>(_, s). load_parts n (part_id + 1) s))"

definition db_Load2Switch :: "string list \<Rightarrow> frontend \<Rightarrow> db_error + (string list \<times> frontend)" where
  "db_Load2Switch cin s = ok (load_parts 4 0 s) (\<lambda>s. ok (wait_done cin) (\<lambda>cin. Inr (cin, s)))"

end
