(* ===== verification/Ethernet_System.thy ===== *)
theory Ethernet_System
  imports Frontend
begin

text \<open>
  A client thread, the switch and a server together: the client's operation sends its request,
  the switch fills in the node address it finds for the key number, the server runs one round
  of its loop, and the reply frame is what the client's driver delivers.
\<close>

section \<open>Waiting for a reply\<close>

lemma await_reply:
  assumes "poll net = Some (b # bs, net')" "unpack b 1472 = Some (msg, no)"
    and "extract_msg_type msg = Some (want, rest)" "want \<noteq> 0" "body rest r = Some r'"
  shows "await want body r net = Inr (r', net')"
  using assms by (subst await.simps) simp

text \<open>A message of type 0 is passed on to \<open>body\<close>, and the wait goes on.\<close>

lemma await_skip:
  assumes "poll net = Some (b # bs, net')" "unpack b 1472 = Some (msg, no)"
    and "extract_msg_type msg = Some (0, rest)" "body rest r = Some r'"
  shows "await want body r net = await want body r' net'"
  using assms by (subst await.simps) simp

lemma await_assertion:
  assumes "poll net = Some (b # bs, net')" "unpack b 1472 = Some (msg, no)"
    and "extract_msg_type msg = Some (t, rest)" "t \<noteq> 0" "t \<noteq> want"
  shows "await want body r net = Inl (Assertion t)"
  using assms by (subst await.simps) simp

text \<open>The frame that carries what a server or client sends, in a buffer that is at least 1472 bytes longer.\<close>

definition frame_of :: "(bytes \<Rightarrow> bytes \<Rightarrow> 16 word) \<Rightarrow> (bytes \<Rightarrow> 16 word) \<Rightarrow> sent \<Rightarrow> bytes \<Rightarrow> bytes" where
  "frame_of udptcp_cksum ipv4_cksum m pad =
     send_pkt udptcp_cksum ipv4_cksum (payload m) (of_nat (length (payload m))) (to_port m) @ pad"

lemma unpack_frame_of:
  assumes "payload m = x @ y" "length (payload m) \<le> 1472" "1472 \<le> length pad"
  obtains rest where "unpack (frame_of uck ick m pad) 1472 = Some (x @ y @ rest, to_port m)"
proof -
  have "unat (of_nat (length (payload m)) :: 32 word) = length (payload m)"
    using assms(2) by (simp add: unat_of_nat)
  then have "unpack (frame_of uck ick m pad) 1472 = Some (take 1472 (payload m @ pad), to_port m)"
    unfolding frame_of_def using assms(3) by (intro unpack_send_pkt) simp_all
  moreover have "take 1472 (payload m @ pad) = x @ y @ take (1472 - length (payload m)) pad"
    using assms(1,2) by (simp add: take_append)
  ultimately show thesis using that by simp
qed

section \<open>The switch\<close>

text \<open>
  The first stage of the switch: for queries and updates it reads the key number and writes the
  address that the description of the root gives for it into the header; other messages pass.
\<close>

definition switch_forward :: "node_info \<Rightarrow> bytes \<Rightarrow> bytes" where
  "switch_forward i msg = (case do {
      (ty, rest) \<leftarrow> extract_msg_type msg;
      (hi, rest) \<leftarrow> read_unsigned rest;
      (lo, _) \<leftarrow> read_unsigned rest;
      Some (ty, join_halves (htonl hi, htonl lo)) } of
    None \<Rightarrow> msg
  | Some (ty, num) \<Rightarrow> if ty \<in> {0x0527, 0x0531}
      then take 13 msg @ rev (le 6 (unat (info_route i num))) @ drop 19 msg else msg)"

lemma key_halves_hdr:
  "(ucast (drop_bit 32 w), ucast (and w 0xffffffff)) = key_halves w"
proof -
  have m: "(0xFFFFFFFF :: 64 word) = mask 32" by (simp add: mask_eq_exp_minus_1)
  have "(ucast (drop_bit 32 w) :: 32 word) = ucast (and (drop_bit 32 w) (mask 32))"
    by (rule bit_eqI) (auto simp: bit_simps)
  then show ?thesis by (simp add: key_halves_def m)
qed

lemma forward_routed:
  assumes "ty \<in> {0x0527, 0x0531}"
  shows "switch_forward i (inject_msg_type ty pid @ with_fbt_idx w 0 @ tail) = inject_msg_type ty pid @ with_fbt_idx w (info_route i w) @ tail"
proof -
  define hi lo where "hi = (ucast (drop_bit 32 w) :: 32 word)" and "lo = (ucast (and w 0xffffffff) :: 32 word)"
  have h: "with_fbt_idx w x = le32 (htonl hi) @ le32 (htonl lo) @ rev (le 6 (unat x))" for x
    by (simp add: with_fbt_idx_def inject_fbt_hdr_def hi_def lo_def Let_def)
  have l: "length (inject_msg_type ty pid) = 5" by (simp add: inject_msg_type_def Let_def)
  have j: "join_halves (hi, lo) = w" using key_halves_hdr [of w] by (simp add: hi_def lo_def)
  let ?m = "inject_msg_type ty pid @ with_fbt_idx w 0 @ tail"
  have t: "take 13 ?m = inject_msg_type ty pid @ le32 (htonl hi) @ le32 (htonl lo)"
    "drop 19 ?m = tail" by (simp_all add: h l)
  have "do { (ty, rest) \<leftarrow> extract_msg_type ?m; (hi, rest) \<leftarrow> read_unsigned rest; (lo, _) \<leftarrow> read_unsigned rest;
      Some (ty, join_halves (htonl hi, htonl lo)) } = Some (ty, w)"
    by (simp add: h j)
  then show ?thesis using assms unfolding switch_forward_def t by (simp add: h)
qed

lemma forward_other:
  assumes "ty \<notin> {0x0527, 0x0531}"
  shows "switch_forward i (inject_msg_type ty pid @ tail) = inject_msg_type ty pid @ tail"
  using assms by (auto simp: switch_forward_def split: option.split bind_splits)

section \<open>Operations of a client\<close>

datatype db_op = Read_op string string | Update_op string string fields | Insert_op string string fields

fun run_op :: "nat \<Rightarrow> db_op \<Rightarrow> frontend \<Rightarrow> db_error + (fields \<times> frontend)" where
  "run_op tid (Read_op table key) s = db_Read tid table key None [] s"
| "run_op tid (Update_op table key v) s = ok (db_Update tid table key v s) (\<lambda>(_, s). Inr ([], s))"
| "run_op tid (Insert_op table key v) s = ok (db_Insert tid table key v s) (\<lambda>(_, s). Inr ([], s))"

fun op_req :: "db_op \<Rightarrow> request" where
  "op_req (Read_op table key) = Query_req (table_key table key)"
| "op_req (Update_op table key v) = Update_req (table_key table key) v"
| "op_req (Insert_op table key v) = Insert_req (table_key table key) v"

fun op_key :: "db_op \<Rightarrow> string" where
  "op_key (Read_op table key) = table_key table key"
| "op_key (Update_op table key v) = table_key table key"
| "op_key (Insert_op table key v) = table_key table key"

text \<open>What an operation of a map returns.\<close>

fun op_result :: "(string \<rightharpoonup> fields) \<Rightarrow> db_op \<Rightarrow> fields" where
  "op_result m (Read_op table key) = the (m (table_key table key))"
| "op_result m (Update_op table key v) = []"
| "op_result m (Insert_op table key v) = []"

definition client_num :: "string \<Rightarrow> 64 word" where
  "client_num k = the (remove_key_index_prefix_sscanf k)"

definition client_pid :: "string \<Rightarrow> 8 word" where
  "client_pid k = the (get_part_id k)"

definition op_msg :: "(string \<Rightarrow> 64 word) \<Rightarrow> db_op \<Rightarrow> bytes" where
  "op_msg adr opn = request_msg (client_pid (op_key opn)) client_num adr (op_req opn)"

lemma op_msg_cong: "adr (op_key opn) = adr' (op_key opn) \<Longrightarrow> op_msg adr opn = op_msg adr' opn"
  by (cases opn) (simp_all add: op_msg_def)

text \<open>What the operations send, when the number of the key can be read.\<close>

lemma routed_request_eq:
  assumes "remove_key_index_prefix_sscanf k \<noteq> None"
  shows "routed_request ty k = Inr (inject_msg_type ty (client_pid k) @ with_fbt_idx (client_num k) 0 @ inject_key_index k)"
    "get_part_id k = Some (client_pid k)"
  using assms by (auto simp: routed_request_def get_part_id_def client_pid_def client_num_def inject_fbt_hdr_idx)

lemma forward_op:
  "switch_forward i (op_msg (\<lambda>_. 0) opn) = op_msg (\<lambda>k. info_route i (client_num k)) opn"
  by (cases opn) (simp_all add: op_msg_def forward_routed forward_other)

text \<open>What the operations do with the reply of a server.\<close>

fun op_reply :: "(string \<rightharpoonup> fields) \<Rightarrow> db_op \<Rightarrow> bytes" where
  "op_reply m opn = snd (spec_step m (op_req opn))"

lemma run_op_reply:
  assumes k: "remove_key_index_prefix_sscanf (op_key opn) \<noteq> None" and th: "thread_ids tid s = (q, p, s1)"
    and len: "length (op_msg (\<lambda>_. 0) opn) \<le> 1472"
    and m: "payload rep = op_reply m opn" "length (payload rep) \<le> 1472" and pad: "1472 \<le> length pad"
    and fit: "\<And>tb key. opn = Read_op tb key \<Longrightarrow> \<exists>x. m (table_key tb key) = Some x \<and> fields_fit x"
    and arr: "arriving s q = [[frame_of uck ick rep pad]]"
  shows "\<exists>s'. run_op tid opn s = Inr (op_result m opn, s')
    \<and> out s' = out s @ [\<lparr>payload = op_msg (\<lambda>_. 0) opn, to_port = p, on_queue = q\<rparr>] \<and> arriving s' = (arriving s)(q := [])"
proof -
  have p1: "poll [[frame_of uck ick rep pad]] = Some ([frame_of uck ick rep pad], [])" by simp
  have s1: "out s1 = out s" "arriving s1 = arriving s" using th by (auto simp: thread_ids_def Let_def split: prod.splits)
  note r = routed_request_eq [OF k]
  show ?thesis
  proof (cases opn)
    case (Read_op tb key)
    obtain x where x: "m (table_key tb key) = Some x" "fields_fit x" using fit [OF Read_op] by blast
    have "payload rep = inject_msg_type_backend 0x0529 0 @ inject_values x" using m(1) x by (simp add: Read_op)
    then obtain rest where u: "unpack (frame_of uck ick rep pad) 1472
      = Some (inject_msg_type_backend 0x0529 0 @ inject_values x @ rest, to_port rep)"
      by (rule unpack_frame_of [OF _ m(2) pad])
    have "await 0x0529 set_values [] [[frame_of uck ick rep pad]] = Inr (x, [])"
      by (rule await_reply [OF p1 u extract_inject_msg_type_backend])
         (simp_all add: set_values_def values_codec.dec_enc [OF x(2)])
    then show ?thesis
      using r len th s1 arr by (simp add: Read_op db_Read_def db_send_def db_await_def op_msg_def x)
  next
    case (Update_op tb key v)
    have "payload rep = inject_msg_type_backend 0x0530 0 @ []" using m(1) by (simp add: Update_op)
    then obtain rest where u: "unpack (frame_of uck ick rep pad) 1472
      = Some (inject_msg_type_backend 0x0530 0 @ [] @ rest, to_port rep)"
      by (rule unpack_frame_of [OF _ m(2) pad])
    have "await 0x0530 no_body () [[frame_of uck ick rep pad]] = Inr ((), [])"
      by (rule await_reply [OF p1 u extract_inject_msg_type_backend]) (simp_all add: no_body_def)
    then show ?thesis
      using r len th s1 arr by (simp add: Update_op db_Update_def db_send_def db_await_def op_msg_def)
  next
    case (Insert_op tb key v)
    have "payload rep = inject_msg_type_backend 0x0528 0 @ []" using m(1) by (simp add: Insert_op)
    then obtain rest where u: "unpack (frame_of uck ick rep pad) 1472
      = Some (inject_msg_type_backend 0x0528 0 @ [] @ rest, to_port rep)"
      by (rule unpack_frame_of [OF _ m(2) pad])
    have "await 0x0528 no_body () [[frame_of uck ick rep pad]] = Inr ((), [])"
      by (rule await_reply [OF p1 u extract_inject_msg_type_backend]) (simp_all add: no_body_def)
    then show ?thesis
      using r len th s1 arr by (simp add: Insert_op db_Insert_def db_send_def db_await_def op_msg_def Let_def)
  qed
qed

lemma short_values_fit: "length (inject_values x) \<le> 1467 \<Longrightarrow> fields_fit x"
proof -
  have len: "length (inject_pair kv) = 8 + length (fst kv) + length (snd kv)" for kv
    by (simp add: inject_pair_def inject_string_def)
  have "length (concat (map inject_pair xs)) \<le> 1467 \<Longrightarrow> list_all pair_fits xs \<and> length xs \<le> 1467" for xs
  proof -
    have "length xs \<le> length (concat (map inject_pair xs))" by (induction xs) (simp_all add: len)
    moreover have "length (concat (map inject_pair xs)) \<le> 1467 \<Longrightarrow> list_all pair_fits xs"
      by (induction xs) (auto simp: len pair_fits_def string_fits_def)
    ultimately show "length (concat (map inject_pair xs)) \<le> 1467 \<Longrightarrow> ?thesis" by simp
  qed
  from this [of x] show "length (inject_values x) \<le> 1467 \<Longrightarrow> fields_fit x"
    by (simp add: inject_values_def fields_fit_def)
qed

section \<open>Steps of the system\<close>

text \<open>
  One operation of thread \<open>tid\<close> on the table behind server \<open>part\<close>. Its request \<open>m\<close> is what the
  client's operation has sent when it returns; the server gets it as the switch has forwarded
  it, at the head of its buffer, and the reply is the next frame on the client's queue.
\<close>

record ethernet_setup =
  pick_node :: "(string, fields) tree \<Rightarrow> nat list \<Rightarrow> nat"
  sort_nodes :: "(string, fields) tree \<Rightarrow> nat list \<Rightarrow> nat list"
  node_size :: nat
  part_no :: "64 word"
  udp_ck :: "bytes \<Rightarrow> bytes \<Rightarrow> 16 word"
  ip_ck :: "bytes \<Rightarrow> 16 word"
  root_info :: node_info

abbreviation server_step :: "ethernet_setup \<Rightarrow> bytes \<times> 16 word \<Rightarrow> (string, fields) tree
    \<Rightarrow> ((string, fields) tree \<times> files \<times> sent list) option" where
  "server_step c \<equiv> ethernet_step (pick_node c) (sort_nodes c) (node_size c) (part_no c) 1"

inductive system_step :: "ethernet_setup \<Rightarrow> frontend \<times> (string, fields) tree \<Rightarrow> nat \<times> db_op \<Rightarrow> fields
    \<Rightarrow> frontend \<times> (string, fields) tree \<Rightarrow> bool" for c where
  exchange: "thread_ids tid s = (q, p, s1)
    \<Longrightarrow> server_step c (switch_forward (root_info c) m @ pad, p) t = Some (t', fs, [rep])
    \<Longrightarrow> 1472 \<le> length pad'
    \<Longrightarrow> run_op tid opn (s\<lparr>arriving := (arriving s)(q := [[frame_of (udp_ck c) (ip_ck c) rep pad']])\<rparr>) = Inr (r, s')
    \<Longrightarrow> out s' = out s @ [\<lparr>payload = m, to_port = p, on_queue = q\<rparr>]
    \<Longrightarrow> system_step c (s, t) (tid, opn) r (s', t')"

inductive system_run :: "ethernet_setup \<Rightarrow> frontend \<times> (string, fields) tree \<Rightarrow> (nat \<times> db_op) list \<Rightarrow> fields list
    \<Rightarrow> frontend \<times> (string, fields) tree \<Rightarrow> bool" for c where
  stop: "system_run c st [] [] st"
| more: "system_step c st opn r st' \<Longrightarrow> system_run c st' ops rs st'' \<Longrightarrow> system_run c st (opn # ops) (r # rs) st''"

inductive_cases system_stepE: "system_step c (s, t) (tid, opn) r (s', t')"
inductive_cases system_runE: "system_run c st ops rs st'"

text \<open>A state of the server in which the switch routes with description \<open>root_info c\<close>.\<close>

definition routed :: "ethernet_setup \<Rightarrow> (string, fields) tree \<Rightarrow> bool" where
  "routed c t \<longleftrightarrow> tree_wf tree_M t \<and> (\<forall>k. switch_addr (root_info c) k < 2 ^ 48
     \<and> held_by_switch MAX_NODE_SIZE (node_size c) t (switch_addr (root_info c) k)
     \<and> reach MAX_NODE_SIZE (node_size c) t (switch_addr (root_info c) k) k)"

definition op_ok :: "(string \<rightharpoonup> fields) \<Rightarrow> db_op \<Rightarrow> bool" where
  "op_ok m opn \<longleftrightarrow> is_ycsb (op_key opn) \<and> sensible m (op_req opn) \<and> length (op_msg (\<lambda>_. 0) opn) \<le> 1472"

lemma ycsb_sscanf:
  assumes "is_ycsb k"
  shows "remove_key_index_prefix_sscanf k = Some (client_num k)" "remove_key_index_prefix k = Some (client_num k)"
proof -
  from assms obtain n where k: "k = ycsb_key n" by (rule is_ycsbE)
  have "remove_key_index_prefix_sscanf k = Some n"
    using scan_BuildKeyName [of True 20 n] drop_ycsb [of n] by (simp add: k remove_key_index_prefix_sscanf_def)
  then show "remove_key_index_prefix_sscanf k = Some (client_num k)" "remove_key_index_prefix k = Some (client_num k)"
    by (simp_all add: client_num_def k)
qed

lemma forward_ycsb:
  assumes "is_ycsb (op_key opn)"
  shows "switch_forward i (op_msg (\<lambda>_. 0) opn) = op_msg (switch_addr i) opn"
  unfolding forward_op using assms by (intro op_msg_cong) (simp add: switch_addr_def ycsb_sscanf(2))

text \<open>The server's part of a step, for any address the switch may hold.\<close>

lemma routed_step:
  assumes "routed c t" "op_ok (contents t) opn" "card (dom (contents t)) < ethernet_cap"
  shows "\<exists>t'. server_step c (switch_forward (root_info c) (op_msg (\<lambda>_. 0) opn) @ pad, p) t
      = Some (t', [], [\<lparr>payload = op_reply (contents t) opn, to_port = p, on_queue = 0\<rparr>])
    \<and> routed c t' \<and> contents t' = fst (spec_step (contents t) (op_req opn))"
proof -
  have w: "tree_wf tree_M t" and a: "\<And>k. switch_addr (root_info c) k < 2 ^ 48
     \<and> held_by_switch MAX_NODE_SIZE (node_size c) t (switch_addr (root_info c) k)
     \<and> reach MAX_NODE_SIZE (node_size c) t (switch_addr (root_info c) k) k"
    using assms(1) by (auto simp: routed_def)
  have o: "is_ycsb (op_key opn)" "sensible (contents t) (op_req opn)" using assms(2) by (auto simp: op_ok_def)
  have rm: "insert_room MAX_NODE_SIZE t k" for k using ethernet.room_law [OF w] assms(3) by blast
  have f: "switch_forward (root_info c) (op_msg (\<lambda>_. 0) opn)
    = request_msg (client_pid (op_key opn)) client_num (switch_addr (root_info c)) (op_req opn)"
    using forward_ycsb [OF o(1), of "root_info c"] by (simp only: op_msg_def)
  from ethernet.step_ok [OF w o(2) rm a, of "ethernet_load (pick_node c) (sort_nodes c) (node_size c) (part_no c)"
      reset_counters "client_pid (op_key opn)" client_num pad p]
  show ?thesis using a unfolding f routed_def ethernet_step_def op_reply.simps by blast
qed

text \<open>What an operation has sent when it returns does not depend on the reply.\<close>

lemma run_op_sent:
  assumes "run_op tid opn s = Inr (r, s')" "thread_ids tid s = (q, p, s1)"
    and "remove_key_index_prefix_sscanf (op_key opn) \<noteq> None"
  shows "out s' = out s @ [\<lparr>payload = op_msg (\<lambda>_. 0) opn, to_port = p, on_queue = q\<rparr>]"
proof -
  have s1: "out s1 = out s" using assms(2) by (auto simp: thread_ids_def Let_def split: prod.splits)
  note r = routed_request_eq [OF assms(3)]
  show ?thesis
    using assms(1,2) r s1
    by (cases opn) (auto simp: db_Read_def db_Update_def db_Insert_def Let_def db_send_def db_await_def ok_Inr
        op_msg_def split: if_splits)
qed

lemma thread_ids_arriving: "thread_ids tid s = (q, p, s1) \<Longrightarrow> thread_ids tid (s\<lparr>arriving := a\<rparr>) = (q, p, s1\<lparr>arriving := a\<rparr>)"
  by (auto simp: thread_ids_def Let_def split: prod.splits)

lemma record_fits:
  assumes "op_ok m opn" "opn = Read_op tb key"
  shows "\<exists>x. m (table_key tb key) = Some x \<and> fields_fit x"
  using assms by (auto simp: op_ok_def short_values_fit)

lemma op_reply_length: "op_ok m opn \<Longrightarrow> length (op_reply m opn) \<le> 1472"
  by (cases opn) (auto simp: op_ok_def)

text \<open>Every operation that makes sense can take its step, and there is only one.\<close>

lemma system_step_ok:
  assumes "routed c t" "op_ok (contents t) opn" "card (dom (contents t)) < ethernet_cap"
  obtains s' t' where "system_step c (s, t) (tid, opn) (op_result (contents t) opn) (s', t')"
proof -
  obtain q p s1 where th: "thread_ids tid s = (q, p, s1)" by (rule prod_cases3)
  have o: "is_ycsb (op_key opn)" "length (op_msg (\<lambda>_. 0) opn) \<le> 1472" using assms(2) by (auto simp: op_ok_def)
  have k: "remove_key_index_prefix_sscanf (op_key opn) \<noteq> None" using ycsb_sscanf(1) [OF o(1)] by simp
  obtain t' where t': "server_step c (switch_forward (root_info c) (op_msg (\<lambda>_. 0) opn) @ [], p) t
      = Some (t', [], [\<lparr>payload = op_reply (contents t) opn, to_port = p, on_queue = 0\<rparr>])"
    using routed_step [OF assms] by blast
  define rep where "rep = \<lparr>payload = op_reply (contents t) opn, to_port = p, on_queue = 0\<rparr>"
  define pad where "pad = replicate 1472 (0 :: 8 word)"
  define s0 where "s0 = s\<lparr>arriving := (arriving s)(q := [[frame_of (udp_ck c) (ip_ck c) rep pad]])\<rparr>"
  have th0: "thread_ids tid s0 = (q, p, s1\<lparr>arriving := arriving s0\<rparr>)"
    using thread_ids_arriving [OF th] by (simp add: s0_def)
  have m: "payload rep = op_reply (contents t) opn" "length (payload rep) \<le> 1472" "1472 \<le> length pad"
    using op_reply_length [OF assms(2)] by (simp_all add: rep_def pad_def)
  have a: "arriving s0 q = [[frame_of (udp_ck c) (ip_ck c) rep pad]]" by (simp add: s0_def)
  have fit: "\<exists>x. contents t (table_key tb key) = Some x \<and> fields_fit x" if "opn = Read_op tb key" for tb key
    using record_fits [OF assms(2) that] .
  obtain s' where s': "run_op tid opn s0 = Inr (op_result (contents t) opn, s')"
    "out s' = out s0 @ [\<lparr>payload = op_msg (\<lambda>_. 0) opn, to_port = p, on_queue = q\<rparr>]"
    using run_op_reply [OF k th0 o(2) m fit a] by blast
  have "system_step c (s, t) (tid, opn) (op_result (contents t) opn) (s', t')"
    using exchange [OF th t' m(3) s'(1) [unfolded s0_def rep_def]] s'(2) by (simp add: s0_def rep_def)
  then show thesis by (rule that)
qed

lemma system_step_result:
  assumes st: "system_step c (s, t) (tid, opn) r (s', t')"
    and w: "routed c t" "op_ok (contents t) opn" "card (dom (contents t)) < ethernet_cap"
  shows "r = op_result (contents t) opn \<and> routed c t' \<and> contents t' = fst (spec_step (contents t) (op_req opn))"
proof -
  obtain q p s1 m pad fs rep pad' where 1: "thread_ids tid s = (q, p, s1)"
    "server_step c (switch_forward (root_info c) m @ pad, p) t = Some (t', fs, [rep])" "1472 \<le> length pad'"
    "run_op tid opn (s\<lparr>arriving := (arriving s)(q := [[frame_of (udp_ck c) (ip_ck c) rep pad']])\<rparr>) = Inr (r, s')"
    "out s' = out s @ [\<lparr>payload = m, to_port = p, on_queue = q\<rparr>]"
    using st by (rule system_stepE)
  have o: "is_ycsb (op_key opn)" "length (op_msg (\<lambda>_. 0) opn) \<le> 1472" using w(2) by (auto simp: op_ok_def)
  have k: "remove_key_index_prefix_sscanf (op_key opn) \<noteq> None" using ycsb_sscanf(1) [OF o(1)] by simp
  define s0 where "s0 = s\<lparr>arriving := (arriving s)(q := [[frame_of (udp_ck c) (ip_ck c) rep pad']])\<rparr>"
  have th0: "thread_ids tid s0 = (q, p, s1\<lparr>arriving := arriving s0\<rparr>)"
    using thread_ids_arriving [OF 1(1)] by (simp add: s0_def)
  have m: "m = op_msg (\<lambda>_. 0) opn"
    using run_op_sent [OF 1(4) [folded s0_def] th0 k] 1(5) by (simp add: s0_def)
  obtain u where u: "server_step c (switch_forward (root_info c) m @ pad, p) t
      = Some (u, [], [\<lparr>payload = op_reply (contents t) opn, to_port = p, on_queue = 0\<rparr>])"
    "routed c u" "contents u = fst (spec_step (contents t) (op_req opn))"
    using routed_step [OF w] unfolding m by blast
  with 1(2) have e: "t' = u" "rep = \<lparr>payload = op_reply (contents t) opn, to_port = p, on_queue = 0\<rparr>" by simp_all
  have a: "arriving s0 q = [[frame_of (udp_ck c) (ip_ck c) rep pad']]" by (simp add: s0_def)
  have mr: "payload rep = op_reply (contents t) opn" "length (payload rep) \<le> 1472"
    using op_reply_length [OF w(2)] by (simp_all add: e(2))
  have fit: "\<exists>x. contents t (table_key tb key) = Some x \<and> fields_fit x" if "opn = Read_op tb key" for tb key
    using record_fits [OF w(2) that] .
  have "r = op_result (contents t) opn"
    using run_op_reply [OF k th0 o(2) mr 1(3) fit a] 1(4) [folded s0_def] by auto
  then show ?thesis using u(2,3) e(1) by simp
qed

fun ops_ok :: "(string \<rightharpoonup> fields) \<Rightarrow> (nat \<times> db_op) list \<Rightarrow> bool" where
  "ops_ok m [] \<longleftrightarrow> True"
| "ops_ok m ((tid, opn) # ops) \<longleftrightarrow> op_ok m opn \<and> ops_ok (fst (spec_step m (op_req opn))) ops"

fun ops_results :: "(string \<rightharpoonup> fields) \<Rightarrow> (nat \<times> db_op) list \<Rightarrow> fields list" where
  "ops_results m [] = []"
| "ops_results m ((tid, opn) # ops) = op_result m opn # ops_results (fst (spec_step m (op_req opn))) ops"

lemma spec_step_card:
  "finite (dom m) \<Longrightarrow> finite (dom (fst (spec_step m r))) \<and> card (dom (fst (spec_step m r))) \<le> Suc (card (dom m))"
  by (cases r) (auto simp: card_insert_if)

lemma system_run_result:
  "system_run c st ops rs st' \<Longrightarrow> routed c (snd st) \<Longrightarrow> ops_ok (contents (snd st)) ops
   \<Longrightarrow> card (dom (contents (snd st))) + length ops \<le> ethernet_cap
   \<Longrightarrow> rs = ops_results (contents (snd st)) ops \<and> routed c (snd st')"
proof (induction rule: system_run.induct)
  case (more st opn r st1 ops rs st'')
  obtain s t tid o' s' t' where e: "st = (s, t)" "opn = (tid, o')" "st1 = (s', t')"
    by (cases st; cases opn; cases st1) auto
  have fin: "finite (dom (contents t))" using more.prems(1) ethernet.room_law by (auto simp: e routed_def)
  have x: "r = op_result (contents t) o' \<and> routed c t' \<and> contents t' = fst (spec_step (contents t) (op_req o'))"
    using more.hyps(1) more.prems by (intro system_step_result) (auto simp: e)
  then have "card (dom (contents t')) + length ops \<le> ethernet_cap"
    using spec_step_card [OF fin, of "op_req o'"] more.prems(3) by (simp add: e)
  then show ?case using more.IH more.prems x by (simp add: e)
qed simp

lemma system_run_total:
  "routed c t \<Longrightarrow> ops_ok (contents t) ops \<Longrightarrow> card (dom (contents t)) + length ops \<le> ethernet_cap
   \<Longrightarrow> \<exists>st'. system_run c (s, t) ops (ops_results (contents t) ops) st'"
proof (induction ops arbitrary: s t)
  case Nil
  then show ?case by (auto intro: stop)
next
  case (Cons o1 ops)
  obtain tid opn where e: "o1 = (tid, opn)" by (cases o1)
  have p: "op_ok (contents t) opn" "card (dom (contents t)) < ethernet_cap" using Cons.prems by (auto simp: e)
  have fin: "finite (dom (contents t))" using Cons.prems(1) ethernet.room_law by (auto simp: routed_def)
  obtain s' t' where st: "system_step c (s, t) (tid, opn) (op_result (contents t) opn) (s', t')"
    by (rule system_step_ok [OF Cons.prems(1) p])
  note r = system_step_result [OF st Cons.prems(1) p]
  have c: "card (dom (contents t')) + length ops \<le> ethernet_cap"
    using spec_step_card [OF fin, of "op_req opn"] Cons.prems(3) r by simp
  have "ops_ok (contents t') ops" using Cons.prems(2) r by (simp add: e)
  from Cons.IH [OF _ this c] r obtain st' where "system_run c (s', t') ops (ops_results (contents t') ops) st'" by blast
  then have "system_run c (s, t) ((tid, opn) # ops) (op_result (contents t) opn # ops_results (contents t') ops) st'"
    by (rule more [OF st])
  then have "system_run c (s, t) (o1 # ops) (ops_results (contents t) (o1 # ops)) st'"
    using r by (simp add: e)
  then show ?case by blast
qed

end
