(* ===== verification/Frontend_Properties.thy ===== *)
theory Frontend_Properties
  imports Ethernet_System
begin

text \<open>
  The properties of the client and of client, switch and server together.
\<close>

section \<open>A loaded system\<close>

lemma loaded_routed:
  assumes w: "tree_wf tree_M s" and y: "all_keys is_ycsb s" and d: "depth_ok s" and lf: "\<not> isLeaf (pool s 0)"
    and n: "nb_node s \<le> MAX_NODE_SIZE" "nb_node s * sz \<le> 2 ^ 32" "0 < sz" "part < 4"
    and p: "picks_one pick" "sorts srt"
  obtains t f i "is" fs where "ethernet_load pick srt sz part s = Some (t, (f, i # is) # fs)" "contents t = contents s"
    "routed \<lparr>pick_node = pick, sort_nodes = srt, node_size = sz, part_no = part, udp_ck = uck, ip_ck = ick, root_info = i\<rparr> t"
proof -
  obtain t fs where l: "ethernet_load pick srt sz part s = Some (t, fs)" and m: "marks s t"
    and r: "root_first remove_key_index_prefix sz (part_mask part) t fs"
    by (rule ethernet_load_ok [OF w y d lf p])
  obtain f i "is" fs' where fs: "fs = (f, i # is) # fs'" "describes_at remove_key_index_prefix sz (part_mask part) t 0 i"
    using r by (cases fs; cases "snd (hd fs)") (auto simp: root_first_def)
  note t = marks_wf [OF w m]
  have lf': "\<not> isLeaf (pool t 0)" using lf m by (simp add: marks_def same_shape_def)
  have nb: "nb_node t \<le> MAX_NODE_SIZE" "nb_node t * sz \<le> 2 ^ 32" using n(1,2) marks_nb [OF m] by simp_all
  have y': "all_keys is_ycsb t" using y marks_all_keys [OF m] by simp
  show thesis
    using that [OF l [unfolded fs(1)] t(2)] t(1) switch_addr_ok [OF t(1) y' fs(2) lf' nb n(3,4)]
    by (simp add: routed_def)
qed

section \<open>Properties\<close>

text \<open>
  C2: clients, switch and server together implement a map: a sequence of reads, updates and
  inserts of benchmark records by any threads can be carried out whatever was chosen for the
  switch, and every run of it returns to each operation what the map returns.
\<close>

theorem system_implements_map:
  assumes "routed c t" "ops_ok (contents t) ops" "card (dom (contents t)) + length ops \<le> ethernet_cap"
  shows "(\<exists>rs st'. system_run c (s, t) ops rs st')
    \<and> (\<forall>rs st'. system_run c (s, t) ops rs st' \<longrightarrow> rs = ops_results (contents t) ops \<and> routed c (snd st'))"
proof
  show "\<exists>rs st'. system_run c (s, t) ops rs st'" using system_run_total [OF assms] by blast
  show "\<forall>rs st'. system_run c (s, t) ops rs st' \<longrightarrow> rs = ops_results (contents t) ops \<and> routed c (snd st')"
    using system_run_result [of c "(s, t)" ops] assms by auto
qed

definition sample_frontend :: frontend where
  "sample_frontend = \<lparr>driver = \<lparr>nb_queues = 16, port_id = 0, map_queue_id = [(5, 0)], map_dest_port = [(5, 0)], recv_queue = \<lambda>_. []\<rparr>,
     init_count = 1, flows = [], cpus = [], out = [], arriving = \<lambda>_. []\<rparr>"

definition sample_ops :: "(nat \<times> db_op) list" where
  "sample_ops = [(5, Read_op ''usertable'' (BuildKeyName True 20 7)),
     (6, Update_op ''usertable'' (BuildKeyName True 20 7) [(''f'', ''v'')]),
     (5, Read_op ''usertable'' (BuildKeyName True 20 7))]"

lemma length_key7: "length (BuildKeyName True 20 7) = 24"
proof -
  have "digit 7 = CHR ''7''" unfolding digit_def by code_simp
  then have "to_string 7 = ''7''" by (simp add: to_string.simps)
  then show ?thesis by (simp add: BuildKeyName_def Let_def)
qed

lemma sample_ops_ok:
  assumes "m (ycsb_key 7) = Some [(''field0'', ''7'')]"
  shows "ops_ok m sample_ops"
    "ops_results m sample_ops = [[(''field0'', ''7'')], [], [(''field0'', ''7''), (''f'', ''v'')]]"
proof -
  have k: "table_key ''usertable'' (BuildKeyName True 20 7) = ycsb_key 7" by (simp add: ycsb_key_def)
  have l: "length (ycsb_key 7) = 33" by (simp add: ycsb_key_def table_key_def length_key7)
  have u: "update_field_table [(''f'', ''v'')] [(''field0'', ''7'')] = [(''field0'', ''7''), (''f'', ''v'')]" by simp
  have t: "length (inject_msg_type ty pid) = 5" for ty pid by (simp add: inject_msg_type_def Let_def)
  show "ops_ok m sample_ops" "ops_results m sample_ops = [[(''field0'', ''7'')], [], [(''field0'', ''7''), (''f'', ''v'')]]"
    using assms unfolding sample_ops_def
    by (simp_all add: op_ok_def k l u t op_msg_def string_fits_def fields_fit_def pair_fits_def
        inject_values_def inject_pair_def inject_string_def inject_key_index_def)
qed

theorem system_implements_map_witness:
  "\<exists>s t f i is fs. tree_load tree_M MAX_NODE_SIZE (new_BPlusTree []) ycsb_load = Some s
    \<and> ethernet_load (\<lambda>s q. hd q) (\<lambda>s xs. xs) 96 1 s = Some (t, (f, i # is) # fs)
    \<and> (\<exists>rs st'. system_run \<lparr>pick_node = \<lambda>s q. hd q, sort_nodes = \<lambda>s xs. xs, node_size = 96, part_no = 1,
          udp_ck = \<lambda>_ _. 0, ip_ck = \<lambda>_. 0, root_info = i\<rparr> (sample_frontend, t) sample_ops rs st'
        \<and> rs = [[(''field0'', ''7'')], [], [(''field0'', ''7''), (''f'', ''v'')]])"
proof -
  obtain s where s: "tree_load tree_M MAX_NODE_SIZE (new_BPlusTree []) ycsb_load = Some s" "tree_wf tree_M s"
    "all_keys is_ycsb s" "depth_ok s" "\<not> isLeaf (pool s 0)" "nb_node s \<le> 61"
    "contents s (ycsb_key 7) = Some [(''field0'', ''7'')]" "card (dom (contents s)) = 20" by (rule ycsb_sample)
  have n: "nb_node s \<le> MAX_NODE_SIZE" "nb_node s * 96 \<le> 2 ^ 32" "0 < (96 :: nat)" "(1 :: 64 word) < 4"
    using s(6) by (simp_all add: MAX_NODE_SIZE_def)
  obtain t f i "is" fs where t: "ethernet_load (\<lambda>s q. hd q) (\<lambda>s xs. xs) 96 1 s = Some (t, (f, i # is) # fs)"
    "contents t = contents s" "routed \<lparr>pick_node = \<lambda>s q. hd q, sort_nodes = \<lambda>s xs. xs, node_size = 96, part_no = 1,
      udp_ck = \<lambda>_ _. 0, ip_ck = \<lambda>_. 0, root_info = i\<rparr> t"
    by (rule loaded_routed [OF s(2-5) n sample_choices])
  have c: "contents t (ycsb_key 7) = Some [(''field0'', ''7'')]" using s(7) t(2) by simp
  have cap: "card (dom (contents t)) + length sample_ops \<le> ethernet_cap"
    by (simp add: t(2) s(8) sample_ops_def ethernet_cap_def MAX_NODE_SIZE_def)
  show ?thesis
    using system_implements_map [OF t(3) sample_ops_ok(1) [of "contents t", OF c] cap, of sample_frontend] sample_ops_ok(2) [of "contents t", OF c]
      s(1) t(1) by metis
qed

text \<open>
  \<open>Read\<close> decodes every message it gets until the reply comes, those of type 0 that it skips,
  too: if their values can be decoded the result is that of the reply alone, and if not, the
  read runs out of the buffer.
\<close>

theorem read_decodes_skipped_messages:
  assumes "thread_ids tid s = (q, p, s1)" "remove_key_index_prefix_sscanf (table_key tb key) \<noteq> None"
    and "length (table_key tb key) \<le> 1400" "fields_fit x"
    and "arriving s q = [[n], [r]]" "unpack n 1472 = Some (inject_msg_type 0 pid @ skipped, no)"
    and "unpack r 1472 = Some (inject_msg_type 0x0529 pid' @ inject_values x @ rest, no')"
  shows "case extract_values skipped of None \<Rightarrow> db_Read tid tb key fl [] s = Inl Undefined
    | Some _ \<Rightarrow> \<exists>s'. db_Read tid tb key fl [] s = Inr (x, s')"
proof -
  have s1: "arriving s1 = arriving s" using assms(1) by (auto simp: thread_ids_def Let_def split: prod.splits)
  have rd: "db_Read tid tb key fl [] s = ok (await 0x0529 set_values [] [[n], [r]])
      (\<lambda>(x, net). Inr (x, s'\<lparr>arriving := (arriving s')(q := net)\<rparr>))"
    if "s' = s1\<lparr>out := out s1 @ [\<lparr>payload = inject_msg_type 0x0527 (client_pid (table_key tb key))
      @ with_fbt_idx (client_num (table_key tb key)) 0 @ inject_key_index (table_key tb key), to_port = p, on_queue = q\<rparr>]\<rparr>" for s'
    using assms(1,3,5) s1 routed_request_eq [OF assms(2)] that
    by (simp add: db_Read_def db_send_def db_await_def inject_msg_type_def inject_key_index_def inject_string_def Let_def)
  show ?thesis
  proof (cases "extract_values skipped")
    case None
    have "await 0x0529 set_values [] [[n], [r]] = Inl Undefined"
      using assms(6) None by (subst await.simps) (simp add: set_values_def)
    then show ?thesis using rd [OF refl] None by simp
  next
    case (Some y)
    have "await 0x0529 set_values [] [[n], [r]] = await 0x0529 set_values (fst y) [[r]]"
      by (rule await_skip [OF _ assms(6) extract_inject_msg_type])
         (simp_all add: set_values_def Some split_def)
    also have "\<dots> = Inr (x, [])"
      by (rule await_reply [OF _ assms(7) extract_inject_msg_type])
         (simp_all add: set_values_def values_codec.dec_enc [OF assms(4)])
    finally show ?thesis using rd [OF refl] Some by simp
  qed
qed

theorem read_decodes_skipped_messages_witness:
  "\<exists>s'. db_Read 5 ''usertable'' (BuildKeyName True 20 7) None [] (sample_frontend\<lparr>arriving := (\<lambda>_.
      [[frame_of (\<lambda>_ _. 0) (\<lambda>_. 0) \<lparr>payload = inject_msg_type 0 0 @ inject_values [(''a'', ''b'')], to_port = 0, on_queue = 0\<rparr> (replicate 1472 0)],
       [frame_of (\<lambda>_ _. 0) (\<lambda>_. 0) \<lparr>payload = inject_msg_type 0x0529 0 @ inject_values [(''f'', ''v'')], to_port = 0, on_queue = 0\<rparr> (replicate 1472 0)]])\<rparr>)
    = Inr ([(''f'', ''v'')], s')"
proof -
  have k: "remove_key_index_prefix_sscanf (table_key ''usertable'' (BuildKeyName True 20 7)) \<noteq> None"
    using ycsb_sscanf(1) [OF is_ycsb_key [of 7]] by (simp add: ycsb_key_def)
  have l: "length (table_key ''usertable'' (BuildKeyName True 20 7)) \<le> 1400" by (simp add: table_key_def length_key7)
  have f: "fields_fit [(''a'', ''b'')]" "fields_fit [(''f'', ''v'')]"
    by (simp_all add: fields_fit_def pair_fits_def string_fits_def)
  have len: "length (inject_msg_type t 0 @ inject_values [([a], [b])]) \<le> 1472" for t a b
    by (simp add: inject_msg_type_def inject_values_def inject_pair_def inject_string_def Let_def)
  define n r where "n = \<lparr>payload = inject_msg_type 0 0 @ inject_values [(''a'', ''b'')], to_port = 0, on_queue = 0\<rparr>"
    and "r = \<lparr>payload = inject_msg_type 0x0529 0 @ inject_values [(''f'', ''v'')], to_port = 0, on_queue = 0\<rparr>"
  have pad: "1472 \<le> length (replicate 1472 (0 :: 8 word))" by simp
  have n: "payload n = inject_msg_type 0 0 @ inject_values [(''a'', ''b'')]" "length (payload n) \<le> 1472"
    and r: "payload r = inject_msg_type 0x0529 0 @ inject_values [(''f'', ''v'')]" "length (payload r) \<le> 1472"
    using len by (simp_all add: n_def r_def)
  obtain u where u: "unpack (frame_of (\<lambda>_ _. 0) (\<lambda>_. 0) n (replicate 1472 0)) 1472
    = Some (inject_msg_type 0 0 @ inject_values [(''a'', ''b'')] @ u, to_port n)" by (rule unpack_frame_of [OF n pad])
  obtain v where v: "unpack (frame_of (\<lambda>_ _. 0) (\<lambda>_. 0) r (replicate 1472 0)) 1472
    = Some (inject_msg_type 0x0529 0 @ inject_values [(''f'', ''v'')] @ v, to_port r)" by (rule unpack_frame_of [OF r pad])
  let ?s = "sample_frontend\<lparr>arriving := (\<lambda>_. [[frame_of (\<lambda>_ _. 0) (\<lambda>_. 0) n (replicate 1472 0)],
    [frame_of (\<lambda>_ _. 0) (\<lambda>_. 0) r (replicate 1472 0)]])\<rparr>"
  obtain q p s1 where th: "thread_ids 5 ?s = (q, p, s1)" by (rule prod_cases3)
  have a: "arriving ?s q = [[frame_of (\<lambda>_ _. 0) (\<lambda>_. 0) n (replicate 1472 0)], [frame_of (\<lambda>_ _. 0) (\<lambda>_. 0) r (replicate 1472 0)]]" by simp
  from read_decodes_skipped_messages [OF th k l f(2) a u v, of None] values_codec.dec_enc [OF f(1), of u]
  show ?thesis unfolding n_def r_def by simp
qed

text \<open>
  An operation fails when the first message that comes is neither of type 0 nor of the type
  it waits for, and it waits for ever when no message comes.
\<close>

theorem wait_errors:
  "(poll net = None \<longrightarrow> await want body r net = Inl Blocked)
   \<and> (poll net = Some (b # bs, net') \<longrightarrow> unpack b 1472 = Some (msg, no) \<longrightarrow> extract_msg_type msg = Some (t, rest)
      \<longrightarrow> t \<noteq> 0 \<longrightarrow> t \<noteq> want \<longrightarrow> await want body r net = Inl (Assertion t))"
  by (auto simp: await_assertion) (subst await.simps, simp)

theorem wait_errors_witness:
  "await 0x0529 set_values [] [[], []] = Inl Blocked
   \<and> await 0x0529 set_values [] [[send_pkt (\<lambda>_ _. 0) (\<lambda>_. 0) (inject_msg_type 0x0528 0) 5 0 @ replicate 1472 0]]
     = Inl (Assertion 0x0528)"
proof -
  let ?f = "send_pkt (\<lambda>_ _. 0) (\<lambda>_. 0) (inject_msg_type 0x0528 0) 5 0 @ replicate 1472 (0 :: 8 word)"
  have l: "length (inject_msg_type 0x0528 0) = 5" by (simp add: inject_msg_type_def Let_def)
  have "unpack ?f 1472 = Some (take 1472 (inject_msg_type 0x0528 0 @ replicate 1472 0), 0)"
    by (rule unpack_send_pkt) (simp_all add: l)
  then have u: "unpack ?f 1472 = Some (inject_msg_type 0x0528 0 @ replicate 1467 0, 0)" by (simp add: l)
  have t: "extract_msg_type (inject_msg_type 0x0528 0 @ replicate 1467 (0 :: 8 word)) = Some (0x0528, replicate 1467 0)"
    by (rule extract_inject_msg_type)
  have "await 0x0529 set_values [] [[?f]] = Inl (Assertion 0x0528)"
    by (rule wait_errors [THEN conjunct2, rule_format, OF _ u t]) simp_all
  moreover have "await 0x0529 set_values [] [[], []] = Inl Blocked"
    by (rule wait_errors [THEN conjunct1, rule_format]) simp
  ultimately show ?thesis by blast
qed

end
