(* ===== verification/Match_Table.thy ===== *)
theory Match_Table
  imports Tree_Switch
begin

text \<open>
  The control plane's table generators, match_table.cpp of FBT_TCAM and config_table.cpp of
  FBT_RDMA: from the sorted key numbers they make four tables, one for each 16 bits of a
  64-bit key number, in which the switch finds the number of the range the key is in. The two
  programs differ in one output line: match_table.cpp leaves out a space between two numbers.
\<close>

section \<open>Ranges and output lines\<close>

type_synonym ranges = "(64 word \<times> 64 word) list"

text \<open>The lower ends are one above the previous key, beginning with \<open>UINT64_MAX\<close>.\<close>

fun ranges_from :: "64 word \<Rightarrow> 64 word list \<Rightarrow> ranges" where
  "ranges_from prev [] = [(prev + 1, - 1)]"
| "ranges_from prev (key # keylist) = (prev + 1, key) # ranges_from key keylist"

definition rangelist :: "64 word list \<Rightarrow> ranges" where
  "rangelist keys = ranges_from (- 1) keys"

text \<open>
  A line of the first table, a line of the others, which starts with the number of the entry
  above, and the line without the first space. \<open>t = 1\<close>: the result is a number for the next table.
\<close>

datatype line = First nat nat nat nat | Entry nat nat nat nat nat | Glued nat nat nat nat nat

text \<open>\<open>pfidx\<close>, \<open>curidx\<close>, the table of prefixes for the next stage, the lines of this stage, \<open>j\<close>, and
  \<open>l\<close> and \<open>r\<close>, \<open>None\<close> standing for -1 and -1.\<close>

record scan =
  pfidx :: "64 word \<rightharpoonup> nat"
  curidx :: nat
  next_table :: "64 word list"
  lines_out :: "line list"
  cur_range :: nat
  run_lr :: "(nat \<times> nat) option"

definition pf_get :: "(64 word \<rightharpoonup> nat) \<Rightarrow> 64 word \<Rightarrow> nat" where
  "pf_get m pf = (case m pf of None \<Rightarrow> 0 | Some i \<Rightarrow> i)"

type_synonym run_style = "(64 word \<rightharpoonup> nat) \<Rightarrow> nat \<Rightarrow> nat \<Rightarrow> nat \<Rightarrow> line"

section \<open>One table\<close>

text \<open>\<open>if (l != -1 && r != -1) { cout << ...; l = -1; r = -1; }\<close>\<close>

definition flush_run :: "run_style \<Rightarrow> scan \<Rightarrow> scan" where
  "flush_run style s = (case run_lr s of None \<Rightarrow> s
     | Some (l, r) \<Rightarrow> s\<lparr>lines_out := lines_out s @ [style (pfidx s) l r (cur_range s)], run_lr := None\<rparr>)"

text \<open>\<open>while (rangelist[j].r < tmp_l) j += 1;\<close>\<close>

function skip_ranges :: "ranges \<Rightarrow> 64 word \<Rightarrow> nat \<Rightarrow> nat option" where
  "skip_ranges rs tmp_l j = (if j < length rs
     then (if snd (rs ! j) < tmp_l then skip_ranges rs tmp_l (j + 1) else Some j) else None)"
  by pat_completeness auto
termination by (relation "measure (\<lambda>(rs, _, j). length rs - j)") auto

declare skip_ranges.simps [simp del]

text \<open>\<open>UINT16_MAX + 1\<close>\<close>

definition nb_digits :: nat where
  "nb_digits = 65536"

text \<open>
  The body of the loop over \<open>i\<close>: \<open>lo i\<close> is the first key number with this digit and \<open>sh\<close> the number
  of bits below the digit; \<open>fkey i\<close> is the prefix with the digit.
\<close>

definition scan_digit :: "ranges \<Rightarrow> nat \<Rightarrow> (nat \<Rightarrow> 64 word) \<Rightarrow> (nat \<Rightarrow> 64 word) \<Rightarrow> run_style \<Rightarrow> run_style
    \<Rightarrow> run_style \<Rightarrow> bool \<Rightarrow> nat \<Rightarrow> scan \<Rightarrow> scan option" where
  "scan_digit rs sh lo fkey jump_line end_line split_line push i s = do {
     let tmp_l = lo i;
     let tmp_r = tmp_l + (push_bit sh 1 - 1);
     rj \<leftarrow> nth_opt rs (cur_range s);
     s \<leftarrow> (if snd rj < tmp_l
       then do { let s = flush_run jump_line s; j \<leftarrow> skip_ranges rs tmp_l (cur_range s); Some (s\<lparr>cur_range := j\<rparr>) }
       else Some s);
     rj \<leftarrow> nth_opt rs (cur_range s);
     Some (if fst rj \<le> tmp_l \<and> tmp_r \<le> snd rj
       then s\<lparr>run_lr := (case run_lr s of None \<Rightarrow> Some (i, i) | Some (l, r) \<Rightarrow> Some (l, i))\<rparr>
       else (let s = flush_run end_line s;
                 s = s\<lparr>pfidx := (pfidx s)(fkey i \<mapsto> curidx s), curidx := curidx s + 1\<rparr>
             in s\<lparr>lines_out := lines_out s @ [split_line (pfidx s) i i (pf_get (pfidx s) (fkey i))],
                  next_table := next_table s @ (if push then [fkey i] else [])\<rparr>)) }"

definition scan_table :: "ranges \<Rightarrow> nat \<Rightarrow> (nat \<Rightarrow> 64 word) \<Rightarrow> (nat \<Rightarrow> 64 word) \<Rightarrow> run_style \<Rightarrow> run_style
    \<Rightarrow> run_style \<Rightarrow> bool \<Rightarrow> scan \<Rightarrow> scan option" where
  "scan_table rs sh lo fkey jump_line end_line split_line push s = do {
     s \<leftarrow> for_up nb_digits 0 (scan_digit rs sh lo fkey jump_line end_line split_line push)
       (s\<lparr>cur_range := 0, run_lr := None\<rparr>);
     Some (flush_run end_line s) }"

section \<open>The four tables\<close>

definition table_1 :: "ranges \<Rightarrow> scan \<Rightarrow> scan option" where
  "table_1 rs = scan_table rs 48 (\<lambda>i. push_bit 48 (of_nat i)) of_nat
     (\<lambda>_ l r j. First l r 0 j) (\<lambda>_ l r j. First l r 0 j) (\<lambda>_ l r v. First l r 1 v) True"

text \<open>The loop over the prefixes; \<open>glued\<close> distinguishes match_table.cpp from config_table.cpp.\<close>

definition entry_of :: "64 word \<Rightarrow> nat \<Rightarrow> run_style" where
  "entry_of pf t m l r v = Entry (pf_get m pf) l r t v"

definition jump_of :: "bool \<Rightarrow> 64 word \<Rightarrow> run_style" where
  "jump_of glued pf m l r j = (if glued then Glued (pf_get m pf) l r 0 j else Entry (pf_get m pf) l r 0 j)"

fun each_prefix :: "(64 word \<Rightarrow> scan \<Rightarrow> scan option) \<Rightarrow> 64 word list \<Rightarrow> scan \<Rightarrow> scan option" where
  "each_prefix body [] s = Some s"
| "each_prefix body (pf # pfs) s = do { s \<leftarrow> body pf s; each_prefix body pfs s }"

definition table_2 :: "bool \<Rightarrow> ranges \<Rightarrow> 64 word \<Rightarrow> scan \<Rightarrow> scan option" where
  "table_2 glued rs pf = scan_table rs 32 (\<lambda>i. push_bit 48 pf + push_bit 32 (of_nat i)) (\<lambda>i. push_bit 16 pf + of_nat i)
     (jump_of glued pf) (entry_of pf 0) (entry_of pf 1) True"

definition table_3 :: "bool \<Rightarrow> ranges \<Rightarrow> 64 word \<Rightarrow> scan \<Rightarrow> scan option" where
  "table_3 glued rs pf = scan_table rs 16 (\<lambda>i. push_bit 32 pf + push_bit 16 (of_nat i)) (\<lambda>i. push_bit 16 pf + of_nat i)
     (jump_of glued pf) (entry_of pf 0) (entry_of pf 1) True"

definition table_4 :: "ranges \<Rightarrow> 64 word \<Rightarrow> scan \<Rightarrow> scan option" where
  "table_4 rs pf = scan_table rs 0 (\<lambda>i. push_bit 16 pf + push_bit 0 (of_nat i)) (\<lambda>i. push_bit 16 pf + of_nat i)
     (jump_of False pf) (entry_of pf 0) (entry_of pf 1) False"

text \<open>The lines below \<open># 1\<close> to \<open># 4\<close>.\<close>

definition make_tables :: "bool \<Rightarrow> 64 word list \<Rightarrow> (line list \<times> line list \<times> line list \<times> line list) option" where
  "make_tables glued keys = do {
     let rs = rangelist keys;
     let s = \<lparr>pfidx = (\<lambda>_. None), curidx = length rs, next_table = [], lines_out = [], cur_range = 0, run_lr = None\<rparr>;
     s1 \<leftarrow> table_1 rs s;
     s2 \<leftarrow> each_prefix (table_2 glued rs) (next_table s1) (s1\<lparr>next_table := [], lines_out := []\<rparr>);
     s3 \<leftarrow> each_prefix (table_3 glued rs) (next_table s2) (s2\<lparr>next_table := [], lines_out := []\<rparr>);
     s4 \<leftarrow> each_prefix (table_4 rs) (next_table s3) (s3\<lparr>next_table := [], lines_out := []\<rparr>);
     Some (lines_out s1, lines_out s2, lines_out s3, lines_out s4) }"

definition match_table :: "64 word list \<Rightarrow> (line list \<times> line list \<times> line list \<times> line list) option" where
  "match_table keys = make_tables True keys"

definition config_table :: "64 word list \<Rightarrow> (line list \<times> line list \<times> line list \<times> line list) option" where
  "config_table keys = make_tables False keys"

section \<open>What the switch finds\<close>

text \<open>
  The 16 bits a table looks at, the results it finds in the first table, and in a later one
  below the number \<open>p\<close>. A line without the space is no entry.
\<close>

definition key_digit :: "nat \<Rightarrow> 64 word \<Rightarrow> nat" where
  "key_digit sh w = unat (drop_bit sh w) mod 65536"

fun first_hit :: "nat \<Rightarrow> line \<Rightarrow> (nat \<times> nat) list" where
  "first_hit d (First l r t v) = (if l \<le> d \<and> d \<le> r then [(t, v)] else [])"
| "first_hit d _ = []"

fun entry_hit :: "nat \<Rightarrow> nat \<Rightarrow> line \<Rightarrow> (nat \<times> nat) list" where
  "entry_hit p d (Entry q l r t v) = (if p = q \<and> l \<le> d \<and> d \<le> r then [(t, v)] else [])"
| "entry_hit p d _ = []"

definition hits :: "(line \<Rightarrow> (nat \<times> nat) list) \<Rightarrow> line list \<Rightarrow> (nat \<times> nat) set" where
  "hits h ls = set (concat (map h ls))"

text \<open>The results for a key number: those that are final, table by table.\<close>

fun later_results :: "line list list \<Rightarrow> nat list \<Rightarrow> nat \<Rightarrow> 64 word \<Rightarrow> nat set" where
  "later_results [] shs p w = {}"
| "later_results (ls # lss) [] p w = {}"
| "later_results (ls # lss) (sh # shs) p w = (let h = hits (entry_hit p (key_digit sh w)) ls in
     {v. (0, v) \<in> h} \<union> (\<Union>q \<in> {q. (1, q) \<in> h}. later_results lss shs q w))"

definition table_results :: "line list \<times> line list \<times> line list \<times> line list \<Rightarrow> 64 word \<Rightarrow> nat set" where
  "table_results ts w = (case ts of (l1, l2, l3, l4) \<Rightarrow> let h = hits (first_hit (key_digit 48 w)) l1 in
     {v. (0, v) \<in> h} \<union> (\<Union>q \<in> {q. (1, q) \<in> h}. later_results [l2, l3, l4] [32, 16, 0] q w))"

end
