(* ===== verification/Match_Scan.thy ===== *)
theory Match_Scan
  imports Match_Table
begin

text \<open>
  What one run over the digits leaves behind: every digit has exactly one result, the
  number of its range when the digit determines it, and otherwise the number under which the
  next table goes on.
\<close>

section \<open>The range of a key number\<close>

definition idx :: "ranges \<Rightarrow> 64 word \<Rightarrow> nat" where
  "idx rs x = length (takeWhile (\<lambda>r. snd r < x) rs)"

definition good_ranges :: "ranges \<Rightarrow> bool" where
  "good_ranges rs \<longleftrightarrow> (\<forall>x. idx rs x < length rs \<and> fst (rs ! idx rs x) \<le> x)"

lemma idx_below: "j < idx rs x \<Longrightarrow> snd (rs ! j) < x"
  unfolding idx_def using nth_mem [of j "takeWhile (\<lambda>r. snd r < x) rs"] set_takeWhileD
  by (fastforce simp: takeWhile_nth)

lemma idx_reached: "idx rs x < length rs \<Longrightarrow> x \<le> snd (rs ! idx rs x)"
  unfolding idx_def using nth_length_takeWhile [of "\<lambda>r. snd r < x" rs] by simp

lemma idx_le: "idx rs x < length rs \<Longrightarrow> j < length rs \<Longrightarrow> idx rs x \<le> j \<longleftrightarrow> idx rs x = j \<or> idx rs x < j"
  by auto

lemma idx_mono: "x \<le> y \<Longrightarrow> good_ranges rs \<Longrightarrow> idx rs x \<le> idx rs y"
  using idx_below [of "idx rs y" rs x] idx_reached [of rs y]
  by (meson good_ranges_def leD not_le_imp_less order_trans)

lemma idx_compare: "good_ranges rs \<Longrightarrow> j \<le> idx rs x \<Longrightarrow> snd (rs ! j) < x \<longleftrightarrow> j < idx rs x"
  using idx_below idx_reached by (metis good_ranges_def leD order.not_eq_order_implies_strict)

lemma idx_above: "good_ranges rs \<Longrightarrow> x \<le> y \<Longrightarrow> y \<le> snd (rs ! idx rs x) \<longleftrightarrow> idx rs y = idx rs x"
  using idx_mono [of x y rs] idx_below [of "idx rs x" rs y] idx_reached [of rs y]
  by (metis good_ranges_def le_neq_implies_less leD)

lemma skip_ranges_idx: "good_ranges rs \<Longrightarrow> j \<le> idx rs x \<Longrightarrow> skip_ranges rs x j = Some (idx rs x)"
proof (induction rs x j rule: skip_ranges.induct)
  case (1 rs x j)
  have j: "j < length rs" using 1(2,3) by (meson good_ranges_def order_le_less_trans)
  show ?case
  proof (cases "j < idx rs x")
    case True
    then show ?thesis using 1 j idx_compare [of rs j x] by (simp add: skip_ranges.simps [of rs x j])
  next
    case False
    then have "j = idx rs x" using 1(3) by simp
    then show ?thesis using 1(2) j idx_compare [of rs j x] by (subst skip_ranges.simps) simp
  qed
qed

section \<open>The invariant of a run\<close>

definition last_of :: "nat \<Rightarrow> (nat \<Rightarrow> 64 word) \<Rightarrow> nat \<Rightarrow> 64 word" where
  "last_of sh lo i = lo i + (push_bit sh 1 - 1)"

text \<open>The digit \<open>i\<close> determines the range.\<close>

definition whole :: "ranges \<Rightarrow> nat \<Rightarrow> (nat \<Rightarrow> 64 word) \<Rightarrow> nat \<Rightarrow> bool" where
  "whole rs sh lo i \<longleftrightarrow> idx rs (last_of sh lo i) = idx rs (lo i)"

definition in_run :: "(nat \<times> nat) option \<Rightarrow> nat \<Rightarrow> bool" where
  "in_run r d = (case r of None \<Rightarrow> False | Some (a, b) \<Rightarrow> a \<le> d \<and> d \<le> b)"

definition digit_result :: "ranges \<Rightarrow> nat \<Rightarrow> (nat \<Rightarrow> 64 word) \<Rightarrow> (nat \<Rightarrow> 64 word) \<Rightarrow> (64 word \<rightharpoonup> nat) \<Rightarrow> nat \<Rightarrow> nat \<times> nat" where
  "digit_result rs sh lo fkey m d = (if whole rs sh lo d then (0, idx rs (lo d)) else (1, pf_get m (fkey d)))"

definition new_numbers :: "ranges \<Rightarrow> nat \<Rightarrow> (nat \<Rightarrow> 64 word) \<Rightarrow> (nat \<Rightarrow> 64 word) \<Rightarrow> scan \<Rightarrow> nat \<Rightarrow> scan \<Rightarrow> bool" where
  "new_numbers rs sh lo fkey s0 n s \<longleftrightarrow> curidx s0 \<le> curidx s
     \<and> (\<forall>k. k \<notin> fkey ` {i. i < n \<and> \<not> whole rs sh lo i} \<longrightarrow> pfidx s k = pfidx s0 k)
     \<and> (\<forall>i < n. \<not> whole rs sh lo i \<longrightarrow> (\<exists>v. pfidx s (fkey i) = Some v \<and> curidx s0 \<le> v \<and> v < curidx s))
     \<and> inj_on (\<lambda>i. pfidx s (fkey i)) {i. i < n \<and> \<not> whole rs sh lo i}"

definition scan_inv :: "ranges \<Rightarrow> nat \<Rightarrow> (nat \<Rightarrow> 64 word) \<Rightarrow> (nat \<Rightarrow> 64 word) \<Rightarrow> (nat \<Rightarrow> nat \<Rightarrow> nat \<Rightarrow> nat \<Rightarrow> line)
    \<Rightarrow> (nat \<Rightarrow> line \<Rightarrow> (nat \<times> nat) list) \<Rightarrow> bool \<Rightarrow> scan \<Rightarrow> nat \<Rightarrow> scan \<Rightarrow> bool" where
  "scan_inv rs sh lo fkey mk h push s0 n s \<longleftrightarrow> cur_range s < length rs
     \<and> (\<forall>i. n \<le> i \<longrightarrow> i < nb_digits \<longrightarrow> cur_range s \<le> idx rs (lo i))
     \<and> (\<forall>a b. run_lr s = Some (a, b) \<longrightarrow> a \<le> b \<and> n = Suc b
          \<and> (\<forall>d. a \<le> d \<longrightarrow> d \<le> b \<longrightarrow> whole rs sh lo d \<and> idx rs (lo d) = cur_range s))
     \<and> (\<exists>es. lines_out s = lines_out s0 @ es \<and> (\<forall>x \<in> set es. \<exists>l r t v. x = mk l r t v)
          \<and> (\<forall>d. hits (h d) es = (if d < n \<and> \<not> in_run (run_lr s) d then {digit_result rs sh lo fkey (pfidx s) d} else {})))
     \<and> new_numbers rs sh lo fkey s0 n s
     \<and> next_table s = next_table s0 @ (if push then map fkey (filter (\<lambda>i. \<not> whole rs sh lo i) [0..<n]) else [])"

text \<open>What the steps rely on: ascending digits, different prefixes, and how lines are read.\<close>

definition digits_ok :: "ranges \<Rightarrow> nat \<Rightarrow> (nat \<Rightarrow> 64 word) \<Rightarrow> (nat \<Rightarrow> 64 word) \<Rightarrow> bool" where
  "digits_ok rs sh lo fkey \<longleftrightarrow> good_ranges rs \<and> inj_on fkey {..<nb_digits}
     \<and> (\<forall>i < nb_digits. lo i \<le> last_of sh lo i) \<and> (\<forall>i j. i \<le> j \<longrightarrow> j < nb_digits \<longrightarrow> lo i \<le> lo j)"

definition reads :: "(nat \<Rightarrow> nat \<Rightarrow> nat \<Rightarrow> nat \<Rightarrow> line) \<Rightarrow> (nat \<Rightarrow> line \<Rightarrow> (nat \<times> nat) list) \<Rightarrow> bool" where
  "reads mk h \<longleftrightarrow> (\<forall>l r t v d. h d (mk l r t v) = (if l \<le> d \<and> d \<le> r then [(t, v)] else []))"

lemma hits_append: "hits h (xs @ ys) = hits h xs \<union> hits h ys"
  by (simp add: hits_def)

lemma hits_one: "reads mk h \<Longrightarrow> hits (h d) [mk l r t v] = (if l \<le> d \<and> d \<le> r then {(t, v)} else {})"
  by (simp add: hits_def reads_def)

lemma flush_inv:
  assumes "scan_inv rs sh lo fkey mk h push s0 n s" "reads mk h"
    and "\<And>l r j. style (pfidx s) l r j = mk l r 0 j"
  shows "scan_inv rs sh lo fkey mk h push s0 n (flush_run style s)" "run_lr (flush_run style s) = None"
    "cur_range (flush_run style s) = cur_range s" "pfidx (flush_run style s) = pfidx s"
    "curidx (flush_run style s) = curidx s"
proof -
  show "run_lr (flush_run style s) = None" "cur_range (flush_run style s) = cur_range s"
    "pfidx (flush_run style s) = pfidx s" "curidx (flush_run style s) = curidx s"
    by (auto simp: flush_run_def split: option.split)
  show "scan_inv rs sh lo fkey mk h push s0 n (flush_run style s)"
  proof (cases "run_lr s")
    case None
    then show ?thesis using assms(1) by (simp add: flush_run_def)
  next
    case (Some ab)
    obtain a b where ab: "run_lr s = Some (a, b)" using Some by (cases ab) auto
    from assms(1) obtain es where es: "lines_out s = lines_out s0 @ es" "\<forall>x \<in> set es. \<exists>l r t v. x = mk l r t v"
      "\<forall>d. hits (h d) es = (if d < n \<and> \<not> in_run (run_lr s) d then {digit_result rs sh lo fkey (pfidx s) d} else {})"
      unfolding scan_inv_def by blast
    from assms(1) ab have r: "a \<le> b" "n = Suc b"
      "\<And>d. a \<le> d \<Longrightarrow> d \<le> b \<Longrightarrow> whole rs sh lo d \<and> idx rs (lo d) = cur_range s" unfolding scan_inv_def by blast+
    define es' where "es' = es @ [mk a b 0 (cur_range s)]"
    have "hits (h d) es' = (if d < n then {digit_result rs sh lo fkey (pfidx s) d} else {})" for d
      unfolding es'_def hits_append hits_one [OF assms(2)] es(3) [rule_format]
      using r by (auto simp: ab in_run_def digit_result_def)
    moreover have "lines_out (flush_run style s) = lines_out s0 @ es'"
      by (simp add: flush_run_def ab es(1) es'_def assms(3))
    moreover have "\<forall>x \<in> set es'. \<exists>l r t v. x = mk l r t v" using es(2) by (auto simp: es'_def)
    ultimately show ?thesis
      using assms(1) ab unfolding scan_inv_def new_numbers_def
      by (simp add: flush_run_def in_run_def) blast
  qed
qed

section \<open>One digit\<close>

lemma inv_jump:
  assumes I: "scan_inv rs sh lo fkey mk h push s0 n s" and d: "digits_ok rs sh lo fkey" and n: "n < nb_digits"
    and r: "run_lr s = None"
  shows "scan_inv rs sh lo fkey mk h push s0 n (s\<lparr>cur_range := idx rs (lo n)\<rparr>)"
proof -
  have g: "good_ranges rs" using d by (simp add: digits_ok_def)
  have "idx rs (lo n) < length rs" using g by (simp add: good_ranges_def)
  moreover have "idx rs (lo n) \<le> idx rs (lo i)" if "n \<le> i" "i < nb_digits" for i
    using d that by (intro idx_mono g) (simp add: digits_ok_def)
  ultimately show ?thesis using I r by (simp add: scan_inv_def new_numbers_def cong: if_cong split del: if_split)
qed

lemma inv_whole:
  assumes I: "scan_inv rs sh lo fkey mk h push s0 n s" and d: "digits_ok rs sh lo fkey" and n: "n < nb_digits"
    and c: "cur_range s = idx rs (lo n)" and w: "whole rs sh lo n"
  shows "scan_inv rs sh lo fkey mk h push s0 (Suc n)
    (s\<lparr>run_lr := (case run_lr s of None \<Rightarrow> Some (n, n) | Some (l, r) \<Rightarrow> Some (l, n))\<rparr>)"
proof -
  let ?s = "s\<lparr>run_lr := (case run_lr s of None \<Rightarrow> Some (n, n) | Some (l, r) \<Rightarrow> Some (l, n))\<rparr>"
  have e: "{i. i < Suc n \<and> \<not> whole rs sh lo i} = {i. i < n \<and> \<not> whole rs sh lo i}"
    using w by (auto simp: less_Suc_eq)
  have f: "filter (\<lambda>i. \<not> whole rs sh lo i) [0..<Suc n] = filter (\<lambda>i. \<not> whole rs sh lo i) [0..<n]" using w by simp
  from I obtain es where es: "lines_out s = lines_out s0 @ es" "\<forall>x \<in> set es. \<exists>l r t v. x = mk l r t v"
    "\<forall>d. hits (h d) es = (if d < n \<and> \<not> in_run (run_lr s) d then {digit_result rs sh lo fkey (pfidx s) d} else {})"
    unfolding scan_inv_def by blast
  have run: "\<And>a b. run_lr s = Some (a, b) \<Longrightarrow> a \<le> b \<and> n = Suc b
      \<and> (\<forall>d. a \<le> d \<longrightarrow> d \<le> b \<longrightarrow> whole rs sh lo d \<and> idx rs (lo d) = cur_range s)"
    using I unfolding scan_inv_def by blast
  have rn: "a \<le> b \<and> Suc n = Suc b \<and> (\<forall>d. a \<le> d \<longrightarrow> d \<le> b \<longrightarrow> whole rs sh lo d \<and> idx rs (lo d) = cur_range s)"
    if "run_lr ?s = Some (a, b)" for a b
  proof (cases "run_lr s")
    case None
    then show ?thesis using that w c by (auto simp: le_antisym)
  next
    case (Some ab)
    obtain x y where xy: "run_lr s = Some (x, y)" using Some by (cases ab) auto
    then have ab: "a = x" "b = n" using that by simp_all
    show ?thesis
    proof (intro conjI allI impI)
      fix d assume "a \<le> d" "d \<le> b"
      then consider "d \<le> y" | "d = n" using run [OF xy] ab by linarith
      then show "whole rs sh lo d" "idx rs (lo d) = cur_range s"
        using run [OF xy] \<open>a \<le> d\<close> ab w c by (cases; simp)+
    qed (use run [OF xy] ab in auto)
  qed
  have ln: "hits (h d) es = (if d < Suc n \<and> \<not> in_run (run_lr ?s) d then {digit_result rs sh lo fkey (pfidx ?s) d} else {})" for d
  proof (cases "run_lr s")
    case None
    then show ?thesis using es(3) by (auto simp: in_run_def less_Suc_eq)
  next
    case (Some ab)
    obtain x y where xy: "run_lr s = Some (x, y)" using Some by (cases ab) auto
    then show ?thesis using es(3) run [OF xy] by (auto simp: in_run_def less_Suc_eq)
  qed
  have nn: "new_numbers rs sh lo fkey s0 (Suc n) ?s"
    using I w unfolding scan_inv_def new_numbers_def e by (auto simp: less_Suc_eq)
  show ?thesis
    unfolding scan_inv_def
  proof (intro conjI)
    show "\<exists>es. lines_out ?s = lines_out s0 @ es \<and> (\<forall>x \<in> set es. \<exists>l r t v. x = mk l r t v)
      \<and> (\<forall>d. hits (h d) es = (if d < Suc n \<and> \<not> in_run (run_lr ?s) d then {digit_result rs sh lo fkey (pfidx ?s) d} else {}))"
      using es(1,2) ln by (intro exI [of _ es]) simp
    show "next_table ?s = next_table s0 @ (if push then map fkey (filter (\<lambda>i. \<not> whole rs sh lo i) [0..<Suc n]) else [])"
      using I unfolding f by (simp add: scan_inv_def)
    show "new_numbers rs sh lo fkey s0 (Suc n) ?s" by (rule nn)
    show "\<forall>a b. run_lr ?s = Some (a, b) \<longrightarrow> a \<le> b \<and> Suc n = Suc b
      \<and> (\<forall>d. a \<le> d \<longrightarrow> d \<le> b \<longrightarrow> whole rs sh lo d \<and> idx rs (lo d) = cur_range ?s)"
      using rn by simp
  qed (use I in \<open>simp_all add: scan_inv_def\<close>)
qed

lemma inv_split:
  assumes I: "scan_inv rs sh lo fkey mk h push s0 n s" and d: "digits_ok rs sh lo fkey" and n: "n < nb_digits"
    and m: "reads mk h" and r: "run_lr s = None" and w: "\<not> whole rs sh lo n"
    and sl: "\<And>l r v. split_line ((pfidx s)(fkey n \<mapsto> curidx s)) l r v = mk l r 1 v"
  shows "scan_inv rs sh lo fkey mk h push s0 (Suc n)
    (s\<lparr>pfidx := (pfidx s)(fkey n \<mapsto> curidx s), curidx := curidx s + 1,
       lines_out := lines_out s @ [split_line ((pfidx s)(fkey n \<mapsto> curidx s)) n n
         (pf_get ((pfidx s)(fkey n \<mapsto> curidx s)) (fkey n))],
       next_table := next_table s @ (if push then [fkey n] else [])\<rparr>)" (is "scan_inv _ _ _ _ _ _ _ _ _ ?s")
proof -
  have e: "{i. i < Suc n \<and> \<not> whole rs sh lo i} = insert n {i. i < n \<and> \<not> whole rs sh lo i}"
    using w by (auto simp: less_Suc_eq)
  have fk: "fkey i \<noteq> fkey n" if "i < n" for i
    using d that n by (auto simp: digits_ok_def inj_on_def)
  from I obtain es where es: "lines_out s = lines_out s0 @ es" "\<forall>x \<in> set es. \<exists>l r t v. x = mk l r t v"
    "\<forall>d. hits (h d) es = (if d < n \<and> \<not> in_run (run_lr s) d then {digit_result rs sh lo fkey (pfidx s) d} else {})"
    unfolding scan_inv_def by blast
  have nn: "new_numbers rs sh lo fkey s0 n s" using I by (simp add: scan_inv_def)
  define es' where "es' = es @ [mk n n 1 (curidx s)]"
  have ln: "hits (h d) es' = (if d < Suc n then {digit_result rs sh lo fkey (pfidx ?s) d} else {})" for d
    unfolding es'_def hits_append hits_one [OF m] es(3) [rule_format]
    using w r fk by (auto simp: in_run_def digit_result_def pf_get_def less_Suc_eq)
  have nn': "new_numbers rs sh lo fkey s0 (Suc n) ?s"
    unfolding new_numbers_def e
  proof (intro conjI)
    show "\<forall>k. k \<notin> fkey ` insert n {i. i < n \<and> \<not> whole rs sh lo i} \<longrightarrow> pfidx ?s k = pfidx s0 k"
      using nn by (simp add: new_numbers_def)
    show "\<forall>i < Suc n. \<not> whole rs sh lo i \<longrightarrow> (\<exists>v. pfidx ?s (fkey i) = Some v \<and> curidx s0 \<le> v \<and> v < curidx ?s)"
      using nn fk by (auto simp: new_numbers_def less_Suc_eq)
    have "inj_on (\<lambda>i. pfidx ?s (fkey i)) {i. i < n \<and> \<not> whole rs sh lo i}
      \<longleftrightarrow> inj_on (\<lambda>i. pfidx s (fkey i)) {i. i < n \<and> \<not> whole rs sh lo i}"
      using fk by (intro inj_on_cong) simp
    then show "inj_on (\<lambda>i. pfidx ?s (fkey i)) (insert n {i. i < n \<and> \<not> whole rs sh lo i})"
      using nn fk by (fastforce simp: new_numbers_def)
  qed (use nn in \<open>simp add: new_numbers_def\<close>)
  show ?thesis
    unfolding scan_inv_def
  proof (intro conjI)
    show "\<exists>es. lines_out ?s = lines_out s0 @ es \<and> (\<forall>x \<in> set es. \<exists>l r t v. x = mk l r t v)
      \<and> (\<forall>d. hits (h d) es = (if d < Suc n \<and> \<not> in_run (run_lr ?s) d then {digit_result rs sh lo fkey (pfidx ?s) d} else {}))"
    proof (intro exI [of _ es'] conjI)
      show "lines_out ?s = lines_out s0 @ es'" by (simp add: es(1) es'_def sl pf_get_def)
      show "\<forall>x \<in> set es'. \<exists>l r t v. x = mk l r t v" using es(2) by (auto simp: es'_def)
      show "\<forall>d. hits (h d) es' = (if d < Suc n \<and> \<not> in_run (run_lr ?s) d then {digit_result rs sh lo fkey (pfidx ?s) d} else {})"
        using ln r by (simp add: in_run_def)
    qed
    show "new_numbers rs sh lo fkey s0 (Suc n) ?s" by (rule nn')
    show "next_table ?s = next_table s0 @ (if push then map fkey (filter (\<lambda>i. \<not> whole rs sh lo i) [0..<Suc n]) else [])"
      using I w by (simp add: scan_inv_def)
  qed (use I r in \<open>simp_all add: scan_inv_def\<close>)
qed

definition styles_ok :: "(nat \<Rightarrow> 64 word) \<Rightarrow> (nat \<Rightarrow> nat \<Rightarrow> nat \<Rightarrow> nat \<Rightarrow> line) \<Rightarrow> scan \<Rightarrow> run_style \<Rightarrow> run_style \<Rightarrow> bool" where
  "styles_ok fkey mk s0 end_line split_line \<longleftrightarrow> (\<forall>m. (\<forall>k. k \<notin> fkey ` {..<nb_digits} \<longrightarrow> m k = pfidx s0 k) \<longrightarrow>
     (\<forall>l r v. end_line m l r v = mk l r 0 v \<and> split_line m l r v = mk l r 1 v))"

text \<open>No range ends where a digit ends; then a run never ends by a jump to the next range.\<close>

definition no_jump :: "ranges \<Rightarrow> nat \<Rightarrow> (nat \<Rightarrow> 64 word) \<Rightarrow> bool" where
  "no_jump rs sh lo \<longleftrightarrow> (\<forall>i. Suc i < nb_digits \<longrightarrow> idx rs (lo (Suc i)) = idx rs (last_of sh lo i))"

lemma new_numbers_outside:
  "new_numbers rs sh lo fkey s0 n s \<Longrightarrow> n \<le> nb_digits \<Longrightarrow> k \<notin> fkey ` {..<nb_digits} \<Longrightarrow> pfidx s k = pfidx s0 k"
  unfolding new_numbers_def by (auto simp: image_iff)

lemma scan_digit_inv:
  assumes I: "scan_inv rs sh lo fkey mk h push s0 n s" and d: "digits_ok rs sh lo fkey" and n: "n < nb_digits"
    and m: "reads mk h" and st: "styles_ok fkey mk s0 end_line split_line"
    and j: "jump_line = end_line \<or> no_jump rs sh lo"
  shows "\<exists>t. scan_digit rs sh lo fkey jump_line end_line split_line push n s = Some t
    \<and> scan_inv rs sh lo fkey mk h push s0 (Suc n) t"
proof -
  have g: "good_ranges rs" using d by (simp add: digits_ok_def)
  have c: "cur_range s < length rs" "cur_range s \<le> idx rs (lo n)" using I n by (auto simp: scan_inv_def)
  have nn: "new_numbers rs sh lo fkey s0 n s" using I by (simp add: scan_inv_def)
  note same = new_numbers_outside [OF nn less_imp_le [OF n]]
  have el: "end_line (pfidx s) l r v = mk l r 0 v" for l r v using st same by (simp add: styles_ok_def)
  have sl: "split_line ((pfidx s)(fkey n \<mapsto> x)) l r v = mk l r 1 v" for l r v x
    using st same n unfolding styles_ok_def by (metis fun_upd_other imageI lessThan_iff)
  define s1 where "s1 = (if snd (rs ! cur_range s) < lo n then (flush_run jump_line s)\<lparr>cur_range := idx rs (lo n)\<rparr> else s)"
  have s1: "scan_inv rs sh lo fkey mk h push s0 n s1 \<and> cur_range s1 = idx rs (lo n) \<and> pfidx s1 = pfidx s"
  proof (cases "snd (rs ! cur_range s) < lo n")
    case False
    then show ?thesis using I c(2) idx_compare [OF g c(2)] by (simp add: s1_def)
  next
    case True
    have f: "flush_run jump_line s = flush_run end_line s"
    proof (cases "run_lr s")
      case (Some ab)
      then obtain a b where "run_lr s = Some (a, b)" by (cases ab) auto
      then have b: "n = Suc b" "whole rs sh lo b" "idx rs (lo b) = cur_range s"
        using I unfolding scan_inv_def by blast+
      have "idx rs (lo n) \<noteq> idx rs (last_of sh lo b)"
        using True idx_compare [OF g c(2)] b by (simp add: whole_def)
      then show ?thesis using j n b(1) by (auto simp: no_jump_def)
    qed (simp add: flush_run_def)
    note fl = flush_inv [where style = end_line, OF I m el]
    show ?thesis using True inv_jump [OF fl(1) d n fl(2)] fl by (simp add: s1_def f)
  qed
  have e: "scan_digit rs sh lo fkey jump_line end_line split_line push n s =
    Some (if whole rs sh lo n
      then s1\<lparr>run_lr := (case run_lr s1 of None \<Rightarrow> Some (n, n) | Some (l, r) \<Rightarrow> Some (l, n))\<rparr>
      else (let s = flush_run end_line s1;
                 s = s\<lparr>pfidx := (pfidx s)(fkey n \<mapsto> curidx s), curidx := curidx s + 1\<rparr>
             in s\<lparr>lines_out := lines_out s @ [split_line (pfidx s) n n (pf_get (pfidx s) (fkey n))],
                  next_table := next_table s @ (if push then [fkey n] else [])\<rparr>))"
  proof -
    have fl: "cur_range (flush_run jump_line s) = cur_range s" by (simp add: flush_run_def split: option.split)
    have "idx rs (lo n) < length rs" "fst (rs ! idx rs (lo n)) \<le> lo n" using g by (simp_all add: good_ranges_def)
    moreover have "last_of sh lo n \<le> snd (rs ! idx rs (lo n)) \<longleftrightarrow> whole rs sh lo n"
      using d n by (subst idx_above [OF g]) (auto simp: whole_def digits_ok_def)
    ultimately show ?thesis
      using s1 skip_ranges_idx [OF g c(2)] c(1) unfolding scan_digit_def last_of_def [symmetric] Let_def
      by (auto simp: nth_opt_def s1_def fl)
  qed
  show ?thesis
  proof (cases "whole rs sh lo n")
    case True
    then show ?thesis using e inv_whole [OF s1 [THEN conjunct1] d n _ True] s1 by simp
  next
    case False
    define s2 where "s2 = flush_run end_line s1"
    have p1: "pfidx s1 = pfidx s" using s1 by simp
    note fl = flush_inv [where style = end_line, OF s1 [THEN conjunct1] m el [folded p1], folded s2_def]
    have sl2: "split_line ((pfidx s2)(fkey n \<mapsto> curidx s2)) l r v = mk l r 1 v" for l r v
      using sl by (simp add: fl(4) p1)
    show ?thesis
      using e False inv_split [where split_line = split_line, OF fl(1) d n m fl(2) False sl2] by (simp add: s2_def [symmetric] Let_def)
  qed
qed

section \<open>A whole table\<close>

lemma scan_digits:
  assumes "digits_ok rs sh lo fkey" "reads mk h" "styles_ok fkey mk s0 end_line split_line"
    and "jump_line = end_line \<or> no_jump rs sh lo"
  shows "scan_inv rs sh lo fkey mk h push s0 i s \<Longrightarrow> i + k \<le> nb_digits
    \<Longrightarrow> \<exists>t. for_up k i (scan_digit rs sh lo fkey jump_line end_line split_line push) s = Some t
      \<and> scan_inv rs sh lo fkey mk h push s0 (i + k) t"
proof (induction k arbitrary: i s)
  case (Suc k)
  obtain t where t: "scan_digit rs sh lo fkey jump_line end_line split_line push i s = Some t"
    "scan_inv rs sh lo fkey mk h push s0 (Suc i) t"
    using scan_digit_inv [OF Suc.prems(1) assms(1) _ assms(2-4)] Suc.prems(2) by auto
  then show ?case using Suc.IH [OF t(2)] Suc.prems(2) by simp
qed simp

text \<open>The result: one line per digit, the new prefixes, and their numbers.\<close>

definition table_done :: "ranges \<Rightarrow> nat \<Rightarrow> (nat \<Rightarrow> 64 word) \<Rightarrow> (nat \<Rightarrow> 64 word) \<Rightarrow> (nat \<Rightarrow> nat \<Rightarrow> nat \<Rightarrow> nat \<Rightarrow> line)
    \<Rightarrow> (nat \<Rightarrow> line \<Rightarrow> (nat \<times> nat) list) \<Rightarrow> bool \<Rightarrow> scan \<Rightarrow> scan \<Rightarrow> bool" where
  "table_done rs sh lo fkey mk h push s0 s \<longleftrightarrow>
     (\<exists>es. lines_out s = lines_out s0 @ es \<and> (\<forall>x \<in> set es. \<exists>l r t v. x = mk l r t v)
        \<and> (\<forall>d < nb_digits. hits (h d) es = {digit_result rs sh lo fkey (pfidx s) d}))
     \<and> new_numbers rs sh lo fkey s0 nb_digits s
     \<and> next_table s = next_table s0 @ (if push then map fkey (filter (\<lambda>i. \<not> whole rs sh lo i) [0..<nb_digits]) else [])"

lemma scan_table_done:
  assumes d: "digits_ok rs sh lo fkey" and m: "reads mk h" and st: "styles_ok fkey mk s0 end_line split_line"
    and j: "jump_line = end_line \<or> no_jump rs sh lo"
  obtains s where "scan_table rs sh lo fkey jump_line end_line split_line push s0 = Some s"
    "table_done rs sh lo fkey mk h push s0 s"
proof -
  have g: "good_ranges rs" using d by (simp add: digits_ok_def)
  then have "0 < length rs" by (metis good_ranges_def gr_implies_not_zero not_gr_zero)
  then have i0: "scan_inv rs sh lo fkey mk h push s0 0 (s0\<lparr>cur_range := 0, run_lr := None\<rparr>)"
    by (simp add: scan_inv_def new_numbers_def hits_def)
  obtain t where t: "for_up nb_digits 0 (scan_digit rs sh lo fkey jump_line end_line split_line push)
      (s0\<lparr>cur_range := 0, run_lr := None\<rparr>) = Some t" "scan_inv rs sh lo fkey mk h push s0 nb_digits t"
    using scan_digits [OF assms i0, of nb_digits] by auto
  have nn: "new_numbers rs sh lo fkey s0 nb_digits t" using t(2) by (simp add: scan_inv_def)
  have el: "end_line (pfidx t) l r v = mk l r 0 v" for l r v
    using st new_numbers_outside [OF nn] by (simp add: styles_ok_def)
  note fl = flush_inv [where style = end_line, OF t(2) m el]
  from fl(1) obtain es where es: "lines_out (flush_run end_line t) = lines_out s0 @ es" "\<forall>x \<in> set es. \<exists>l r t v. x = mk l r t v"
    "\<forall>d. hits (h d) es = (if d < nb_digits \<and> \<not> in_run (run_lr (flush_run end_line t)) d
      then {digit_result rs sh lo fkey (pfidx (flush_run end_line t)) d} else {})"
    unfolding scan_inv_def by blast
  have "\<forall>d < nb_digits. hits (h d) es = {digit_result rs sh lo fkey (pfidx (flush_run end_line t)) d}"
    using es(3) by (simp add: fl(2) in_run_def)
  then have "table_done rs sh lo fkey mk h push s0 (flush_run end_line t)"
    using fl(1) es(1,2) unfolding table_done_def scan_inv_def by blast
  then show thesis using that t(1) by (simp add: scan_table_def)
qed

end
