(* ===== verification/Match_Correct.thy ===== *)
theory Match_Correct
  imports Match_Scan
begin

text \<open>
  The four tables together: for ascending keys of which the first is large enough, every key
  number has exactly one result, the number of keys below it.
\<close>

section \<open>The ranges\<close>

lemma idx_ranges: "idx (ranges_from p ks) x = length (takeWhile (\<lambda>k. k < x) ks)"
proof (induction ks arbitrary: p)
  case Nil
  then show ?case by (simp add: idx_def)
next
  case (Cons k ks)
  then show ?case by (simp add: idx_def)
qed

lemma length_ranges [simp]: "length (ranges_from p ks) = Suc (length ks)"
  by (induction ks arbitrary: p) simp_all

lemma ranges_lower:
  "ascending ks \<Longrightarrow> p = - 1 \<or> p < x \<Longrightarrow> fst (ranges_from p ks ! length (takeWhile (\<lambda>k. k < x) ks)) \<le> x"
proof (induction ks arbitrary: p)
  case Nil
  then show ?case by (auto simp: inc_le)
next
  case (Cons k ks)
  show ?case
  proof (cases "k < x")
    case True
    then show ?thesis using Cons by simp
  next
    case False
    then show ?thesis using Cons.prems(2) by (auto simp: inc_le)
  qed
qed

lemma good_rangelist: "ascending keys \<Longrightarrow> good_ranges (rangelist keys)"
  unfolding good_ranges_def rangelist_def idx_ranges
  using ranges_lower [of keys "- 1"] by (simp add: length_takeWhile_le le_imp_less_Suc)

lemma idx_lower_bound: "ascending keys \<Longrightarrow> idx (rangelist keys) x = lower_bound keys x"
proof -
  assume a: "ascending keys"
  have "lower_bound keys x = length (takeWhile (\<lambda>k. k < x) keys)"
  proof (rule lower_bound_eqI)
    show "sorted keys" using a strict_sorted_imp_sorted by blast
    let ?n = "length (takeWhile (\<lambda>k. k < x) keys)"
    show "?n = 0 \<or> keys ! (?n - 1) < x"
    proof (cases ?n)
      case (Suc m)
      then have "takeWhile (\<lambda>k. k < x) keys ! m \<in> set (takeWhile (\<lambda>k. k < x) keys)" by (intro nth_mem) simp
      then show ?thesis using Suc set_takeWhileD by (fastforce simp: takeWhile_nth)
    qed simp
    show "?n = length keys \<or> x \<le> keys ! ?n"
      using nth_length_takeWhile [of "\<lambda>k. k < x" keys] length_takeWhile_le [of "\<lambda>k. k < x" keys] by fastforce
  qed (rule length_takeWhile_le)
  then show ?thesis by (simp add: rangelist_def idx_ranges)
qed

lemma idx_next: "x \<notin> set keys \<Longrightarrow> x \<noteq> - 1 \<Longrightarrow> idx (rangelist keys) (x + 1) = idx (rangelist keys) x"
proof -
  assume x: "x \<notin> set keys" "x \<noteq> - 1"
  have "k < x + 1 \<longleftrightarrow> k < x" if "k \<in> set keys" for k
  proof -
    have "1 + x \<noteq> 0" using x(2) by (metis add.commute add.inverse_unique)
    then have "unat (x + 1) = Suc (unat x)" using unatSuc [of x] by (simp add: add.commute)
    then have "k < x + 1 \<longleftrightarrow> k \<le> x" by (simp add: word_less_nat_alt word_le_nat_alt less_Suc_eq_le)
    then show ?thesis using x(1) that by (metis order_less_le)
  qed
  then have "takeWhile (\<lambda>k. k < x + 1) keys = takeWhile (\<lambda>k. k < x) keys" by (intro takeWhile_cong) auto
  then show ?thesis by (simp add: rangelist_def idx_ranges)
qed

section \<open>Digits of a key number\<close>

definition base_ok :: "nat \<Rightarrow> 64 word \<Rightarrow> bool" where
  "base_ok sh B \<longleftrightarrow> unat B + nb_digits * 2 ^ sh \<le> 2 ^ 64"

lemma of_nat_unat_less: "n < 2 ^ 64 \<Longrightarrow> unat (of_nat n :: 64 word) = n"
  by (simp add: unat_of_nat)

lemma digit_room: "base_ok sh B \<Longrightarrow> i < nb_digits \<Longrightarrow> unat B + i * 2 ^ sh + (2 ^ sh - 1) < 2 ^ 64"
proof -
  assume b: "base_ok sh B" and i: "i < nb_digits"
  have "Suc i * 2 ^ sh \<le> nb_digits * 2 ^ sh" using i by (intro mult_le_mono1) simp
  moreover have "(1 :: nat) \<le> 2 ^ sh" by simp
  ultimately show ?thesis using b unfolding base_ok_def by (simp only: mult_Suc)
qed

lemma unat_lo:
  assumes "base_ok sh B" "i < nb_digits"
  shows "unat (B + push_bit sh (of_nat i)) = unat B + i * 2 ^ sh"
    "unat (last_of sh (\<lambda>i. B + push_bit sh (of_nat i)) i) = unat B + i * 2 ^ sh + (2 ^ sh - 1)"
proof -
  note r = digit_room [OF assms]
  have p: "push_bit sh (of_nat i :: 64 word) = of_nat (i * 2 ^ sh)" by (simp add: push_bit_eq_mult)
  have q: "push_bit sh 1 - 1 = (of_nat (2 ^ sh - 1) :: 64 word)" by (simp add: push_bit_eq_mult of_nat_diff)
  have l: "B + push_bit sh (of_nat i) = of_nat (unat B + i * 2 ^ sh)" unfolding p by (simp only: of_nat_add) simp
  show "unat (B + push_bit sh (of_nat i)) = unat B + i * 2 ^ sh"
    unfolding l using r by (intro of_nat_unat_less) linarith
  have "last_of sh (\<lambda>i. B + push_bit sh (of_nat i)) i = of_nat (unat B + i * 2 ^ sh + (2 ^ sh - 1))"
    unfolding last_of_def l q by (simp only: of_nat_add)
  then show "unat (last_of sh (\<lambda>i. B + push_bit sh (of_nat i)) i) = unat B + i * 2 ^ sh + (2 ^ sh - 1)"
    using of_nat_unat_less [OF r] by simp
qed

lemma digits_ok_base:
  assumes "good_ranges rs" "base_ok sh B" "inj_on fkey {..<nb_digits}"
  shows "digits_ok rs sh (\<lambda>i. B + push_bit sh (of_nat i)) fkey"
  unfolding digits_ok_def
proof (intro conjI allI impI)
  fix i assume "i < nb_digits"
  then show "B + push_bit sh (of_nat i) \<le> last_of sh (\<lambda>i. B + push_bit sh (of_nat i)) i"
    unfolding word_le_nat_alt unat_lo [OF assms(2) \<open>i < nb_digits\<close>] by (simp only: le_add1)
next
  fix i j assume "i \<le> j" "j < nb_digits"
  then show "B + push_bit sh (of_nat i) \<le> B + push_bit sh (of_nat j)"
    using unat_lo(1) [OF assms(2)] by (simp add: word_le_nat_alt)
qed (use assms in auto)

text \<open>When no key is the last number of a digit, no run ends by a jump.\<close>

lemma no_jump_base:
  assumes b: "base_ok sh B" and k: "\<forall>k \<in> set keys. (unat k + 1) mod 2 ^ sh \<noteq> 0" and B: "2 ^ sh dvd unat B"
  shows "no_jump (rangelist keys) sh (\<lambda>i. B + push_bit sh (of_nat i))"
  unfolding no_jump_def
proof (intro allI impI)
  fix i assume i: "Suc i < nb_digits"
  let ?x = "last_of sh (\<lambda>i. B + push_bit sh (of_nat i)) i"
  have u: "unat ?x = unat B + i * 2 ^ sh + (2 ^ sh - 1)" using unat_lo(2) [OF b, of i] i by simp
  then have u1: "unat ?x + 1 = unat B + Suc i * 2 ^ sh" by simp
  have n: "unat (B + push_bit sh (of_nat (Suc i))) = unat ?x + 1" unfolding u1 by (rule unat_lo(1) [OF b i])
  have "B + push_bit sh (of_nat (Suc i)) = of_nat (unat (B + push_bit sh (of_nat (Suc i))))" by simp
  also have "\<dots> = ?x + 1" unfolding n by simp
  finally have e: "B + push_bit sh (of_nat (Suc i)) = ?x + 1" .
  have "?x \<noteq> - 1"
  proof
    assume "?x = - 1"
    then have "unat (B + push_bit sh (of_nat (Suc i))) = 0" unfolding e by simp
    then show False using n by simp
  qed
  moreover have "?x \<notin> set keys"
  proof
    assume "?x \<in> set keys"
    then have "(unat B + Suc i * 2 ^ sh) mod 2 ^ sh \<noteq> 0" using k u1 by metis
    moreover have "2 ^ sh dvd unat B + Suc i * 2 ^ sh" using B by (intro dvd_add) simp_all
    ultimately show False by (simp add: dvd_eq_mod_eq_0 del: mult_Suc)
  qed
  ultimately show "idx (rangelist keys) (B + push_bit sh (of_nat (Suc i))) = idx (rangelist keys) ?x"
    unfolding e by (intro idx_next)
qed

lemma unat_drop: "unat (drop_bit n w) = unat w div 2 ^ n" for w :: "64 word"
proof -
  have "take_bit 64 (unat w) = unat w"
    using unsigned_less [of w, where 'a = nat] by (intro take_bit_nat_eq_self) simp
  then show ?thesis by (simp add: unsigned_drop_bit_eq drop_bit_eq_div [where 'a = nat])
qed

lemma key_digit_less: "key_digit sh w < nb_digits"
  by (simp add: key_digit_def nb_digits_def)

lemma drop_base:
  fixes w :: "64 word"
  assumes "sh \<le> 48"
  shows "unat (push_bit (sh + 16) (drop_bit (sh + 16) w)) = (unat w div 2 ^ (sh + 16)) * 2 ^ (sh + 16)"
    "base_ok sh (push_bit (sh + 16) (drop_bit (sh + 16) w))"
proof -
  let ?q = "unat w div 2 ^ (sh + 16)"
  have w: "unat w < 2 ^ 64" by (rule order_less_le_trans [OF unsigned_less]) simp
  have le: "?q * 2 ^ (sh + 16) \<le> unat w" by simp
  have "push_bit (sh + 16) (drop_bit (sh + 16) w) = of_nat (?q * 2 ^ (sh + 16))"
    using unat_drop [of "sh + 16" w] by (simp only: push_bit_eq_mult of_nat_mult of_nat_power of_nat_numeral) (metis unat_drop of_nat_unat ucast_id)
  then show u: "unat (push_bit (sh + 16) (drop_bit (sh + 16) w)) = ?q * 2 ^ (sh + 16)"
    using le w by (simp only: of_nat_unat_less)
  have e: "(2 :: nat) ^ 64 = 2 ^ (48 - sh) * 2 ^ (sh + 16)" using assms by (simp flip: power_add)
  have "?q < 2 ^ (48 - sh)" using w by (intro less_mult_imp_div_less) (simp only: e)
  then have "Suc ?q * 2 ^ (sh + 16) \<le> 2 ^ 64" unfolding e by (intro mult_le_mono1) simp
  moreover have "nb_digits * 2 ^ sh = 2 ^ (sh + 16)" by (simp add: nb_digits_def power_add)
  ultimately show "base_ok sh (push_bit (sh + 16) (drop_bit (sh + 16) w))"
    unfolding base_ok_def u by simp
qed

text \<open>The digits that lead to a key number, and the prefixes they make up.\<close>

lemma digit_split: "(w :: nat) div 2 ^ sh = (w div 2 ^ (sh + 16)) * 65536 + (w div 2 ^ sh) mod 65536"
  by (simp add: power_add div_mult2_eq)

lemma prefix_of_digit:
  assumes "sh \<le> 48"
  shows "push_bit 16 (drop_bit (sh + 16) w) + of_nat (key_digit sh w) = drop_bit sh (w :: 64 word)"
proof -
  have "push_bit 16 (drop_bit (sh + 16) w) + of_nat (key_digit sh w)
    = of_nat ((unat w div 2 ^ (sh + 16)) * 65536 + (unat w div 2 ^ sh) mod 65536)"
    by (simp add: push_bit_eq_mult key_digit_def unat_drop [symmetric])
  also have "\<dots> = of_nat (unat (drop_bit sh w))" unfolding unat_drop using digit_split [of "unat w" sh] by simp
  finally show ?thesis by simp
qed

lemma digit_holds:
  fixes w :: "64 word"
  assumes "sh \<le> 48"
  defines "B \<equiv> push_bit (sh + 16) (drop_bit (sh + 16) w)"
  shows "B + push_bit sh (of_nat (key_digit sh w)) \<le> w"
    "w \<le> last_of sh (\<lambda>i. B + push_bit sh (of_nat i)) (key_digit sh w)"
proof -
  let ?w = "unat w"
  have b: "base_ok sh B" unfolding B_def by (rule drop_base [OF assms(1)])
  have u: "unat B + key_digit sh w * 2 ^ sh = (?w div 2 ^ sh) * 2 ^ sh"
  proof -
    have "unat B = ?w div 2 ^ (sh + 16) * 65536 * 2 ^ sh"
      unfolding B_def drop_base(1) [OF assms(1)] by (simp add: power_add)
    then show ?thesis
      unfolding key_digit_def unat_drop using digit_split [of ?w sh] by (simp only: add_mult_distrib [symmetric])
  qed
  have m: "(?w div 2 ^ sh) * 2 ^ sh \<le> ?w" "?w \<le> (?w div 2 ^ sh) * 2 ^ sh + (2 ^ sh - 1)"
  proof -
    have "?w mod 2 ^ sh < 2 ^ sh" by simp
    moreover have "?w = (?w div 2 ^ sh) * 2 ^ sh + ?w mod 2 ^ sh" by (rule div_mult_mod_eq [symmetric])
    ultimately show "?w \<le> (?w div 2 ^ sh) * 2 ^ sh + (2 ^ sh - 1)" by linarith
  qed simp
  show "B + push_bit sh (of_nat (key_digit sh w)) \<le> w"
    unfolding word_le_nat_alt unat_lo(1) [OF b key_digit_less] u by (rule m(1))
  show "w \<le> last_of sh (\<lambda>i. B + push_bit sh (of_nat i)) (key_digit sh w)"
    unfolding word_le_nat_alt unat_lo(2) [OF b key_digit_less] u by (rule m(2))
qed

text \<open>A digit that determines the range gives the range of every key number with this digit.\<close>

lemma whole_idx:
  fixes w :: "64 word"
  assumes "good_ranges rs" "sh \<le> 48"
    and "whole rs sh (\<lambda>i. push_bit (sh + 16) (drop_bit (sh + 16) w) + push_bit sh (of_nat i)) (key_digit sh w)"
  shows "idx rs (push_bit (sh + 16) (drop_bit (sh + 16) w) + push_bit sh (of_nat (key_digit sh w))) = idx rs w"
  using digit_holds [OF assms(2), of w] idx_mono [OF _ assms(1)] assms(3) unfolding whole_def
  by (metis le_antisym)

section \<open>Prefixes\<close>

definition with_digit :: "64 word \<Rightarrow> nat \<Rightarrow> 64 word" where
  "with_digit pf i = push_bit 16 pf + of_nat i"

lemma unat_with_digit:
  assumes "unat pf < 2 ^ 48" "i < nb_digits"
  shows "unat (with_digit pf i) = unat pf * 65536 + i"
proof -
  have "unat pf * 65536 + i < 2 ^ 64" using assms by (simp add: nb_digits_def)
  moreover have "with_digit pf i = of_nat (unat pf * 65536 + i)" by (simp add: with_digit_def push_bit_eq_mult)
  ultimately show ?thesis by (simp only: of_nat_unat_less)
qed

lemma with_digit_inj:
  assumes "unat pf < 2 ^ 48" "i < nb_digits" "unat pf' < 2 ^ 48" "i' < nb_digits" "with_digit pf i = with_digit pf' i'"
  shows "pf = pf' \<and> i = i'"
proof -
  have e: "unat pf * 65536 + i = unat pf' * 65536 + i'"
    using unat_with_digit [OF assms(1,2)] unat_with_digit [OF assms(3,4)] assms(5) by simp
  have "i = i'" using arg_cong [OF e, of "\<lambda>x. x mod 65536"] assms(2,4) by (simp add: nb_digits_def)
  then have "unat pf = unat pf'" using e by simp
  then have "pf = pf'" by (simp add: word_eq_iff_unsigned [where 'a = nat])
  then show ?thesis using \<open>i = i'\<close> by simp
qed

text \<open>What one stage leaves for its prefixes \<open>T\<close>, a set of which no prefix is a digit longer than another.\<close>

definition stage_new :: "ranges \<Rightarrow> nat \<Rightarrow> (64 word \<Rightarrow> nat \<Rightarrow> 64 word) \<Rightarrow> 64 word list \<Rightarrow> 64 word list" where
  "stage_new rs sh lof T = concat (map (\<lambda>pf. map (with_digit pf) (filter (\<lambda>i. \<not> whole rs sh (lof pf) i) [0..<nb_digits])) T)"

definition apart :: "64 word list \<Rightarrow> bool" where
  "apart T \<longleftrightarrow> distinct T \<and> (\<forall>pf \<in> set T. unat pf < 2 ^ 48 \<and> (\<forall>pf' \<in> set T. \<forall>i < nb_digits. with_digit pf i \<noteq> pf'))"

definition stage_done :: "ranges \<Rightarrow> nat \<Rightarrow> (64 word \<Rightarrow> nat \<Rightarrow> 64 word) \<Rightarrow> bool \<Rightarrow> 64 word list \<Rightarrow> scan \<Rightarrow> scan \<Rightarrow> bool" where
  "stage_done rs sh lof push T s0 s \<longleftrightarrow>
     (\<exists>es. lines_out s = lines_out s0 @ es
        \<and> (\<forall>x \<in> set es. \<exists>pf \<in> set T. \<exists>l r t v. x = Entry (pf_get (pfidx s0) pf) l r t v)
        \<and> (\<forall>pf \<in> set T. \<forall>d < nb_digits. hits (entry_hit (pf_get (pfidx s0) pf) d) es
             = {digit_result rs sh (lof pf) (with_digit pf) (pfidx s) d}))
     \<and> curidx s0 \<le> curidx s
     \<and> (\<forall>k. (\<forall>pf \<in> set T. k \<notin> with_digit pf ` {..<nb_digits}) \<longrightarrow> pfidx s k = pfidx s0 k)
     \<and> (\<forall>k \<in> set (stage_new rs sh lof T). \<exists>v. pfidx s k = Some v \<and> curidx s0 \<le> v \<and> v < curidx s)
     \<and> inj_on (pfidx s) (set (stage_new rs sh lof T))
     \<and> next_table s = next_table s0 @ (if push then stage_new rs sh lof T else [])"

lemma entry_reads: "reads (Entry p) (entry_hit p)"
  by (simp add: reads_def)

lemma entry_styles:
  assumes "apart (pf # T)"
  shows "styles_ok (with_digit pf) (Entry (pf_get (pfidx s0) pf)) s0 (entry_of pf 0) (entry_of pf 1)"
proof -
  have "pf \<notin> with_digit pf ` {..<nb_digits}" using assms by (auto simp: apart_def)
  then show ?thesis by (simp add: styles_ok_def entry_of_def pf_get_def)
qed

lemma hits_other: "(\<And>x. x \<in> set es \<Longrightarrow> \<exists>q l r t v. x = Entry q l r t v \<and> q \<noteq> p) \<Longrightarrow> hits (entry_hit p d) es = {}"
  unfolding hits_def by (induction es) fastforce+

lemma inj_on_scan:
  assumes i: "inj_on (\<lambda>i. m (with_digit pf i)) A" shows "inj_on m (with_digit pf ` A)"
  using i by (auto simp: inj_on_def)

text \<open>A stage of one prefix, and of one more.\<close>

lemma stage_one:
  assumes a: "apart (pf # T)" and g: "good_ranges rs" and b: "base_ok sh B" and lo: "lof pf = (\<lambda>i. B + push_bit sh (of_nat i))"
    and j: "jump_line = entry_of pf 0 \<or> no_jump rs sh (lof pf)"
  obtains s where "scan_table rs sh (lof pf) (with_digit pf) jump_line (entry_of pf 0) (entry_of pf 1) push s0 = Some s"
    "stage_done rs sh lof push [pf] s0 s"
proof -
  have p: "unat pf < 2 ^ 48" using a by (simp add: apart_def)
  have inj: "inj_on (with_digit pf) {..<nb_digits}" using with_digit_inj [OF p _ p] by (auto simp: inj_on_def)
  note d = digits_ok_base [OF g b inj, folded lo]
  obtain s where s: "scan_table rs sh (lof pf) (with_digit pf) jump_line (entry_of pf 0) (entry_of pf 1) push s0 = Some s"
    "table_done rs sh (lof pf) (with_digit pf) (Entry (pf_get (pfidx s0) pf)) (entry_hit (pf_get (pfidx s0) pf)) push s0 s"
    by (rule scan_table_done [OF d entry_reads entry_styles [OF a] j])
  let ?N = "{i. i < nb_digits \<and> \<not> whole rs sh (lof pf) i}"
  have new: "set (stage_new rs sh lof [pf]) = with_digit pf ` ?N" by (auto simp: stage_new_def)
  have nn: "new_numbers rs sh (lof pf) (with_digit pf) s0 nb_digits s" using s(2) by (simp add: table_done_def)
  from s(2) obtain es where es: "lines_out s = lines_out s0 @ es" "\<forall>x \<in> set es. \<exists>l r t v. x = Entry (pf_get (pfidx s0) pf) l r t v"
    "\<forall>d < nb_digits. hits (entry_hit (pf_get (pfidx s0) pf) d) es = {digit_result rs sh (lof pf) (with_digit pf) (pfidx s) d}"
    unfolding table_done_def by blast
  have "stage_done rs sh lof push [pf] s0 s"
    unfolding stage_done_def new
  proof (intro conjI)
    show "\<exists>es. lines_out s = lines_out s0 @ es
        \<and> (\<forall>x \<in> set es. \<exists>pf \<in> set [pf]. \<exists>l r t v. x = Entry (pf_get (pfidx s0) pf) l r t v)
        \<and> (\<forall>pf \<in> set [pf]. \<forall>d < nb_digits. hits (entry_hit (pf_get (pfidx s0) pf) d) es
             = {digit_result rs sh (lof pf) (with_digit pf) (pfidx s) d})"
      using es by (intro exI [of _ es]) simp
    show "\<forall>k. (\<forall>pf \<in> set [pf]. k \<notin> with_digit pf ` {..<nb_digits}) \<longrightarrow> pfidx s k = pfidx s0 k"
      using new_numbers_outside [OF nn] by simp
    show "\<forall>k \<in> with_digit pf ` ?N. \<exists>v. pfidx s k = Some v \<and> curidx s0 \<le> v \<and> v < curidx s"
      using nn by (auto simp: new_numbers_def)
    show "inj_on (pfidx s) (with_digit pf ` ?N)" using nn by (intro inj_on_scan) (simp add: new_numbers_def)
    show "next_table s = next_table s0 @ (if push then stage_new rs sh lof [pf] else [])"
      using s(2) by (simp add: table_done_def stage_new_def)
  qed (use nn in \<open>simp add: new_numbers_def\<close>)
  with s(1) show thesis by (rule that)
qed

lemma stage_new_Cons: "stage_new rs sh lof (pf # T) = stage_new rs sh lof [pf] @ stage_new rs sh lof T"
  by (simp add: stage_new_def)

lemma stage_new_in: "k \<in> set (stage_new rs sh lof T) \<Longrightarrow> \<exists>pf \<in> set T. \<exists>i < nb_digits. k = with_digit pf i"
  by (auto simp: stage_new_def)

lemma stage_Cons:
  assumes a: "apart (pf # T)" and inj: "inj_on (pf_get (pfidx s0)) (set (pf # T))"
    and 1: "stage_done rs sh lof push [pf] s0 s1" and 2: "stage_done rs sh lof push T s1 s"
  shows "stage_done rs sh lof push (pf # T) s0 s"
proof -
  from a have pfT: "pf \<notin> set T" and lim: "\<And>x. x \<in> set (pf # T) \<Longrightarrow> unat x < 2 ^ 48"
    and far: "\<And>x y i. x \<in> set (pf # T) \<Longrightarrow> y \<in> set (pf # T) \<Longrightarrow> i < nb_digits \<Longrightarrow> with_digit x i \<noteq> y"
    unfolding apart_def by (simp, blast, blast)
  have old: "pfidx s1 k = pfidx s0 k" if "k \<notin> with_digit pf ` {..<nb_digits}" for k
    using 1 that by (simp add: stage_done_def)
  have old2: "pfidx s k = pfidx s1 k" if "\<forall>x \<in> set T. k \<notin> with_digit x ` {..<nb_digits}" for k
    using 2 that by (simp add: stage_done_def)
  have tag: "pf_get (pfidx s1) x = pf_get (pfidx s0) x" if "x \<in> set (pf # T)" for x
  proof -
    have "x \<notin> with_digit pf ` {..<nb_digits}" using far [OF list.set_intros(1) that] by auto
    then show ?thesis by (simp add: old pf_get_def)
  qed
  have keep: "pfidx s (with_digit pf i) = pfidx s1 (with_digit pf i)" if "i < nb_digits" for i
  proof (intro old2 ballI notI)
    fix x assume x: "x \<in> set T" "with_digit pf i \<in> with_digit x ` {..<nb_digits}"
    then obtain i' where "i' < nb_digits" "with_digit pf i = with_digit x i'" by auto
    then have "pf = x" using with_digit_inj [of pf i x i'] lim that x(1) by simp
    then show False using x(1) pfT by simp
  qed
  obtain es1 where "lines_out s1 = lines_out s0 @ es1
      \<and> (\<forall>x \<in> set es1. \<exists>pf \<in> set [pf]. \<exists>l r t v. x = Entry (pf_get (pfidx s0) pf) l r t v)
      \<and> (\<forall>pf \<in> set [pf]. \<forall>d < nb_digits. hits (entry_hit (pf_get (pfidx s0) pf) d) es1
        = {digit_result rs sh (lof pf) (with_digit pf) (pfidx s1) d})"
    using 1 unfolding stage_done_def by blast
  then have es1: "lines_out s1 = lines_out s0 @ es1"
    "\<forall>x \<in> set es1. \<exists>l r t v. x = Entry (pf_get (pfidx s0) pf) l r t v"
    "\<forall>d < nb_digits. hits (entry_hit (pf_get (pfidx s0) pf) d) es1 = {digit_result rs sh (lof pf) (with_digit pf) (pfidx s1) d}"
    by simp_all
  obtain es2 where es2: "lines_out s = lines_out s1 @ es2"
    "\<forall>x \<in> set es2. \<exists>pf \<in> set T. \<exists>l r t v. x = Entry (pf_get (pfidx s1) pf) l r t v"
    "\<forall>pf \<in> set T. \<forall>d < nb_digits. hits (entry_hit (pf_get (pfidx s1) pf) d) es2
       = {digit_result rs sh (lof pf) (with_digit pf) (pfidx s) d}"
    using 2 unfolding stage_done_def by blast
  have ne: "pf_get (pfidx s0) x \<noteq> pf_get (pfidx s0) pf" if "x \<in> set T" for x
    using inj_onD [OF inj, of x pf] that pfT by auto
  have h2: "hits (entry_hit (pf_get (pfidx s0) pf) d) es2 = {}" for d
  proof (rule hits_other)
    fix x assume "x \<in> set es2"
    then obtain q l r t v where x: "q \<in> set T" "x = Entry (pf_get (pfidx s1) q) l r t v" using es2(2) by blast
    then show "\<exists>q l r t v. x = Entry q l r t v \<and> q \<noteq> pf_get (pfidx s0) pf" using tag [of q] ne [of q] by simp
  qed
  have h1: "hits (entry_hit (pf_get (pfidx s0) x) d) es1 = {}" if "x \<in> set T" for x d
  proof (rule hits_other)
    fix y assume "y \<in> set es1"
    then show "\<exists>q l r t v. y = Entry q l r t v \<and> q \<noteq> pf_get (pfidx s0) x" using es1(2) ne [OF that] by fastforce
  qed
  have r1: "digit_result rs sh (lof pf) (with_digit pf) (pfidx s1) d = digit_result rs sh (lof pf) (with_digit pf) (pfidx s) d"
    if "d < nb_digits" for d using keep [OF that] by (simp add: digit_result_def pf_get_def)
  have n1: "pfidx s k = pfidx s1 k" if "k \<in> set (stage_new rs sh lof [pf])" for k
    using stage_new_in [OF that] keep by auto
  have c: "curidx s0 \<le> curidx s1" "curidx s1 \<le> curidx s" using 1 2 by (simp_all add: stage_done_def)
  have v1: "\<exists>v. pfidx s k = Some v \<and> curidx s0 \<le> v \<and> v < curidx s1" if "k \<in> set (stage_new rs sh lof [pf])" for k
    using 1 that n1 [OF that] by (simp add: stage_done_def)
  have v2: "\<exists>v. pfidx s k = Some v \<and> curidx s1 \<le> v \<and> v < curidx s" if "k \<in> set (stage_new rs sh lof T)" for k
    using 2 that by (simp add: stage_done_def)
  have inj2: "inj_on (pfidx s) (set (stage_new rs sh lof (pf # T)))"
    unfolding stage_new_Cons [of rs sh lof pf T] set_append inj_on_Un
  proof (intro conjI)
    have "inj_on (pfidx s1) (set (stage_new rs sh lof [pf]))" using 1 by (simp add: stage_done_def)
    then show "inj_on (pfidx s) (set (stage_new rs sh lof [pf]))" using n1 by (simp cong: inj_on_cong)
    show "inj_on (pfidx s) (set (stage_new rs sh lof T))" using 2 by (simp add: stage_done_def)
    show "pfidx s ` (set (stage_new rs sh lof [pf]) - set (stage_new rs sh lof T))
      \<inter> pfidx s ` (set (stage_new rs sh lof T) - set (stage_new rs sh lof [pf])) = {}"
      using v1 v2 by fastforce
  qed
  show ?thesis
    unfolding stage_done_def
  proof (intro conjI)
    show "\<exists>es. lines_out s = lines_out s0 @ es
        \<and> (\<forall>x \<in> set es. \<exists>pf \<in> set (pf # T). \<exists>l r t v. x = Entry (pf_get (pfidx s0) pf) l r t v)
        \<and> (\<forall>pf \<in> set (pf # T). \<forall>d < nb_digits. hits (entry_hit (pf_get (pfidx s0) pf) d) es
             = {digit_result rs sh (lof pf) (with_digit pf) (pfidx s) d})"
    proof (intro exI [of _ "es1 @ es2"] conjI ballI allI impI)
      show "lines_out s = lines_out s0 @ es1 @ es2" using es1(1) es2(1) by simp
      fix x assume "x \<in> set (es1 @ es2)"
      then show "\<exists>pf \<in> set (pf # T). \<exists>l r t v. x = Entry (pf_get (pfidx s0) pf) l r t v"
      proof (cases "x \<in> set es1")
        case True
        then show ?thesis using es1(2) by simp
      next
        case False
        then have "x \<in> set es2" using \<open>x \<in> set (es1 @ es2)\<close> by simp
        then obtain q l r t v where x: "q \<in> set T" "x = Entry (pf_get (pfidx s1) q) l r t v" using es2(2) by blast
        then show ?thesis using tag [of q] by (intro bexI [of _ q]) simp_all
      qed
    next
      fix x d assume "x \<in> set (pf # T)" "d < nb_digits"
      then show "hits (entry_hit (pf_get (pfidx s0) x) d) (es1 @ es2)
          = {digit_result rs sh (lof x) (with_digit x) (pfidx s) d}"
      proof (cases "x = pf")
        case True
        then show ?thesis using es1(3) h2 r1 \<open>d < nb_digits\<close> by (simp add: hits_append)
      next
        case False
        then have x: "x \<in> set T" using \<open>x \<in> set (pf # T)\<close> by simp
        have "hits (entry_hit (pf_get (pfidx s0) x) d) es2 = {digit_result rs sh (lof x) (with_digit x) (pfidx s) d}"
          using es2(3) [rule_format, OF x \<open>d < nb_digits\<close>] unfolding tag [OF \<open>x \<in> set (pf # T)\<close>] .
        then show ?thesis using h1 [OF x] by (simp add: hits_append)
      qed
    qed
    show "\<forall>k. (\<forall>pf \<in> set (pf # T). k \<notin> with_digit pf ` {..<nb_digits}) \<longrightarrow> pfidx s k = pfidx s0 k"
      using old old2 by simp
    show "\<forall>k \<in> set (stage_new rs sh lof (pf # T)). \<exists>v. pfidx s k = Some v \<and> curidx s0 \<le> v \<and> v < curidx s"
    proof
      fix k assume "k \<in> set (stage_new rs sh lof (pf # T))"
      then consider "k \<in> set (stage_new rs sh lof [pf])" | "k \<in> set (stage_new rs sh lof T)"
        unfolding stage_new_Cons [of rs sh lof pf T] set_append by blast
      then show "\<exists>v. pfidx s k = Some v \<and> curidx s0 \<le> v \<and> v < curidx s"
        by cases (use v1 [of k] v2 [of k] c in fastforce)+
    qed
    show "next_table s = next_table s0 @ (if push then stage_new rs sh lof (pf # T) else [])"
      using 1 2 by (simp add: stage_done_def stage_new_Cons [of _ _ _ pf T])
  qed (use c inj2 in auto)
qed

lemma stage_all:
  assumes g: "good_ranges rs"
    and lo: "\<And>pf. pf \<in> set T \<Longrightarrow> \<exists>B. base_ok sh B \<and> lof pf = (\<lambda>i. B + push_bit sh (of_nat i))"
    and j: "\<And>pf. pf \<in> set T \<Longrightarrow> jump_line pf = entry_of pf 0 \<or> no_jump rs sh (lof pf)"
    and a: "apart T" and inj: "inj_on (pf_get (pfidx s0)) (set T)"
  shows "\<exists>s. each_prefix (\<lambda>pf. scan_table rs sh (lof pf) (with_digit pf) (jump_line pf) (entry_of pf 0) (entry_of pf 1) push) T s0 = Some s
    \<and> stage_done rs sh lof push T s0 s"
  using lo j a inj
proof (induction T arbitrary: s0)
  case Nil
  then show ?case by (simp add: stage_done_def stage_new_def)
next
  case (Cons pf T)
  obtain B where B: "base_ok sh B" "lof pf = (\<lambda>i. B + push_bit sh (of_nat i))" using Cons.prems(1) [of pf] by auto
  obtain s1 where s1: "scan_table rs sh (lof pf) (with_digit pf) (jump_line pf) (entry_of pf 0) (entry_of pf 1) push s0 = Some s1"
    "stage_done rs sh lof push [pf] s0 s1"
    by (rule stage_one [where lof = lof, OF Cons.prems(3) g B Cons.prems(2) [OF list.set_intros(1)]])
  have aT: "apart T" using Cons.prems(3) by (simp add: apart_def)
  have "pf_get (pfidx s1) x = pf_get (pfidx s0) x" if "x \<in> set T" for x
  proof -
    have "\<forall>i < nb_digits. with_digit pf i \<noteq> x" using Cons.prems(3) that by (simp add: apart_def)
    then have "x \<notin> with_digit pf ` {..<nb_digits}" by auto
    then have "pfidx s1 x = pfidx s0 x" using s1(2) by (simp add: stage_done_def)
    then show ?thesis by (simp add: pf_get_def)
  qed
  then have injT: "inj_on (pf_get (pfidx s1)) (set T)" using Cons.prems(4) by (auto simp: inj_on_def)
  have "\<exists>s. each_prefix (\<lambda>pf. scan_table rs sh (lof pf) (with_digit pf) (jump_line pf) (entry_of pf 0) (entry_of pf 1) push) T s1 = Some s
    \<and> stage_done rs sh lof push T s1 s"
    by (rule Cons.IH [OF Cons.prems(1,2) aT injT]) (simp_all only: list.set_intros)
  then obtain s where s: "each_prefix (\<lambda>pf. scan_table rs sh (lof pf) (with_digit pf) (jump_line pf) (entry_of pf 0) (entry_of pf 1) push) T s1 = Some s"
    "stage_done rs sh lof push T s1 s" by blast
  show ?case
    unfolding each_prefix.simps s1(1) bind.bind_lunit s(1) using stage_Cons [OF Cons.prems(3,4) s1(2) s(2)] by blast
qed

text \<open>The prefixes of a stage lie in a band of their own.\<close>

definition band :: "nat \<Rightarrow> 64 word list \<Rightarrow> bool" where
  "band n T \<longleftrightarrow> (\<forall>pf \<in> set T. 65536 ^ n \<le> unat pf \<and> unat pf < 65536 ^ Suc n)"

lemma band_new:
  assumes "band n T" "n \<le> 2"
  shows "band (Suc n) (stage_new rs sh lof T)"
  unfolding band_def
proof
  fix k assume "k \<in> set (stage_new rs sh lof T)"
  then obtain pf i where pf: "pf \<in> set T" "i < nb_digits" "k = with_digit pf i" using stage_new_in by blast
  have b: "65536 ^ n \<le> unat pf" "unat pf < 65536 ^ Suc n" using assms(1) pf(1) by (auto simp: band_def)
  have "(65536 :: nat) ^ Suc n \<le> 65536 ^ 3" using assms(2) by (intro power_increasing) simp_all
  then have "unat pf < 2 ^ 48" using b(2) by simp
  then have k: "unat k = unat pf * 65536 + i" using unat_with_digit pf(2,3) by simp
  have i: "i < 65536" using pf(2) by (simp add: nb_digits_def)
  have "Suc (unat pf) * 65536 \<le> 65536 ^ Suc n * 65536" using b(2) by (intro mult_le_mono1) simp
  then have "unat k < 65536 ^ Suc (Suc n)" using k i by (simp add: mult.commute)
  moreover have "65536 ^ Suc n \<le> unat k" using b(1) k by simp
  ultimately show "65536 ^ Suc n \<le> unat k \<and> unat k < 65536 ^ Suc (Suc n)" by simp
qed

lemma band_apart:
  assumes "band n T" "n \<le> 2" "distinct T"
  shows "apart T"
  unfolding apart_def
proof (intro conjI ballI allI impI)
  fix pf assume pf: "pf \<in> set T"
  have b: "65536 ^ n \<le> unat pf" "unat pf < 65536 ^ Suc n" using assms(1) pf by (auto simp: band_def)
  have "(65536 :: nat) ^ Suc n \<le> 65536 ^ 3" using assms(2) by (intro power_increasing) simp_all
  then show l: "unat pf < 2 ^ 48" using b(2) by simp
  fix pf' i assume pf': "pf' \<in> set T" "i < nb_digits"
  have "unat pf' < 65536 ^ Suc n" using assms(1) pf'(1) by (auto simp: band_def)
  moreover have "65536 ^ Suc n \<le> unat (with_digit pf i)" using unat_with_digit [OF l pf'(2)] b(1) by simp
  ultimately show "with_digit pf i \<noteq> pf'" by auto
qed (use assms in auto)

lemma distinct_new: "apart T \<Longrightarrow> distinct (stage_new rs sh lof T)"
proof (induction T)
  case (Cons pf T)
  have lim: "unat x < 2 ^ 48" if "x \<in> set (pf # T)" for x using Cons.prems that by (auto simp: apart_def)
  have aT: "apart T" and n: "pf \<notin> set T" using Cons.prems by (simp_all add: apart_def)
  have "distinct (map (with_digit pf) (filter (\<lambda>i. \<not> whole rs sh (lof pf) i) [0..<nb_digits]))"
    using with_digit_inj [OF lim _ lim] by (auto simp: distinct_map inj_on_def)
  moreover have "set (stage_new rs sh lof [pf]) \<inter> set (stage_new rs sh lof T) = {}"
  proof (intro equals0I)
    fix k assume "k \<in> set (stage_new rs sh lof [pf]) \<inter> set (stage_new rs sh lof T)"
    then obtain x i i' where x: "x \<in> set T" "i < nb_digits" "i' < nb_digits" "with_digit pf i = with_digit x i'"
      using stage_new_in [of k rs sh lof "[pf]"] stage_new_in [of k rs sh lof T] by auto
    then have "pf = x" using with_digit_inj [of pf i x i'] lim by simp
    then show False using x(1) n by simp
  qed
  ultimately show ?case using Cons.IH [OF aT] by (simp add: stage_new_Cons [of _ _ _ pf T]) (simp add: stage_new_def)
qed (simp add: stage_new_def)

section \<open>The four stages\<close>

text \<open>The first digit of a prefix, and the result of a stage for a key number.\<close>

definition lo_of :: "nat \<Rightarrow> 64 word \<Rightarrow> nat \<Rightarrow> 64 word" where
  "lo_of sh pf i = push_bit (sh + 16) pf + push_bit sh (of_nat i)"

lemma lo_of_eq: "lo_of sh pf = (\<lambda>i. push_bit (sh + 16) pf + push_bit sh (of_nat i))"
  by (rule ext) (simp add: lo_of_def)

lemma band_base:
  assumes "band n T" "pf \<in> set T" "sh = 32 - 16 * n" "n \<le> 2"
  shows "base_ok sh (push_bit (sh + 16) pf)" "2 ^ sh dvd unat (push_bit (sh + 16) pf)"
proof -
  have pf: "unat pf < 65536 ^ Suc n" using assms(1,2) by (auto simp: band_def)
  have "(65536 :: nat) = 2 ^ 16" by simp
  then have e: "(65536 :: nat) ^ Suc n = 2 ^ (16 * Suc n)" by (simp only: power_mult)
  have sum: "16 * Suc n + (sh + 16) = 64" using assms(3,4) by simp
  have "Suc (unat pf) * 2 ^ (sh + 16) \<le> 2 ^ (16 * Suc n) * 2 ^ (sh + 16)" using pf e by (intro mult_le_mono1) simp
  then have le: "Suc (unat pf) * 2 ^ (sh + 16) \<le> 2 ^ 64" unfolding power_add [symmetric] sum .
  have w: "push_bit (sh + 16) pf = of_nat (unat pf * 2 ^ (sh + 16))" by (simp add: push_bit_eq_mult)
  have "unat pf * 2 ^ (sh + 16) < Suc (unat pf) * 2 ^ (sh + 16)" by simp
  then have u: "unat (push_bit (sh + 16) pf) = unat pf * 2 ^ (sh + 16)"
    unfolding w using le by (intro of_nat_unat_less) (rule order_less_le_trans)
  have d: "nb_digits * 2 ^ sh = 2 ^ (sh + 16)" by (simp add: nb_digits_def power_add)
  show "base_ok sh (push_bit (sh + 16) pf)" unfolding base_ok_def u d using le by simp
  show "2 ^ sh dvd unat (push_bit (sh + 16) pf)" unfolding u power_add by (metis dvd_mult2 dvd_triv_right mult.commute)
qed

text \<open>One stage on a band of prefixes.\<close>

lemma stage_band:
  assumes g: "ascending keys" and b: "band n T" "n \<le> 2" "distinct T" and sh: "sh = 32 - 16 * n"
    and j: "\<And>pf. pf \<in> set T \<Longrightarrow> jump_line pf = entry_of pf 0 \<or> (\<forall>k \<in> set keys. (unat k + 1) mod 2 ^ sh \<noteq> 0)"
    and inj: "inj_on (pf_get (pfidx s0)) (set T)"
  obtains s where "each_prefix (\<lambda>pf. scan_table (rangelist keys) sh (lo_of sh pf) (with_digit pf) (jump_line pf)
      (entry_of pf 0) (entry_of pf 1) push) T s0 = Some s"
    "stage_done (rangelist keys) sh (lo_of sh) push T s0 s"
proof -
  have lo: "\<exists>B. base_ok sh B \<and> lo_of sh pf = (\<lambda>i. B + push_bit sh (of_nat i))" if "pf \<in> set T" for pf
    using band_base(1) [OF b(1) that sh b(2)] lo_of_eq by blast
  have jj: "jump_line pf = entry_of pf 0 \<or> no_jump (rangelist keys) sh (lo_of sh pf)" if "pf \<in> set T" for pf
    unfolding lo_of_eq using j [OF that] no_jump_base [OF band_base(1) [OF b(1) that sh b(2)] _ band_base(2) [OF b(1) that sh b(2)]]
    by blast
  show thesis using stage_all [where lof = "lo_of sh", OF good_rangelist [OF g] lo jj band_apart [OF b] inj] that by blast
qed

text \<open>What a stage finds for a key number whose prefix it has.\<close>

lemma stage_result:
  fixes w :: "64 word"
  assumes d: "stage_done rs sh (lo_of sh) push T s0 s" and g: "good_ranges rs" and sh: "sh \<le> 48"
    and T: "drop_bit (sh + 16) w \<in> set T" and l: "lines_out s0 = []"
  shows "hits (entry_hit (pf_get (pfidx s0) (drop_bit (sh + 16) w)) (key_digit sh w)) (lines_out s) = {(0, idx rs w)}
    \<or> hits (entry_hit (pf_get (pfidx s0) (drop_bit (sh + 16) w)) (key_digit sh w)) (lines_out s)
        = {(1, pf_get (pfidx s) (drop_bit sh w))} \<and> sh \<noteq> 0 \<and> drop_bit sh w \<in> set (stage_new rs sh (lo_of sh) T)"
proof -
  let ?pf = "drop_bit (sh + 16) w" and ?d = "key_digit sh w"
  have h: "hits (entry_hit (pf_get (pfidx s0) ?pf) ?d) (lines_out s)
    = {digit_result rs sh (lo_of sh ?pf) (with_digit ?pf) (pfidx s) ?d}"
    using d T key_digit_less l unfolding stage_done_def by fastforce
  have p: "with_digit ?pf ?d = drop_bit sh w" unfolding with_digit_def by (rule prefix_of_digit [OF sh])
  show ?thesis
  proof (cases "whole rs sh (lo_of sh ?pf) ?d")
    case True
    then show ?thesis
      unfolding h using whole_idx [OF g sh, of w] by (simp add: digit_result_def lo_of_eq)
  next
    case False
    have z: "sh \<noteq> 0"
    proof
      assume "sh = 0"
      then have "last_of sh (lo_of sh ?pf) ?d = lo_of sh ?pf ?d" by (simp add: last_of_def)
      then show False using False by (simp add: whole_def)
    qed
    have "with_digit ?pf ?d \<in> set (stage_new rs sh (lo_of sh) T)"
      unfolding stage_new_def using T False key_digit_less by (fastforce intro!: imageI)
    then show ?thesis unfolding h using False z by (simp add: digit_result_def p)
  qed
qed

end
