(* ===== verification/Match_Properties.thy ===== *)
theory Match_Properties
  imports Match_Correct
begin

text \<open>The properties of the two table generators: what the switch finds in their tables.\<close>

section \<open>The first table\<close>

lemma first_base: "base_ok 48 0"
  by (simp add: base_ok_def nb_digits_def)

lemma first_inj: "inj_on (of_nat :: nat \<Rightarrow> 64 word) {..<nb_digits}"
proof (rule inj_onI)
  fix i j :: nat assume "i \<in> {..<nb_digits}" "j \<in> {..<nb_digits}" "(of_nat i :: 64 word) = of_nat j"
  then show "i = j" using with_digit_inj [of 0 i 0 j] by (simp add: with_digit_def)
qed

lemma first_done:
  assumes g: "good_ranges rs"
  obtains s where "table_1 rs s0 = Some s"
    "table_done rs 48 (\<lambda>i. push_bit 48 (of_nat i)) of_nat First first_hit True s0 s"
proof -
  have d: "digits_ok rs 48 (\<lambda>i. push_bit 48 (of_nat i)) of_nat"
    using digits_ok_base [OF g first_base first_inj] by simp
  have st: "styles_ok of_nat First s0 (\<lambda>_ l r j. First l r 0 j) (\<lambda>_ l r v. First l r 1 v)" by (simp add: styles_ok_def)
  have rd: "reads First first_hit" by (simp add: reads_def)
  show thesis unfolding table_1_def by (rule scan_table_done [OF d rd st, of "\<lambda>_ l r j. First l r 0 j"]) (auto intro: that [unfolded table_1_def])
qed

lemma first_digit: "of_nat (key_digit 48 w) = drop_bit 48 (w :: 64 word)"
  using prefix_of_digit [of 48 w] by (simp add: word_eq_iff_unsigned [where 'a = nat] unat_drop)

lemma first_whole: "good_ranges rs \<Longrightarrow> whole rs 48 (\<lambda>i. push_bit 48 (of_nat i)) (key_digit 48 w)
    \<Longrightarrow> idx rs (push_bit 48 (of_nat (key_digit 48 w))) = idx rs w"
  using whole_idx [of rs 48 w] by simp

text \<open>The prefixes of the first table, none of which is 0 when the first key is large enough.\<close>

definition first_new :: "ranges \<Rightarrow> 64 word list" where
  "first_new rs = map of_nat (filter (\<lambda>i. \<not> whole rs 48 (\<lambda>i. push_bit 48 (of_nat i)) i) [0..<nb_digits])"

definition first_key_ok :: "64 word list \<Rightarrow> bool" where
  "first_key_ok keys \<longleftrightarrow> (case keys of [] \<Rightarrow> True | k # _ \<Rightarrow> 2 ^ 48 - 1 \<le> k)"

lemma whole_zero: "first_key_ok keys \<Longrightarrow> whole (rangelist keys) 48 (\<lambda>i. push_bit 48 (of_nat i)) 0"
proof -
  assume f: "first_key_ok keys"
  have "takeWhile (\<lambda>k. k < x) keys = []" if "x \<le> 2 ^ 48 - 1" for x
    using f that by (cases keys) (auto simp: first_key_ok_def)
  then have "idx (rangelist keys) x = 0" if "x \<le> 2 ^ 48 - 1" for x
    using that by (simp add: rangelist_def idx_ranges)
  then show ?thesis by (simp add: whole_def last_of_def)
qed

lemma first_band: "first_key_ok keys \<Longrightarrow> band 0 (first_new (rangelist keys))"
  unfolding band_def
proof
  fix pf assume f: "first_key_ok keys" and "pf \<in> set (first_new (rangelist keys))"
  then obtain i where i: "i < nb_digits" "\<not> whole (rangelist keys) 48 (\<lambda>i. push_bit 48 (of_nat i)) i" "pf = of_nat i"
    by (auto simp: first_new_def)
  then have "i \<noteq> 0" using whole_zero [OF f] by metis
  moreover have "unat pf = i" unfolding i(3) using i(1) by (intro of_nat_unat_less) (simp add: nb_digits_def)
  ultimately show "65536 ^ 0 \<le> unat pf \<and> unat pf < 65536 ^ Suc 0" using i(1) by (simp add: nb_digits_def)
qed

lemma first_distinct: "distinct (first_new rs)"
  unfolding first_new_def using first_inj by (auto simp: distinct_map inj_on_def)

lemma first_numbers:
  assumes "table_done rs 48 (\<lambda>i. push_bit 48 (of_nat i)) of_nat First first_hit True s0 s"
  shows "inj_on (pf_get (pfidx s)) (set (first_new rs))"
proof (rule inj_onI)
  let ?w = "whole rs 48 (\<lambda>i. push_bit 48 (of_nat i))"
  have n: "new_numbers rs 48 (\<lambda>i. push_bit 48 (of_nat i)) of_nat s0 nb_digits s"
    using assms by (simp add: table_done_def)
  fix k k' assume k: "k \<in> set (first_new rs)" "k' \<in> set (first_new rs)" "pf_get (pfidx s) k = pf_get (pfidx s) k'"
  then obtain i i' where i: "i < nb_digits" "\<not> ?w i" "k = of_nat i" "i' < nb_digits" "\<not> ?w i'" "k' = of_nat i'"
    unfolding first_new_def by auto
  note nn = n [unfolded new_numbers_def, THEN conjunct2, THEN conjunct2]
  have e: "\<forall>i < nb_digits. \<not> ?w i \<longrightarrow> (\<exists>v. pfidx s (of_nat i) = Some v \<and> curidx s0 \<le> v \<and> v < curidx s)"
    by (rule nn [THEN conjunct1])
  have u: "inj_on (\<lambda>i. pfidx s (of_nat i)) {i. i < nb_digits \<and> \<not> ?w i}" by (rule nn [THEN conjunct2])
  obtain v where v: "pfidx s k = Some v" using e [rule_format, OF i(1,2)] i(3) by auto
  obtain v' where v': "pfidx s k' = Some v'" using e [rule_format, OF i(4,5)] i(6) by auto
  have "pfidx s k = pfidx s k'" using k(3) v v' by (simp add: pf_get_def)
  then have "i = i'" using inj_onD [OF u, of i i'] i by simp
  then show "k = k'" using i by simp
qed

section \<open>The chain of tables\<close>

lemma later_stage:
  fixes w :: "64 word"
  assumes "stage_done rs sh (lo_of sh) push T s0 s" "good_ranges rs" "sh \<le> 48" "lines_out s0 = []"
    and "drop_bit (sh + 16) w \<in> set T"
    and "sh \<noteq> 0 \<Longrightarrow> drop_bit sh w \<in> set (stage_new rs sh (lo_of sh) T)
      \<Longrightarrow> later_results lss shs (pf_get (pfidx s) (drop_bit sh w)) w = {idx rs w}"
  shows "later_results (lines_out s # lss) (sh # shs) (pf_get (pfidx s0) (drop_bit (sh + 16) w)) w = {idx rs w}"
  using stage_result [OF assms(1-3,5,4)] assms(6) by (auto simp: Let_def)

lemma stage_inj: "stage_done rs sh lof push T s0 s \<Longrightarrow> inj_on (pf_get (pfidx s)) (set (stage_new rs sh lof T))"
  unfolding stage_done_def inj_on_def pf_get_def by (metis option.simps(5))

text \<open>The keys after which no line is written without its space.\<close>

definition no_glue :: "bool \<Rightarrow> 64 word list \<Rightarrow> bool" where
  "no_glue glued keys \<longleftrightarrow> glued \<longrightarrow> (\<forall>k \<in> set keys. (unat k + 1) mod 65536 \<noteq> 0)"

lemma no_glue_jump:
  assumes "no_glue glued keys" "sh = 32 \<or> sh = 16"
  shows "jump_of glued pf = entry_of pf 0 \<or> (\<forall>k \<in> set keys. (unat k + 1) mod 2 ^ sh \<noteq> 0)"
proof (cases glued)
  case True
  have "(unat k + 1) mod 2 ^ sh \<noteq> 0" if "k \<in> set keys" for k
  proof
    assume "(unat k + 1) mod 2 ^ sh = 0"
    moreover have "(2 :: nat) ^ 16 dvd 2 ^ sh" using assms(2) by (intro le_imp_power_dvd) auto
    ultimately have "2 ^ 16 dvd unat k + 1" using dvd_trans by blast
    then have "(unat k + 1) mod 65536 = 0" by (simp only: dvd_eq_mod_eq_0) simp
    then show False using assms(1) that True by (metis no_glue_def)
  qed
  then show ?thesis by blast
qed (simp add: jump_of_def entry_of_def fun_eq_iff)

text \<open>The four tables are made, and every key number has one result in them.\<close>

lemma tables_made:
  assumes a: "ascending keys" and f: "first_key_ok keys" and ng: "no_glue glued keys"
  obtains ts where "make_tables glued keys = Some ts" "\<And>w. table_results ts w = {lower_bound keys w}"
proof -
  let ?rs = "rangelist keys"
  let ?s = "\<lparr>pfidx = (\<lambda>_. None), curidx = length ?rs, next_table = [], lines_out = [], cur_range = 0, run_lr = None\<rparr>"
  have g: "good_ranges ?rs" by (rule good_rangelist [OF a])
  obtain s1 where t1: "table_1 ?rs ?s = Some s1"
    "table_done ?rs 48 (\<lambda>i. push_bit 48 (of_nat i)) of_nat First first_hit True ?s s1"
    by (rule first_done [OF g])
  let ?T1 = "first_new ?rs"
  have n1: "next_table s1 = ?T1" using t1(2) by (simp add: table_done_def first_new_def)
  have b1: "band 0 ?T1" by (rule first_band [OF f])
  have i1: "inj_on (pf_get (pfidx s1)) (set ?T1)" by (rule first_numbers [OF t1(2)])
  define s1' where "s1' = s1\<lparr>next_table := [], lines_out := []\<rparr>"
  have i1': "inj_on (pf_get (pfidx s1')) (set ?T1)" using i1 by (simp add: s1'_def)
  obtain s2 where t2: "each_prefix (\<lambda>pf. scan_table ?rs 32 (lo_of 32 pf) (with_digit pf) (jump_of glued pf)
      (entry_of pf 0) (entry_of pf 1) True) ?T1 s1' = Some s2" "stage_done ?rs 32 (lo_of 32) True ?T1 s1' s2"
    by (rule stage_band [OF a b1 _ first_distinct _ no_glue_jump [OF ng] i1', where sh = 32]) auto
  let ?T2 = "stage_new ?rs 32 (lo_of 32) ?T1"
  have n2: "next_table s2 = ?T2" using t2(2) by (simp add: stage_done_def s1'_def)
  have b2: "band 1 ?T2" using band_new [OF b1] by simp
  have d2: "distinct ?T2" by (rule distinct_new [OF band_apart [OF b1 _ first_distinct]]) simp
  define s2' where "s2' = s2\<lparr>next_table := [], lines_out := []\<rparr>"
  have i2: "inj_on (pf_get (pfidx s2')) (set ?T2)" using stage_inj [OF t2(2)] by (simp add: s2'_def)
  obtain s3 where t3: "each_prefix (\<lambda>pf. scan_table ?rs 16 (lo_of 16 pf) (with_digit pf) (jump_of glued pf)
      (entry_of pf 0) (entry_of pf 1) True) ?T2 s2' = Some s3" "stage_done ?rs 16 (lo_of 16) True ?T2 s2' s3"
    by (rule stage_band [OF a b2 _ d2 _ no_glue_jump [OF ng] i2, where sh = 16]) auto
  let ?T3 = "stage_new ?rs 16 (lo_of 16) ?T2"
  have n3: "next_table s3 = ?T3" using t3(2) by (simp add: stage_done_def s2'_def)
  have b3: "band 2 ?T3" using band_new [OF b2] by (simp add: numeral_2_eq_2)
  have d3: "distinct ?T3" by (rule distinct_new [OF band_apart [OF b2 _ d2]]) simp
  define s3' where "s3' = s3\<lparr>next_table := [], lines_out := []\<rparr>"
  have i3: "inj_on (pf_get (pfidx s3')) (set ?T3)" using stage_inj [OF t3(2)] by (simp add: s3'_def)
  have j4: "jump_of False pf = entry_of pf 0" for pf by (simp add: jump_of_def entry_of_def fun_eq_iff)
  obtain s4 where t4: "each_prefix (\<lambda>pf. scan_table ?rs 0 (lo_of 0 pf) (with_digit pf) (jump_of False pf)
      (entry_of pf 0) (entry_of pf 1) False) ?T3 s3' = Some s4" "stage_done ?rs 0 (lo_of 0) False ?T3 s3' s4"
    by (rule stage_band [where jump_line = "jump_of False", OF a b3 _ d3 _ disjI1 [OF j4] i3, where sh = 0]) auto
  have w: "with_digit pf = (\<lambda>i. push_bit 16 pf + of_nat i)" for pf by (rule ext) (simp add: with_digit_def)
  have "make_tables glued keys = Some (lines_out s1, lines_out s2, lines_out s3, lines_out s4)"
    using t1(1) t2(1) t3(1) t4(1) n1 n2 n3
    unfolding make_tables_def table_2_def table_3_def table_4_def w lo_of_eq s1'_def s2'_def s3'_def
    by (simp add: Let_def)
  moreover have "table_results (lines_out s1, lines_out s2, lines_out s3, lines_out s4) x = {lower_bound keys x}" for x
  proof -
    have l4: "later_results [lines_out s4] [0] (pf_get (pfidx s3) (drop_bit 16 x)) x = {idx ?rs x}"
      if "drop_bit 16 x \<in> set ?T3"
      using later_stage [OF t4(2) g, of x "[]" "[]"] that by (simp add: s3'_def)
    have l3: "later_results [lines_out s3, lines_out s4] [16, 0] (pf_get (pfidx s2) (drop_bit 32 x)) x = {idx ?rs x}"
      if "drop_bit 32 x \<in> set ?T2"
      using later_stage [OF t3(2) g, of x "[lines_out s4]" "[0]"] that l4 by (simp add: s2'_def)
    have l2: "later_results [lines_out s2, lines_out s3, lines_out s4] [32, 16, 0] (pf_get (pfidx s1) (drop_bit 48 x)) x = {idx ?rs x}"
      if "drop_bit 48 x \<in> set ?T1"
      using later_stage [OF t2(2) g, of x "[lines_out s3, lines_out s4]" "[16, 0]"] that l3 by (simp add: s1'_def)
    have h: "hits (first_hit (key_digit 48 x)) (lines_out s1)
      = {digit_result ?rs 48 (\<lambda>i. push_bit 48 (of_nat i)) of_nat (pfidx s1) (key_digit 48 x)}"
      using t1(2) key_digit_less [of 48 x] by (auto simp: table_done_def)
    show ?thesis
    proof (cases "whole ?rs 48 (\<lambda>i. push_bit 48 (of_nat i)) (key_digit 48 x)")
      case True
      then show ?thesis using first_whole [OF g True] idx_lower_bound [OF a, of x]
        by (simp add: table_results_def h digit_result_def Let_def)
    next
      case False
      then have "drop_bit 48 x \<in> set ?T1"
        unfolding first_new_def first_digit [symmetric] using key_digit_less [of 48 x] by (auto intro!: imageI)
      then show ?thesis using False l2 idx_lower_bound [OF a, of x]
        by (simp add: table_results_def h digit_result_def Let_def first_digit)
    qed
  qed
  ultimately show thesis by (rule that)
qed

section \<open>The keys of the four servers\<close>

text \<open>
  get_keys.py: the keys of the servers' roots, one after the other, with the first key number of
  each further part between them; the line ends with the last key, so that without keys of
  the fourth server the addresses of the children follow in the same line.
\<close>

definition separated_keys :: "64 word list \<Rightarrow> 64 word list \<Rightarrow> 64 word list \<Rightarrow> 64 word list \<Rightarrow> 64 word list" where
  "separated_keys keys_1 keys_2 keys_3 keys_4 =
     keys_1 @ [1 * 2 ^ 62] @ keys_2 @ [2 * 2 ^ 62] @ keys_3 @ [3 * 2 ^ 62] @ keys_4"

definition keyinfo :: "64 word list \<Rightarrow> 64 word list \<Rightarrow> 64 word list \<Rightarrow> 64 word list \<Rightarrow> 64 word list \<Rightarrow> 64 word list" where
  "keyinfo keys_1 keys_2 keys_3 keys_4 childrenaddr = separated_keys keys_1 keys_2 keys_3 keys_4
     @ (if keys_4 = [] then childrenaddr else [])"

lemma lower_bound_takeWhile:
  fixes x :: "64 word"
  shows "ascending ks \<Longrightarrow> lower_bound ks x = length (takeWhile (\<lambda>k. k < x) ks)"
  using idx_lower_bound [of ks x] by (simp add: rangelist_def idx_ranges)

lemma ascending_join:
  fixes sep :: "64 word"
  assumes "ascending xs" "ascending ys" "\<And>k. k \<in> set xs \<Longrightarrow> k < sep" "\<And>k. k \<in> set ys \<Longrightarrow> sep < k"
  shows "ascending (xs @ [sep] @ ys)"
  using assms by (auto simp: sorted_wrt_append intro: order_less_trans)

lemma nth_join:
  fixes sep :: "64 word"
  assumes a: "ascending (xs @ [sep] @ ys)" and l: "length cs = Suc (length xs)"
  shows "(cs @ ds) ! lower_bound (xs @ [sep] @ ys) w
    = (if w \<le> sep then cs ! lower_bound xs w else ds ! lower_bound ys w)"
proof -
  have ax: "ascending xs" and ay: "ascending ys" and sep: "\<And>k. k \<in> set xs \<Longrightarrow> k < sep"
    using a by (simp_all add: sorted_wrt_append)
  show ?thesis
  proof (cases "w \<le> sep")
    case True
    have "takeWhile (\<lambda>k. k < w) (xs @ [sep] @ ys) = takeWhile (\<lambda>k. k < w) xs"
      using leD [OF True] by (auto simp: takeWhile_append simp del: not_less
        intro!: takeWhile_eq_all_conv [THEN iffD2, symmetric])
    then have e: "lower_bound (xs @ [sep] @ ys) w = lower_bound xs w"
      by (simp only: lower_bound_takeWhile [OF a] lower_bound_takeWhile [OF ax])
    have "lower_bound xs w \<le> length xs" unfolding lower_bound_takeWhile [OF ax] by (rule length_takeWhile_le)
    then show ?thesis using True l unfolding e by (simp add: nth_append)
  next
    case False
    have "k < w" if "k \<in> set xs" for k using sep [OF that] False by (meson not_le order_less_trans)
    then have "takeWhile (\<lambda>k. k < w) (xs @ [sep] @ ys) = xs @ sep # takeWhile (\<lambda>k. k < w) ys"
      using False by (simp add: takeWhile_append)
    then have "lower_bound (xs @ [sep] @ ys) w = length cs + lower_bound ys w"
      unfolding lower_bound_takeWhile [OF a] lower_bound_takeWhile [OF ay] using l by simp
    then show ?thesis using False by (simp add: nth_append)
  qed
qed

definition in_part :: "64 word \<Rightarrow> 64 word list \<Rightarrow> bool" where
  "in_part p ks \<longleftrightarrow> ascending ks \<and> (\<forall>k \<in> set ks. p * 2 ^ 62 < k \<and> k \<le> p * 2 ^ 62 + (2 ^ 62 - 1))"

lemma parts_ascending:
  assumes "in_part 0 keys_1" "in_part 1 keys_2" "in_part 2 keys_3" "in_part 3 keys_4"
  shows "ascending (keys_3 @ [3 * 2 ^ 62] @ keys_4)"
    "ascending (keys_2 @ [2 * 2 ^ 62] @ keys_3 @ [3 * 2 ^ 62] @ keys_4)"
    "ascending (separated_keys keys_1 keys_2 keys_3 keys_4)"
proof -
  have 1: "k < 1 * 2 ^ 62" if "k \<in> set keys_1" for k
    using assms(1) that by (auto simp: in_part_def intro: order_le_less_trans)
  have 2: "1 * 2 ^ 62 < k" "k < 2 * 2 ^ 62" if "k \<in> set keys_2" for k
    using assms(2) that by (auto simp: in_part_def intro: order_le_less_trans)
  have 3: "2 * 2 ^ 62 < k" "k < 3 * 2 ^ 62" if "k \<in> set keys_3" for k
    using assms(3) that by (auto simp: in_part_def intro: order_le_less_trans)
  have 4: "3 * 2 ^ 62 < k" if "k \<in> set keys_4" for k
    using assms(4) that by (auto simp: in_part_def)
  have u: "(1 :: 64 word) * 2 ^ 62 < 2 * 2 ^ 62" "(2 :: 64 word) * 2 ^ 62 < 3 * 2 ^ 62" by simp_all
  have a: "ascending keys_1" "ascending keys_2" "ascending keys_3" "ascending keys_4"
    using assms by (simp_all add: in_part_def)
  show s3: "ascending (keys_3 @ [3 * 2 ^ 62] @ keys_4)" by (rule ascending_join [OF a(3,4) 3(2) 4])
  have g3: "2 * 2 ^ 62 < k" if "k \<in> set (keys_3 @ [3 * 2 ^ 62] @ keys_4)" for k
    using that 3(1) order_less_trans [OF u(2) 4] u(2) by auto
  show s2: "ascending (keys_2 @ [2 * 2 ^ 62] @ keys_3 @ [3 * 2 ^ 62] @ keys_4)"
    by (rule ascending_join [OF a(2) s3 2(2) g3])
  have g2: "1 * 2 ^ 62 < k" if "k \<in> set (keys_2 @ [2 * 2 ^ 62] @ keys_3 @ [3 * 2 ^ 62] @ keys_4)" for k
    using that 2(1) order_less_trans [OF u(1) g3] u(1) by auto
  show "ascending (separated_keys keys_1 keys_2 keys_3 keys_4)"
    unfolding separated_keys_def by (rule ascending_join [OF a(1) s2 1 g2])
qed

section \<open>The properties\<close>

text \<open>
  C6: the tables config_table.cpp makes from ascending keys, the first of which is at least
  2^48 - 1, give every key number exactly one result, the one std::lower_bound finds.
\<close>

theorem config_table_finds_range:
  assumes "ascending keys" "first_key_ok keys"
  shows "\<exists>ts. config_table keys = Some ts \<and> (\<forall>w. table_results ts w = {lower_bound keys w})"
  by (rule tables_made [where glued = False, OF assms]) (auto simp: no_glue_def config_table_def)

theorem config_table_finds_range_witness:
  "\<exists>ts. config_table [2 ^ 48, 2 ^ 48 + 5, 2 ^ 60 - 1] = Some ts \<and> table_results ts (2 ^ 48 + 3) = {1}"
proof -
  have "lower_bound [2 ^ 48, 2 ^ 48 + 5, 2 ^ 60 - 1] (2 ^ 48 + 3 :: 64 word) = 1" by code_simp
  then show ?thesis
    using config_table_finds_range [of "[2 ^ 48, 2 ^ 48 + 5, 2 ^ 60 - 1]"] by (auto simp: first_key_ok_def)
qed

text \<open>
  C7: the tables match_table.cpp makes from the keys of the four servers' roots lead every key
  number to the child its server's keys select, except that the first key number of a further
  part goes to the last child of the part before it; this needs keys that are not one below
  a multiple of 2^16, where a space is missing in the output.
\<close>

theorem match_table_routes_parts:
  assumes "in_part 0 keys_1" "in_part 1 keys_2" "in_part 2 keys_3" "in_part 3 keys_4"
    and "first_key_ok keys_1" "no_glue True (keys_1 @ keys_2 @ keys_3 @ keys_4)"
    and "keys_4 \<noteq> []" "length cs_1 = Suc (length keys_1)" "length cs_2 = Suc (length keys_2)" "length cs_3 = Suc (length keys_3)"
  shows "\<exists>ts. match_table (keyinfo keys_1 keys_2 keys_3 keys_4 (cs_1 @ cs_2 @ cs_3 @ cs_4)) = Some ts
    \<and> (\<forall>w. (!) (cs_1 @ cs_2 @ cs_3 @ cs_4) ` table_results ts w =
        {if w \<le> 2 ^ 62 then cs_1 ! lower_bound keys_1 w
         else if w \<le> 2 * 2 ^ 62 then cs_2 ! lower_bound keys_2 w
         else if w \<le> 3 * 2 ^ 62 then cs_3 ! lower_bound keys_3 w
         else cs_4 ! lower_bound keys_4 w})"
proof -
  have k: "keyinfo keys_1 keys_2 keys_3 keys_4 c = separated_keys keys_1 keys_2 keys_3 keys_4" for c
    using assms(7) by (simp add: keyinfo_def)
  note a = parts_ascending [OF assms(1-4)]
  have f: "first_key_ok (separated_keys keys_1 keys_2 keys_3 keys_4)"
    using assms(5) by (cases keys_1) (simp_all add: first_key_ok_def separated_keys_def)
  have n: "no_glue True (separated_keys keys_1 keys_2 keys_3 keys_4)"
    using assms(6) by (auto simp: no_glue_def separated_keys_def)
  note r = nth_join [OF a(3) [unfolded separated_keys_def] assms(8)] nth_join [OF a(2) assms(9)] nth_join [OF a(1) assms(10)]
  have e: "(cs_1 @ cs_2 @ cs_3 @ cs_4) ! lower_bound (separated_keys keys_1 keys_2 keys_3 keys_4) w
    = (if w \<le> 1 * 2 ^ 62 then cs_1 ! lower_bound keys_1 w
       else if w \<le> 2 * 2 ^ 62 then cs_2 ! lower_bound keys_2 w
       else if w \<le> 3 * 2 ^ 62 then cs_3 ! lower_bound keys_3 w
       else cs_4 ! lower_bound keys_4 w)" for w
    unfolding separated_keys_def by (simp only: r)
  obtain ts where "make_tables True (separated_keys keys_1 keys_2 keys_3 keys_4) = Some ts"
    "\<And>w. table_results ts w = {lower_bound (separated_keys keys_1 keys_2 keys_3 keys_4) w}"
    by (rule tables_made [OF a(3) f n]) blast
  then show ?thesis by (intro exI [of _ ts]) (simp only: match_table_def k image_insert image_empty e mult_1, simp)
qed

theorem match_table_routes_parts_witness:
  "\<exists>ts. match_table (keyinfo [2 ^ 60] [] [2 ^ 63 + 7] [15 * 2 ^ 60] ([10, 11] @ [20] @ [30, 31] @ [40, 41])) = Some ts
    \<and> (!) ([10, 11 :: 64 word] @ [20] @ [30, 31] @ [40, 41]) ` table_results ts (2 ^ 62 - 1) = {11}
    \<and> (!) ([10, 11 :: 64 word] @ [20] @ [30, 31] @ [40, 41]) ` table_results ts (2 ^ 62) = {11}
    \<and> (!) ([10, 11 :: 64 word] @ [20] @ [30, 31] @ [40, 41]) ` table_results ts (2 ^ 62 + 1) = {20}"
proof -
  have l: "lower_bound [2 ^ 60] (2 ^ 62 - 1 :: 64 word) = 1" "lower_bound [2 ^ 60] (2 ^ 62 :: 64 word) = 1"
    "lower_bound [] (2 ^ 62 + 1 :: 64 word) = 0" by code_simp+
  have h: "in_part 0 [2 ^ 60]" "in_part 1 []" "in_part 2 [2 ^ 63 + 7]" "in_part 3 [15 * 2 ^ 60]" "first_key_ok [2 ^ 60]"
    "no_glue True ([2 ^ 60] @ [] @ [2 ^ 63 + 7] @ [15 * 2 ^ 60])" "[15 * 2 ^ 60] \<noteq> ([] :: 64 word list)" by (simp_all add: in_part_def first_key_ok_def no_glue_def)
  obtain ts where m: "match_table (keyinfo [2 ^ 60] [] [2 ^ 63 + 7] [15 * 2 ^ 60] ([10, 11] @ [20] @ [30, 31] @ [40, 41])) = Some ts"
    and r: "\<forall>w. (!) ([10, 11] @ [20] @ [30, 31] @ [40, 41]) ` table_results ts w =
        {if w \<le> 2 ^ 62 then [10, 11 :: 64 word] ! lower_bound [2 ^ 60] w
         else if w \<le> 2 * 2 ^ 62 then [20] ! lower_bound [] w
         else if w \<le> 3 * 2 ^ 62 then [30, 31] ! lower_bound [2 ^ 63 + 7] w
         else [40, 41] ! lower_bound [15 * 2 ^ 60] w}"
    using match_table_routes_parts [OF h, of "[10, 11]" "[20]" "[30, 31]" "[40, 41]"] by auto
  show ?thesis
    using m r [rule_format, of "2 ^ 62 - 1"] r [rule_format, of "2 ^ 62"] r [rule_format, of "2 ^ 62 + 1"] l
    by (intro exI [of _ ts] conjI) simp_all
qed

end
