(* ===== verification/Ycsb_Util.thy ===== *)
theory Ycsb_Util
  imports Keys
begin

text \<open>
  What the workload driver shares: the helpers of core/utils.h, the conversions std::stoi and
  std::to_string, and the property files of core/properties.h. A property file is the list of
  its characters, \<open>None\<close> one that cannot be opened.
\<close>

section \<open>Errors\<close>

text \<open>utils::Exception, the standard exceptions, a failed assertion, and undefined behaviour.\<close>

datatype ycsb_error = Exception string | Invalid_argument | Out_of_range | Assertion_failed | Undefined_behaviour

section \<open>utils.h\<close>

definition tolower :: "char \<Rightarrow> char" where
  "tolower c = (let n = of_char c in if 65 \<le> n \<and> n \<le> (90 :: nat) then char_of (n + 32) else c)"

definition StrToBool :: "string \<Rightarrow> ycsb_error + bool" where
  "StrToBool str =
     (let str = map tolower str in
      if str = ''true'' \<or> str = ''1'' then Inr True
      else if str = ''false'' \<or> str = ''0'' then Inr False
      else Inl (Exception (''Invalid bool string: '' @ str)))"

definition Trim :: "string \<Rightarrow> string" where
  "Trim str = (let front = dropWhile is_space str in rev (dropWhile is_space (rev front)))"

text \<open>\<open>RandomPrintChar\<close> for the next value of \<open>rand()\<close>.\<close>

definition RandomPrintChar :: "nat \<Rightarrow> char" where
  "RandomPrintChar r = char_of (r mod 94 + 33)"

section \<open>Numbers\<close>

text \<open>std::stoi: white space, a sign, digits; what follows is left.\<close>

definition stoi :: "string \<Rightarrow> ycsb_error + int" where
  "stoi s =
     (let (neg, s) = scan_sign (dropWhile is_space s); ds = takeWhile is_digit s;
          v = (if neg then - int (dec_val 0 ds) else int (dec_val 0 ds))
      in if ds = [] then Inl Invalid_argument
         else if v < - (2 ^ 31) \<or> 2 ^ 31 \<le> v then Inl Out_of_range
         else Inr v)"

section \<open>properties.h\<close>

type_synonym properties = "string \<rightharpoonup> string"

definition GetProperty :: "properties \<Rightarrow> string \<Rightarrow> string \<Rightarrow> string" where
  "GetProperty p key default_value = (case p key of None \<Rightarrow> default_value | Some v \<Rightarrow> v)"

text \<open>\<open>operator[]\<close>, which throws \<open>std::out_of_range\<close>.\<close>

definition property_at :: "properties \<Rightarrow> string \<Rightarrow> ycsb_error + string" where
  "property_at p key = (case p key of None \<Rightarrow> Inl Out_of_range | Some v \<Rightarrow> Inr v)"

definition SetProperty :: "string \<Rightarrow> string \<Rightarrow> properties \<Rightarrow> properties" where
  "SetProperty key value p = p(key \<mapsto> value)"

definition newline :: char where
  "newline = CHR 0x0A"

text \<open>std::getline: the line, the rest of the file, and whether the end of the file was met.\<close>

definition getline :: "string \<Rightarrow> string \<times> string \<times> bool" where
  "getline s = (let rest = dropWhile (\<lambda>c. c \<noteq> newline) s
     in (takeWhile (\<lambda>c. c \<noteq> newline) s, tl rest, rest = []))"

definition load_line :: "string \<Rightarrow> properties \<Rightarrow> properties" where
  "load_line line p =
     (if line \<noteq> [] \<and> hd line = CHR ''#'' then p
      else if CHR ''='' \<notin> set line then p
      else (let key = takeWhile (\<lambda>c. c \<noteq> CHR ''='') line; value = tl (dropWhile (\<lambda>c. c \<noteq> CHR ''='') line)
            in SetProperty (Trim key) (Trim value) p))"

function load_lines :: "string \<Rightarrow> properties \<Rightarrow> properties" where
  "load_lines s p = (let (line, rest, eof) = getline s; p = load_line line p
     in if eof then p else load_lines rest p)"
  by pat_completeness auto

lemma getline_shorter: "newline \<in> set s \<Longrightarrow> length (dropWhile (\<lambda>c. c \<noteq> newline) s) - Suc 0 < length s"
  using length_dropWhile_le [of "\<lambda>c. c \<noteq> newline" s] by (cases s) (auto simp: Suc_le_eq)

termination load_lines
  by (relation "measure (\<lambda>(s, _). length s)") (auto simp: getline_def Let_def intro: getline_shorter)

declare load_lines.simps [simp del]

definition Load :: "string option \<Rightarrow> properties \<Rightarrow> ycsb_error + properties" where
  "Load input p = (case input of None \<Rightarrow> Inl (Exception ''File not open!'') | Some s \<Rightarrow> Inr (load_lines s p))"

section \<open>Trimmed strings\<close>

definition trimmed :: "string \<Rightarrow> bool" where
  "trimmed s \<longleftrightarrow> s = [] \<or> \<not> is_space (hd s) \<and> \<not> is_space (last s)"

lemma Trim_id: "trimmed s \<Longrightarrow> Trim s = s"
proof -
  assume t: "trimmed s"
  have "dropWhile is_space s = s" using t by (cases s) (simp_all add: trimmed_def)
  moreover have "dropWhile is_space (rev s) = rev s"
    using t by (cases s rule: rev_cases) (simp_all add: trimmed_def)
  ultimately show ?thesis by (simp add: Trim_def)
qed

lemma Trim_trimmed: "trimmed (Trim s)"
proof -
  define f where "f = dropWhile is_space s"
  define b where "b = dropWhile is_space (rev f)"
  have f: "f = [] \<or> \<not> is_space (hd f)" using hd_dropWhile [of is_space s] unfolding f_def by blast
  have b: "b = [] \<or> \<not> is_space (hd b)" using hd_dropWhile [of is_space "rev f"] unfolding b_def by blast
  have "hd (rev b) = hd f" if "b \<noteq> []"
  proof -
    have "rev f = takeWhile is_space (rev f) @ b" by (simp add: b_def)
    then have "f = rev b @ rev (takeWhile is_space (rev f))" by (metis rev_append rev_rev_ident)
    then show ?thesis using that by (metis hd_append2 rev_is_Nil_conv)
  qed
  moreover have "b \<noteq> [] \<Longrightarrow> f \<noteq> []" by (auto simp: b_def)
  ultimately have "b = [] \<or> \<not> is_space (hd (rev b)) \<and> \<not> is_space (last (rev b))"
    using f b by (auto simp: last_rev)
  then show ?thesis by (simp add: Trim_def Let_def trimmed_def f_def [symmetric] b_def [symmetric])
qed

section \<open>Property files\<close>

text \<open>How a property is written into a file.\<close>

definition property_line :: "string \<times> string \<Rightarrow> string" where
  "property_line kv = fst kv @ ''='' @ snd kv @ [newline]"

definition writable :: "string \<times> string \<Rightarrow> bool" where
  "writable kv \<longleftrightarrow> trimmed (fst kv) \<and> trimmed (snd kv) \<and> newline \<notin> set (fst kv) \<and> newline \<notin> set (snd kv)
     \<and> CHR ''='' \<notin> set (fst kv) \<and> (fst kv = [] \<or> hd (fst kv) \<noteq> CHR ''#'')"

lemma load_line_property: "writable (k, v) \<Longrightarrow> load_line (k @ ''='' @ v) p = p(k \<mapsto> v)"
proof -
  assume w: "writable (k, v)"
  have "takeWhile (\<lambda>c. c \<noteq> CHR ''='') (k @ ''='' @ v) = k" "dropWhile (\<lambda>c. c \<noteq> CHR ''='') (k @ ''='' @ v) = ''='' @ v"
    using w by (auto simp: writable_def takeWhile_append dropWhile_append)
  moreover have "hd (k @ ''='' @ v) \<noteq> CHR ''#''" using w by (cases k) (simp_all add: writable_def)
  ultimately show ?thesis using w by (simp add: load_line_def SetProperty_def writable_def Trim_id)
qed

lemma getline_line:
  assumes "newline \<notin> set l"
  shows "getline (l @ newline # rest) = (l, rest, False)"
proof -
  have "takeWhile (\<lambda>c. c \<noteq> newline) (l @ newline # rest) = l" "dropWhile (\<lambda>c. c \<noteq> newline) (l @ newline # rest) = newline # rest"
    using assms by (auto simp: takeWhile_append dropWhile_append)
  then show ?thesis by (simp add: getline_def)
qed

lemma load_properties:
  "\<forall>kv \<in> set kvs. writable kv \<Longrightarrow> load_lines (concat (map property_line kvs)) p = p ++ map_of (rev kvs)"
proof (induction kvs arbitrary: p)
  case Nil
  then show ?case by (subst load_lines.simps) (simp add: getline_def load_line_def)
next
  case (Cons kv kvs)
  obtain k v where kv: "kv = (k, v)" by (cases kv)
  have w: "writable (k, v)" using Cons.prems kv by simp
  then have "newline \<notin> set (k @ ''='' @ v)" by (auto simp: writable_def newline_def)
  then have "getline (concat (map property_line (kv # kvs))) = (k @ ''='' @ v, concat (map property_line kvs), False)"
    using getline_line [of "k @ ''='' @ v"] by (simp add: property_line_def kv)
  then have "load_lines (concat (map property_line (kv # kvs))) p = load_lines (concat (map property_line kvs)) (p(k \<mapsto> v))"
    using load_line_property [OF w] by (subst load_lines.simps) simp
  then show ?case using Cons kv by (auto simp: map_add_def split: option.split)
qed

section \<open>Numbers in properties\<close>

lemma stoi_to_string: "n < 2 ^ 31 \<Longrightarrow> stoi (to_string n) = Inr (int n)"
proof -
  assume n: "n < 2 ^ 31"
  have ds: "list_all is_digit (to_string n)" by (rule to_string_digits)
  then obtain c cs where c: "to_string n = c # cs" "is_digit c" using to_string_ne [of n] by (cases "to_string n") auto
  then have "\<not> is_space c" "c \<noteq> CHR ''-''" "c \<noteq> CHR ''+''" by (auto simp: is_digit_def is_space_def)
  then have "scan_sign (dropWhile is_space (to_string n)) = (False, to_string n)" by (simp add: c(1) scan_sign_def)
  moreover have "takeWhile is_digit (to_string n) = to_string n" using ds by (simp add: list_all_iff)
  ultimately show ?thesis
    using n unfolding stoi_def by (simp only: Let_def prod.case) (simp add: dec_val_to_string to_string_ne)
qed

text \<open>
  A file with one line for each property, written as the key, an equals sign and the value,
  is read back: the properties are set in the order of the lines.
\<close>

theorem load_written_properties:
  assumes "\<forall>kv \<in> set kvs. writable kv"
  shows "Load (Some (concat (map property_line kvs))) p = Inr (p ++ map_of (rev kvs))"
  using load_properties [OF assms] by (simp add: Load_def)

theorem load_written_properties_witness:
  "Load (Some (''recordcount=1000'' @ [newline] @ ''table=a b'' @ [newline])) Map.empty
    = Inr [''recordcount'' \<mapsto> ''1000'', ''table'' \<mapsto> ''a b'']"
proof -
  let ?kvs = "[(''recordcount'', ''1000''), (''table'', ''a b'')]"
  have "\<forall>kv \<in> set ?kvs. writable kv" by (simp add: writable_def trimmed_def is_space_def newline_def)
  from load_written_properties [OF this, of Map.empty] show ?thesis by (simp add: property_line_def fun_upd_twist)
qed

end
