(* ===== verification/Ycsb_Generator.thy ===== *)
theory Ycsb_Generator
  imports Ycsb_Util
begin

text \<open>
  The number generators of the workload, core/*_generator.h. Floating-point arithmetic and the
  random engines of the standard library are parameters: \<open>stdlib\<close> holds the operations on
  \<open>double\<close> and the values the engines produce, the \<open>n\<close>-th value of an engine as a function
  of \<open>n\<close>. Numbers are 64-bit words, and what has been drawn from the shared engines is in
  \<open>draws\<close>.
\<close>

section \<open>Parameters\<close>

text \<open>
  \<open>to_u64\<close> and \<open>to_int\<close> are conversions of a double to an integer type (\<open>None\<close>: not representable), \<open>stod\<close> is std::stod;
  \<open>uniform lo hi n\<close> is the \<open>n\<close>-th value of a uniform distribution on a new mt19937_64,
  \<open>random_double n\<close> the \<open>n\<close>-th value of \<open>utils::RandomDouble\<close>, and \<open>c_rand n\<close> that of \<open>rand()\<close>.
\<close>

record 'd stdlib =
  lit :: "rat \<Rightarrow> 'd"
  of_u64 :: "64 word \<Rightarrow> 'd"
  of_int32 :: "int \<Rightarrow> 'd"
  fadd :: "'d \<Rightarrow> 'd \<Rightarrow> 'd"
  fsub :: "'d \<Rightarrow> 'd \<Rightarrow> 'd"
  fmul :: "'d \<Rightarrow> 'd \<Rightarrow> 'd"
  fdiv :: "'d \<Rightarrow> 'd \<Rightarrow> 'd"
  pow :: "'d \<Rightarrow> 'd \<Rightarrow> 'd"
  fless :: "'d \<Rightarrow> 'd \<Rightarrow> bool"
  to_u64 :: "'d \<Rightarrow> 64 word option"
  to_int :: "'d \<Rightarrow> int option"
  stod :: "string \<Rightarrow> ycsb_error + 'd"
  random_double :: "nat \<Rightarrow> 'd"
  uniform :: "64 word \<Rightarrow> 64 word \<Rightarrow> nat \<Rightarrow> 64 word"
  c_rand :: "nat \<Rightarrow> nat"

record draws =
  nb_doubles :: nat
  nb_rands :: nat

definition RandomDouble :: "'d stdlib \<Rightarrow> draws \<Rightarrow> 'd \<times> draws" where
  "RandomDouble L w = (random_double L (nb_doubles w), w\<lparr>nb_doubles := nb_doubles w + 1\<rparr>)"

section \<open>ZipfianGenerator\<close>

record 'd zipfian =
  z_num_items :: "64 word"
  z_base :: "64 word"
  z_theta :: 'd
  z_zeta_n :: 'd
  z_eta :: 'd
  z_alpha :: 'd
  z_zeta_2 :: 'd
  z_n_for_zeta :: "64 word"
  z_last :: "64 word"

definition kZipfianConst :: "'d stdlib \<Rightarrow> 'd" where
  "kZipfianConst L = lit L (98 / 100)"

definition kMaxNumItems :: "64 word" where
  "kMaxNumItems = drop_bit 24 (- 1)"

text \<open>\<open>for (i = last_num + 1; i <= cur_num; ++i) zeta += 1 / pow(i, theta)\<close>, and \<open>Zeta\<close>.\<close>

fun zeta_loop :: "'d stdlib \<Rightarrow> 'd \<Rightarrow> nat \<Rightarrow> nat \<Rightarrow> 'd \<Rightarrow> 'd" where
  "zeta_loop L theta i 0 zeta = zeta"
| "zeta_loop L theta i (Suc n) zeta =
     zeta_loop L theta (i + 1) n (fadd L zeta (fdiv L (lit L 1) (pow L (of_u64 L (of_nat i)) theta)))"

definition Zeta :: "'d stdlib \<Rightarrow> 64 word \<Rightarrow> 64 word \<Rightarrow> 'd \<Rightarrow> 'd \<Rightarrow> 'd" where
  "Zeta L last_num cur_num theta last_zeta =
     zeta_loop L theta (unat last_num + 1) (unat cur_num - unat last_num) last_zeta"

definition RaiseZeta :: "'d stdlib \<Rightarrow> 64 word \<Rightarrow> 'd zipfian \<Rightarrow> ycsb_error + 'd zipfian" where
  "RaiseZeta L num z = (if num < z_n_for_zeta z then Inl Assertion_failed
     else Inr (z\<lparr>z_zeta_n := Zeta L (z_n_for_zeta z) num (z_theta z) (z_zeta_n z), z_n_for_zeta := num\<rparr>))"

definition Eta :: "'d stdlib \<Rightarrow> 'd zipfian \<Rightarrow> 'd" where
  "Eta L z = fdiv L
     (fsub L (lit L 1) (pow L (fdiv L (lit L 2) (of_u64 L (z_num_items z))) (fsub L (lit L 1) (z_theta z))))
     (fsub L (lit L 1) (fdiv L (z_zeta_2 z) (z_zeta_n z)))"

definition zipfian_next :: "'d stdlib \<Rightarrow> 64 word \<Rightarrow> 'd zipfian \<Rightarrow> draws \<Rightarrow> ycsb_error + (64 word \<times> 'd zipfian \<times> draws)" where
  "zipfian_next L num z w =
     (if num < 2 \<or> kMaxNumItems \<le> num then Inl Assertion_failed
      else ok (if z_n_for_zeta z < num then ok (RaiseZeta L num z) (\<lambda>z. Inr (z\<lparr>z_eta := Eta L z\<rparr>)) else Inr z) (\<lambda>z.
        let (u, w) = RandomDouble L w; uz = fmul L u (z_zeta_n z) in
        if fless L uz (lit L 1) then Inr (0, z\<lparr>z_last := 0\<rparr>, w)
        else if fless L uz (fadd L (lit L 1) (pow L (lit L (1 / 2)) (z_theta z))) then Inr (1, z\<lparr>z_last := 1\<rparr>, w)
        else (case to_u64 L (fadd L (of_u64 L (z_base z)) (fmul L (of_u64 L num)
                (pow L (fadd L (fsub L (fmul L (z_eta z) u) (z_eta z)) (lit L 1)) (z_alpha z)))) of
            None \<Rightarrow> Inl Undefined_behaviour
          | Some v \<Rightarrow> Inr (v, z\<lparr>z_last := v\<rparr>, w))))"

definition new_zipfian :: "'d stdlib \<Rightarrow> 64 word \<Rightarrow> 64 word \<Rightarrow> 'd \<Rightarrow> draws \<Rightarrow> ycsb_error + ('d zipfian \<times> draws)" where
  "new_zipfian L lo hi zipfian_const w =
     (let num = hi - lo + 1 in
      if num < 2 \<or> kMaxNumItems \<le> num then Inl Assertion_failed
      else (let z = \<lparr>z_num_items = num, z_base = lo, z_theta = zipfian_const, z_zeta_n = lit L 0, z_eta = lit L 0,
              z_alpha = fdiv L (lit L 1) (fsub L (lit L 1) zipfian_const), z_zeta_2 = Zeta L 0 2 zipfian_const (lit L 0),
              z_n_for_zeta = 0, z_last = 0\<rparr> in
        ok (RaiseZeta L num z) (\<lambda>z. let z = z\<lparr>z_eta := Eta L z\<rparr> in
        ok (zipfian_next L num z w) (\<lambda>(_, z, w). Inr (z, w)))))"

section \<open>The generators\<close>

text \<open>
  A uniform generator has its own engine, of which \<open>drawn\<close> values are taken; a skewed latest
  generator refers to the counter of the workload, \<open>basis\<close>.
\<close>

datatype 'd generator =
    ConstGenerator "64 word"
  | CounterGenerator "64 word"
  | UniformGenerator (lo: "64 word") (hi: "64 word") (drawn: nat) (last_int: "64 word")
  | ZipfianGenerator "'d zipfian"
  | ScrambledZipfianGenerator "64 word" "64 word" "'d zipfian"
  | SkewedLatestGenerator "'d zipfian" "64 word"

definition Scramble :: "64 word \<Rightarrow> 64 word \<Rightarrow> 64 word \<Rightarrow> 64 word" where
  "Scramble base num_items v = base + FNVHash64 v mod num_items"

text \<open>\<open>CounterGenerator::Last\<close>\<close>

definition counter_last :: "64 word \<Rightarrow> 64 word" where
  "counter_last counter = counter - 1"

definition uniform_next :: "'d stdlib \<Rightarrow> 64 word \<Rightarrow> 64 word \<Rightarrow> nat \<Rightarrow> 64 word \<times> 'd generator" where
  "uniform_next L l h n = (let v = uniform L l h n in (v, UniformGenerator l h (n + 1) v))"

definition scrambled_next :: "'d stdlib \<Rightarrow> 64 word \<Rightarrow> 64 word \<Rightarrow> 'd zipfian \<Rightarrow> draws
    \<Rightarrow> ycsb_error + (64 word \<times> 'd generator \<times> draws)" where
  "scrambled_next L b n z w = ok (zipfian_next L (z_num_items z) z w)
     (\<lambda>(v, z, w). Inr (Scramble b n v, ScrambledZipfianGenerator b n z, w))"

definition latest_next :: "'d stdlib \<Rightarrow> 64 word \<Rightarrow> 'd zipfian \<Rightarrow> draws \<Rightarrow> ycsb_error + (64 word \<times> 'd generator \<times> draws)" where
  "latest_next L basis z w = (let m = counter_last basis in
     ok (zipfian_next L m z w) (\<lambda>(v, z, w). Inr (m - v, SkewedLatestGenerator z (m - v), w)))"

text \<open>\<open>CounterGenerator::Next\<close>, \<open>fetch_add\<close>\<close>

definition counter_next :: "64 word \<Rightarrow> 64 word \<times> 64 word" where
  "counter_next counter = (counter, counter + 1)"

text \<open>The virtual function \<open>Generator::Next\<close>\<close>

fun gen_next :: "'d stdlib \<Rightarrow> 64 word \<Rightarrow> 'd generator \<Rightarrow> draws \<Rightarrow> ycsb_error + (64 word \<times> 'd generator \<times> draws)" where
  "gen_next L basis (ConstGenerator constant) w = Inr (constant, ConstGenerator constant, w)"
| "gen_next L basis (CounterGenerator counter) w = (let (v, counter) = counter_next counter in Inr (v, CounterGenerator counter, w))"
| "gen_next L basis (UniformGenerator l h n lst) w = (let (v, g) = uniform_next L l h n in Inr (v, g, w))"
| "gen_next L basis (ZipfianGenerator z) w =
     ok (zipfian_next L (z_num_items z) z w) (\<lambda>(v, z, w). Inr (v, ZipfianGenerator z, w))"
| "gen_next L basis (ScrambledZipfianGenerator b n z) w = scrambled_next L b n z w"
| "gen_next L basis (SkewedLatestGenerator z lst) w = latest_next L basis z w"

text \<open>\<open>Last\<close>\<close>

fun gen_last :: "'d generator \<Rightarrow> 64 word" where
  "gen_last (ConstGenerator constant) = constant"
| "gen_last (CounterGenerator counter) = counter_last counter"
| "gen_last (UniformGenerator l h n lst) = lst"
| "gen_last (ZipfianGenerator z) = z_last z"
| "gen_last (ScrambledZipfianGenerator b n z) = Scramble b n (z_last z)"
| "gen_last (SkewedLatestGenerator z lst) = lst"

text \<open>The constructors; a uniform distribution needs ordered bounds.\<close>

definition new_uniform :: "'d stdlib \<Rightarrow> 64 word \<Rightarrow> 64 word \<Rightarrow> ycsb_error + 'd generator" where
  "new_uniform L l h = (if h < l then Inl Undefined_behaviour else Inr (UniformGenerator l h 1 (uniform L l h 0)))"

definition new_scrambled :: "'d stdlib \<Rightarrow> 64 word \<Rightarrow> draws \<Rightarrow> ycsb_error + ('d generator \<times> draws)" where
  "new_scrambled L num_items w = ok (new_zipfian L 0 (num_items - 1) (kZipfianConst L) w)
     (\<lambda>(z, w). Inr (ScrambledZipfianGenerator 0 (num_items - 1 - 0 + 1) z, w))"

definition new_latest :: "'d stdlib \<Rightarrow> 64 word \<Rightarrow> draws \<Rightarrow> ycsb_error + ('d generator \<times> draws)" where
  "new_latest L counter w =
     (let m = counter_last counter in
      ok (new_zipfian L 0 (m - 1) (kZipfianConst L) w) (\<lambda>(z, w).
      ok (gen_next L counter (SkewedLatestGenerator z 0) w) (\<lambda>(_, g, w). Inr (g, w))))"

section \<open>DiscreteGenerator\<close>

record ('a, 'd) discrete =
  weighted :: "('a \<times> 'd) list"
  weight_sum :: 'd
  d_last :: "'a option"

definition new_discrete :: "'d stdlib \<Rightarrow> ('a, 'd) discrete" where
  "new_discrete L = \<lparr>weighted = [], weight_sum = lit L 0, d_last = None\<rparr>"

definition AddValue :: "'d stdlib \<Rightarrow> 'a \<Rightarrow> 'd \<Rightarrow> ('a, 'd) discrete \<Rightarrow> ('a, 'd) discrete" where
  "AddValue L v weight g = g\<lparr>d_last := (if weighted g = [] then Some v else d_last g),
     weighted := weighted g @ [(v, weight)], weight_sum := fadd L (weight_sum g) weight\<rparr>"

fun choose_value :: "'d stdlib \<Rightarrow> 'd \<Rightarrow> ('a \<times> 'd) list \<Rightarrow> 'd \<Rightarrow> ycsb_error + 'a" where
  "choose_value L sm [] chooser = Inl Assertion_failed"
| "choose_value L sm ((v, weight) # ps) chooser = (if fless L chooser (fdiv L weight sm) then Inr v
     else choose_value L sm ps (fsub L chooser (fdiv L weight sm)))"

definition discrete_next :: "'d stdlib \<Rightarrow> ('a, 'd) discrete \<Rightarrow> draws \<Rightarrow> ycsb_error + ('a \<times> ('a, 'd) discrete \<times> draws)" where
  "discrete_next L g w = (let (chooser, w) = RandomDouble L w in
     ok (choose_value L (weight_sum g) (weighted g) chooser) (\<lambda>v. Inr (v, g\<lparr>d_last := Some v\<rparr>, w)))"

end
