(* ===== verification/Ycsb_Workload.thy ===== *)
theory Ycsb_Workload
  imports Ycsb_Generator
begin

text \<open>
  core/core_workload.h and core_workload.cc: the properties of a workload, its initialisation,
  and the keys, fields, values and operations it produces. The generators a workload owns and
  the counter \<open>insert_key_sequence_\<close> are parts of its state.
\<close>

section \<open>Properties and their defaults\<close>

definition TABLENAME :: "string \<times> string" where "TABLENAME = (''table'', ''usertable'')"
definition FIELD_COUNT :: "string \<times> string" where "FIELD_COUNT = (''fieldcount'', ''10'')"
definition FIELD_LENGTH_DISTRIBUTION :: "string \<times> string" where
  "FIELD_LENGTH_DISTRIBUTION = (''field_len_dist'', ''constant'')"
definition FIELD_LENGTH :: "string \<times> string" where "FIELD_LENGTH = (''fieldlength'', ''100'')"
definition READ_ALL_FIELDS :: "string \<times> string" where "READ_ALL_FIELDS = (''readallfields'', ''true'')"
definition WRITE_ALL_FIELDS :: "string \<times> string" where "WRITE_ALL_FIELDS = (''writeallfields'', ''false'')"
definition READ_PROPORTION :: "string \<times> string" where "READ_PROPORTION = (''readproportion'', ''0.95'')"
definition UPDATE_PROPORTION :: "string \<times> string" where "UPDATE_PROPORTION = (''updateproportion'', ''0.05'')"
definition INSERT_PROPORTION :: "string \<times> string" where "INSERT_PROPORTION = (''insertproportion'', ''0.0'')"
definition SCAN_PROPORTION :: "string \<times> string" where "SCAN_PROPORTION = (''scanproportion'', ''0.0'')"
definition READMODIFYWRITE_PROPORTION :: "string \<times> string" where
  "READMODIFYWRITE_PROPORTION = (''readmodifywriteproportion'', ''0.0'')"
definition REQUEST_DISTRIBUTION :: "string \<times> string" where
  "REQUEST_DISTRIBUTION = (''requestdistribution'', ''uniform'')"
definition ZERO_PADDING :: "string \<times> string" where "ZERO_PADDING = (''zeropadding'', ''1'')"
definition MAX_SCAN_LENGTH :: "string \<times> string" where "MAX_SCAN_LENGTH = (''maxscanlength'', ''1000'')"
definition SCAN_LENGTH_DISTRIBUTION :: "string \<times> string" where
  "SCAN_LENGTH_DISTRIBUTION = (''scanlengthdistribution'', ''uniform'')"
definition INSERT_ORDER :: "string \<times> string" where "INSERT_ORDER = (''insertorder'', ''hashed'')"
definition INSERT_START :: "string \<times> string" where "INSERT_START = (''insertstart'', ''0'')"
definition RECORD_COUNT :: string where "RECORD_COUNT = ''recordcount''"
definition OPERATION_COUNT :: string where "OPERATION_COUNT = ''operationcount''"

definition property :: "properties \<Rightarrow> string \<times> string \<Rightarrow> string" where
  "property p kd = GetProperty p (fst kd) (snd kd)"

section \<open>State\<close>

datatype operation = INSERT | READ | UPDATE | SCAN | READMODIFYWRITE

record 'd workload =
  table_name :: string
  field_count :: int
  read_all_fields :: bool
  write_all_fields :: bool
  field_len_generator :: "'d generator"
  key_generator :: "64 word"
  op_chooser :: "(operation, 'd) discrete"
  key_chooser :: "'d generator"
  field_chooser :: "'d generator"
  scan_len_chooser :: "'d generator"
  insert_key_sequence :: "64 word"
  ordered_inserts :: bool
  record_count :: "64 word"
  zero_padding :: int
  drawn_values :: draws

text \<open>The next value of an owned generator.\<close>

definition draw_field_len :: "'d stdlib \<Rightarrow> 'd workload \<Rightarrow> ycsb_error + (64 word \<times> 'd workload)" where
  "draw_field_len L wl = ok (gen_next L (insert_key_sequence wl) (field_len_generator wl) (drawn_values wl))
     (\<lambda>(v, g, w). Inr (v, wl\<lparr>field_len_generator := g, drawn_values := w\<rparr>))"

definition draw_key :: "'d stdlib \<Rightarrow> 'd workload \<Rightarrow> ycsb_error + (64 word \<times> 'd workload)" where
  "draw_key L wl = ok (gen_next L (insert_key_sequence wl) (key_chooser wl) (drawn_values wl))
     (\<lambda>(v, g, w). Inr (v, wl\<lparr>key_chooser := g, drawn_values := w\<rparr>))"

definition draw_field :: "'d stdlib \<Rightarrow> 'd workload \<Rightarrow> ycsb_error + (64 word \<times> 'd workload)" where
  "draw_field L wl = ok (gen_next L (insert_key_sequence wl) (field_chooser wl) (drawn_values wl))
     (\<lambda>(v, g, w). Inr (v, wl\<lparr>field_chooser := g, drawn_values := w\<rparr>))"

section \<open>Keys, fields and operations\<close>

definition NextSequenceKey :: "'d workload \<Rightarrow> string \<times> 'd workload" where
  "NextSequenceKey wl = (let (key_num, counter) = counter_next (key_generator wl)
     in (BuildKeyName (ordered_inserts wl) (zero_padding wl) key_num, wl\<lparr>key_generator := counter\<rparr>))"

text \<open>The loop draws until the number is not beyond the last inserted one; \<open>None\<close>: it never ends.\<close>

partial_function (option) next_key_num :: "'d stdlib \<Rightarrow> 'd workload \<Rightarrow> (ycsb_error + (64 word \<times> 'd workload)) option" where
  "next_key_num L wl = (case draw_key L wl of Inl e \<Rightarrow> Some (Inl e)
     | Inr (key_num, wl) \<Rightarrow> if counter_last (insert_key_sequence wl) < key_num then next_key_num L wl
         else Some (Inr (key_num, wl)))"

definition NextTransactionKey :: "'d stdlib \<Rightarrow> 'd workload \<Rightarrow> (ycsb_error + (string \<times> 'd workload)) option" where
  "NextTransactionKey L wl = map_option (\<lambda>r. ok r (\<lambda>(key_num, wl).
     Inr (BuildKeyName (ordered_inserts wl) (zero_padding wl) key_num, wl))) (next_key_num L wl)"

definition NextOperation :: "'d stdlib \<Rightarrow> 'd workload \<Rightarrow> ycsb_error + (operation \<times> 'd workload)" where
  "NextOperation L wl = ok (discrete_next L (op_chooser wl) (drawn_values wl))
     (\<lambda>(c, g, w). Inr (c, wl\<lparr>op_chooser := g, drawn_values := w\<rparr>))"

definition NextFieldName :: "'d stdlib \<Rightarrow> 'd workload \<Rightarrow> ycsb_error + (string \<times> 'd workload)" where
  "NextFieldName L wl = ok (draw_field L wl) (\<lambda>(v, wl). Inr (''field'' @ to_string (unat v), wl))"

definition NextScanLength :: "'d stdlib \<Rightarrow> 'd workload \<Rightarrow> ycsb_error + (64 word \<times> 'd workload)" where
  "NextScanLength L wl = ok (gen_next L (insert_key_sequence wl) (scan_len_chooser wl) (drawn_values wl))
     (\<lambda>(v, g, w). Inr (v, wl\<lparr>scan_len_chooser := g, drawn_values := w\<rparr>))"

section \<open>Values\<close>

text \<open>\<open>append(field_len_generator_->Next(), utils::RandomPrintChar())\<close>\<close>

definition next_value :: "'d stdlib \<Rightarrow> 'd workload \<Rightarrow> ycsb_error + (string \<times> 'd workload)" where
  "next_value L wl = ok (draw_field_len L wl) (\<lambda>(n, wl).
     let w = drawn_values wl; c = RandomPrintChar (c_rand L (nb_rands w))
     in Inr (replicate (unat n) c, wl\<lparr>drawn_values := w\<lparr>nb_rands := nb_rands w + 1\<rparr>\<rparr>))"

fun build_values :: "'d stdlib \<Rightarrow> nat \<Rightarrow> nat \<Rightarrow> 'd workload \<Rightarrow> ycsb_error + (fields \<times> 'd workload)" where
  "build_values L i 0 wl = Inr ([], wl)"
| "build_values L i (Suc n) wl = ok (next_value L wl) (\<lambda>(v, wl).
     ok (build_values L (i + 1) n wl) (\<lambda>(pairs, wl). Inr ((''field'' @ to_string i, v) # pairs, wl)))"

definition BuildValues :: "'d stdlib \<Rightarrow> 'd workload \<Rightarrow> ycsb_error + (fields \<times> 'd workload)" where
  "BuildValues L wl = build_values L 0 (nat (field_count wl)) wl"

definition BuildUpdate :: "'d stdlib \<Rightarrow> 'd workload \<Rightarrow> ycsb_error + (fields \<times> 'd workload)" where
  "BuildUpdate L wl = ok (NextFieldName L wl) (\<lambda>(name, wl).
     ok (next_value L wl) (\<lambda>(v, wl). Inr ([(name, v)], wl)))"

section \<open>Initialisation\<close>

definition GetFieldLenGenerator :: "'d stdlib \<Rightarrow> properties \<Rightarrow> draws \<Rightarrow> ycsb_error + ('d generator \<times> draws)" where
  "GetFieldLenGenerator L p w =
     (let field_len_dist = property p FIELD_LENGTH_DISTRIBUTION in
      ok (stoi (property p FIELD_LENGTH)) (\<lambda>field_len.
      if field_len_dist = ''constant'' then Inr (ConstGenerator (word_of_int field_len), w)
      else if field_len_dist = ''uniform'' then ok (new_uniform L 1 (word_of_int field_len)) (\<lambda>g. Inr (g, w))
      else if field_len_dist = ''zipfian'' then
        ok (new_zipfian L 1 (word_of_int field_len) (kZipfianConst L) w) (\<lambda>(z, w). Inr (ZipfianGenerator z, w))
      else Inl (Exception (''Unknown field length distribution: '' @ field_len_dist))))"

text \<open>\<open>if (proportion > 0) op_chooser_.AddValue(operation, proportion)\<close>\<close>

definition add_operation :: "'d stdlib \<Rightarrow> operation \<Rightarrow> 'd \<Rightarrow> (operation, 'd) discrete \<Rightarrow> (operation, 'd) discrete" where
  "add_operation L c proportion g = (if fless L (lit L 0) proportion then AddValue L c proportion g else g)"

definition make_key_chooser :: "'d stdlib \<Rightarrow> properties \<Rightarrow> 'd \<Rightarrow> 64 word \<Rightarrow> draws \<Rightarrow> ycsb_error + ('d generator \<times> draws)" where
  "make_key_chooser L p insert_proportion records w =
     (let request_dist = property p REQUEST_DISTRIBUTION in
      if request_dist = ''uniform'' then ok (new_uniform L 0 (records - 1)) (\<lambda>g. Inr (g, w))
      else if request_dist = ''zipfian'' then
        ok (stoi (GetProperty p OPERATION_COUNT [])) (\<lambda>op_count.
        (case to_int L (fmul L (fmul L (of_int32 L op_count) insert_proportion) (lit L 2)) of
           None \<Rightarrow> Inl Undefined_behaviour
         | Some new_keys \<Rightarrow> new_scrambled L (records + word_of_int new_keys) w))
      else if request_dist = ''latest'' then new_latest L records w
      else Inl (Exception (''Unknown request distribution: '' @ request_dist)))"

definition make_scan_len_chooser :: "'d stdlib \<Rightarrow> properties \<Rightarrow> int \<Rightarrow> draws \<Rightarrow> ycsb_error + ('d generator \<times> draws)" where
  "make_scan_len_chooser L p max_scan_len w =
     (let scan_len_dist = property p SCAN_LENGTH_DISTRIBUTION in
      if scan_len_dist = ''uniform'' then ok (new_uniform L 1 (word_of_int max_scan_len)) (\<lambda>g. Inr (g, w))
      else if scan_len_dist = ''zipfian'' then
        ok (new_zipfian L 1 (word_of_int max_scan_len) (kZipfianConst L) w) (\<lambda>(z, w). Inr (ZipfianGenerator z, w))
      else Inl (Exception (''Distribution not allowed for scan length: '' @ scan_len_dist)))"

definition workload_init :: "'d stdlib \<Rightarrow> properties \<Rightarrow> draws \<Rightarrow> ycsb_error + 'd workload" where
  "workload_init L p w =
     ok (stoi (property p FIELD_COUNT)) (\<lambda>fields_n.
     ok (GetFieldLenGenerator L p w) (\<lambda>(len_gen, w).
     ok (stod L (property p READ_PROPORTION)) (\<lambda>read_proportion.
     ok (stod L (property p UPDATE_PROPORTION)) (\<lambda>update_proportion.
     ok (stod L (property p INSERT_PROPORTION)) (\<lambda>insert_proportion.
     ok (stod L (property p SCAN_PROPORTION)) (\<lambda>scan_proportion.
     ok (stod L (property p READMODIFYWRITE_PROPORTION)) (\<lambda>readmodifywrite_proportion.
     ok (stoi (GetProperty p RECORD_COUNT [])) (\<lambda>records.
     ok (stoi (property p ZERO_PADDING)) (\<lambda>padding.
     ok (stoi (property p MAX_SCAN_LENGTH)) (\<lambda>max_scan_len.
     ok (stoi (property p INSERT_START)) (\<lambda>insert_start.
     ok (StrToBool (property p READ_ALL_FIELDS)) (\<lambda>read_all.
     ok (StrToBool (property p WRITE_ALL_FIELDS)) (\<lambda>write_all.
     let ops = add_operation L READMODIFYWRITE readmodifywrite_proportion
           (add_operation L SCAN scan_proportion (add_operation L INSERT insert_proportion
           (add_operation L UPDATE update_proportion (add_operation L READ read_proportion (new_discrete L)))))
     in
     ok (make_key_chooser L p insert_proportion (word_of_int records) w) (\<lambda>(key_gen, w).
     ok (new_uniform L 0 (word_of_int (fields_n - 1))) (\<lambda>field_gen.
     ok (make_scan_len_chooser L p max_scan_len w) (\<lambda>(scan_gen, w).
       Inr \<lparr>table_name = property p TABLENAME, field_count = fields_n, read_all_fields = read_all,
         write_all_fields = write_all, field_len_generator = len_gen, key_generator = word_of_int insert_start,
         op_chooser = ops, key_chooser = key_gen, field_chooser = field_gen, scan_len_chooser = scan_gen,
         insert_key_sequence = word_of_int records, ordered_inserts = (property p INSERT_ORDER \<noteq> ''hashed''),
         record_count = word_of_int records, zero_padding = padding, drawn_values = w\<rparr>))))))))))))))))"

end
