(* ===== verification/Ycsb_Client.thy ===== *)
theory Ycsb_Client
  imports Ycsb_Workload
begin

text \<open>
  core/client.h and ycsbc.cc: the client's transactions on a database, the phases of the main
  program, and its command line. A database is what core/db.h declares, a record of operations
  on a state; the number of the thread stands for \<open>std::this_thread\<close>. A result \<open>None\<close> means that
  the choice of a key does not end.
\<close>

section \<open>Databases\<close>

type_synonym ('s, 'a) db_result = "ycsb_error + ('a \<times> 's)"

record 's db =
  db_init :: "nat \<Rightarrow> 's \<Rightarrow> 's"
  db_close :: "nat \<Rightarrow> 's \<Rightarrow> 's"
  db_read :: "nat \<Rightarrow> string \<Rightarrow> string \<Rightarrow> string list option \<Rightarrow> 's \<Rightarrow> ('s, int \<times> fields) db_result"
  db_scan :: "nat \<Rightarrow> string \<Rightarrow> string \<Rightarrow> int \<Rightarrow> string list option \<Rightarrow> 's \<Rightarrow> ('s, int \<times> fields list) db_result"
  db_update :: "nat \<Rightarrow> string \<Rightarrow> string \<Rightarrow> fields \<Rightarrow> 's \<Rightarrow> ('s, int) db_result"
  db_insert :: "nat \<Rightarrow> string \<Rightarrow> string \<Rightarrow> fields \<Rightarrow> 's \<Rightarrow> ('s, int) db_result"
  db_delete :: "nat \<Rightarrow> string \<Rightarrow> string \<Rightarrow> 's \<Rightarrow> ('s, int) db_result"
  db_load2switch :: "nat \<Rightarrow> 's \<Rightarrow> ('s, int) db_result"

definition kOK :: int where "kOK = 0"
definition kErrorNoData :: int where "kErrorNoData = 1"
definition kErrorConflict :: int where "kErrorConflict = 2"

text \<open>The workload and the database a client works on, and going on after a choice that may not end.\<close>

type_synonym ('d, 's) client = "'d workload \<times> 's"

definition then_ok :: "('e + 'a) option \<Rightarrow> ('a \<Rightarrow> ('e + 'b) option) \<Rightarrow> ('e + 'b) option" where
  "then_ok r f = (case r of None \<Rightarrow> None | Some (Inl e) \<Rightarrow> Some (Inl e) | Some (Inr x) \<Rightarrow> f x)"

lemma then_ok_simps [simp]: "then_ok None f = None" "then_ok (Some (Inl e)) f = Some (Inl e)"
  "then_ok (Some (Inr x)) f = f x"
  by (simp_all add: then_ok_def)

section \<open>client.h\<close>

definition DoInsert :: "'d stdlib \<Rightarrow> 's db \<Rightarrow> nat \<Rightarrow> ('d, 's) client \<Rightarrow> ycsb_error + (bool \<times> ('d, 's) client)" where
  "DoInsert L db tid c = (let (wl, s) = c; (key, wl) = NextSequenceKey wl in
     ok (BuildValues L wl) (\<lambda>(pairs, wl).
     ok (db_insert db tid (table_name wl) key pairs s) (\<lambda>(status, s). Inr (status = kOK, wl, s))))"

text \<open>The fields to read: \<open>"field" + NextFieldName()\<close>, or all of them.\<close>

definition fields_to_read :: "'d stdlib \<Rightarrow> 'd workload \<Rightarrow> ycsb_error + (string list option \<times> 'd workload)" where
  "fields_to_read L wl = (if \<not> read_all_fields wl
     then ok (NextFieldName L wl) (\<lambda>(name, wl). Inr (Some [''field'' @ name], wl)) else Inr (None, wl))"

definition values_to_write :: "'d stdlib \<Rightarrow> 'd workload \<Rightarrow> ycsb_error + (fields \<times> 'd workload)" where
  "values_to_write L wl = (if write_all_fields wl then BuildValues L wl else BuildUpdate L wl)"

definition TransactionRead :: "'d stdlib \<Rightarrow> 's db \<Rightarrow> nat \<Rightarrow> ('d, 's) client \<Rightarrow> (ycsb_error + (int \<times> ('d, 's) client)) option" where
  "TransactionRead L db tid c = (let (wl, s) = c; table = table_name wl in
     then_ok (NextTransactionKey L wl) (\<lambda>(key, wl). Some (
     ok (fields_to_read L wl) (\<lambda>(fs, wl).
     ok (db_read db tid table key fs s) (\<lambda>((status, _), s). Inr (status, wl, s))))))"

definition TransactionReadModifyWrite :: "'d stdlib \<Rightarrow> 's db \<Rightarrow> nat \<Rightarrow> ('d, 's) client
    \<Rightarrow> (ycsb_error + (int \<times> ('d, 's) client)) option" where
  "TransactionReadModifyWrite L db tid c = (let (wl, s) = c; table = table_name wl in
     then_ok (NextTransactionKey L wl) (\<lambda>(key, wl). Some (
     ok (fields_to_read L wl) (\<lambda>(fs, wl).
     ok (db_read db tid table key fs s) (\<lambda>(_, s).
     ok (values_to_write L wl) (\<lambda>(values, wl).
     ok (db_update db tid table key values s) (\<lambda>(status, s). Inr (status, wl, s))))))))"

text \<open>\<open>int len = workload_.NextScanLength()\<close>\<close>

definition TransactionScan :: "'d stdlib \<Rightarrow> 's db \<Rightarrow> nat \<Rightarrow> ('d, 's) client \<Rightarrow> (ycsb_error + (int \<times> ('d, 's) client)) option" where
  "TransactionScan L db tid c = (let (wl, s) = c; table = table_name wl in
     then_ok (NextTransactionKey L wl) (\<lambda>(key, wl). Some (
     ok (NextScanLength L wl) (\<lambda>(n, wl). let len = sint (ucast n :: 32 word) in
     ok (fields_to_read L wl) (\<lambda>(fs, wl).
     ok (db_scan db tid table key len fs s) (\<lambda>((status, _), s). Inr (status, wl, s)))))))"

definition TransactionUpdate :: "'d stdlib \<Rightarrow> 's db \<Rightarrow> nat \<Rightarrow> ('d, 's) client \<Rightarrow> (ycsb_error + (int \<times> ('d, 's) client)) option" where
  "TransactionUpdate L db tid c = (let (wl, s) = c; table = table_name wl in
     then_ok (NextTransactionKey L wl) (\<lambda>(key, wl). Some (
     ok (values_to_write L wl) (\<lambda>(values, wl).
     ok (db_update db tid table key values s) (\<lambda>(status, s). Inr (status, wl, s))))))"

definition TransactionInsert :: "'d stdlib \<Rightarrow> 's db \<Rightarrow> nat \<Rightarrow> ('d, 's) client \<Rightarrow> (ycsb_error + (int \<times> ('d, 's) client)) option" where
  "TransactionInsert L db tid c = (let (wl, s) = c; table = table_name wl; (key, wl) = NextSequenceKey wl in Some (
     ok (BuildValues L wl) (\<lambda>(values, wl).
     ok (db_insert db tid table key values s) (\<lambda>(status, s). Inr (status, wl, s)))))"

text \<open>\<open>assert(status >= 0); return (status == DB::kOK);\<close>\<close>

definition is_ok :: "int \<times> 'c \<Rightarrow> ycsb_error + (bool \<times> 'c)" where
  "is_ok r = (if fst r < 0 then Inl Assertion_failed else Inr (fst r = kOK, snd r))"

definition DoTransaction :: "'d stdlib \<Rightarrow> 's db \<Rightarrow> nat \<Rightarrow> ('d, 's) client \<Rightarrow> (ycsb_error + (bool \<times> ('d, 's) client)) option" where
  "DoTransaction L db tid c = (let (wl, s) = c in
     then_ok (Some (NextOperation L wl)) (\<lambda>(op, wl). let c = (wl, s) in
     map_option (\<lambda>r. ok r is_ok) (case op of
         READ \<Rightarrow> TransactionRead L db tid c
       | UPDATE \<Rightarrow> TransactionUpdate L db tid c
       | INSERT \<Rightarrow> TransactionInsert L db tid c
       | SCAN \<Rightarrow> TransactionScan L db tid c
       | READMODIFYWRITE \<Rightarrow> TransactionReadModifyWrite L db tid c)))"

definition DoTransactionRead :: "'d stdlib \<Rightarrow> 's db \<Rightarrow> nat \<Rightarrow> ('d, 's) client \<Rightarrow> (ycsb_error + (bool \<times> ('d, 's) client)) option" where
  "DoTransactionRead L db tid c = map_option (\<lambda>r. ok r is_ok) (TransactionRead L db tid c)"

section \<open>The threads\<close>

datatype job = Loading | Transactions | Read_only

definition do_job :: "job \<Rightarrow> 'd stdlib \<Rightarrow> 's db \<Rightarrow> nat \<Rightarrow> ('d, 's) client \<Rightarrow> (ycsb_error + (bool \<times> ('d, 's) client)) option" where
  "do_job j L db tid c = (case j of Loading \<Rightarrow> Some (DoInsert L db tid c)
     | Transactions \<Rightarrow> DoTransaction L db tid c | Read_only \<Rightarrow> DoTransactionRead L db tid c)"

text \<open>
  What a thread does in \<open>DelegateClient\<close>: \<open>Init\<close>, its operations, \<open>Close\<close>. Each operation is
  one step, and the threads of a phase take steps in any order; \<open>todo i\<close> is what thread \<open>i\<close> has
  still to do, \<open>oks i\<close> what it will return. The threads of a phase are numbered from \<open>base\<close>.
\<close>

datatype progress = Not_started nat | Running nat | Closed

record ('d, 's) phase =
  todo :: "nat \<Rightarrow> progress"
  oks :: "nat \<Rightarrow> nat"
  shared :: "('d, 's) client"

definition thread_step :: "job \<Rightarrow> 'd stdlib \<Rightarrow> 's db \<Rightarrow> nat \<Rightarrow> nat \<Rightarrow> ('d, 's) phase \<Rightarrow> (ycsb_error + ('d, 's) phase) option" where
  "thread_step j L db base i ph = (case todo ph i of
     Not_started n \<Rightarrow> (let (wl, s) = shared ph in
       Some (Inr (ph\<lparr>todo := (todo ph)(i := Running n), shared := (wl, db_init db (base + i) s)\<rparr>)))
   | Running 0 \<Rightarrow> (let (wl, s) = shared ph in
       Some (Inr (ph\<lparr>todo := (todo ph)(i := Closed), shared := (wl, db_close db (base + i) s)\<rparr>)))
   | Running (Suc n) \<Rightarrow> then_ok (do_job j L db (base + i) (shared ph)) (\<lambda>(good, c).
       Some (Inr (ph\<lparr>todo := (todo ph)(i := Running n),
         oks := (oks ph)(i := oks ph i + (if good then 1 else 0)), shared := c\<rparr>)))
   | Closed \<Rightarrow> Some (Inr ph))"

fun run_schedule :: "job \<Rightarrow> 'd stdlib \<Rightarrow> 's db \<Rightarrow> nat \<Rightarrow> nat list \<Rightarrow> ('d, 's) phase \<Rightarrow> (ycsb_error + ('d, 's) phase) option" where
  "run_schedule j L db base [] ph = Some (Inr ph)"
| "run_schedule j L db base (i # is) ph = then_ok (thread_step j L db base i ph) (run_schedule j L db base is)"

definition start_phase :: "nat \<Rightarrow> int \<Rightarrow> ('d, 's) client \<Rightarrow> ('d, 's) phase" where
  "start_phase num_threads num_ops c =
     \<lparr>todo = (\<lambda>i. if i < num_threads then Not_started (nat num_ops) else Closed), oks = (\<lambda>_. 0), shared = c\<rparr>"

text \<open>
  A phase of the main program: the threads are started, and \<open>get\<close> waits for each of them. The
  schedule stands for the scheduler of the system; \<open>None\<close> within the result: some thread has not
  ended under it.
\<close>

definition run_phase :: "job \<Rightarrow> 'd stdlib \<Rightarrow> 's db \<Rightarrow> nat \<Rightarrow> nat \<Rightarrow> int \<Rightarrow> nat list \<Rightarrow> ('d, 's) client
    \<Rightarrow> (ycsb_error + (nat option \<times> ('d, 's) client)) option" where
  "run_phase j L db base num_threads num_ops schedule c =
     then_ok (run_schedule j L db base schedule (start_phase num_threads num_ops c)) (\<lambda>ph. Some (Inr (
       if \<forall>i \<in> set [0..<num_threads]. todo ph i = Closed then Some (sum_list (map (oks ph) [0..<num_threads])) else None,
       shared ph)))"

definition num_threads_load :: nat where
  "num_threads_load = 16"

text \<open>C++ division of int.\<close>

definition int_div :: "int \<Rightarrow> int \<Rightarrow> int" where
  "int_div a b = (if 0 \<le> a then a div b else - (- a div b))"

section \<open>ycsbc.cc\<close>

text \<open>The command line; \<open>files\<close> is the file system, and \<open>Exit\<close> that the program ends with a message.\<close>

datatype 'a outcome = Exit string | Uncaught ycsb_error | Done 'a

definition StrStartWith :: "string \<Rightarrow> string \<Rightarrow> bool" where
  "StrStartWith str pre \<longleftrightarrow> take (length pre) str = pre"

definition usage :: string where
  "usage = ''Usage''"

text \<open>An option with a value; the options but \<open>-P\<close> set a property.\<close>

definition option_property :: "string \<Rightarrow> string option" where
  "option_property a = (if a = ''-threads'' then Some ''threadcount'' else if a = ''-db'' then Some ''dbname''
     else if a = ''-host'' then Some ''host'' else if a = ''-port'' then Some ''port''
     else if a = ''-slaves'' then Some ''slaves'' else None)"

text \<open>
  The loop over the arguments: \<open>catch (const string &message)\<close> does not catch the
  \<open>utils::Exception\<close> \<open>Load\<close> throws. What is left are the arguments from the first that does not
  start with a minus sign.
\<close>

fun parse_options :: "(string \<Rightarrow> string option) \<Rightarrow> string list \<Rightarrow> string \<times> properties
    \<Rightarrow> (string list \<times> string \<times> properties) outcome" where
  "parse_options files [] r = Done ([], r)"
| "parse_options files (a # as) (filename, p) = (if \<not> StrStartWith a ''-'' then Done (a # as, filename, p)
     else (case option_property a of
       Some name \<Rightarrow> (case as of [] \<Rightarrow> Exit usage
         | v # as \<Rightarrow> parse_options files as (filename, SetProperty name v p))
     | None \<Rightarrow> if a = ''-P'' then (case as of [] \<Rightarrow> Exit usage
         | v # as \<Rightarrow> (case Load (files v) p of Inl e \<Rightarrow> Uncaught e | Inr p \<Rightarrow> parse_options files as (v, p)))
       else Exit (''Unknown option '' @ [CHR 0x27] @ a @ [CHR 0x27])))"

definition ParseCommandLine :: "(string \<Rightarrow> string option) \<Rightarrow> string list \<Rightarrow> (string \<times> properties) outcome" where
  "ParseCommandLine files args = (case parse_options files args ([], Map.empty) of
     Done (rest, r) \<Rightarrow> if args = [] \<or> rest \<noteq> [] \<or> length args = length rest then Exit usage else Done r
   | Exit m \<Rightarrow> Exit m | Uncaught e \<Rightarrow> Uncaught e)"

text \<open>
  The main program after the command line: \<open>create\<close> stands for \<open>DBFactory::CreateDB\<close>. It loads
  with 16 threads, runs a read-only phase of no operations, hands the tree to the switch, and
  runs the transactions; the result are the sums printed for the first and the last phase.
\<close>

definition load_count :: "int \<Rightarrow> int" where
  "load_count total_ops = int_div total_ops 16"

text \<open>
  The operations of a thread: without threads the loop that starts them does not divide, and with
  a negative number of them the assertion on their number fails.
\<close>

definition per_thread :: "int \<Rightarrow> int \<Rightarrow> ycsb_error + int" where
  "per_thread ops num_threads = (if num_threads < 0 then Inl Assertion_failed
     else if num_threads = 0 then Inr 0 else Inr (int_div ops num_threads))"

definition finished :: "(ycsb_error + (nat option \<times> 'c)) option \<Rightarrow> (ycsb_error + (nat \<times> 'c)) option" where
  "finished r = then_ok r (\<lambda>(sm, c). case sm of None \<Rightarrow> None | Some n \<Rightarrow> Some (Inr (n, c)))"

definition ycsb_main :: "'d stdlib \<Rightarrow> (properties \<Rightarrow> ycsb_error + ('s db \<times> 's) option) \<Rightarrow> properties
    \<Rightarrow> nat list \<Rightarrow> nat list \<Rightarrow> nat list \<Rightarrow> (ycsb_error + (nat \<times> bool \<times> nat \<times> 's) option) option" where
  "ycsb_main L create p sched1 sched2 sched3 = then_ok (Some (create p)) (\<lambda>made.
     case made of None \<Rightarrow> Some (Inr None) | Some (db, s) \<Rightarrow>
       then_ok (Some (workload_init L p \<lparr>nb_doubles = 0, nb_rands = 0\<rparr>)) (\<lambda>wl.
       then_ok (Some (stoi (GetProperty p ''threadcount'' ''1''))) (\<lambda>num_threads.
       then_ok (Some (ok (property_at p RECORD_COUNT) stoi)) (\<lambda>total_ops.
       then_ok (finished (run_phase Loading L db 1 num_threads_load (load_count total_ops) sched1 (wl, s))) (\<lambda>(sum1, c).
       then_ok (Some (ok (property_at p OPERATION_COUNT) stoi)) (\<lambda>total_ops.
       then_ok (Some (per_thread 0 num_threads)) (\<lambda>n.
       then_ok (finished (run_phase Read_only L db (1 + num_threads_load) (nat num_threads) n sched2 c)) (\<lambda>(_, wl, s).
       then_ok (Some (db_load2switch db 0 s)) (\<lambda>(status, s).
       then_ok (Some (per_thread total_ops num_threads)) (\<lambda>n.
       then_ok (finished (run_phase Transactions L db (1 + num_threads_load + nat num_threads) (nat num_threads) n sched3 (wl, s))) (\<lambda>(sum3, _, s).
         Some (Inr (Some (sum1, status = kOK, sum3, s))))))))))))))"

end
