(* ===== verification/Ycsb_Draw.thy ===== *)
theory Ycsb_Draw
  imports Ycsb_Generator
begin

text \<open>
  What the generators produce: the constants a Zipfian generator keeps are those of a new
  computation, a discrete generator chooses by the shares of its weights, and where the numbers
  of a Zipfian generator begin.
\<close>

section \<open>The zeta function\<close>

lemma zeta_loop_add: "zeta_loop L theta i (m + n) z = zeta_loop L theta (i + m) n (zeta_loop L theta i m z)"
  by (induction m arbitrary: i z) simp_all

text \<open>Adding the terms from \<open>a\<close> to \<open>b\<close> to the sum up to \<open>a\<close> gives the sum up to \<open>b\<close>, in this order of additions.\<close>

lemma Zeta_extend: "a \<le> b \<Longrightarrow> Zeta L a b theta (Zeta L 0 a theta z) = Zeta L 0 b theta z"
  using zeta_loop_add [of L theta 1 "unat a" "unat b - unat a" z] by (simp add: Zeta_def word_le_nat_alt)

section \<open>The constants of a Zipfian generator\<close>

definition zipfian_ok :: "'d stdlib \<Rightarrow> 'd zipfian \<Rightarrow> bool" where
  "zipfian_ok L z \<longleftrightarrow> z_zeta_n z = Zeta L 0 (z_n_for_zeta z) (z_theta z) (lit L 0) \<and> z_eta z = Eta L z
     \<and> z_zeta_2 z = Zeta L 0 2 (z_theta z) (lit L 0) \<and> z_alpha z = fdiv L (lit L 1) (fsub L (lit L 1) (z_theta z))"

lemma Eta_more [simp]: "Eta L (z\<lparr>z_eta := x\<rparr>) = Eta L z" "Eta L (z\<lparr>z_last := v\<rparr>) = Eta L z"
  by (simp_all add: Eta_def)

lemma zipfian_ok_last [simp]: "zipfian_ok L (z\<lparr>z_last := v\<rparr>) = zipfian_ok L z"
  by (simp add: zipfian_ok_def)

lemma raise_ok:
  assumes "z_zeta_n z = Zeta L 0 (z_n_for_zeta z) (z_theta z) (lit L 0)"
    "z_zeta_2 z = Zeta L 0 2 (z_theta z) (lit L 0)" "z_alpha z = fdiv L (lit L 1) (fsub L (lit L 1) (z_theta z))"
    and "RaiseZeta L num z = Inr z'"
  shows "zipfian_ok L (z'\<lparr>z_eta := Eta L z'\<rparr>)" "z_n_for_zeta z' = num" "z_theta z' = z_theta z" "z_num_items z' = z_num_items z"
  using assms by (auto simp: RaiseZeta_def zipfian_ok_def not_less Zeta_extend split: if_splits)

lemma zipfian_next_ok:
  assumes "zipfian_ok L z" "zipfian_next L num z w = Inr (v, z', w')"
  shows "zipfian_ok L z' \<and> z_n_for_zeta z' = max (z_n_for_zeta z) num \<and> z_theta z' = z_theta z"
proof (cases "z_n_for_zeta z < num")
  case False
  then show ?thesis
    using assms by (auto simp: zipfian_next_def RandomDouble_def Let_def max_def split: if_splits option.splits)
next
  case True
  have "RaiseZeta L num z = Inr (z\<lparr>z_zeta_n := Zeta L (z_n_for_zeta z) num (z_theta z) (z_zeta_n z), z_n_for_zeta := num\<rparr>)"
    using less_not_sym [OF True] by (simp add: RaiseZeta_def)
  then obtain z1 where z1: "RaiseZeta L num z = Inr z1" by blast
  have r: "zipfian_ok L (z1\<lparr>z_eta := Eta L z1\<rparr>)" "z_n_for_zeta z1 = num" "z_theta z1 = z_theta z"
    using raise_ok [OF _ _ _ z1] assms(1) by (auto simp: zipfian_ok_def)
  show ?thesis
    using True assms(2) r by (auto simp: zipfian_next_def z1 RandomDouble_def Let_def max_def split: if_splits option.splits)
qed

lemma new_zipfian_ok:
  assumes "new_zipfian L l h c w = Inr (z, w')"
  shows "zipfian_ok L z \<and> z_n_for_zeta z = h - l + 1 \<and> z_theta z = c"
proof -
  let ?num = "h - l + 1"
  let ?z = "\<lparr>z_num_items = ?num, z_base = l, z_theta = c, z_zeta_n = lit L 0, z_eta = lit L 0,
    z_alpha = fdiv L (lit L 1) (fsub L (lit L 1) c), z_zeta_2 = Zeta L 0 2 c (lit L 0), z_n_for_zeta = 0, z_last = 0\<rparr>"
  obtain z1 where z1: "RaiseZeta L ?num ?z = Inr z1" by (simp add: RaiseZeta_def)
  have r: "zipfian_ok L (z1\<lparr>z_eta := Eta L z1\<rparr>)" "z_n_for_zeta z1 = ?num" "z_theta z1 = c"
    using raise_ok [OF _ _ _ z1] by (simp_all add: Zeta_def)
  from assms obtain v where v: "zipfian_next L ?num (z1\<lparr>z_eta := Eta L z1\<rparr>) w = Inr (v, z, w')"
    by (auto simp: new_zipfian_def z1 Let_def ok_Inr split: if_splits)
  show ?thesis using zipfian_next_ok [OF r(1) v] r by simp
qed

text \<open>Drawing with the numbers of items \<open>nums\<close>, one after the other.\<close>

fun zipfian_draws :: "'d stdlib \<Rightarrow> 64 word list \<Rightarrow> 'd zipfian \<Rightarrow> draws \<Rightarrow> ycsb_error + (64 word list \<times> 'd zipfian \<times> draws)" where
  "zipfian_draws L [] z w = Inr ([], z, w)"
| "zipfian_draws L (num # nums) z w = ok (zipfian_next L num z w) (\<lambda>(v, z, w).
     ok (zipfian_draws L nums z w) (\<lambda>(vs, z, w). Inr (v # vs, z, w)))"

lemma zipfian_draws_ok:
  "zipfian_ok L z \<Longrightarrow> zipfian_draws L nums z w = Inr (vs, z', w')
    \<Longrightarrow> zipfian_ok L z' \<and> z_n_for_zeta z' = fold max nums (z_n_for_zeta z) \<and> z_theta z' = z_theta z"
proof (induction nums arbitrary: z w vs)
  case (Cons num nums)
  obtain v z1 w1 where 1: "zipfian_next L num z w = Inr (v, z1, w1)"
    using Cons.prems(2) by (auto simp: ok_Inr)
  obtain vs1 where 2: "zipfian_draws L nums z1 w1 = Inr (vs1, z', w')"
    using Cons.prems(2) 1 by (auto simp: ok_Inr)
  show ?case using Cons.IH [OF _ 2] zipfian_next_ok [OF Cons.prems(1) 1] by (simp add: max.commute)
qed simp

section \<open>Exact arithmetic\<close>

text \<open>A library with exact rational numbers, for statements about shares.\<close>

definition exact :: "rat stdlib \<Rightarrow> bool" where
  "exact L \<longleftrightarrow> lit L = id \<and> fadd L = (+) \<and> fsub L = (-) \<and> fmul L = (*) \<and> fdiv L = (/) \<and> fless L = (<)"

definition weights_up_to :: "nat \<Rightarrow> ('a \<times> rat) list \<Rightarrow> rat" where
  "weights_up_to i ps = sum_list (map snd (take i ps))"

lemma weights_Cons [simp]: "weights_up_to (Suc i) (p # ps) = snd p + weights_up_to i ps" "weights_up_to 0 ps = 0"
  by (simp_all add: weights_up_to_def)

lemma choose_share:
  assumes "exact L" "0 < sm"
  shows "0 \<le> c \<Longrightarrow> c * sm < weights_up_to (length ps) ps \<Longrightarrow>
    \<exists>i < length ps. choose_value L sm ps c = Inr (fst (ps ! i))
      \<and> weights_up_to i ps \<le> c * sm \<and> c * sm < weights_up_to (Suc i) ps"
proof (induction ps arbitrary: c)
  case (Cons p ps)
  obtain v wt where p: "p = (v, wt)" by (cases p)
  show ?case
  proof (cases "c * sm < wt")
    case True
    then have "c < wt / sm" using assms(2) by (simp add: pos_less_divide_eq)
    then show ?thesis using assms(1) Cons.prems(1) assms(2) True by (intro exI [of _ 0]) (simp add: p exact_def)
  next
    case False
    then have c: "\<not> c < wt / sm" "0 \<le> c - wt / sm" using assms(2) by (simp_all add: pos_less_divide_eq pos_divide_le_eq not_less)
    have e: "(c - wt / sm) * sm = c * sm - wt" using assms(2) by (simp add: algebra_simps)
    have "(c - wt / sm) * sm < weights_up_to (length ps) ps" using Cons.prems(2) unfolding e by (simp add: p)
    then obtain i where i: "i < length ps" "choose_value L sm ps (c - wt / sm) = Inr (fst (ps ! i))"
      "weights_up_to i ps \<le> (c - wt / sm) * sm" "(c - wt / sm) * sm < weights_up_to (Suc i) ps"
      using Cons.IH [OF c(2)] by blast
    then show ?thesis using assms(1) c(1) unfolding e by (intro exI [of _ "Suc i"]) (simp add: p exact_def)
  qed
qed (use assms in \<open>simp add: mult_less_0_iff\<close>)

lemma weights_positive: "ps \<noteq> [] \<Longrightarrow> \<forall>p \<in> set ps. 0 < snd p \<Longrightarrow> 0 < weights_up_to (length ps) ps"
proof (induction ps rule: list_nonempty_induct)
  case (cons p ps)
  then show ?case by (simp add: add_pos_pos)
qed (simp add: weights_up_to_def)

text \<open>A generator made by \<open>AddValue\<close> from the pairs \<open>ps\<close>.\<close>

definition discrete_of :: "'d stdlib \<Rightarrow> ('a \<times> 'd) list \<Rightarrow> ('a, 'd) discrete" where
  "discrete_of L ps = fold (\<lambda>(v, wt). AddValue L v wt) ps (new_discrete L)"

lemma discrete_of_weights:
  assumes "exact L"
  shows "weighted (discrete_of L ps) = ps" "weight_sum (discrete_of L ps) = weights_up_to (length ps) ps"
proof -
  have "weighted (fold (\<lambda>(v, wt). AddValue L v wt) ps g) = weighted g @ ps
    \<and> weight_sum (fold (\<lambda>(v, wt). AddValue L v wt) ps g) = weight_sum g + weights_up_to (length ps) ps" for g
    using assms by (induction ps arbitrary: g) (auto simp: AddValue_def exact_def)
  then show "weighted (discrete_of L ps) = ps" "weight_sum (discrete_of L ps) = weights_up_to (length ps) ps"
    using assms by (simp_all add: discrete_of_def new_discrete_def exact_def)
qed

text \<open>A library for examples: exact numbers, a power that is its base, and chosen random values.\<close>

definition sample_lib :: "(nat \<Rightarrow> rat) \<Rightarrow> rat stdlib" where
  "sample_lib rnd = \<lparr>lit = id, of_u64 = (\<lambda>x. of_nat (unat x)), of_int32 = of_int, fadd = (+), fsub = (-), fmul = (*),
     fdiv = (/), pow = (\<lambda>a b. a), fless = (<), to_u64 = (\<lambda>x. if 0 \<le> x \<and> x < 2 ^ 64 then Some (word_of_int \<lfloor>x\<rfloor>) else None),
     to_int = (\<lambda>x. if - (2 ^ 31) \<le> x \<and> x < 2 ^ 31 then Some \<lfloor>x\<rfloor> else None),
     stod = (\<lambda>s. if s = ''1.0'' then Inr 1 else Inr 0), random_double = rnd,
     uniform = (\<lambda>l h n. l + of_nat n mod (h - l + 1)), c_rand = (\<lambda>n. n)\<rparr>"

lemma sample_random [simp]: "random_double (sample_lib rnd) n = rnd n"
  by (simp add: sample_lib_def)

lemma sample_exact: "exact (sample_lib rnd)"
  by (simp add: exact_def sample_lib_def)

end
