(* ===== verification/Ycsb_Properties.thy ===== *)
theory Ycsb_Properties
  imports Ycsb_Client Ycsb_Draw
begin

text \<open>
  The properties of the workload: its generators, which keys are loaded and which are used by
  transactions, and which fields are read.
\<close>

section \<open>Generators\<close>

text \<open>
  C24: after any draws with growing or shrinking numbers of items the constants a Zipfian
  generator keeps are the ones a new computation gives for the greatest number so far.
\<close>

theorem zipfian_constants_cached:
  assumes "new_zipfian L l h c w = Inr (z, w1)" "zipfian_draws L nums z w1 = Inr (vs, z', w2)"
  shows "z_n_for_zeta z' = fold max nums (h - l + 1)
    \<and> z_zeta_n z' = Zeta L 0 (fold max nums (h - l + 1)) c (lit L 0) \<and> z_eta z' = Eta L z'"
  using new_zipfian_ok [OF assms(1)] zipfian_draws_ok [OF _ assms(2)] by (auto simp: zipfian_ok_def)

theorem zipfian_constants_cached_witness:
  "\<exists>z w1 vs z' w2. new_zipfian (sample_lib (\<lambda>_. 1)) 0 2 (1 / 2) \<lparr>nb_doubles = 0, nb_rands = 0\<rparr> = Inr (z, w1)
    \<and> zipfian_draws (sample_lib (\<lambda>_. 1)) [5, 4] z w1 = Inr (vs, z', w2)
    \<and> z_zeta_n z' = Zeta (sample_lib (\<lambda>_. 1)) 0 5 (1 / 2) 0"
proof -
  have "case new_zipfian (sample_lib (\<lambda>_. 1)) 0 2 (1 / 2) \<lparr>nb_doubles = 0, nb_rands = 0\<rparr> of Inl _ \<Rightarrow> False
    | Inr (z, w1) \<Rightarrow> (case zipfian_draws (sample_lib (\<lambda>_. 1)) [5, 4] z w1 of Inl _ \<Rightarrow> False | Inr _ \<Rightarrow> True)"
    by code_simp
  then obtain z w1 where n: "new_zipfian (sample_lib (\<lambda>_. 1)) 0 2 (1 / 2) \<lparr>nb_doubles = 0, nb_rands = 0\<rparr> = Inr (z, w1)"
    and d: "case zipfian_draws (sample_lib (\<lambda>_. 1)) [5, 4] z w1 of Inl _ \<Rightarrow> False | Inr _ \<Rightarrow> True"
    by (auto simp del: zipfian_draws.simps split: sum.splits prod.splits)
  obtain vs z' w2 where "zipfian_draws (sample_lib (\<lambda>_. 1)) [5, 4] z w1 = Inr (vs, z', w2)"
    using d by (cases "zipfian_draws (sample_lib (\<lambda>_. 1)) [5, 4] z w1") (auto simp del: zipfian_draws.simps)
  note r = n this
  have "fold max [5, 4] (2 - 0 + 1 :: 64 word) = 5" by code_simp
  then show ?thesis using zipfian_constants_cached [OF r] r by (auto simp: sample_lib_def)
qed

text \<open>
  Whatever number a Zipfian generator is to begin with, it gives 0 when the random number is
  small: the scan lengths and field lengths it is made for, which begin with 1, can be 0.
\<close>

theorem zipfian_starts_at_zero:
  assumes "2 \<le> num" "num < kMaxNumItems" "num \<le> z_n_for_zeta z"
    and "fless L (fmul L (random_double L (nb_doubles w)) (z_zeta_n z)) (lit L 1)"
  shows "zipfian_next L num z w = Inr (0, z\<lparr>z_last := 0\<rparr>, w\<lparr>nb_doubles := nb_doubles w + 1\<rparr>)"
  using assms leD [OF assms(1)] leD [OF assms(3)] assms(2) [unfolded not_le [symmetric]]
  by (simp add: zipfian_next_def RandomDouble_def Let_def)

theorem zipfian_starts_at_zero_witness:
  "\<exists>z w1 z' w2. new_zipfian (sample_lib (\<lambda>n. if n = 0 then 1 else 0)) 1 3 (1 / 2) \<lparr>nb_doubles = 0, nb_rands = 0\<rparr> = Inr (z, w1)
    \<and> z_base z = 1 \<and> zipfian_next (sample_lib (\<lambda>n. if n = 0 then 1 else 0)) 3 z w1 = Inr (0, z', w2)"
proof -
  let ?L = "sample_lib (\<lambda>n. if n = 0 then 1 else 0)"
  have "case new_zipfian ?L 1 3 (1 / 2) \<lparr>nb_doubles = 0, nb_rands = 0\<rparr> of Inl _ \<Rightarrow> False
    | Inr (z, w1) \<Rightarrow> z_base z = 1 \<and> nb_doubles w1 = 1 \<and> z_n_for_zeta z = 3"
    by code_simp
  then obtain z w1 where r: "new_zipfian ?L 1 3 (1 / 2) \<lparr>nb_doubles = 0, nb_rands = 0\<rparr> = Inr (z, w1)"
    "z_base z = 1" "nb_doubles w1 = 1" "z_n_for_zeta z = 3" by (auto split: sum.splits prod.splits)
  have k: "3 < kMaxNumItems" by code_simp
  have "fless ?L (fmul ?L (random_double ?L (nb_doubles w1)) (z_zeta_n z)) (lit ?L 1)"
    using r(3) by (simp add: sample_lib_def)
  then have "zipfian_next ?L 3 z w1 = Inr (0, z\<lparr>z_last := 0\<rparr>, w1\<lparr>nb_doubles := nb_doubles w1 + 1\<rparr>)"
    using r(4) k by (intro zipfian_starts_at_zero) simp_all
  then show ?thesis using r by blast
qed

text \<open>
  With exact arithmetic, positive weights and a random number from [0, 1), a discrete
  generator never fails and gives the value in whose share of the sum the number lies.
\<close>

theorem discrete_chooses_share:
  assumes "exact L" "\<forall>p \<in> set ps. 0 < snd p" "ps \<noteq> []"
    and "0 \<le> random_double L (nb_doubles w)" "random_double L (nb_doubles w) < 1"
  shows "\<exists>i g w'. i < length ps \<and> discrete_next L (discrete_of L ps) w = Inr (fst (ps ! i), g, w')
    \<and> weights_up_to i ps \<le> random_double L (nb_doubles w) * weights_up_to (length ps) ps
    \<and> random_double L (nb_doubles w) * weights_up_to (length ps) ps < weights_up_to (Suc i) ps"
proof -
  have "0 < weights_up_to (length ps) ps" by (rule weights_positive [OF assms(3,2)])
  then have "random_double L (nb_doubles w) * weights_up_to (length ps) ps < weights_up_to (length ps) ps"
    using assms(5) by simp
  from choose_share [OF assms(1) \<open>0 < weights_up_to (length ps) ps\<close> assms(4) this] obtain i where
    "i < length ps" "choose_value L (weights_up_to (length ps) ps) ps (random_double L (nb_doubles w)) = Inr (fst (ps ! i))"
    "weights_up_to i ps \<le> random_double L (nb_doubles w) * weights_up_to (length ps) ps"
    "random_double L (nb_doubles w) * weights_up_to (length ps) ps < weights_up_to (Suc i) ps" by blast
  then show ?thesis
    by (intro exI [of _ i]) (simp add: discrete_next_def RandomDouble_def discrete_of_weights [OF assms(1)])
qed

theorem discrete_chooses_share_witness:
  "\<exists>g w'. discrete_next (sample_lib (\<lambda>_. 96 / 100))
      (discrete_of (sample_lib (\<lambda>_. 96 / 100)) [(READ, 95 / 100), (UPDATE, 5 / 100)]) \<lparr>nb_doubles = 0, nb_rands = 0\<rparr>
    = Inr (UPDATE, g, w')"
proof -
  let ?L = "sample_lib (\<lambda>_. 96 / 100)" and ?ps = "[(READ, 95 / 100 :: rat), (UPDATE, 5 / 100)]"
  obtain i g w' where i: "i < length ?ps" "discrete_next ?L (discrete_of ?L ?ps) \<lparr>nb_doubles = 0, nb_rands = 0\<rparr> = Inr (fst (?ps ! i), g, w')"
    "96 / 100 * weights_up_to (length ?ps) ?ps < weights_up_to (Suc i) ?ps"
    using discrete_chooses_share [OF sample_exact, of ?ps "\<lambda>_. 96 / 100" "\<lparr>nb_doubles = 0, nb_rands = 0\<rparr>"]
    by (auto simp del: weights_Cons)
  have "weights_up_to (length ?ps) ?ps = 1" "weights_up_to (Suc 0) ?ps = 95 / 100" by (simp_all add: weights_up_to_def)
  then have "i \<noteq> 0" using i(3) by (intro notI) simp
  then have "i = 1" using i(1) by simp
  then show ?thesis using i(2) by auto
qed

end
