(* ===== verification/Ycsb_Load.thy ===== *)
theory Ycsb_Load
  imports Ycsb_Client Ycsb_Draw
begin

text \<open>
  What the operations of the workload leave unchanged, the keys of the loading phase under any
  schedule of its threads, and the keys of transactions.
\<close>

section \<open>What stays\<close>

text \<open>The parts of a workload that the choice of fields, values and operations leaves alone.\<close>

definition same_keys :: "'d workload \<Rightarrow> 'd workload \<Rightarrow> bool" where
  "same_keys wl wl' \<longleftrightarrow> key_generator wl' = key_generator wl \<and> ordered_inserts wl' = ordered_inserts wl
     \<and> zero_padding wl' = zero_padding wl \<and> table_name wl' = table_name wl
     \<and> insert_key_sequence wl' = insert_key_sequence wl \<and> key_chooser wl' = key_chooser wl
     \<and> field_count wl' = field_count wl"

lemma same_refl [simp]: "same_keys wl wl"
  by (simp add: same_keys_def)

lemma same_trans: "same_keys a b \<Longrightarrow> same_keys b c \<Longrightarrow> same_keys a c"
  by (simp add: same_keys_def)

lemma next_value_same: "next_value L wl = Inr (v, wl') \<Longrightarrow> same_keys wl wl'"
  by (auto simp: next_value_def draw_field_len_def ok_Inr same_keys_def Let_def)

lemma NextFieldName_same: "NextFieldName L wl = Inr (v, wl') \<Longrightarrow> same_keys wl wl'"
  by (auto simp: NextFieldName_def draw_field_def ok_Inr same_keys_def)

lemma NextOperation_same: "NextOperation L wl = Inr (v, wl') \<Longrightarrow> same_keys wl wl'"
  by (auto simp: NextOperation_def ok_Inr same_keys_def)

lemma NextScanLength_same: "NextScanLength L wl = Inr (v, wl') \<Longrightarrow> same_keys wl wl'"
  by (auto simp: NextScanLength_def ok_Inr same_keys_def)

lemma build_values_same: "build_values L i n wl = Inr (ps, wl') \<Longrightarrow> same_keys wl wl'"
proof (induction n arbitrary: i wl ps)
  case (Suc n)
  then obtain v wl1 ps1 where "next_value L wl = Inr (v, wl1)" "build_values L (i + 1) n wl1 = Inr (ps1, wl')"
    by (auto simp: ok_Inr)
  then show ?case using Suc.IH next_value_same same_trans by blast
qed simp

lemma BuildValues_same: "BuildValues L wl = Inr (ps, wl') \<Longrightarrow> same_keys wl wl'"
  using build_values_same by (fastforce simp: BuildValues_def)

lemma fields_to_read_same: "fields_to_read L wl = Inr (fs, wl') \<Longrightarrow> same_keys wl wl'"
  using NextFieldName_same by (fastforce simp: fields_to_read_def ok_Inr split: if_splits)

lemma values_to_write_same: "values_to_write L wl = Inr (vs, wl') \<Longrightarrow> same_keys wl wl'"
  using BuildValues_same NextFieldName_same next_value_same same_trans
  by (fastforce simp: values_to_write_def BuildUpdate_def ok_Inr split: if_splits)

lemmas same_steps = NextFieldName_same NextOperation_same NextScanLength_same BuildValues_same
  fields_to_read_same values_to_write_same

text \<open>The names of the fields that are built.\<close>

lemma build_values_names:
  "build_values L i n wl = Inr (ps, wl') \<Longrightarrow> map fst ps = map (\<lambda>k. ''field'' @ to_string k) [i..<i + n]"
proof (induction n arbitrary: i wl ps)
  case (Suc n)
  then obtain v wl1 ps1 where 1: "ps = (''field'' @ to_string i, v) # ps1" "build_values L (i + 1) n wl1 = Inr (ps1, wl')"
    by (auto simp: ok_Inr)
  have "[i..<i + Suc n] = i # [Suc i..<Suc i + n]" by (simp add: upt_conv_Cons)
  then show ?case using Suc.IH [OF 1(2)] 1(1) by simp
qed simp

section \<open>The keys that are loaded\<close>

text \<open>A database that records the tables and keys of the insertions.\<close>

definition logged :: "'s db \<Rightarrow> ('s \<times> string list) db" where
  "logged db = \<lparr>db_init = (\<lambda>t (s, l). (db_init db t s, l)), db_close = (\<lambda>t (s, l). (db_close db t s, l)),
     db_read = (\<lambda>t table key fs (s, l). ok (db_read db t table key fs s) (\<lambda>(r, s). Inr (r, s, l))),
     db_scan = (\<lambda>t table key n fs (s, l). ok (db_scan db t table key n fs s) (\<lambda>(r, s). Inr (r, s, l))),
     db_update = (\<lambda>t table key vs (s, l). ok (db_update db t table key vs s) (\<lambda>(r, s). Inr (r, s, l))),
     db_insert = (\<lambda>t table key vs (s, l). ok (db_insert db t table key vs s) (\<lambda>(r, s). Inr (r, s, l @ [table_key table key]))),
     db_delete = (\<lambda>t table key (s, l). ok (db_delete db t table key s) (\<lambda>(r, s). Inr (r, s, l))),
     db_load2switch = (\<lambda>t (s, l). ok (db_load2switch db t s) (\<lambda>(r, s). Inr (r, s, l)))\<rparr>"

fun left :: "progress \<Rightarrow> nat" where
  "left (Not_started n) = n"
| "left (Running n) = n"
| "left Closed = 0"

definition key_name :: "'d workload \<Rightarrow> nat \<Rightarrow> string" where
  "key_name wl i = table_key (table_name wl)
     (BuildKeyName (ordered_inserts wl) (zero_padding wl) (key_generator wl + of_nat i))"

definition load_inv :: "'d workload \<Rightarrow> nat \<Rightarrow> nat \<Rightarrow> ('d, 's \<times> string list) phase \<Rightarrow> bool" where
  "load_inv wl0 n tot ph \<longleftrightarrow> (case shared ph of (wl, s, ks) \<Rightarrow>
     ks = map (key_name wl0) [0..<length ks] \<and> key_generator wl = key_generator wl0 + of_nat (length ks)
     \<and> ordered_inserts wl = ordered_inserts wl0 \<and> zero_padding wl = zero_padding wl0 \<and> table_name wl = table_name wl0
     \<and> length ks + (\<Sum>i < n. left (todo ph i)) = tot \<and> (\<forall>i \<ge> n. todo ph i = Closed))"

lemma left_upd: "i < (n :: nat) \<Longrightarrow> (\<Sum>k < n. left ((f(i := x)) k)) + left (f i) = (\<Sum>k < n. left (f k)) + left x"
proof -
  assume i: "i < n"
  have "(\<Sum>k < n. left (g k)) = left (g i) + (\<Sum>k \<in> {..<n} - {i}. left (g k))" for g
    using i by (intro sum.remove) simp_all
  moreover have "(\<Sum>k \<in> {..<n} - {i}. left ((f(i := x)) k)) = (\<Sum>k \<in> {..<n} - {i}. left (f k))"
    by (intro sum.cong) auto
  ultimately show ?thesis by simp
qed

lemma DoInsert_logged:
  assumes "DoInsert L (logged db) t (wl, s, ks) = Inr (good, wl', s', ks')"
  shows "ks' = ks @ [key_name wl 0]" "key_generator wl' = key_generator wl + 1"
    "ordered_inserts wl' = ordered_inserts wl" "zero_padding wl' = zero_padding wl" "table_name wl' = table_name wl"
  using assms by (auto simp: DoInsert_def NextSequenceKey_def counter_next_def logged_def ok_Inr key_name_def same_keys_def Let_def
      dest!: BuildValues_same)

lemma load_step_inv:
  assumes I: "load_inv wl0 n tot ph" and st: "thread_step Loading L (logged db) base i ph = Some (Inr ph')"
  shows "load_inv wl0 n tot ph'"
proof (cases "todo ph i")
  case (Not_started m)
  then have i: "i < n" using I by (cases "i < n") (auto simp: load_inv_def split: prod.splits)
  then show ?thesis
    using I st left_upd [OF i, of "todo ph" "Running m"] Not_started
    by (auto simp: load_inv_def thread_step_def logged_def split: prod.splits)
next
  case Closed
  then show ?thesis using I st by (simp add: thread_step_def)
next
  case (Running m)
  then have i: "i < n" using I by (cases "i < n") (auto simp: load_inv_def split: prod.splits)
  obtain wl s ks where sh: "shared ph = (wl, s, ks)" by (cases "shared ph")
  show ?thesis
  proof (cases m)
    case 0
    then show ?thesis
      using I st left_upd [OF i, of "todo ph" Closed] Running i
      by (auto simp: load_inv_def thread_step_def logged_def split: prod.splits)
  next
    case (Suc k)
    obtain good wl' s' ks' where d: "DoInsert L (logged db) (base + i) (wl, s, ks) = Inr (good, wl', s', ks')"
      and ph': "ph' = ph\<lparr>todo := (todo ph)(i := Running k), oks := (oks ph)(i := oks ph i + (if good then 1 else 0)),
        shared := (wl', s', ks')\<rparr>"
      using st Running Suc sh
      by (cases "DoInsert L (logged db) (base + i) (wl, s, ks)") (auto simp: thread_step_def do_job_def)
    note l = DoInsert_logged [OF d]
    have "key_name wl 0 = key_name wl0 (length ks)"
      using I sh by (auto simp: load_inv_def key_name_def)
    then show ?thesis
      using I left_upd [OF i, of "todo ph" "Running k"] Running Suc i l unfolding ph'
      by (auto simp: load_inv_def sh)
  qed
qed

lemma load_run_inv:
  "load_inv wl0 n tot ph \<Longrightarrow> run_schedule Loading L (logged db) base is ph = Some (Inr ph') \<Longrightarrow> load_inv wl0 n tot ph'"
proof (induction "is" arbitrary: ph)
  case (Cons i "is")
  from Cons.prems(2) obtain ph1 where "thread_step Loading L (logged db) base i ph = Some (Inr ph1)"
    "run_schedule Loading L (logged db) base is ph1 = Some (Inr ph')"
    by (auto simp: then_ok_def split: option.splits sum.splits)
  then show ?case using Cons load_step_inv by blast
qed simp

text \<open>Fair schedules finish.\<close>

fun steps_left :: "progress \<Rightarrow> nat" where
  "steps_left (Not_started n) = n + 2"
| "steps_left (Running n) = n + 1"
| "steps_left Closed = 0"

definition constant_fields :: "'d workload \<Rightarrow> bool" where
  "constant_fields wl \<longleftrightarrow> (\<exists>c. field_len_generator wl = ConstGenerator c)"

definition inserts_answered :: "('s \<Rightarrow> bool) \<Rightarrow> 's db \<Rightarrow> bool" where
  "inserts_answered P db \<longleftrightarrow> (\<forall>t s. P s \<longrightarrow> P (db_init db t s) \<and> P (db_close db t s)
     \<and> (\<forall>table key vs. \<exists>r s'. db_insert db t table key vs s = Inr (r, s') \<and> P s'))"

lemma next_value_constant: "constant_fields wl \<Longrightarrow> \<exists>v wl'. next_value L wl = Inr (v, wl') \<and> constant_fields wl'"
  by (auto simp: constant_fields_def next_value_def draw_field_len_def Let_def)

lemma build_values_constant: "constant_fields wl \<Longrightarrow> \<exists>ps wl'. build_values L i n wl = Inr (ps, wl') \<and> constant_fields wl'"
proof (induction n arbitrary: i wl)
  case (Suc n)
  then obtain v wl1 where "next_value L wl = Inr (v, wl1)" "constant_fields wl1" using next_value_constant by blast
  moreover then obtain ps wl' where "build_values L (i + 1) n wl1 = Inr (ps, wl')" "constant_fields wl'"
    using Suc.IH by blast
  ultimately show ?case by simp
qed simp

lemma DoInsert_total:
  assumes "constant_fields (fst c)" "inserts_answered P db" "P (snd c)"
  shows "\<exists>good c'. DoInsert L db t c = Inr (good, c') \<and> constant_fields (fst c') \<and> P (snd c')"
proof -
  obtain wl s where c: "c = (wl, s)" by (cases c)
  let ?wl = "wl\<lparr>key_generator := key_generator wl + 1\<rparr>"
  let ?key = "BuildKeyName (ordered_inserts wl) (zero_padding wl) (key_generator wl)"
  have "constant_fields ?wl" using assms(1) c by (simp add: constant_fields_def)
  then obtain ps wl' where b: "BuildValues L ?wl = Inr (ps, wl')" "constant_fields wl'"
    using build_values_constant by (metis BuildValues_def)
  obtain r s' where "db_insert db t (table_name wl') ?key ps s = Inr (r, s')" "P s'"
    using assms(2,3) c unfolding inserts_answered_def by (metis snd_conv)
  then show ?thesis using b by (simp add: c DoInsert_def NextSequenceKey_def counter_next_def)
qed

lemma load_step_total:
  assumes "constant_fields (fst (shared ph))" "inserts_answered P db" "P (snd (shared ph))"
  shows "\<exists>ph'. thread_step Loading L db base i ph = Some (Inr ph') \<and> constant_fields (fst (shared ph')) \<and> P (snd (shared ph'))
    \<and> (\<forall>k. steps_left (todo ph' k) = steps_left (todo ph k) - (if k = i then 1 else 0))"
proof (cases "todo ph i")
  case (Not_started m)
  then show ?thesis using assms by (auto simp: thread_step_def inserts_answered_def split: prod.splits)
next
  case Closed
  then show ?thesis using assms(1,3) by (auto simp: thread_step_def)
next
  case (Running m)
  show ?thesis
  proof (cases m)
    case 0
    then show ?thesis using assms Running by (auto simp: thread_step_def inserts_answered_def split: prod.splits)
  next
    case (Suc k)
    obtain good c' where "DoInsert L db (base + i) (shared ph) = Inr (good, c')" "constant_fields (fst c')" "P (snd c')"
      using DoInsert_total [OF assms] by blast
    then show ?thesis using Running Suc by (auto simp: thread_step_def do_job_def)
  qed
qed

lemma load_run_total:
  assumes "inserts_answered P db"
  shows "constant_fields (fst (shared ph)) \<Longrightarrow> P (snd (shared ph)) \<Longrightarrow>
    \<exists>ph'. run_schedule Loading L db base is ph = Some (Inr ph') \<and> P (snd (shared ph'))
    \<and> (\<forall>k. steps_left (todo ph' k) = steps_left (todo ph k) - count_list is k)"
proof (induction "is" arbitrary: ph)
  case (Cons i "is")
  obtain ph1 where 1: "thread_step Loading L db base i ph = Some (Inr ph1)" "constant_fields (fst (shared ph1))" "P (snd (shared ph1))"
    "\<forall>k. steps_left (todo ph1 k) = steps_left (todo ph k) - (if k = i then 1 else 0)"
    using load_step_total [OF Cons.prems(1) assms Cons.prems(2)] by blast
  obtain ph' where 2: "run_schedule Loading L db base is ph1 = Some (Inr ph')" "P (snd (shared ph'))"
    "\<forall>k. steps_left (todo ph' k) = steps_left (todo ph1 k) - count_list is k" using Cons.IH [OF 1(2,3)] by blast
  have "\<forall>k. steps_left (todo ph' k) = steps_left (todo ph k) - count_list (i # is) k" using 1(4) 2(3) by auto
  then show ?case using 1(1) 2(1,2) by simp
qed simp

lemma steps_left_0: "steps_left p = 0 \<longleftrightarrow> p = Closed"
  by (cases p) auto

section \<open>Without the record of the keys\<close>

definition erase :: "('d, 's \<times> string list) phase \<Rightarrow> ('d, 's) phase" where
  "erase ph = \<lparr>todo = todo ph, oks = oks ph, shared = (case shared ph of (wl, s, ks) \<Rightarrow> (wl, s))\<rparr>"

lemma DoInsert_erase:
  "DoInsert L (logged db) t (wl, s, ks) = Inr (good, wl', s', ks') \<Longrightarrow> DoInsert L db t (wl, s) = Inr (good, wl', s')"
  by (auto simp: DoInsert_def NextSequenceKey_def counter_next_def logged_def ok_Inr Let_def)

lemma step_erase:
  assumes "thread_step Loading L (logged db) base i ph = Some (Inr ph')"
  shows "thread_step Loading L db base i (erase ph) = Some (Inr (erase ph'))"
proof -
  obtain wl s ks where sh: "shared ph = (wl, s, ks)" by (cases "shared ph")
  show ?thesis
  proof (cases "todo ph i")
    case (Running m)
    show ?thesis
    proof (cases m)
      case (Suc k)
      obtain good wl' s' ks' where d: "DoInsert L (logged db) (base + i) (wl, s, ks) = Inr (good, wl', s', ks')"
        and "ph' = ph\<lparr>todo := (todo ph)(i := Running k), oks := (oks ph)(i := oks ph i + (if good then 1 else 0)),
          shared := (wl', s', ks')\<rparr>"
        using assms Running Suc sh
        by (cases "DoInsert L (logged db) (base + i) (wl, s, ks)") (auto simp: thread_step_def do_job_def)
      then show ?thesis using Running Suc sh DoInsert_erase [OF d] by (simp add: thread_step_def do_job_def erase_def)
    qed (use assms Running sh in \<open>auto simp: thread_step_def erase_def logged_def\<close>)
  qed (use assms sh in \<open>auto simp: thread_step_def erase_def logged_def\<close>)
qed

lemma run_erase:
  "run_schedule Loading L (logged db) base is ph = Some (Inr ph')
    \<Longrightarrow> run_schedule Loading L db base is (erase ph) = Some (Inr (erase ph'))"
proof (induction "is" arbitrary: ph)
  case (Cons i "is")
  from Cons.prems obtain ph1 where "thread_step Loading L (logged db) base i ph = Some (Inr ph1)"
    "run_schedule Loading L (logged db) base is ph1 = Some (Inr ph')"
    by (auto simp: then_ok_def split: option.splits sum.splits)
  then show ?case using Cons.IH [of ph1] step_erase [of L db base i ph ph1] by simp
qed simp

text \<open>The loading phase as a whole.\<close>

lemma load_phase:
  assumes c: "constant_fields wl" and a: "inserts_answered P (logged db)" "P (s, [])"
    and fair: "\<forall>i < n. nat k + 2 \<le> count_list sched i"
  shows "\<exists>sm wl' s'. run_phase Loading L db base n k sched (wl, s) = Some (Inr (Some sm, wl', s'))
    \<and> P (s', map (key_name wl) [0..<n * nat k])"
proof -
  let ?ph = "start_phase n k (wl, s, [] :: string list)"
  have e: "erase ?ph = start_phase n k (wl, s)" by (simp add: erase_def start_phase_def)
  have cp: "constant_fields (fst (shared ?ph))" "P (snd (shared ?ph))" using c a(2) by (simp_all add: start_phase_def)
  obtain ph' where r: "run_schedule Loading L (logged db) base sched ?ph = Some (Inr ph')" "P (snd (shared ph'))"
    "\<forall>i. steps_left (todo ph' i) = steps_left (todo ?ph i) - count_list sched i"
    using load_run_total [OF a(1) cp, of L base sched] by (elim exE conjE) (rule that)
  have d: "todo ph' i = Closed" if "i < n" for i
    using r(3) fair that unfolding steps_left_0 [symmetric] by (simp add: start_phase_def)
  have "load_inv wl n (n * nat k) ?ph" by (simp add: load_inv_def start_phase_def)
  from load_run_inv [OF this r(1)] have I: "load_inv wl n (n * nat k) ph'" .
  obtain wl' s' ks where sh: "shared ph' = (wl', s', ks)" by (cases "shared ph'")
  have l: "length ks = n * nat k" using I sh d by (simp add: load_inv_def)
  have "ks = map (key_name wl) [0..<length ks]" using I unfolding load_inv_def sh by simp
  with l have "P (s', map (key_name wl) [0..<n * nat k])" using r(2) sh by (metis snd_conv)
  moreover have "run_schedule Loading L db base sched (start_phase n k (wl, s)) = Some (Inr (erase ph'))"
    using run_erase [OF r(1)] unfolding e .
  ultimately show ?thesis using d sh by (simp add: run_phase_def erase_def)
qed

section \<open>The keys of transactions\<close>

lemma draw_key_same: "draw_key L wl = Inr (v, wl') \<Longrightarrow> insert_key_sequence wl' = insert_key_sequence wl
    \<and> ordered_inserts wl' = ordered_inserts wl \<and> zero_padding wl' = zero_padding wl"
  by (auto simp: draw_key_def ok_Inr)

definition key_num_post :: "'d workload \<Rightarrow> ycsb_error + (64 word \<times> 'd workload) \<Rightarrow> bool" where
  "key_num_post wl r \<longleftrightarrow> (case r of Inl e \<Rightarrow> True | Inr (v, wl') \<Rightarrow> v \<le> counter_last (insert_key_sequence wl)
     \<and> insert_key_sequence wl' = insert_key_sequence wl \<and> ordered_inserts wl' = ordered_inserts wl \<and> zero_padding wl' = zero_padding wl)"

lemma next_key_num_post: "next_key_num L wl = Some r \<Longrightarrow> key_num_post wl r"
proof (rule next_key_num.raw_induct [where P = "\<lambda>L. key_num_post"])
  fix rec L and wl :: "'d workload" and r
  assume IH: "\<And>L b y. rec L b = Some y \<Longrightarrow> key_num_post b y"
    and s: "(case draw_key L wl of Inl e \<Rightarrow> Some (Inl e)
      | Inr (key_num, wl) \<Rightarrow> if counter_last (insert_key_sequence wl) < key_num then rec L wl else Some (Inr (key_num, wl))) = Some r"
  show "key_num_post wl r"
  proof (cases "draw_key L wl")
    case (Inl e)
    then have "r = Inl e" using s by simp
    then show ?thesis by (simp add: key_num_post_def)
  next
    case (Inr vw)
    obtain v wl1 where vw: "vw = (v, wl1)" by (cases vw)
    note d = draw_key_same [OF Inr [unfolded vw]]
    show ?thesis
    proof (cases "counter_last (insert_key_sequence wl1) < v")
      case True
      then have "rec L wl1 = Some r" using s Inr vw by simp
      from IH [OF this] show ?thesis using d by (cases r) (auto simp: key_num_post_def)
    next
      case False
      then have "r = Inr (v, wl1)" using s Inr vw by simp
      then show ?thesis using d False by (simp add: key_num_post_def)
    qed
  qed
qed

end
