(* ===== verification/Hashtable.thy ===== *)
theory Hashtable
  imports Ycsb_Client
begin

text \<open>
  The hash tables of lib: strings with their hash (string.h), the interface of
  string_hashtable.h as a record of operations and as a locale of the laws a client relies on,
  and the table of stl_hashtable.h and lock_stl_hashtable.h. A C string is a list of characters
  without NUL, a null pointer is \<open>None\<close>.
\<close>

section \<open>string.h\<close>

definition NUL :: char where
  "NUL = CHR 0x00"

text \<open>\<open>std::string::c_str\<close> as the C functions read it.\<close>

definition c_str :: "string \<Rightarrow> string" where
  "c_str s = takeWhile (\<lambda>c. c \<noteq> NUL) s"

text \<open>A character as a signed \<open>char\<close>, converted to \<open>uint64_t\<close>.\<close>

definition char_u64 :: "char \<Rightarrow> 64 word" where
  "char_u64 c = scast (word_of_nat (of_char c) :: 8 word)"

definition SDBMHash :: "string \<Rightarrow> 64 word" where
  "SDBMHash cstr = fold (\<lambda>c hash. char_u64 c + push_bit 6 hash + push_bit 16 hash - hash) cstr 0"

record hstring =
  hs_hash :: "64 word"
  hs_value :: string
  hs_len :: nat

text \<open>\<open>String::Wrap\<close>; \<open>String::Copy\<close> gives the same for a copy of the characters.\<close>

definition Wrap :: "string \<Rightarrow> hstring" where
  "Wrap cstr = \<lparr>hs_hash = SDBMHash cstr, hs_value = cstr, hs_len = length cstr\<rparr>"

definition hstring_eq :: "hstring \<Rightarrow> hstring \<Rightarrow> bool" where
  "hstring_eq a b = (if hs_hash a \<noteq> hs_hash b then False else hs_value a = hs_value b)"

lemma Wrap_eq [simp]: "hstring_eq (Wrap a) (Wrap b) \<longleftrightarrow> a = b"
  by (auto simp: hstring_eq_def Wrap_def)

section \<open>stl_hashtable.h\<close>

text \<open>
  The entries of the unordered map, in an order the standard leaves open (here that of
  insertion), and the number of copied strings that have not been freed.
\<close>

record 'v stl_hashtable =
  table_entries :: "(hstring \<times> 'v) list"
  live_copies :: nat

definition new_stl :: "'v stl_hashtable" where
  "new_stl = \<lparr>table_entries = [], live_copies = 0\<rparr>"

fun find_entry :: "hstring \<Rightarrow> (hstring \<times> 'v) list \<Rightarrow> 'v option" where
  "find_entry k [] = None"
| "find_entry k ((k', v) # es) = (if hstring_eq k' k then Some v else find_entry k es)"

definition stl_get :: "string \<Rightarrow> 'v stl_hashtable \<Rightarrow> 'v option" where
  "stl_get key t = find_entry (Wrap key) (table_entries t)"

definition stl_insert :: "string option \<Rightarrow> 'v \<Rightarrow> 'v stl_hashtable \<Rightarrow> bool \<times> 'v stl_hashtable" where
  "stl_insert key v t = (case key of None \<Rightarrow> (False, t)
     | Some key \<Rightarrow> (let skey = Wrap key; t = t\<lparr>live_copies := live_copies t + 1\<rparr> in
         if find_entry skey (table_entries t) = None then (True, t\<lparr>table_entries := table_entries t @ [(skey, v)]\<rparr>)
         else (False, t)))"

fun set_entry :: "hstring \<Rightarrow> 'v \<Rightarrow> (hstring \<times> 'v) list \<Rightarrow> (hstring \<times> 'v) list" where
  "set_entry k v [] = []"
| "set_entry k v ((k', v') # es) = (if hstring_eq k' k then (k', v) # es else (k', v') # set_entry k v es)"

definition stl_update :: "string \<Rightarrow> 'v \<Rightarrow> 'v stl_hashtable \<Rightarrow> 'v option \<times> 'v stl_hashtable" where
  "stl_update key v t = (case stl_get key t of None \<Rightarrow> (None, t)
     | Some old \<Rightarrow> (Some old, t\<lparr>table_entries := set_entry (Wrap key) v (table_entries t)\<rparr>))"

fun erase_entry :: "hstring \<Rightarrow> (hstring \<times> 'v) list \<Rightarrow> (hstring \<times> 'v) list" where
  "erase_entry k [] = []"
| "erase_entry k ((k', v) # es) = (if hstring_eq k' k then es else (k', v) # erase_entry k es)"

definition stl_remove :: "string \<Rightarrow> 'v stl_hashtable \<Rightarrow> 'v option \<times> 'v stl_hashtable" where
  "stl_remove key t = (case stl_get key t of None \<Rightarrow> (None, t)
     | Some old \<Rightarrow> (Some old, t\<lparr>table_entries := erase_entry (Wrap key) (table_entries t), live_copies := live_copies t - 1\<rparr>))"

text \<open>\<open>Entries(key, n)\<close>: from the beginning or from the key on, at most \<open>n\<close>; \<open>None\<close> is the default -1.\<close>

fun entries_from :: "hstring \<Rightarrow> (hstring \<times> 'v) list \<Rightarrow> (hstring \<times> 'v) list" where
  "entries_from k [] = []"
| "entries_from k ((k', v) # es) = (if hstring_eq k' k then (k', v) # es else entries_from k es)"

definition stl_entries :: "string option \<Rightarrow> nat option \<Rightarrow> 'v stl_hashtable \<Rightarrow> (string \<times> 'v) list" where
  "stl_entries key n t = (let es = (case key of None \<Rightarrow> table_entries t | Some k \<Rightarrow> entries_from (Wrap k) (table_entries t));
     es = (case n of None \<Rightarrow> es | Some n \<Rightarrow> take n es) in map (\<lambda>(k, v). (hs_value k, v)) es)"

definition stl_size :: "'v stl_hashtable \<Rightarrow> nat" where
  "stl_size t = length (table_entries t)"

section \<open>The interface\<close>

text \<open>The virtual functions of \<open>StringHashtable\<close>; a lookup has no effect.\<close>

record ('t, 'v) table_ops =
  t_new :: 't
  t_get :: "string \<Rightarrow> 't \<Rightarrow> 'v option"
  t_insert :: "string option \<Rightarrow> 'v \<Rightarrow> 't \<Rightarrow> bool \<times> 't"
  t_update :: "string \<Rightarrow> 'v \<Rightarrow> 't \<Rightarrow> 'v option \<times> 't"
  t_remove :: "string \<Rightarrow> 't \<Rightarrow> 'v option \<times> 't"
  t_entries :: "string option \<Rightarrow> nat option \<Rightarrow> 't \<Rightarrow> (string \<times> 'v) list"
  t_size :: "'t \<Rightarrow> nat"

text \<open>
  \<open>LockStlHashtable\<close>: every operation is that of \<open>StlHashtable\<close> between taking and releasing
  the lock of the table, so that it is one step of its thread.
\<close>

definition lock_stl_ops :: "('v stl_hashtable, 'v) table_ops" where
  "lock_stl_ops = \<lparr>t_new = new_stl, t_get = stl_get, t_insert = stl_insert, t_update = stl_update,
     t_remove = stl_remove, t_entries = stl_entries, t_size = stl_size\<rparr>"

locale string_hashtable =
  fixes ops :: "('t, 'v) table_ops" and good :: "'t \<Rightarrow> bool" and content :: "'t \<Rightarrow> string \<rightharpoonup> 'v"
  assumes new_law: "good (t_new ops)" "content (t_new ops) = Map.empty"
    and get_law: "good t \<Longrightarrow> t_get ops k t = content t k"
    and insert_law: "good t \<Longrightarrow> t_insert ops (Some k) v t = (b, t') \<Longrightarrow>
      good t' \<and> (b \<longleftrightarrow> content t k = None) \<and> content t' = (if b then (content t)(k \<mapsto> v) else content t)"
    and update_law: "good t \<Longrightarrow> t_update ops k v t = (r, t') \<Longrightarrow>
      good t' \<and> r = content t k \<and> content t' = (if r = None then content t else (content t)(k \<mapsto> v))"
    and remove_law: "good t \<Longrightarrow> t_remove ops k t = (r, t') \<Longrightarrow>
      good t' \<and> r = content t k \<and> content t' = (content t)(k := None)"
    and entries_law: "good t \<Longrightarrow> distinct (map fst (t_entries ops None None t)) \<and> map_of (t_entries ops None None t) = content t"
    and size_law: "good t \<Longrightarrow> t_size ops t = length (t_entries ops None None t)"
begin

text \<open>An inserted entry is found, cannot be inserted again, and the size is the number of keys.\<close>

lemma size_card: "good t \<Longrightarrow> t_size ops t = card (dom (content t))"
  using entries_law [of t] size_law [of t] by (metis distinct_card dom_map_of_conv_image_fst length_map set_map)

lemma get_after_insert: "good t \<Longrightarrow> content t k = None \<Longrightarrow> t_get ops k (snd (t_insert ops (Some k) v t)) = Some v"
proof -
  assume t: "good t" "content t k = None"
  have "t_insert ops (Some k) v t = (fst (t_insert ops (Some k) v t), snd (t_insert ops (Some k) v t))" by simp
  from insert_law [OF t(1) this] t(2) show ?thesis by (simp add: get_law)
qed

lemma insert_twice: "good t \<Longrightarrow> content t k = None \<Longrightarrow> \<not> fst (t_insert ops (Some k) w (snd (t_insert ops (Some k) v t)))"
proof -
  assume t: "good t" "content t k = None"
  define t1 where "t1 = snd (t_insert ops (Some k) v t)"
  have "good t1 \<and> content t1 = (content t)(k \<mapsto> v)"
    using insert_law [OF t(1), of k v "fst (t_insert ops (Some k) v t)" t1] t(2) by (auto simp: t1_def)
  then show ?thesis
    using insert_law [of t1 k w "fst (t_insert ops (Some k) w t1)" "snd (t_insert ops (Some k) w t1)"] by (auto simp: t1_def)
qed

end

section \<open>The table provides the interface\<close>

definition wrapped :: "(hstring \<times> 'v) list \<Rightarrow> bool" where
  "wrapped es \<longleftrightarrow> (\<forall>(k, v) \<in> set es. k = Wrap (hs_value k))"

definition stl_good :: "'v stl_hashtable \<Rightarrow> bool" where
  "stl_good t \<longleftrightarrow> wrapped (table_entries t) \<and> distinct (map fst (table_entries t))
     \<and> length (table_entries t) \<le> live_copies t"

definition stl_content :: "'v stl_hashtable \<Rightarrow> string \<rightharpoonup> 'v" where
  "stl_content t k = find_entry (Wrap k) (table_entries t)"

lemma wrapped_Cons [simp]: "wrapped ((k, v) # es) \<longleftrightarrow> k = Wrap (hs_value k) \<and> wrapped es" "wrapped []"
  by (simp_all add: wrapped_def)

lemma hs_value_Wrap [simp]: "hs_value (Wrap k) = k"
  by (simp add: Wrap_def)

lemma find_wrapped: "wrapped es \<Longrightarrow> find_entry (Wrap k) es = map_of (map (\<lambda>(k, v). (hs_value k, v)) es) k"
proof (induction es)
  case (Cons e es)
  obtain x v where e: "e = (x, v)" by (cases e)
  then obtain y where "x = Wrap y" using Cons.prems by auto
  then show ?case using Cons by (auto simp: e)
qed simp

lemma distinct_values: "wrapped es \<Longrightarrow> distinct (map fst es) \<Longrightarrow> distinct (map fst (map (\<lambda>(k, v). (hs_value k, v)) es))"
proof (induction es)
  case (Cons e es)
  obtain x v where e: "e = (x, v)" by (cases e)
  have "x = Wrap (hs_value x)" "wrapped es" using Cons.prems(1) by (auto simp: e)
  moreover have "hs_value x \<notin> fst ` (\<lambda>(k, v). (hs_value k, v)) ` set es"
  proof
    assume "hs_value x \<in> fst ` (\<lambda>(k, v). (hs_value k, v)) ` set es"
    then obtain z u where z: "(z, u) \<in> set es" "hs_value z = hs_value x" by auto
    then have "z = Wrap (hs_value z)" using Cons.prems(1) by (auto simp: e wrapped_def)
    then have "z = x" using z(2) \<open>x = Wrap (hs_value x)\<close> by metis
    then show False using z(1) Cons.prems(2) by (force simp: e)
  qed
  ultimately show ?case using Cons by (auto simp: e)
qed simp

lemma set_entry_keys [simp]: "map fst (set_entry k v es) = map fst es"
  by (induction k v es rule: set_entry.induct) auto

lemma set_entry_wrapped: "wrapped es \<Longrightarrow> wrapped (set_entry k v es)"
  by (induction k v es rule: set_entry.induct) auto

lemma set_entry_find:
  "wrapped es \<Longrightarrow> find_entry (Wrap j) (set_entry (Wrap k) v es)
    = (if j = k \<and> find_entry (Wrap k) es \<noteq> None then Some v else find_entry (Wrap j) es)"
proof (induction es)
  case (Cons e es)
  obtain x u where e: "e = (x, u)" by (cases e)
  then obtain y where "x = Wrap y" using Cons.prems by auto
  then show ?case using Cons by (auto simp: e)
qed simp

lemma erase_entry_wrapped: "wrapped es \<Longrightarrow> wrapped (erase_entry k es)"
  by (induction k es rule: erase_entry.induct) auto

lemma erase_entry_keys: "set (map fst (erase_entry k es)) \<subseteq> set (map fst es)"
  by (induction k es rule: erase_entry.induct) auto

lemma erase_entry_distinct: "distinct (map fst es) \<Longrightarrow> distinct (map fst (erase_entry k es))"
  using erase_entry_keys by (induction k es rule: erase_entry.induct) fastforce+

lemma find_None: "wrapped es \<Longrightarrow> find_entry (Wrap k) es = None \<longleftrightarrow> Wrap k \<notin> fst ` set es"
proof (induction es)
  case (Cons e es)
  obtain x u where e: "e = (x, u)" by (cases e)
  then obtain y where y: "x = Wrap y" using Cons.prems by auto
  have "Wrap k = Wrap y \<longleftrightarrow> k = y" by (metis hs_value_Wrap)
  then show ?case using Cons y by (auto simp: e)
qed simp

lemma erase_entry_find:
  "wrapped es \<Longrightarrow> distinct (map fst es) \<Longrightarrow> find_entry (Wrap j) (erase_entry (Wrap k) es)
    = (if j = k then None else find_entry (Wrap j) es)"
proof (induction es)
  case (Cons e es)
  obtain x u where e: "e = (x, u)" by (cases e)
  then obtain y where y: "x = Wrap y" using Cons.prems by auto
  have "find_entry (Wrap y) es = None" using Cons.prems find_None [of es y] by (auto simp: e y)
  then show ?case using Cons y by (auto simp: e)
qed simp

lemma erase_entry_length: "find_entry k es \<noteq> None \<Longrightarrow> Suc (length (erase_entry k es)) = length es"
  by (induction k es rule: erase_entry.induct) auto

lemma find_append: "find_entry k (es @ [(x, v)]) = (case find_entry k es of Some u \<Rightarrow> Some u
    | None \<Rightarrow> if hstring_eq x k then Some v else None)"
  by (induction es) auto

interpretation stl: string_hashtable lock_stl_ops stl_good stl_content
proof
  fix t :: "'v stl_hashtable" and k v b t' r
  assume g: "stl_good t"
  then have w: "wrapped (table_entries t)" and d: "distinct (map fst (table_entries t))"
    and n: "length (table_entries t) \<le> live_copies t" by (simp_all add: stl_good_def)
  show "t_get lock_stl_ops k t = stl_content t k" by (simp add: lock_stl_ops_def stl_get_def stl_content_def)
  show "distinct (map fst (t_entries lock_stl_ops None None t)) \<and> map_of (t_entries lock_stl_ops None None t) = stl_content t"
    using distinct_values [OF w d] find_wrapped [OF w]
    by (auto simp: lock_stl_ops_def stl_entries_def stl_content_def)
  show "t_size lock_stl_ops t = length (t_entries lock_stl_ops None None t)"
    by (simp add: lock_stl_ops_def stl_entries_def stl_size_def)
  show "stl_good t' \<and> (b \<longleftrightarrow> stl_content t k = None) \<and> stl_content t' = (if b then (stl_content t)(k \<mapsto> v) else stl_content t)"
    if "t_insert lock_stl_ops (Some k) v t = (b, t')"
  proof (cases "find_entry (Wrap k) (table_entries t) = None")
    case True
    then have "b" "t' = t\<lparr>live_copies := live_copies t + 1, table_entries := table_entries t @ [(Wrap k, v)]\<rparr>"
      using that by (auto simp: lock_stl_ops_def stl_insert_def Let_def)
    moreover have "Wrap k \<notin> fst ` set (table_entries t)" using True find_None [OF w] by blast
    ultimately show ?thesis
      using w d n True by (auto simp: stl_good_def wrapped_def stl_content_def find_append fun_eq_iff split: option.split)
  next
    case False
    then show ?thesis
      using that w d n by (auto simp: lock_stl_ops_def stl_insert_def Let_def stl_good_def stl_content_def fun_eq_iff)
  qed
  show "stl_good t' \<and> r = stl_content t k \<and> stl_content t' = (if r = None then stl_content t else (stl_content t)(k \<mapsto> v))"
    if "t_update lock_stl_ops k v t = (r, t')"
    using that g set_entry_wrapped [OF w] set_entry_find [OF w] d n
    by (auto simp: lock_stl_ops_def stl_update_def stl_get_def stl_good_def stl_content_def fun_eq_iff
      length_map [of fst, symmetric] simp del: length_map split: option.splits)
  show "stl_good t' \<and> r = stl_content t k \<and> stl_content t' = (stl_content t)(k := None)"
    if "t_remove lock_stl_ops k t = (r, t')"
    using that g erase_entry_wrapped [OF w] erase_entry_find [OF w d] erase_entry_distinct [OF d] n
      erase_entry_length [of "Wrap k" "table_entries t"]
    by (auto simp: lock_stl_ops_def stl_remove_def stl_get_def stl_good_def stl_content_def fun_eq_iff
      split: option.splits)
qed (auto simp: lock_stl_ops_def new_stl_def stl_good_def stl_content_def)

end
