(* ===== verification/Hashtable_DB.thy ===== *)
theory Hashtable_DB
  imports Hashtable
begin

text \<open>
  db/hashtable_db.cc on the interface of the tables: a table of records whose values are pointers
  to tables of fields, in a store of their own. \<open>K\<close> and \<open>F\<close> are the operations of the two kinds
  of tables; \<open>lock_stl_db\<close> is the database of db/lock_stl_db.h. An access through a pointer that
  is not in the store is undefined.
\<close>

section \<open>State\<close>

record ('k, 'f) hashtable_db =
  key_table :: 'k
  field_tables :: "nat \<rightharpoonup> 'f"
  next_table_ptr :: nat
  live_strings :: nat

type_synonym ('k, 'f) hdb = "('k, 'f) hashtable_db"

definition NewFieldHashtable :: "('f, string) table_ops \<Rightarrow> ('k, 'f) hdb \<Rightarrow> nat \<times> ('k, 'f) hdb" where
  "NewFieldHashtable F s = (next_table_ptr s,
     s\<lparr>field_tables := (field_tables s)(next_table_ptr s \<mapsto> t_new F), next_table_ptr := next_table_ptr s + 1\<rparr>)"

text \<open>\<open>CopyString\<close> and \<open>DeleteString\<close>: the characters up to a NUL, and the count of copies.\<close>

definition CopyString :: "string \<Rightarrow> ('k, 'f) hdb \<Rightarrow> string \<times> ('k, 'f) hdb" where
  "CopyString str s = (c_str str, s\<lparr>live_strings := live_strings s + 1\<rparr>)"

definition DeleteStrings :: "nat \<Rightarrow> ('k, 'f) hdb \<Rightarrow> ('k, 'f) hdb" where
  "DeleteStrings n s = s\<lparr>live_strings := live_strings s - n\<rparr>"

definition DeleteFieldHashtable :: "('f, string) table_ops \<Rightarrow> nat \<Rightarrow> 'f \<Rightarrow> ('k, 'f) hdb \<Rightarrow> ('k, 'f) hdb" where
  "DeleteFieldHashtable F p ft s = (let s = DeleteStrings (length (t_entries F None None ft)) s
     in s\<lparr>field_tables := (field_tables s)(p := None)\<rparr>)"

section \<open>Operations\<close>

definition get_fields :: "('f, string) table_ops \<Rightarrow> string list option \<Rightarrow> 'f \<Rightarrow> fields" where
  "get_fields F fs ft = (case fs of None \<Rightarrow> t_entries F None None ft
     | Some names \<Rightarrow> concat (map (\<lambda>field. case t_get F (c_str field) ft of None \<Rightarrow> [] | Some v \<Rightarrow> [(field, v)]) names))"

definition hdb_read :: "('k, nat) table_ops \<Rightarrow> ('f, string) table_ops \<Rightarrow> string \<Rightarrow> string \<Rightarrow> string list option \<Rightarrow> ('k, 'f) hdb
    \<Rightarrow> (('k, 'f) hdb, int \<times> fields) db_result" where
  "hdb_read K F table key fs s = (case t_get K (c_str (table_key table key)) (key_table s) of
     None \<Rightarrow> Inr ((kErrorNoData, []), s)
   | Some p \<Rightarrow> (case field_tables s p of None \<Rightarrow> Inl Undefined_behaviour
       | Some ft \<Rightarrow> Inr ((kOK, get_fields F fs ft), s)))"

fun scan_tables :: "('f, string) table_ops \<Rightarrow> string list option \<Rightarrow> (nat \<rightharpoonup> 'f) \<Rightarrow> (string \<times> nat) list \<Rightarrow> ycsb_error + fields list" where
  "scan_tables F fs h [] = Inr []"
| "scan_tables F fs h ((k, p) # ps) = (case h p of None \<Rightarrow> Inl Undefined_behaviour
     | Some ft \<Rightarrow> ok (scan_tables F fs h ps) (\<lambda>rs. Inr (get_fields F fs ft # rs)))"

text \<open>A negative length is converted to a \<open>size_t\<close> beyond any table.\<close>

definition hdb_scan :: "('k, nat) table_ops \<Rightarrow> ('f, string) table_ops \<Rightarrow> string \<Rightarrow> string \<Rightarrow> int \<Rightarrow> string list option \<Rightarrow> ('k, 'f) hdb
    \<Rightarrow> (('k, 'f) hdb, int \<times> fields list) db_result" where
  "hdb_scan K F table key len fs s =
     ok (scan_tables F fs (field_tables s)
       (t_entries K (Some (c_str (table_key table key))) (if len < 0 then None else Some (nat len)) (key_table s)))
     (\<lambda>rs. Inr ((kOK, rs), s))"

definition write_table :: "nat \<Rightarrow> 'f \<Rightarrow> ('k, 'f) hdb \<Rightarrow> ('k, 'f) hdb" where
  "write_table p ft s = s\<lparr>field_tables := (field_tables s)(p \<mapsto> ft)\<rparr>"

text \<open>The record for a key, made and entered when there is none; the result of entering it is ignored.\<close>

definition new_record :: "('k, nat) table_ops \<Rightarrow> ('f, string) table_ops \<Rightarrow> string \<Rightarrow> ('k, 'f) hdb \<Rightarrow> nat \<times> ('k, 'f) hdb" where
  "new_record K F key s = (let (p, s) = NewFieldHashtable F s
     in (p, s\<lparr>key_table := snd (t_insert K (Some key) p (key_table s))\<rparr>))"

text \<open>The loops of \<open>Update\<close> over the values: for a new record, and for one that is there.\<close>

fun update_new :: "('f, string) table_ops \<Rightarrow> nat \<Rightarrow> fields \<Rightarrow> ('k, 'f) hdb \<Rightarrow> ycsb_error + ('k, 'f) hdb" where
  "update_new F p [] s = Inr s"
| "update_new F p ((name, v) # vs) s = (let (v, s) = CopyString v s in
     case field_tables s p of None \<Rightarrow> Inl Undefined_behaviour
     | Some ft \<Rightarrow> update_new F p vs (write_table p (snd (t_insert F (Some (c_str name)) v ft)) s))"

fun update_old :: "('f, string) table_ops \<Rightarrow> nat \<Rightarrow> fields \<Rightarrow> ('k, 'f) hdb \<Rightarrow> ycsb_error + ('k, 'f) hdb" where
  "update_old F p [] s = Inr s"
| "update_old F p ((name, v) # vs) s = (let (v, s) = CopyString v s in
     case field_tables s p of None \<Rightarrow> Inl Undefined_behaviour
     | Some ft \<Rightarrow> (let (old, ft) = t_update F (c_str name) v ft in
         case old of None \<Rightarrow> update_old F p vs (write_table p (snd (t_insert F (Some (c_str name)) v ft)) s)
         | Some _ \<Rightarrow> update_old F p vs (DeleteStrings 1 (write_table p ft s))))"

definition hdb_update :: "('k, nat) table_ops \<Rightarrow> ('f, string) table_ops \<Rightarrow> string \<Rightarrow> string \<Rightarrow> fields \<Rightarrow> ('k, 'f) hdb
    \<Rightarrow> (('k, 'f) hdb, int) db_result" where
  "hdb_update K F table key vs s = (let key_index = c_str (table_key table key) in
     case t_get K key_index (key_table s) of
       None \<Rightarrow> (let (p, s) = new_record K F key_index s in ok (update_new F p vs s) (\<lambda>s. Inr (kOK, s)))
     | Some p \<Rightarrow> ok (update_old F p vs s) (\<lambda>s. Inr (kOK, s)))"

fun insert_loop :: "('f, string) table_ops \<Rightarrow> nat \<Rightarrow> fields \<Rightarrow> ('k, 'f) hdb \<Rightarrow> (('k, 'f) hdb, int) db_result" where
  "insert_loop F p [] s = Inr (kOK, s)"
| "insert_loop F p ((name, v) # vs) s = (let (v, s) = CopyString v s in
     case field_tables s p of None \<Rightarrow> Inl Undefined_behaviour
     | Some ft \<Rightarrow> (let (good, ft) = t_insert F (Some (c_str name)) v ft; s = write_table p ft s in
         if \<not> good then Inr (kErrorConflict, DeleteStrings 1 s) else insert_loop F p vs s))"

definition hdb_insert :: "('k, nat) table_ops \<Rightarrow> ('f, string) table_ops \<Rightarrow> string \<Rightarrow> string \<Rightarrow> fields \<Rightarrow> ('k, 'f) hdb
    \<Rightarrow> (('k, 'f) hdb, int) db_result" where
  "hdb_insert K F table key vs s = (let key_index = c_str (table_key table key);
     (p, s) = (case t_get K key_index (key_table s) of None \<Rightarrow> new_record K F key_index s | Some p \<Rightarrow> (p, s))
     in insert_loop F p vs s)"

definition hdb_delete :: "('k, nat) table_ops \<Rightarrow> ('f, string) table_ops \<Rightarrow> string \<Rightarrow> string \<Rightarrow> ('k, 'f) hdb
    \<Rightarrow> (('k, 'f) hdb, int) db_result" where
  "hdb_delete K F table key s =
     (let (r, kt) = t_remove K (c_str (table_key table key)) (key_table s); s = s\<lparr>key_table := kt\<rparr> in
      case r of None \<Rightarrow> Inr (kErrorNoData, s)
      | Some p \<Rightarrow> (case field_tables s p of None \<Rightarrow> Inl Undefined_behaviour
          | Some ft \<Rightarrow> Inr (kOK, DeleteFieldHashtable F p ft s)))"

text \<open>The database object; \<open>Init\<close>, \<open>Close\<close> and \<open>Load2Switch\<close> are those of core/db.h.\<close>

definition hashtable_vtable :: "('k, nat) table_ops \<Rightarrow> ('f, string) table_ops \<Rightarrow> ('k, 'f) hdb db" where
  "hashtable_vtable K F = \<lparr>db_init = (\<lambda>_ s. s), db_close = (\<lambda>_ s. s), db_read = (\<lambda>_. hdb_read K F),
     db_scan = (\<lambda>_. hdb_scan K F), db_update = (\<lambda>_. hdb_update K F), db_insert = (\<lambda>_. hdb_insert K F),
     db_delete = (\<lambda>_. hdb_delete K F), db_load2switch = (\<lambda>_ s. Inr (kErrorNoData, s))\<rparr>"

type_synonym lock_stl_state = "(nat stl_hashtable, string stl_hashtable) hdb"

definition lock_stl_db :: "lock_stl_state db" where
  "lock_stl_db = hashtable_vtable lock_stl_ops lock_stl_ops"

definition new_LockStlDB :: lock_stl_state where
  "new_LockStlDB = \<lparr>key_table = t_new lock_stl_ops, field_tables = Map.empty, next_table_ptr = 0, live_strings = 0\<rparr>"

section \<open>One insertion among others\<close>

text \<open>
  \<open>Insert\<close> as the steps of a thread, each of which holds the lock of one table: looking for the
  record, entering a new one, inserting each field.
\<close>

datatype insertion = Looking string fields | Entering string fields nat | Inserting nat fields | Returned int

fun insertion_step :: "('k, nat) table_ops \<Rightarrow> ('f, string) table_ops \<Rightarrow> insertion \<Rightarrow> ('k, 'f) hdb
    \<Rightarrow> ycsb_error + (insertion \<times> ('k, 'f) hdb)" where
  "insertion_step K F (Looking key vs) s = (case t_get K key (key_table s) of
     None \<Rightarrow> (let (p, s) = NewFieldHashtable F s in Inr (Entering key vs p, s))
   | Some p \<Rightarrow> Inr (Inserting p vs, s))"
| "insertion_step K F (Entering key vs p) s =
     Inr (Inserting p vs, s\<lparr>key_table := snd (t_insert K (Some key) p (key_table s))\<rparr>)"
| "insertion_step K F (Inserting p []) s = Inr (Returned kOK, s)"
| "insertion_step K F (Inserting p ((name, v) # vs)) s = (let (v, s) = CopyString v s in
     case field_tables s p of None \<Rightarrow> Inl Undefined_behaviour
     | Some ft \<Rightarrow> (let (good, ft) = t_insert F (Some (c_str name)) v ft; s = write_table p ft s in
         if \<not> good then Inr (Returned kErrorConflict, DeleteStrings 1 s) else Inr (Inserting p vs, s)))"
| "insertion_step K F (Returned r) s = Inr (Returned r, s)"

text \<open>Threads take steps in the order of a schedule.\<close>

fun insertions :: "('k, nat) table_ops \<Rightarrow> ('f, string) table_ops \<Rightarrow> nat list \<Rightarrow> (nat \<Rightarrow> insertion) \<times> ('k, 'f) hdb
    \<Rightarrow> ycsb_error + ((nat \<Rightarrow> insertion) \<times> ('k, 'f) hdb)" where
  "insertions K F [] ts = Inr ts"
| "insertions K F (i # is) (ts, s) = ok (insertion_step K F (ts i) s) (\<lambda>(t, s). insertions K F is (ts(i := t), s))"

end
