(* ===== verification/Hashtable_Map.thy ===== *)
theory Hashtable_Map
  imports Hashtable_DB
begin

text \<open>
  The hash table database promises a map from keys to records, which are maps from field names
  to values: for tables that keep the laws of \<open>string_hashtable\<close>, each operation answers and
  changes this map as \<open>spec_accepts\<close> says.
\<close>

section \<open>The promise\<close>

type_synonym record_map = "string \<rightharpoonup> string"
type_synonym database_map = "string \<rightharpoonup> record_map"

text \<open>Insertion stops at the first field that is there; what came before it stays.\<close>

fun spec_insert_fields :: "fields \<Rightarrow> record_map \<Rightarrow> int \<times> record_map" where
  "spec_insert_fields [] r = (kOK, r)"
| "spec_insert_fields ((n, v) # vs) r = (if r (c_str n) = None
     then spec_insert_fields vs (r(c_str n \<mapsto> c_str v)) else (kErrorConflict, r))"

text \<open>In a new record the first value of a field counts, in an old one the last.\<close>

fun new_fields :: "fields \<Rightarrow> record_map \<Rightarrow> record_map" where
  "new_fields [] r = r"
| "new_fields ((n, v) # vs) r = new_fields vs (if r (c_str n) = None then r(c_str n \<mapsto> c_str v) else r)"

fun set_fields :: "fields \<Rightarrow> record_map \<Rightarrow> record_map" where
  "set_fields [] r = r"
| "set_fields ((n, v) # vs) r = set_fields vs (r(c_str n \<mapsto> c_str v))"

definition spec_insert :: "string \<Rightarrow> fields \<Rightarrow> database_map \<Rightarrow> int \<times> database_map" where
  "spec_insert k vs m = (let (st, r) = spec_insert_fields vs (case m k of None \<Rightarrow> Map.empty | Some r \<Rightarrow> r) in (st, m(k \<mapsto> r)))"

definition spec_update :: "string \<Rightarrow> fields \<Rightarrow> database_map \<Rightarrow> database_map" where
  "spec_update k vs m = m(k \<mapsto> (case m k of None \<Rightarrow> new_fields vs Map.empty | Some r \<Rightarrow> set_fields vs r))"

definition read_answers :: "string list option \<Rightarrow> record_map \<Rightarrow> fields \<Rightarrow> bool" where
  "read_answers fs r out \<longleftrightarrow> (case fs of None \<Rightarrow> distinct (map fst out) \<and> map_of out = r
     | Some names \<Rightarrow> out = concat (map (\<lambda>n. case r (c_str n) of None \<Rightarrow> [] | Some v \<Rightarrow> [(n, v)]) names))"

datatype db_command = Do_read string string "string list option" | Do_update string string fields
  | Do_insert string string fields | Do_delete string string

datatype db_answer = Read_fields int fields | Status int

fun db_do :: "'s db \<Rightarrow> nat \<Rightarrow> db_command \<Rightarrow> 's \<Rightarrow> ('s, db_answer) db_result" where
  "db_do db t (Do_read table key fs) s = ok (db_read db t table key fs s) (\<lambda>((st, r), s). Inr (Read_fields st r, s))"
| "db_do db t (Do_update table key vs) s = ok (db_update db t table key vs s) (\<lambda>(st, s). Inr (Status st, s))"
| "db_do db t (Do_insert table key vs) s = ok (db_insert db t table key vs s) (\<lambda>(st, s). Inr (Status st, s))"
| "db_do db t (Do_delete table key) s = ok (db_delete db t table key s) (\<lambda>(st, s). Inr (Status st, s))"

fun db_run :: "'s db \<Rightarrow> nat \<Rightarrow> db_command list \<Rightarrow> 's \<Rightarrow> ('s, db_answer list) db_result" where
  "db_run db t [] s = Inr ([], s)"
| "db_run db t (c # cs) s = ok (db_do db t c s) (\<lambda>(a, s). ok (db_run db t cs s) (\<lambda>(as, s). Inr (a # as, s)))"

text \<open>What the map answers to a command, and the map after it.\<close>

definition command_key :: "string \<Rightarrow> string \<Rightarrow> string" where
  "command_key table key = c_str (table_key table key)"

fun spec_answer :: "db_command \<Rightarrow> database_map \<Rightarrow> db_answer \<Rightarrow> bool" where
  "spec_answer (Do_read table key fs) m a = (\<exists>st out. a = Read_fields st out \<and> (case m (command_key table key) of
     None \<Rightarrow> st = kErrorNoData \<and> out = [] | Some r \<Rightarrow> st = kOK \<and> read_answers fs r out))"
| "spec_answer (Do_update table key vs) m a = (a = Status kOK)"
| "spec_answer (Do_insert table key vs) m a = (a = Status (fst (spec_insert (command_key table key) vs m)))"
| "spec_answer (Do_delete table key) m a = (a = Status (if m (command_key table key) = None then kErrorNoData else kOK))"

fun spec_after :: "db_command \<Rightarrow> database_map \<Rightarrow> database_map" where
  "spec_after (Do_read table key fs) m = m"
| "spec_after (Do_update table key vs) m = spec_update (command_key table key) vs m"
| "spec_after (Do_insert table key vs) m = snd (spec_insert (command_key table key) vs m)"
| "spec_after (Do_delete table key) m = m(command_key table key := None)"

fun spec_accepts :: "db_command list \<Rightarrow> db_answer list \<Rightarrow> database_map \<Rightarrow> bool" where
  "spec_accepts [] as m \<longleftrightarrow> as = []"
| "spec_accepts (c # cs) [] m \<longleftrightarrow> False"
| "spec_accepts (c # cs) (a # as) m \<longleftrightarrow> spec_answer c m a \<and> spec_accepts cs as (spec_after c m)"

section \<open>The map in a state\<close>

definition hdb_abs :: "('k \<Rightarrow> string \<rightharpoonup> nat) \<Rightarrow> ('f \<Rightarrow> record_map) \<Rightarrow> ('k, 'f) hdb \<Rightarrow> database_map" where
  "hdb_abs cK cF s k = (case cK (key_table s) k of None \<Rightarrow> None | Some p \<Rightarrow> map_option cF (field_tables s p))"

definition hdb_ok :: "('k \<Rightarrow> bool) \<Rightarrow> ('k \<Rightarrow> string \<rightharpoonup> nat) \<Rightarrow> ('f \<Rightarrow> bool) \<Rightarrow> ('k, 'f) hdb \<Rightarrow> bool" where
  "hdb_ok gK cK gF s \<longleftrightarrow> gK (key_table s) \<and> inj_on (cK (key_table s)) (dom (cK (key_table s)))
     \<and> (\<forall>k p. cK (key_table s) k = Some p \<longrightarrow> p < next_table_ptr s \<and> (\<exists>ft. field_tables s p = Some ft \<and> gF ft))"

locale hash_db =
  K: string_hashtable K gK cK + F: string_hashtable F gF cF
  for K :: "('k, nat) table_ops" and gK cK and F :: "('f, string) table_ops" and gF cF
begin

lemma get_fields_answers: "gF ft \<Longrightarrow> read_answers fs (cF ft) (get_fields F fs ft)"
  by (simp add: read_answers_def get_fields_def F.get_law F.entries_law split: option.split)

text \<open>The loops over the values, on the table of one record.\<close>

lemma insert_loop_spec:
  "field_tables s p = Some ft \<Longrightarrow> gF ft \<Longrightarrow> \<exists>st s' ft'. insert_loop F p vs s = Inr (st, s')
    \<and> key_table s' = key_table s \<and> next_table_ptr s' = next_table_ptr s
    \<and> field_tables s' = (field_tables s)(p \<mapsto> ft') \<and> gF ft' \<and> spec_insert_fields vs (cF ft) = (st, cF ft')"
proof (induction vs arbitrary: s ft)
  case Nil
  then show ?case by (intro exI [of _ kOK] exI [of _ s] exI [of _ ft]) (simp add: fun_upd_idem)
next
  case (Cons nv vs)
  obtain n v where nv: "nv = (n, v)" by (cases nv)
  obtain good ft1 where i: "t_insert F (Some (c_str n)) (c_str v) ft = (good, ft1)" by (cases "t_insert F (Some (c_str n)) (c_str v) ft")
  note l = F.insert_law [OF Cons.prems(2) i]
  show ?case
  proof (cases good)
    case True
    let ?s = "write_table p ft1 (snd (CopyString v s))"
    have "field_tables ?s p = Some ft1" by (simp add: write_table_def)
    from Cons.IH [OF this] l obtain st s' ft' where h: "insert_loop F p vs ?s = Inr (st, s')"
      "key_table s' = key_table ?s" "next_table_ptr s' = next_table_ptr ?s"
      "field_tables s' = (field_tables ?s)(p \<mapsto> ft')" "gF ft'" "spec_insert_fields vs (cF ft1) = (st, cF ft')" by blast
    then show ?thesis using Cons.prems True i l
      by (intro exI [of _ st] exI [of _ s'] exI [of _ ft']) (simp add: nv CopyString_def write_table_def)
  next
    case False
    then obtain w where "cF ft (c_str n) = Some w" "gF ft1" "cF ft1 = cF ft" "t_insert F (Some (c_str n)) (c_str v) ft = (False, ft1)"
      using l i by auto
    then show ?thesis using Cons.prems
      by (intro exI [of _ kErrorConflict] exI [of _ "DeleteStrings 1 (write_table p ft1 (snd (CopyString v s)))"] exI [of _ ft1])
        (simp add: nv CopyString_def write_table_def DeleteStrings_def)
  qed
qed

lemma update_new_spec:
  "field_tables s p = Some ft \<Longrightarrow> gF ft \<Longrightarrow> \<exists>s' ft'. update_new F p vs s = Inr s'
    \<and> key_table s' = key_table s \<and> next_table_ptr s' = next_table_ptr s
    \<and> field_tables s' = (field_tables s)(p \<mapsto> ft') \<and> gF ft' \<and> new_fields vs (cF ft) = cF ft'"
proof (induction vs arbitrary: s ft)
  case Nil
  then show ?case by (intro exI [of _ s] exI [of _ ft]) (simp add: fun_upd_idem)
next
  case (Cons nv vs)
  obtain n v where nv: "nv = (n, v)" by (cases nv)
  obtain good ft1 where i: "t_insert F (Some (c_str n)) (c_str v) ft = (good, ft1)" by (cases "t_insert F (Some (c_str n)) (c_str v) ft")
  note l = F.insert_law [OF Cons.prems(2) i]
  let ?s = "write_table p ft1 (snd (CopyString v s))"
  have "field_tables ?s p = Some ft1" by (simp add: write_table_def)
  from Cons.IH [OF this] l obtain s' ft' where h: "update_new F p vs ?s = Inr s'"
    "key_table s' = key_table ?s" "next_table_ptr s' = next_table_ptr ?s"
    "field_tables s' = (field_tables ?s)(p \<mapsto> ft')" "gF ft'" "new_fields vs (cF ft1) = cF ft'" by blast
  then show ?case using Cons.prems i l
    by (intro exI [of _ s'] exI [of _ ft'], cases good) (simp_all add: nv CopyString_def write_table_def)
qed

lemma update_old_spec:
  "field_tables s p = Some ft \<Longrightarrow> gF ft \<Longrightarrow> \<exists>s' ft'. update_old F p vs s = Inr s'
    \<and> key_table s' = key_table s \<and> next_table_ptr s' = next_table_ptr s
    \<and> field_tables s' = (field_tables s)(p \<mapsto> ft') \<and> gF ft' \<and> set_fields vs (cF ft) = cF ft'"
proof (induction vs arbitrary: s ft)
  case Nil
  then show ?case by (intro exI [of _ s] exI [of _ ft]) (simp add: fun_upd_idem)
next
  case (Cons nv vs)
  obtain n v where nv: "nv = (n, v)" by (cases nv)
  obtain old ft1 where u: "t_update F (c_str n) (c_str v) ft = (old, ft1)" by (cases "t_update F (c_str n) (c_str v) ft")
  note lu = F.update_law [OF Cons.prems(2) u]
  show ?case
  proof (cases old)
    case None
    obtain good ft2 where i: "t_insert F (Some (c_str n)) (c_str v) ft1 = (good, ft2)"
      by (cases "t_insert F (Some (c_str n)) (c_str v) ft1")
    note li = F.insert_law [OF lu [THEN conjunct1] i]
    let ?s = "write_table p ft2 (snd (CopyString v s))"
    have "field_tables ?s p = Some ft2" by (simp add: write_table_def)
    from Cons.IH [OF this] li obtain s' ft' where h: "update_old F p vs ?s = Inr s'"
      "key_table s' = key_table ?s" "next_table_ptr s' = next_table_ptr ?s"
      "field_tables s' = (field_tables ?s)(p \<mapsto> ft')" "gF ft'" "set_fields vs (cF ft2) = cF ft'" by blast
    then show ?thesis using Cons.prems None u i lu li
      by (intro exI [of _ s'] exI [of _ ft']) (simp add: nv CopyString_def write_table_def)
  next
    case (Some w)
    let ?s = "DeleteStrings 1 (write_table p ft1 (snd (CopyString v s)))"
    have "field_tables ?s p = Some ft1" by (simp add: write_table_def DeleteStrings_def)
    from Cons.IH [OF this] lu obtain s' ft' where h: "update_old F p vs ?s = Inr s'"
      "key_table s' = key_table ?s" "next_table_ptr s' = next_table_ptr ?s"
      "field_tables s' = (field_tables ?s)(p \<mapsto> ft')" "gF ft'" "set_fields vs (cF ft1) = cF ft'" by blast
    then show ?thesis using Cons.prems Some u lu
      by (intro exI [of _ s'] exI [of _ ft']) (simp add: nv CopyString_def write_table_def DeleteStrings_def)
  qed
qed

text \<open>A new table for one record, and a new record.\<close>

lemma write_ok:
  assumes "hdb_ok gK cK gF s" "cK (key_table s) k = Some p" "gF ft'"
    and "key_table s' = key_table s" "next_table_ptr s' = next_table_ptr s" "field_tables s' = (field_tables s)(p \<mapsto> ft')"
  shows "hdb_ok gK cK gF s'" "hdb_abs cK cF s' = (hdb_abs cK cF s)(k \<mapsto> cF ft')"
proof -
  show "hdb_ok gK cK gF s'" using assms by (auto simp: hdb_ok_def)
  have u: "cK (key_table s) j \<noteq> Some p" if "j \<noteq> k" for j
    using assms(1,2) that by (auto simp: hdb_ok_def inj_on_def dom_def)
  have "hdb_abs cK cF s' j = ((hdb_abs cK cF s)(k \<mapsto> cF ft')) j" for j
    using assms(2,4,6) u [of j] by (cases "j = k") (auto simp: hdb_abs_def split: option.split)
  then show "hdb_abs cK cF s' = (hdb_abs cK cF s)(k \<mapsto> cF ft')" by (rule ext)
qed

lemma abs_Some: "hdb_ok gK cK gF s \<Longrightarrow> cK (key_table s) k = Some p
    \<Longrightarrow> \<exists>ft. field_tables s p = Some ft \<and> gF ft \<and> hdb_abs cK cF s k = Some (cF ft)"
proof -
  assume "hdb_ok gK cK gF s" "cK (key_table s) k = Some p"
  moreover then have "\<exists>ft. field_tables s p = Some ft \<and> gF ft" by (simp add: hdb_ok_def)
  ultimately show ?thesis by (auto simp: hdb_abs_def)
qed

lemma new_record_ok:
  assumes "hdb_ok gK cK gF s" "cK (key_table s) k = None"
  obtains p s' ft where "new_record K F k s = (p, s')" "hdb_ok gK cK gF s'" "cK (key_table s') k = Some p"
    "field_tables s' p = Some ft" "gF ft" "cF ft = Map.empty" "hdb_abs cK cF s' = (hdb_abs cK cF s)(k \<mapsto> Map.empty)"
proof -
  let ?p = "next_table_ptr s"
  have "gK (key_table s)" using assms(1) by (simp add: hdb_ok_def)
  obtain b kt where i: "t_insert K (Some k) ?p (key_table s) = (b, kt)" by (cases "t_insert K (Some k) ?p (key_table s)")
  have l: "gK kt" "cK kt = (cK (key_table s))(k \<mapsto> ?p)"
    using K.insert_law [OF \<open>gK (key_table s)\<close> i] assms(2) by auto
  define s' where "s' = s\<lparr>field_tables := (field_tables s)(?p \<mapsto> t_new F), next_table_ptr := ?p + 1, key_table := kt\<rparr>"
  have n: "new_record K F k s = (?p, s')" by (simp add: new_record_def NewFieldHashtable_def i s'_def)
  have old: "cK (key_table s) j = Some q \<Longrightarrow> q < ?p \<and> (\<exists>ft. field_tables s q = Some ft \<and> gF ft)" for j q
    using assms(1) by (simp add: hdb_ok_def)
  have "inj_on (cK kt) (dom (cK kt))"
  proof (rule inj_onI)
    fix x y assume x: "x \<in> dom (cK kt)" "y \<in> dom (cK kt)" "cK kt x = cK kt y"
    have "inj_on (cK (key_table s)) (dom (cK (key_table s)))" using assms(1) by (simp add: hdb_ok_def)
    then have "x \<noteq> k \<Longrightarrow> y \<noteq> k \<Longrightarrow> x = y" using x by (auto simp: l(2) inj_on_def)
    moreover have "x = k \<Longrightarrow> y = k" using x(3) old [of y ?p] by (auto simp: l(2) split: if_splits)
    moreover have "y = k \<Longrightarrow> x = k" using x(3) old [of x ?p] by (auto simp: l(2) split: if_splits)
    ultimately show "x = y" by blast
  qed
  then have o: "hdb_ok gK cK gF s'"
    using l(1) old F.new_law(1) unfolding hdb_ok_def s'_def by (auto simp: l(2) less_Suc_eq)
  have "hdb_abs cK cF s' = (hdb_abs cK cF s)(k \<mapsto> Map.empty)"
    using old by (fastforce simp: hdb_abs_def s'_def l(2) F.new_law fun_eq_iff split: option.split)
  then show thesis using that [OF n o] F.new_law by (simp add: s'_def l(2))
qed

text \<open>The operations.\<close>

lemma key_content: "hdb_ok gK cK gF s \<Longrightarrow> t_get K k (key_table s) = cK (key_table s) k"
  by (simp add: hdb_ok_def K.get_law)

lemma abs_None: "hdb_ok gK cK gF s \<Longrightarrow> cK (key_table s) k = None \<longleftrightarrow> hdb_abs cK cF s k = None"
  using abs_Some [of s k] by (cases "cK (key_table s) k") (auto simp: hdb_abs_def)

lemma insert_ok:
  assumes I: "hdb_ok gK cK gF s"
  shows "\<exists>st s'. hdb_insert K F table key vs s = Inr (st, s') \<and> hdb_ok gK cK gF s'
    \<and> spec_insert (command_key table key) vs (hdb_abs cK cF s) = (st, hdb_abs cK cF s')"
proof -
  let ?k = "command_key table key"
  have "\<exists>p s1 ft. (case t_get K ?k (key_table s) of None \<Rightarrow> new_record K F ?k s | Some p \<Rightarrow> (p, s)) = (p, s1)
    \<and> hdb_ok gK cK gF s1 \<and> cK (key_table s1) ?k = Some p \<and> field_tables s1 p = Some ft \<and> gF ft
    \<and> cF ft = (case hdb_abs cK cF s ?k of None \<Rightarrow> Map.empty | Some r \<Rightarrow> r)
    \<and> (\<forall>r. (hdb_abs cK cF s1)(?k \<mapsto> r) = (hdb_abs cK cF s)(?k \<mapsto> r))"
  proof (cases "cK (key_table s) ?k")
    case None
    obtain p s1 ft where n: "new_record K F ?k s = (p, s1)" "hdb_ok gK cK gF s1" "cK (key_table s1) ?k = Some p"
      "field_tables s1 p = Some ft" "gF ft" "cF ft = Map.empty" "hdb_abs cK cF s1 = (hdb_abs cK cF s)(?k \<mapsto> Map.empty)"
      by (rule new_record_ok [OF I None])
    have "hdb_abs cK cF s ?k = None" using abs_None [OF I] None by blast
    then show ?thesis using n None by (intro exI [of _ p] exI [of _ s1] exI [of _ ft]) (simp add: key_content [OF I])
  next
    case (Some p)
    obtain ft where "field_tables s p = Some ft" "gF ft" "hdb_abs cK cF s ?k = Some (cF ft)"
      using abs_Some [OF I Some] by blast
    then show ?thesis using Some I by (intro exI [of _ p] exI [of _ s] exI [of _ ft]) (simp add: key_content [OF I])
  qed
  then obtain p s1 ft where 1: "(case t_get K ?k (key_table s) of None \<Rightarrow> new_record K F ?k s | Some p \<Rightarrow> (p, s)) = (p, s1)"
    "hdb_ok gK cK gF s1" "cK (key_table s1) ?k = Some p" "field_tables s1 p = Some ft" "gF ft"
    "cF ft = (case hdb_abs cK cF s ?k of None \<Rightarrow> Map.empty | Some r \<Rightarrow> r)"
    "\<And>r. (hdb_abs cK cF s1)(?k \<mapsto> r) = (hdb_abs cK cF s)(?k \<mapsto> r)" by blast
  obtain st s' ft' where 2: "insert_loop F p vs s1 = Inr (st, s')" "key_table s' = key_table s1"
    "next_table_ptr s' = next_table_ptr s1" "field_tables s' = (field_tables s1)(p \<mapsto> ft')" "gF ft'"
    "spec_insert_fields vs (cF ft) = (st, cF ft')"
    using insert_loop_spec [OF 1(4,5)] by blast
  note w = write_ok [OF 1(2,3) 2(5,2,3,4)]
  have "hdb_insert K F table key vs s = Inr (st, s')"
    unfolding hdb_insert_def Let_def command_key_def [symmetric] 1(1) using 2(1) by simp
  moreover have "spec_insert ?k vs (hdb_abs cK cF s) = (st, hdb_abs cK cF s')"
    unfolding spec_insert_def 1(6) [symmetric] 2(6) w(2) 1(7) by simp
  ultimately show ?thesis using w(1) by blast
qed

lemma update_ok:
  assumes I: "hdb_ok gK cK gF s"
  shows "\<exists>s'. hdb_update K F table key vs s = Inr (kOK, s') \<and> hdb_ok gK cK gF s'
    \<and> spec_update (command_key table key) vs (hdb_abs cK cF s) = hdb_abs cK cF s'"
proof -
  let ?k = "command_key table key"
  show ?thesis
  proof (cases "cK (key_table s) ?k")
    case None
    obtain p s1 ft where n: "new_record K F ?k s = (p, s1)" "hdb_ok gK cK gF s1" "cK (key_table s1) ?k = Some p"
      "field_tables s1 p = Some ft" "gF ft" "cF ft = Map.empty" "hdb_abs cK cF s1 = (hdb_abs cK cF s)(?k \<mapsto> Map.empty)"
      by (rule new_record_ok [OF I None])
    obtain s' ft' where u: "update_new F p vs s1 = Inr s'" "key_table s' = key_table s1" "next_table_ptr s' = next_table_ptr s1"
      "field_tables s' = (field_tables s1)(p \<mapsto> ft')" "gF ft'" "new_fields vs (cF ft) = cF ft'"
      using update_new_spec [OF n(4,5)] by blast
    note w = write_ok [OF n(2,3) u(5,2,3,4)]
    have "hdb_abs cK cF s ?k = None" using abs_None [OF I] None by blast
    then have "spec_update ?k vs (hdb_abs cK cF s) = hdb_abs cK cF s'"
      unfolding spec_update_def w(2) n(7) using u(6) n(6) by simp
    moreover have "hdb_update K F table key vs s = Inr (kOK, s')"
      using None n(1) u(1) by (simp add: hdb_update_def command_key_def [symmetric] key_content [OF I])
    ultimately show ?thesis using w(1) by blast
  next
    case (Some p)
    obtain ft where f: "field_tables s p = Some ft" "gF ft" "hdb_abs cK cF s ?k = Some (cF ft)"
      using abs_Some [OF I Some] by blast
    obtain s' ft' where u: "update_old F p vs s = Inr s'" "key_table s' = key_table s" "next_table_ptr s' = next_table_ptr s"
      "field_tables s' = (field_tables s)(p \<mapsto> ft')" "gF ft'" "set_fields vs (cF ft) = cF ft'"
      using update_old_spec [OF f(1,2)] by blast
    note w = write_ok [OF I Some u(5,2,3,4)]
    have "spec_update ?k vs (hdb_abs cK cF s) = hdb_abs cK cF s'"
      unfolding spec_update_def w(2) using u(6) f(3) by simp
    moreover have "hdb_update K F table key vs s = Inr (kOK, s')"
      using Some u(1) by (simp add: hdb_update_def command_key_def [symmetric] key_content [OF I])
    ultimately show ?thesis using w(1) by blast
  qed
qed

lemma delete_ok:
  assumes I: "hdb_ok gK cK gF s"
  shows "\<exists>s'. hdb_delete K F table key s = Inr (if hdb_abs cK cF s (command_key table key) = None then kErrorNoData else kOK, s')
    \<and> hdb_ok gK cK gF s' \<and> hdb_abs cK cF s' = (hdb_abs cK cF s)(command_key table key := None)"
proof -
  let ?k = "command_key table key"
  obtain r kt where r: "t_remove K ?k (key_table s) = (r, kt)" by (cases "t_remove K ?k (key_table s)")
  have l: "gK kt" "r = cK (key_table s) ?k" "cK kt = (cK (key_table s))(?k := None)"
    using K.remove_law [OF _ r] I by (simp_all add: hdb_ok_def)
  show ?thesis
  proof (cases r)
    case None
    let ?s = "s\<lparr>key_table := kt\<rparr>"
    have c: "cK kt = cK (key_table s)" using None l by (simp add: fun_upd_idem)
    have "hdb_ok gK cK gF ?s" using I l(1) by (simp add: hdb_ok_def c)
    moreover have "hdb_abs cK cF ?s = hdb_abs cK cF s"
      by (rule ext) (simp add: hdb_abs_def c split: option.split)
    moreover have "hdb_abs cK cF s ?k = None" using None l(2) by (simp add: hdb_abs_def)
    ultimately have "hdb_ok gK cK gF ?s" "hdb_abs cK cF ?s = hdb_abs cK cF s" "hdb_abs cK cF s ?k = None" by blast+
    then show ?thesis using None r
      by (intro exI [of _ ?s]) (simp add: hdb_delete_def command_key_def [symmetric] fun_upd_idem)
  next
    case (Some p)
    then have "cK (key_table s) ?k = Some p" using l by simp
    then obtain ft where f: "field_tables s p = Some ft" "gF ft" "hdb_abs cK cF s ?k = Some (cF ft)"
      using abs_Some [OF I] by blast
    let ?s = "DeleteFieldHashtable F p ft (s\<lparr>key_table := kt\<rparr>)"
    have s: "key_table ?s = kt" "field_tables ?s = (field_tables s)(p := None)" "next_table_ptr ?s = next_table_ptr s"
      by (simp_all add: DeleteFieldHashtable_def DeleteStrings_def)
    have u: "cK (key_table s) j \<noteq> Some p" if "j \<noteq> ?k" for j
      using I \<open>cK (key_table s) ?k = Some p\<close> that by (auto simp: hdb_ok_def inj_on_def dom_def)
    have "inj_on (cK kt) (dom (cK kt))"
      using I unfolding hdb_ok_def l(3) inj_on_def by (auto split: if_splits)
    then have "hdb_ok gK cK gF ?s"
      using I l(1) u unfolding hdb_ok_def s by (auto simp: l(3))
    moreover have "hdb_abs cK cF ?s j = ((hdb_abs cK cF s)(?k := None)) j" for j
      using u [of j] by (auto simp: hdb_abs_def s(1,2) l(3) split: option.split)
    ultimately show ?thesis using Some r f
      by (intro exI [of _ ?s]) (simp add: hdb_delete_def command_key_def [symmetric] fun_eq_iff)
  qed
qed

lemma read_ok:
  assumes I: "hdb_ok gK cK gF s"
  shows "\<exists>st out. hdb_read K F table key fs s = Inr ((st, out), s) \<and> (case hdb_abs cK cF s (command_key table key) of
     None \<Rightarrow> st = kErrorNoData \<and> out = [] | Some r \<Rightarrow> st = kOK \<and> read_answers fs r out)"
proof (cases "cK (key_table s) (command_key table key)")
  case None
  then have "hdb_abs cK cF s (command_key table key) = None" using abs_None [OF I] by blast
  then show ?thesis using None by (simp add: hdb_read_def command_key_def [symmetric] key_content [OF I])
next
  case (Some p)
  then obtain ft where "field_tables s p = Some ft" "gF ft" "hdb_abs cK cF s (command_key table key) = Some (cF ft)"
    using abs_Some [OF I] by blast
  then show ?thesis using Some get_fields_answers
    by (simp add: hdb_read_def command_key_def [symmetric] key_content [OF I])
qed

lemma do_ok:
  assumes I: "hdb_ok gK cK gF s"
  shows "\<exists>a s'. db_do (hashtable_vtable K F) t c s = Inr (a, s') \<and> hdb_ok gK cK gF s'
    \<and> spec_answer c (hdb_abs cK cF s) a \<and> spec_after c (hdb_abs cK cF s) = hdb_abs cK cF s'"
proof (cases c)
  case (Do_read table key fs)
  then show ?thesis using read_ok [OF I, of table key fs] I by (auto simp: hashtable_vtable_def)
next
  case (Do_update table key vs)
  then show ?thesis using update_ok [OF I, of table key vs] by (auto simp: hashtable_vtable_def)
next
  case (Do_insert table key vs)
  obtain st s' where "hdb_insert K F table key vs s = Inr (st, s')" "hdb_ok gK cK gF s'"
    "spec_insert (command_key table key) vs (hdb_abs cK cF s) = (st, hdb_abs cK cF s')"
    using insert_ok [OF I, of table key vs] by blast
  then show ?thesis using Do_insert by (simp add: hashtable_vtable_def)
next
  case (Do_delete table key)
  obtain s' where "hdb_delete K F table key s = Inr (if hdb_abs cK cF s (command_key table key) = None then kErrorNoData else kOK, s')"
    "hdb_ok gK cK gF s'" "hdb_abs cK cF s' = (hdb_abs cK cF s)(command_key table key := None)"
    using delete_ok [OF I, of table key] by blast
  then show ?thesis using Do_delete by (simp add: hashtable_vtable_def)
qed

lemma run_ok:
  "hdb_ok gK cK gF s \<Longrightarrow> \<exists>as s'. db_run (hashtable_vtable K F) t cs s = Inr (as, s') \<and> hdb_ok gK cK gF s'
    \<and> spec_accepts cs as (hdb_abs cK cF s) \<and> fold spec_after cs (hdb_abs cK cF s) = hdb_abs cK cF s'"
proof (induction cs arbitrary: s)
  case (Cons c cs)
  obtain a s1 where 1: "db_do (hashtable_vtable K F) t c s = Inr (a, s1)" "hdb_ok gK cK gF s1"
    "spec_answer c (hdb_abs cK cF s) a" "spec_after c (hdb_abs cK cF s) = hdb_abs cK cF s1"
    using do_ok [OF Cons.prems] by blast
  obtain "as" s' where 2: "db_run (hashtable_vtable K F) t cs s1 = Inr (as, s')" "hdb_ok gK cK gF s'"
    "spec_accepts cs as (hdb_abs cK cF s1)" "fold spec_after cs (hdb_abs cK cF s1) = hdb_abs cK cF s'"
    using Cons.IH [OF 1(2)] by blast
  show ?case using 1 2 by simp
qed auto

end

section \<open>The database on the locked tables\<close>

interpretation lock_stl: hash_db lock_stl_ops stl_good stl_content lock_stl_ops stl_good stl_content ..

definition lock_stl_abs :: "lock_stl_state \<Rightarrow> database_map" where
  "lock_stl_abs = hdb_abs stl_content stl_content"

definition lock_stl_ok :: "lock_stl_state \<Rightarrow> bool" where
  "lock_stl_ok = hdb_ok stl_good stl_content stl_good"

lemma new_LockStlDB_ok: "lock_stl_ok new_LockStlDB" "lock_stl_abs new_LockStlDB = Map.empty"
  by (simp_all add: lock_stl_ok_def hdb_ok_def new_LockStlDB_def lock_stl_abs_def hdb_abs_def stl.new_law fun_eq_iff)

text \<open>
  C25: whatever commands are given to a new database on the locked hash tables, each is answered as the
  map of records answers it, and the map at the end is the one in the database.
\<close>

theorem lock_stl_db_refines_map:
  "\<exists>as s'. db_run lock_stl_db t cs new_LockStlDB = Inr (as, s') \<and> spec_accepts cs as Map.empty
    \<and> lock_stl_abs s' = fold spec_after cs Map.empty"
proof -
  obtain "as" s' where "db_run (hashtable_vtable lock_stl_ops lock_stl_ops) t cs new_LockStlDB = Inr (as, s')"
    "spec_accepts cs as (hdb_abs stl_content stl_content new_LockStlDB)"
    "fold spec_after cs (hdb_abs stl_content stl_content new_LockStlDB) = hdb_abs stl_content stl_content s'"
    using lock_stl.run_ok [OF new_LockStlDB_ok(1) [unfolded lock_stl_ok_def], of t cs] by blast
  then show ?thesis
    using new_LockStlDB_ok(2) unfolding lock_stl_db_def lock_stl_abs_def by auto
qed

end
