(* ===== verification/Hashtable_Threads.thy ===== *)
theory Hashtable_Threads
  imports Hashtable_Map
begin

text \<open>
  Insertions by several threads: a thread alone does what \<open>Insert\<close> does, but two that both find
  no record lose one of their records.
\<close>

section \<open>A thread alone\<close>

lemma insertions_returned: "ts i = Returned r \<Longrightarrow> insertions K F (replicate n i) (ts, s) = Inr (ts, s)"
  by (induction n) (simp_all add: fun_upd_idem)

lemma insertions_loop:
  "insert_loop F p vs s = Inr (st, s') \<Longrightarrow> length vs < n \<Longrightarrow> ts i = Inserting p vs
    \<Longrightarrow> insertions K F (replicate n i) (ts, s) = Inr (ts(i := Returned st), s')"
proof (induction vs arbitrary: n s ts)
  case Nil
  then obtain m where m: "n = Suc m" by (cases n) auto
  have "st = kOK" "s' = s" using Nil.prems(1) by simp_all
  moreover have "insertions K F (replicate m i) (ts(i := Returned kOK), s) = Inr (ts(i := Returned kOK), s)"
    by (rule insertions_returned) simp
  ultimately show ?case using Nil.prems(3) by (simp add: m del: fun_upd_apply)
next
  case (Cons nv vs)
  obtain a v where nv: "nv = (a, v)" by (cases nv)
  obtain m where m: "n = Suc m" "length vs < m" using Cons.prems(2) by (cases n) auto
  let ?s = "snd (CopyString v s)" and ?v = "fst (CopyString v s)"
  obtain ft where ft: "field_tables ?s p = Some ft"
    using Cons.prems(1) by (cases "field_tables ?s p") (simp_all add: nv split: prod.splits)
  obtain good ft1 where g: "t_insert F (Some (c_str a)) ?v ft = (good, ft1)" by (cases "t_insert F (Some (c_str a)) ?v ft")
  show ?case
  proof (cases good)
    case True
    then have l: "insert_loop F p vs (write_table p ft1 ?s) = Inr (st, s')"
      using Cons.prems(1) ft g by (simp add: nv CopyString_def)
    have "insertion_step K F (ts i) s = Inr (Inserting p vs, write_table p ft1 ?s)"
      using True ft g Cons.prems(3) by (simp add: nv CopyString_def)
    then show ?thesis
      using Cons.IH [OF l m(2), of "ts(i := Inserting p vs)"] by (simp add: m(1) fun_upd_same del: fun_upd_apply)
  next
    case False
    then have "insertion_step K F (ts i) s = Inr (Returned st, s')"
      using Cons.prems(1,3) ft g by (auto simp: nv CopyString_def)
    then show ?thesis using insertions_returned [of "ts(i := Returned st)" i st K F m s']
      by (simp add: m(1) fun_upd_same del: fun_upd_apply)
  qed
qed

text \<open>
  A thread that is not disturbed ends with the result and the state of \<open>HashtableDB::Insert\<close>.
\<close>

theorem insertion_alone:
  assumes "hdb_insert K F table key vs s = Inr (st, s')" "ts i = Looking (command_key table key) vs"
    and "length vs + 3 \<le> n"
  shows "insertions K F (replicate n i) (ts, s) = Inr (ts(i := Returned st), s')"
proof (cases "t_get K (command_key table key) (key_table s)")
  case (Some p)
  obtain m where m: "n = Suc m" "length vs < m" using assms(3) by (cases n) auto
  have "insert_loop F p vs s = Inr (st, s')"
    using assms(1) Some by (simp add: hdb_insert_def command_key_def [symmetric])
  from insertions_loop [OF this m(2), of "ts(i := Inserting p vs)" i K] show ?thesis
    using assms(2) Some by (simp add: m(1))
next
  case None
  let ?k = "command_key table key"
  obtain m where m: "n = Suc (Suc m)" "length vs < m" using assms(3) by (cases n; cases "n - 1") auto
  obtain p s1 where n: "NewFieldHashtable F s = (p, s1)" by (cases "NewFieldHashtable F s")
  let ?s = "s1\<lparr>key_table := snd (t_insert K (Some ?k) p (key_table s1))\<rparr>"
  have "insert_loop F p vs ?s = Inr (st, s')"
    using assms(1) None n by (simp add: hdb_insert_def command_key_def [symmetric] new_record_def)
  from insertions_loop [OF this m(2), of "ts(i := Inserting p vs)" i K] show ?thesis
    using assms(2) None n by (simp add: m(1))
qed

theorem insertion_alone_witness:
  "\<exists>st s'. hdb_insert lock_stl_ops lock_stl_ops ''t'' ''k'' [(''a'', ''x'')] new_LockStlDB = Inr (st, s')
    \<and> insertions lock_stl_ops lock_stl_ops (replicate 4 0) ((\<lambda>i. Looking (command_key ''t'' ''k'') [(''a'', ''x'')]), new_LockStlDB)
      = Inr ((\<lambda>i. Looking (command_key ''t'' ''k'') [(''a'', ''x'')])(0 := Returned st), s')"
proof -
  obtain st s' where "hdb_insert lock_stl_ops lock_stl_ops ''t'' ''k'' [(''a'', ''x'')] new_LockStlDB = Inr (st, s')"
    using lock_stl.insert_ok [OF new_LockStlDB_ok(1) [unfolded lock_stl_ok_def]] by blast
  then show ?thesis
    using insertion_alone [of lock_stl_ops lock_stl_ops "''t''" "''k''" "[(''a'', ''x'')]" new_LockStlDB st s'
      "\<lambda>i. Looking (command_key ''t'' ''k'') [(''a'', ''x'')]" 0 4] by simp
qed

section \<open>Two threads\<close>

context hash_db begin

lemma both_looking:
  assumes I: "hdb_ok gK cK gF s" and n: "hdb_abs cK cF s k = None"
    and ts: "ts 0 = Looking k [(f0, v0)]" "ts 1 = Looking k [(f1, v1)]"
  shows "\<exists>ts' s'. insertions K F [0, 1, 0, 1, 0, 0, 1, 1] (ts, s) = Inr (ts', s')
    \<and> ts' 0 = Returned kOK \<and> ts' 1 = Returned kOK \<and> hdb_abs cK cF s' k = Some [c_str f0 \<mapsto> c_str v0]"
proof -
  let ?p = "next_table_ptr s"
  have k: "t_get K k (key_table s) = None" "cK (key_table s) k = None" using abs_None [OF I] n key_content [OF I] by auto
  have gK: "gK (key_table s)" using I by (simp add: hdb_ok_def)
  obtain b1 kt1 where i1: "t_insert K (Some k) ?p (key_table s) = (b1, kt1)" by (cases "t_insert K (Some k) ?p (key_table s)")
  have l1: "gK kt1" "cK kt1 = (cK (key_table s))(k \<mapsto> ?p)" using K.insert_law [OF gK i1] k(2) by auto
  obtain b2 kt2 where i2: "t_insert K (Some k) (Suc ?p) kt1 = (b2, kt2)" by (cases "t_insert K (Some k) (Suc ?p) kt1")
  have l2: "cK kt2 = cK kt1" using K.insert_law [OF l1(1) i2] l1(2) by auto
  obtain c0 ft0 where j0: "t_insert F (Some (c_str f0)) (c_str v0) (t_new F) = (c0, ft0)"
    by (cases "t_insert F (Some (c_str f0)) (c_str v0) (t_new F)")
  have m0: "c0" "cF ft0 = [c_str f0 \<mapsto> c_str v0]" using F.insert_law [OF F.new_law(1) j0] F.new_law(2) by auto
  obtain c1 ft1 where j1: "t_insert F (Some (c_str f1)) (c_str v1) (t_new F) = (c1, ft1)"
    by (cases "t_insert F (Some (c_str f1)) (c_str v1) (t_new F)")
  have m1: "c1" using F.insert_law [OF F.new_law(1) j1] F.new_law(2) by auto
  have "insertions K F [0, 1, 0, 1, 0, 0, 1, 1] (ts, s) = Inr
    (ts(0 := Returned kOK, 1 := Returned kOK), s\<lparr>key_table := kt2,
      field_tables := (field_tables s)(?p \<mapsto> ft0, Suc ?p \<mapsto> ft1), next_table_ptr := Suc (Suc ?p), live_strings := live_strings s + 2\<rparr>)"
    using ts k(1) i1 i2 j0 j1 m0(1) m1 by (simp add: NewFieldHashtable_def CopyString_def write_table_def fun_upd_twist)
  then show ?thesis using l2 l1(2) m0(2) by (simp add: hdb_abs_def)
qed

end

text \<open>
  C27: two threads insert a record under a new key, each with one field, and both return \<open>kOK\<close>; when
  both look for the key before either enters its record, only the field of the first is there.
\<close>

theorem concurrent_insert_loses_record:
  assumes "lock_stl_ok s" "lock_stl_abs s k = None" "ts 0 = Looking k [(f0, v0)]" "ts 1 = Looking k [(f1, v1)]"
  shows "\<exists>ts' s'. insertions lock_stl_ops lock_stl_ops [0, 1, 0, 1, 0, 0, 1, 1] (ts, s) = Inr (ts', s')
    \<and> ts' 0 = Returned kOK \<and> ts' 1 = Returned kOK \<and> lock_stl_abs s' k = Some [c_str f0 \<mapsto> c_str v0]"
  using lock_stl.both_looking assms unfolding lock_stl_ok_def lock_stl_abs_def by blast

theorem concurrent_insert_loses_record_witness:
  "\<exists>ts' s'. insertions lock_stl_ops lock_stl_ops [0, 1, 0, 1, 0, 0, 1, 1]
      ((\<lambda>i. Looking ''k'' [(if i = 0 then ''a'' else ''b'', ''x'')]), new_LockStlDB) = Inr (ts', s')
    \<and> ts' 0 = Returned kOK \<and> ts' 1 = Returned kOK \<and> lock_stl_abs s' ''k'' = Some [''a'' \<mapsto> ''x'']"
  using concurrent_insert_loses_record [OF new_LockStlDB_ok(1), of "''k''"
      "\<lambda>i. Looking ''k'' [(if i = 0 then ''a'' else ''b'', ''x'')]" "''a''" "''x''" "''b''" "''x''"] new_LockStlDB_ok(2)
  by (simp add: c_str_def NUL_def)

end
