(* ===== verification/Workload_Properties.thy ===== *)
theory Workload_Properties
  imports Ycsb_Load Hashtable_Threads
begin

text \<open>
  The workload on a database: which records the loading phase leaves under any fair schedule,
  which keys the transactions choose, and which fields they read.
\<close>

section \<open>Loading\<close>

lemma lock_stl_insert_keys:
  assumes "lock_stl_ok s"
  shows "\<exists>r s'. db_insert lock_stl_db t table key vs s = Inr (r, s') \<and> lock_stl_ok s'
    \<and> dom (lock_stl_abs s') = insert (command_key table key) (dom (lock_stl_abs s))"
proof -
  obtain st s' where i: "hdb_insert lock_stl_ops lock_stl_ops table key vs s = Inr (st, s')" "lock_stl_ok s'"
    "spec_insert (command_key table key) vs (lock_stl_abs s) = (st, lock_stl_abs s')"
    using lock_stl.insert_ok [OF assms [unfolded lock_stl_ok_def], of table key vs]
    unfolding lock_stl_ok_def [symmetric] lock_stl_abs_def [symmetric] by blast
  obtain x where "lock_stl_abs s' = (lock_stl_abs s)(command_key table key \<mapsto> x)"
    using i(3) that by (auto simp: spec_insert_def split: prod.splits dest: sym)
  then have "dom (lock_stl_abs s') = insert (command_key table key) (dom (lock_stl_abs s))"
    by (simp add: dom_fun_upd)
  then show ?thesis using i by (simp add: lock_stl_db_def hashtable_vtable_def)
qed

definition holds_keys :: "lock_stl_state \<times> string list \<Rightarrow> bool" where
  "holds_keys sk \<longleftrightarrow> lock_stl_ok (fst sk) \<and> dom (lock_stl_abs (fst sk)) = c_str ` set (snd sk)"

lemma lock_stl_answers: "inserts_answered holds_keys (logged lock_stl_db)"
  unfolding inserts_answered_def
proof (intro allI impI conjI)
  fix t :: nat and sk assume h: "holds_keys sk"
  obtain s ks where sk: "sk = (s, ks)" by (cases sk)
  show "holds_keys (db_init (logged lock_stl_db) t sk)" "holds_keys (db_close (logged lock_stl_db) t sk)"
    using h by (simp_all add: sk logged_def lock_stl_db_def hashtable_vtable_def)
  fix table key vs
  have "lock_stl_ok s" using h by (simp add: sk holds_keys_def)
  from lock_stl_insert_keys [OF this, of t table key vs] obtain r s' where
    "db_insert lock_stl_db t table key vs s = Inr (r, s')" "lock_stl_ok s'"
    "dom (lock_stl_abs s') = insert (command_key table key) (dom (lock_stl_abs s))" by blast
  then show "\<exists>r s'. db_insert (logged lock_stl_db) t table key vs sk = Inr (r, s') \<and> holds_keys s'"
    using h by (simp add: sk logged_def holds_keys_def command_key_def)
qed

text \<open>
  C26: under every schedule in which each of the 16 threads gets enough steps the loading phase ends,
  and the database then holds records exactly under the first \<open>16 * (record count div 16)\<close>
  keys from \<open>insertstart\<close> on; the remaining keys are not loaded.
\<close>

theorem load_fills_database:
  assumes "constant_fields wl" "0 \<le> rc"
    and "\<forall>i < num_threads_load. nat (load_count rc) + 2 \<le> count_list sched i"
  shows "\<exists>sm wl' s'. run_phase Loading L lock_stl_db base num_threads_load (load_count rc) sched (wl, new_LockStlDB)
      = Some (Inr (Some sm, wl', s'))
    \<and> dom (lock_stl_abs s') = (\<lambda>i. c_str (key_name wl i)) ` {..<16 * nat (rc div 16)}"
proof -
  have "holds_keys (new_LockStlDB, [])" using new_LockStlDB_ok by (simp add: holds_keys_def)
  from load_phase [OF assms(1) lock_stl_answers this assms(3), of L base] obtain sm wl' s' where
    r: "run_phase Loading L lock_stl_db base num_threads_load (load_count rc) sched (wl, new_LockStlDB)
      = Some (Inr (Some sm, wl', s'))"
    and h: "holds_keys (s', map (key_name wl) [0..<num_threads_load * nat (load_count rc)])" by blast
  have "num_threads_load * nat (load_count rc) = 16 * nat (rc div 16)"
    using assms(2) by (simp add: num_threads_load_def load_count_def int_div_def)
  then have "dom (lock_stl_abs s') = (\<lambda>i. c_str (key_name wl i)) ` {..<16 * nat (rc div 16)}"
    using h by (simp add: holds_keys_def image_image atLeast0LessThan)
  then show ?thesis using r by blast
qed

text \<open>A workload for examples: constant fields, and uniform keys.\<close>

definition sample_workload :: "rat workload" where
  "sample_workload = \<lparr>table_name = ''usertable'', field_count = 1, read_all_fields = False, write_all_fields = False,
     field_len_generator = ConstGenerator 2, key_generator = 0, op_chooser = new_discrete (sample_lib (\<lambda>_. 0)),
     key_chooser = UniformGenerator 0 19 1 0, field_chooser = UniformGenerator 0 0 1 0,
     scan_len_chooser = UniformGenerator 1 10 1 1, insert_key_sequence = 20, ordered_inserts = True,
     record_count = 20, zero_padding = 1, drawn_values = \<lparr>nb_doubles = 0, nb_rands = 0\<rparr>\<rparr>"

theorem load_fills_database_witness:
  "\<exists>sm wl' s'. run_phase Loading (sample_lib (\<lambda>_. 0)) lock_stl_db 1 num_threads_load (load_count 20)
      (concat (replicate 3 [0..<16])) (sample_workload, new_LockStlDB) = Some (Inr (Some sm, wl', s'))
    \<and> dom (lock_stl_abs s') = (\<lambda>i. c_str (key_name sample_workload i)) ` {..<16}"
proof -
  have "\<forall>i < num_threads_load. nat (load_count 20) + 2 \<le> count_list (concat (replicate 3 [0..<16])) i"
    by code_simp
  moreover have "constant_fields sample_workload" by (simp add: constant_fields_def sample_workload_def)
  ultimately show ?thesis
    using load_fills_database [of sample_workload 20 "concat (replicate 3 [0..<16])" "sample_lib (\<lambda>_. 0)" 1] by simp
qed

section \<open>Choosing keys\<close>

definition uniform_bounded :: "'d stdlib \<Rightarrow> bool" where
  "uniform_bounded L \<longleftrightarrow> (\<forall>l h n. l \<le> h \<longrightarrow> l \<le> uniform L l h n \<and> uniform L l h n \<le> h)"

text \<open>
  C29: with uniform requests the choice of a key ends at the first number, and the key is one of
  the first \<open>recordcount\<close> numbers (from 0 on, whatever \<open>insertstart\<close> is).
\<close>

theorem uniform_key_chosen:
  assumes "uniform_bounded L" "key_chooser wl = UniformGenerator 0 (rc - 1) n lst" "insert_key_sequence wl = rc"
  shows "\<exists>k wl'. NextTransactionKey L wl = Some (Inr (BuildKeyName (ordered_inserts wl) (zero_padding wl) k, wl'))
    \<and> k \<le> rc - 1 \<and> k = uniform L 0 (rc - 1) n"
proof -
  let ?k = "uniform L 0 (rc - 1) n"
  have k: "?k \<le> rc - 1" using assms(1) by (simp add: uniform_bounded_def)
  have n: "(rc - 1 < ?k) = False" using k by (simp add: leD)
  have "\<exists>wl'. NextTransactionKey L wl = Some (Inr (BuildKeyName (ordered_inserts wl) (zero_padding wl) ?k, wl'))"
    using assms(2,3) by (simp add: NextTransactionKey_def next_key_num.simps [of L wl] draw_key_def uniform_next_def
        Let_def counter_last_def n)
  then show ?thesis using k by blast
qed

definition low_lib :: "rat stdlib" where
  "low_lib = (sample_lib (\<lambda>_. 0))\<lparr>uniform := \<lambda>l h n. l\<rparr>"

theorem uniform_key_chosen_witness:
  "uniform_bounded low_lib \<and> (\<exists>wl'. NextTransactionKey low_lib sample_workload = Some (Inr (''user0'', wl')))"
proof -
  have u: "uniform low_lib 0 (20 - 1) 1 = 0" by (simp add: low_lib_def)
  have b: "uniform_bounded low_lib" by (simp add: uniform_bounded_def low_lib_def)
  have "\<exists>k wl'. NextTransactionKey low_lib sample_workload
      = Some (Inr (BuildKeyName (ordered_inserts sample_workload) (zero_padding sample_workload) k, wl'))
    \<and> k \<le> 20 - 1 \<and> k = uniform low_lib 0 (20 - 1) 1"
    by (rule uniform_key_chosen [OF b, of sample_workload 20 1 0]) (simp_all add: sample_workload_def)
  then obtain wl' where "NextTransactionKey low_lib sample_workload
      = Some (Inr (BuildKeyName (ordered_inserts sample_workload) (zero_padding sample_workload) 0, wl'))"
    unfolding u by blast
  moreover have "BuildKeyName (ordered_inserts sample_workload) (zero_padding sample_workload) 0 = ''user0''"
    by code_simp
  ultimately show ?thesis using b by simp
qed

section \<open>Transactions\<close>

text \<open>No step of a thread changes the counter that limits the keys.\<close>

lemma NextTransactionKey_post:
  assumes "NextTransactionKey L wl = Some (Inr (key, wl'))"
  shows "insert_key_sequence wl' = insert_key_sequence wl \<and> ordered_inserts wl' = ordered_inserts wl
    \<and> zero_padding wl' = zero_padding wl
    \<and> (\<exists>k \<le> counter_last (insert_key_sequence wl). key = BuildKeyName (ordered_inserts wl) (zero_padding wl) k)"
proof -
  obtain k where k: "next_key_num L wl = Some (Inr (k, wl'))" "key = BuildKeyName (ordered_inserts wl') (zero_padding wl') k"
    using assms by (auto simp: NextTransactionKey_def ok_Inr)
  then show ?thesis using next_key_num_post [OF k(1)] by (auto simp: key_num_post_def)
qed

lemma NextTransactionKey_sequence:
  "NextTransactionKey L wl = Some (Inr (key, wl')) \<Longrightarrow> insert_key_sequence wl' = insert_key_sequence wl"
  using NextTransactionKey_post by blast

lemma NextSequenceKey_sequence:
  "NextSequenceKey wl = (key, wl') \<Longrightarrow> insert_key_sequence wl' = insert_key_sequence wl"
  by (auto simp: NextSequenceKey_def counter_next_def)

lemma same_sequence: "same_keys wl wl' \<Longrightarrow> insert_key_sequence wl' = insert_key_sequence wl"
  by (simp add: same_keys_def)

lemma then_ok_Inr: "then_ok r f = Some (Inr y) \<longleftrightarrow> (\<exists>x. r = Some (Inr x) \<and> f x = Some (Inr y))"
  by (auto simp: then_ok_def split: option.splits sum.splits)

lemmas sequence_kept = NextTransactionKey_sequence NextSequenceKey_sequence
  fields_to_read_same [THEN same_sequence] values_to_write_same [THEN same_sequence]
  BuildValues_same [THEN same_sequence] NextScanLength_same [THEN same_sequence] NextOperation_same [THEN same_sequence]

lemma Transaction_sequence:
  "TransactionRead L db t (wl, s) = Some (Inr (st, wl', s')) \<Longrightarrow> insert_key_sequence wl' = insert_key_sequence wl"
  "TransactionUpdate L db t (wl, s) = Some (Inr (st, wl', s')) \<Longrightarrow> insert_key_sequence wl' = insert_key_sequence wl"
  "TransactionInsert L db t (wl, s) = Some (Inr (st, wl', s')) \<Longrightarrow> insert_key_sequence wl' = insert_key_sequence wl"
  "TransactionScan L db t (wl, s) = Some (Inr (st, wl', s')) \<Longrightarrow> insert_key_sequence wl' = insert_key_sequence wl"
  "TransactionReadModifyWrite L db t (wl, s) = Some (Inr (st, wl', s')) \<Longrightarrow> insert_key_sequence wl' = insert_key_sequence wl"
  by (auto simp: TransactionRead_def TransactionUpdate_def TransactionInsert_def TransactionScan_def
      TransactionReadModifyWrite_def then_ok_Inr ok_Inr Let_def dest!: sequence_kept split: prod.splits)

lemma DoTransaction_sequence:
  assumes "DoTransaction L db t (wl, s) = Some (Inr (good, wl', s'))"
  shows "insert_key_sequence wl' = insert_key_sequence wl"
proof -
  obtain op wl1 where o: "NextOperation L wl = Inr (op, wl1)"
    using assms by (auto simp: DoTransaction_def then_ok_Inr)
  show ?thesis
    using assms o NextOperation_same [OF o, THEN same_sequence]
    by (cases op) (auto simp: DoTransaction_def ok_Inr is_ok_def dest!: Transaction_sequence split: if_splits)
qed

lemma do_job_sequence:
  "do_job j L db t (wl, s) = Some (Inr (good, wl', s')) \<Longrightarrow> insert_key_sequence wl' = insert_key_sequence wl"
  by (cases j) (auto simp: do_job_def DoInsert_def DoTransactionRead_def ok_Inr is_ok_def Let_def
      dest!: sequence_kept DoTransaction_sequence Transaction_sequence split: prod.splits if_splits)

lemma thread_step_sequence:
  assumes "thread_step j L db base i ph = Some (Inr ph')"
  shows "insert_key_sequence (fst (shared ph')) = insert_key_sequence (fst (shared ph))"
proof -
  obtain wl s where sh: "shared ph = (wl, s)" by (cases "shared ph")
  show ?thesis
    using assms sh by (auto simp: thread_step_def then_ok_Inr split: progress.splits nat.splits dest!: do_job_sequence)
qed

lemma run_schedule_sequence:
  "run_schedule j L db base is ph = Some (Inr ph')
    \<Longrightarrow> insert_key_sequence (fst (shared ph')) = insert_key_sequence (fst (shared ph))"
proof (induction "is" arbitrary: ph)
  case (Cons i "is")
  then obtain ph1 where "thread_step j L db base i ph = Some (Inr ph1)" "run_schedule j L db base is ph1 = Some (Inr ph')"
    by (auto simp: then_ok_Inr)
  then show ?case using Cons.IH thread_step_sequence by metis
qed simp

text \<open>
  C28: whatever a phase has run, records inserted included, the key of a later transaction is one
  of those up to \<open>recordcount - 1\<close>: \<open>TransactionInsert\<close> does not advance the
  counter that limits the keys.
\<close>

theorem transactions_ignore_inserts:
  assumes "run_phase j L db base n ops sched (wl, s) = Some (Inr (sm, wl', s'))"
    and "NextTransactionKey L wl' = Some (Inr (key, wl''))"
  shows "\<exists>k \<le> insert_key_sequence wl - 1. key = BuildKeyName (ordered_inserts wl') (zero_padding wl') k"
proof -
  obtain ph where "run_schedule j L db base sched (start_phase n ops (wl, s)) = Some (Inr ph)" "shared ph = (wl', s')"
    using assms(1) by (auto simp: run_phase_def then_ok_Inr)
  then have "insert_key_sequence wl' = insert_key_sequence wl"
    using run_schedule_sequence by (fastforce simp: start_phase_def)
  then show ?thesis using NextTransactionKey_post [OF assms(2)] by (auto simp: counter_last_def)
qed

text \<open>One thread inserts a record.\<close>

definition inserting_workload :: "rat workload" where
  "inserting_workload = sample_workload\<lparr>op_chooser := AddValue low_lib INSERT 1 (new_discrete low_lib)\<rparr>"

theorem transactions_ignore_inserts_witness:
  "\<exists>sm wl' s' key wl''.
    run_phase Transactions low_lib lock_stl_db 1 1 1 [0, 0, 0] (inserting_workload, new_LockStlDB) = Some (Inr (sm, wl', s'))
    \<and> NextTransactionKey low_lib wl' = Some (Inr (key, wl''))
    \<and> (\<exists>k \<le> 20 - 1. key = BuildKeyName (ordered_inserts wl') (zero_padding wl') k)"
proof -
  have "case run_phase Transactions low_lib lock_stl_db 1 1 1 [0, 0, 0] (inserting_workload, new_LockStlDB) of
      Some (Inr (sm, wl', s')) \<Rightarrow> key_chooser wl' = UniformGenerator 0 19 1 0 \<and> insert_key_sequence wl' = 20 | _ \<Rightarrow> False"
    by code_simp
  then obtain sm wl' s' where
    r: "run_phase Transactions low_lib lock_stl_db 1 1 1 [0, 0, 0] (inserting_workload, new_LockStlDB) = Some (Inr (sm, wl', s'))"
    and c: "key_chooser wl' = UniformGenerator 0 19 1 0" "insert_key_sequence wl' = 20"
    by (auto split: option.splits sum.splits prod.splits)
  have u: "uniform low_lib 0 19 (Suc 0) = 0" by (simp add: low_lib_def)
  have "\<exists>key wl''. NextTransactionKey low_lib wl' = Some (Inr (key, wl''))"
    using c by (simp add: NextTransactionKey_def next_key_num.simps [of low_lib wl'] draw_key_def uniform_next_def
        Let_def counter_last_def u)
  then obtain key wl'' where k: "NextTransactionKey low_lib wl' = Some (Inr (key, wl''))" by blast
  have "insert_key_sequence inserting_workload = 20" by (simp add: inserting_workload_def sample_workload_def)
  then show ?thesis using r k transactions_ignore_inserts [OF r k] by auto
qed

section \<open>Reading\<close>

text \<open>
  A read of a single field names none of the fields a record has: the prefix of
  the names is there twice.
\<close>

theorem read_field_not_built:
  assumes "fields_to_read L wl = Inr (Some names, wl')" "BuildValues L vl = Inr (pairs, vl')"
  shows "names \<noteq> [] \<and> set names \<inter> set (map fst pairs) = {}"
proof -
  obtain n where n: "names = [''field'' @ ''field'' @ to_string n]"
    using assms(1) by (auto simp: fields_to_read_def NextFieldName_def ok_Inr split: if_splits)
  have f: "map fst pairs = map (\<lambda>k. ''field'' @ to_string k) [0..<nat (field_count vl)]"
    using build_values_names [of L 0] assms(2) by (simp add: BuildValues_def)
  have "''field'' @ to_string n \<noteq> to_string k" for k
  proof
    assume e: "''field'' @ to_string n = to_string k"
    have "list_all is_digit (''field'' @ to_string n)" unfolding e by (rule to_string_digits)
    then show False by (simp add: is_digit_def)
  qed
  then show ?thesis unfolding n f by auto
qed

theorem read_field_not_built_witness:
  "set [''fieldfield0''] \<inter> set (map fst [(''field0'', ''00'')]) = {}"
proof -
  let ?L = "sample_lib (\<lambda>_. 0)"
  have "case fields_to_read ?L sample_workload of Inr (Some names, _) \<Rightarrow> names = [''fieldfield0''] | _ \<Rightarrow> False" by code_simp
  then obtain wl' where r: "fields_to_read ?L sample_workload = Inr (Some [''fieldfield0''], wl')"
    by (auto split: sum.splits prod.splits option.splits)
  have "case BuildValues ?L sample_workload of Inr (pairs, _) \<Rightarrow> map fst pairs = [''field0''] | _ \<Rightarrow> False" by code_simp
  then obtain pairs vl' where b: "BuildValues ?L sample_workload = Inr (pairs, vl')" "map fst pairs = [''field0'']"
    by (auto split: sum.splits prod.splits)
  show ?thesis using read_field_not_built [OF r b(1)] b(2) by simp
qed

end
