(* ===== verification/Rdma_Verbs.thy ===== *)
theory Rdma_Verbs
  imports Driver
begin

text \<open>
  Programs that call the verbs library, and RDMA/CPU/driver/rdma_common.cc. The library is not part
  of the repository: a program is the tree of the calls it makes, each followed by what it does
  with any answer. Handles are numbers, 0 is the null pointer.
\<close>

section \<open>What the library is asked and what it answers\<close>

datatype cm_type = RDMA_CM_EVENT_ADDR_RESOLVED | RDMA_CM_EVENT_ROUTE_RESOLVED | RDMA_CM_EVENT_CONNECT_REQUEST
  | RDMA_CM_EVENT_ESTABLISHED | RDMA_CM_EVENT_DISCONNECTED | Other_cm_event nat

record cm_event =
  ev_status :: int
  ev_type :: cm_type
  ev_id :: nat

record sockaddr =
  sin_addr :: "32 word"
  sin_port :: "16 word"

datatype access = IBV_ACCESS_LOCAL_WRITE | IBV_ACCESS_REMOTE_WRITE | IBV_ACCESS_REMOTE_READ

record mem_region =
  mr_addr :: "64 word"
  mr_length :: "64 word"
  mr_lkey :: "32 word"
  mr_rkey :: "32 word"

text \<open>\<open>struct rdma_buffer_attr\<close>; the union \<open>stag\<close> is one number.\<close>

record rdma_buffer_attr =
  attr_address :: "64 word"
  attr_length :: "64 word"
  attr_stag :: "32 word"

record sge =
  sge_addr :: "64 word"
  sge_length :: "32 word"
  sge_lkey :: "32 word"

text \<open>A send request carries the attributes its element points to.\<close>

datatype send_wr = IBV_WR_SEND sge rdma_buffer_attr | IBV_WR_RDMA_WRITE sge "64 word" "32 word" | IBV_WR_RDMA_READ sge "64 word" "32 word"

record qp_attr =
  max_recv_sge :: nat
  max_recv_wr :: nat
  max_send_sge :: nat
  max_send_wr :: nat
  recv_cq :: nat
  send_cq :: nat

record conn_param =
  initiator_depth :: nat
  responder_resources :: nat
  retry_count :: nat

text \<open>A completion of a receive comes with what the library has written to the buffer.\<close>

record work_completion =
  wc_status :: nat
  wc_received :: "rdma_buffer_attr option"

datatype verb = Getaddrinfo string
  | Rdma_create_event_channel | Rdma_create_id nat | Rdma_resolve_addr nat sockaddr nat | Rdma_resolve_route nat nat
  | Rdma_bind_addr nat sockaddr | Rdma_listen nat nat
  | Rdma_get_cm_event nat | Rdma_ack_cm_event "cm_event option"
  | Ibv_alloc_pd nat | Ibv_create_comp_channel nat | Ibv_create_cq nat nat nat | Ibv_req_notify_cq nat | Rdma_create_qp nat nat qp_attr
  | Ibv_reg_mr nat "64 word" "64 word" "access set" | Ibv_post_recv nat sge | Ibv_post_send nat send_wr
  | Rdma_connect nat conn_param | Rdma_accept nat conn_param
  | Ibv_get_cq_event nat | Ibv_poll_cq nat nat | Ibv_ack_cq_events nat nat
  | Rdma_disconnect nat | Rdma_destroy_qp nat | Rdma_destroy_id nat | Ibv_destroy_cq nat | Ibv_destroy_comp_channel nat
  | Ibv_dereg_mr mem_region | Ibv_dealloc_pd nat | Rdma_destroy_event_channel nat | Free_memory "64 word"

text \<open>
  An answer: the number returned and \<open>errno\<close> after the call; the pointer or region returned or
  stored, the event, the address or the completions stored, where the call has them.
\<close>

record answer =
  a_ret :: int
  a_errno :: int
  a_ptr :: nat
  a_mr :: "mem_region option"
  a_event :: cm_event
  a_sockaddr :: sockaddr
  a_wcs :: "work_completion list"

section \<open>Programs\<close>

text \<open>\<open>Crash\<close> is undefined behaviour; \<open>Spin\<close> means that the fuel of a loop is used up.\<close>

datatype 'a prog = Ret 'a | Call verb "answer \<Rightarrow> 'a prog" | Crash | Spin

primrec then_prog :: "'a prog \<Rightarrow> ('a \<Rightarrow> 'b prog) \<Rightarrow> 'b prog" where
  "then_prog (Ret x) f = f x"
| "then_prog (Call v k) f = Call v (\<lambda>a. then_prog (k a) f)"
| "then_prog Crash f = Crash"
| "then_prog Spin f = Spin"

text \<open>A run: the calls with the answers they got, and what the program returns.\<close>

inductive run :: "'a prog \<Rightarrow> (verb \<times> answer) list \<Rightarrow> 'a \<Rightarrow> bool" where
  run_Ret: "run (Ret x) [] x"
| run_Call: "run (k a) tr x \<Longrightarrow> run (Call v k) ((v, a) # tr) x"

inductive_simps run_simps [simp]: "run (Ret x) tr y" "run (Call v k) tr y" "run Crash tr y" "run Spin tr y"

lemma run_then: "run (then_prog p f) tr y \<longleftrightarrow> (\<exists>tr1 x tr2. tr = tr1 @ tr2 \<and> run p tr1 x \<and> run (f x) tr2 y)"
proof (induction p arbitrary: tr)
  case (Call v k)
  show ?case
  proof
    assume "run (then_prog (Call v k) f) tr y"
    then obtain a tr' where t: "tr = (v, a) # tr'" "run (then_prog (k a) f) tr' y" by auto
    then obtain tr1 x tr2 where "tr' = tr1 @ tr2" "run (k a) tr1 x" "run (f x) tr2 y" using Call.IH [of "k a"] by auto
    then show "\<exists>tr1 x tr2. tr = tr1 @ tr2 \<and> run (Call v k) tr1 x \<and> run (f x) tr2 y"
      using t(1) by (intro exI [of _ "(v, a) # tr1"]) auto
  next
    assume "\<exists>tr1 x tr2. tr = tr1 @ tr2 \<and> run (Call v k) tr1 x \<and> run (f x) tr2 y"
    then show "run (then_prog (Call v k) f) tr y" using Call.IH by fastforce
  qed
qed auto

text \<open>The ways in which the code leaves a function early.\<close>

definition ENOMEM :: int where "ENOMEM = 12"
definition EINVAL :: int where "EINVAL = 22"

definition must :: "verb \<Rightarrow> 's \<Rightarrow> (answer \<Rightarrow> (int \<times> 's) prog) \<Rightarrow> (int \<times> 's) prog" where
  "must v c k = Call v (\<lambda>a. if a_ret a \<noteq> 0 then Ret (- a_errno a, c) else k a)"

definition must_ptr :: "verb \<Rightarrow> (nat \<Rightarrow> 's) \<Rightarrow> ('s \<Rightarrow> (int \<times> 's) prog) \<Rightarrow> (int \<times> 's) prog" where
  "must_ptr v put k = Call v (\<lambda>a. let c = put (a_ptr a) in if a_ptr a = 0 then Ret (- a_errno a, c) else k c)"

definition stage :: "(int \<times> 's) prog \<Rightarrow> ('s \<Rightarrow> (int \<times> 's) prog) \<Rightarrow> (int \<times> 's) prog" where
  "stage p f = then_prog p (\<lambda>(ret, c). if ret \<noteq> 0 then Ret (ret, c) else f c)"

section \<open>rdma_common.cc\<close>

definition CQ_CAPACITY :: nat where "CQ_CAPACITY = 16"
definition MAX_SGE :: nat where "MAX_SGE = 2"
definition MAX_WR :: nat where "MAX_WR = 8"
definition DEFAULT_RDMA_PORT :: "16 word" where "DEFAULT_RDMA_PORT = 20886"

definition rdma_buffer_register :: "nat \<Rightarrow> 64 word \<Rightarrow> 64 word \<Rightarrow> access set \<Rightarrow> mem_region option prog" where
  "rdma_buffer_register pd addr len permission =
     (if pd = 0 then Ret None else Call (Ibv_reg_mr pd addr len permission) (\<lambda>a. Ret (a_mr a)))"

definition rdma_buffer_deregister :: "mem_region option \<Rightarrow> unit prog" where
  "rdma_buffer_deregister mr = (case mr of None \<Rightarrow> Ret () | Some r \<Rightarrow> Call (Ibv_dereg_mr r) (\<lambda>_. Ret ()))"

definition rdma_buffer_free :: "mem_region option \<Rightarrow> unit prog" where
  "rdma_buffer_free mr = (case mr of None \<Rightarrow> Ret ()
     | Some r \<Rightarrow> then_prog (rdma_buffer_deregister mr) (\<lambda>_. Call (Free_memory (mr_addr r)) (\<lambda>_. Ret ())))"

text \<open>The caller gets the number returned, \<open>errno\<close>, and the event stored; no event when none came.\<close>

definition process_rdma_cm_event :: "nat \<Rightarrow> cm_type \<Rightarrow> (int \<times> int \<times> cm_event option) prog" where
  "process_rdma_cm_event echannel expected_event = Call (Rdma_get_cm_event echannel) (\<lambda>a.
     if a_ret a \<noteq> 0 then Ret (- a_errno a, a_errno a, None)
     else let e = a_event a in
     if ev_status e \<noteq> 0 then Call (Rdma_ack_cm_event (Some e)) (\<lambda>b. Ret (- ev_status e, a_errno b, Some e))
     else if ev_type e \<noteq> expected_event then Call (Rdma_ack_cm_event (Some e)) (\<lambda>b. Ret (-1, a_errno b, Some e))
     else Ret (0, a_errno a, Some e))"

text \<open>The number returned is that of the completions stored, and not more than there is room for.\<close>

fun poll_cq :: "nat \<Rightarrow> nat \<Rightarrow> nat \<Rightarrow> work_completion list \<Rightarrow> (int \<times> work_completion list) prog" where
  "poll_cq 0 cq max_wc wcs = Spin"
| "poll_cq (Suc fuel) cq max_wc wcs = Call (Ibv_poll_cq cq (max_wc - length wcs)) (\<lambda>a.
     if a_ret a < 0 then Ret (a_ret a, wcs)
     else if a_ret a \<noteq> int (length (a_wcs a)) \<or> max_wc < length wcs + length (a_wcs a) then Crash
     else let wcs = wcs @ a_wcs a in
       if length wcs < max_wc then poll_cq fuel cq max_wc wcs else Ret (int (length wcs), wcs))"

definition process_work_completion_events :: "nat \<Rightarrow> nat \<Rightarrow> nat \<Rightarrow> (int \<times> work_completion list) prog" where
  "process_work_completion_events fuel comp_channel max_wc = Call (Ibv_get_cq_event comp_channel) (\<lambda>a.
     if a_ret a \<noteq> 0 then Ret (- a_errno a, [])
     else Call (Ibv_req_notify_cq (a_ptr a)) (\<lambda>b.
     if a_ret b \<noteq> 0 then Ret (- a_errno b, [])
     else then_prog (poll_cq fuel (a_ptr a) max_wc []) (\<lambda>(ret, wcs).
     if ret < 0 then Ret (ret, wcs)
     else case find (\<lambda>w. wc_status w \<noteq> 0) wcs of
       Some w \<Rightarrow> Ret (- int (wc_status w), wcs)
     | None \<Rightarrow> Call (Ibv_ack_cq_events (a_ptr a) 1) (\<lambda>_. Ret (ret, wcs)))))"

text \<open>An event of the connection manager that is waited for, and acknowledged by the caller.\<close>

definition wait_for :: "nat \<Rightarrow> cm_type \<Rightarrow> 's \<Rightarrow> (cm_event \<Rightarrow> (int \<times> 's) prog) \<Rightarrow> (int \<times> 's) prog" where
  "wait_for echannel expected_event c k = then_prog (process_rdma_cm_event echannel expected_event) (\<lambda>(ret, errno, e).
     if ret \<noteq> 0 then Ret (ret, c) else must (Rdma_ack_cm_event e) c (\<lambda>_. case e of None \<Rightarrow> Crash | Some e \<Rightarrow> k e))"

text \<open>A region that is registered, put into a member, and must not be missing.\<close>

definition must_register :: "nat \<Rightarrow> 64 word \<Rightarrow> 64 word \<Rightarrow> access set \<Rightarrow> (mem_region option \<Rightarrow> 's)
    \<Rightarrow> ('s \<Rightarrow> mem_region \<Rightarrow> (int \<times> 's) prog) \<Rightarrow> (int \<times> 's) prog" where
  "must_register pd addr len permission put k = then_prog (rdma_buffer_register pd addr len permission)
     (\<lambda>mr. case mr of None \<Rightarrow> Ret (- ENOMEM, put None) | Some r \<Rightarrow> k (put mr) r)"

text \<open>The attributes of the queue pairs, and the resolution of an address.\<close>

definition qp_init_attr :: "nat \<Rightarrow> qp_attr" where
  "qp_init_attr cq = \<lparr>max_recv_sge = MAX_SGE, max_recv_wr = MAX_WR, max_send_sge = MAX_SGE, max_send_wr = MAX_WR, recv_cq = cq, send_cq = cq\<rparr>"

definition sge_of :: "mem_region \<Rightarrow> sge" where
  "sge_of mr = \<lparr>sge_addr = mr_addr mr, sge_length = ucast (mr_length mr), sge_lkey = mr_lkey mr\<rparr>"

definition get_addr :: "string \<Rightarrow> sockaddr \<Rightarrow> (int \<times> sockaddr) prog" where
  "get_addr dst addr = Call (Getaddrinfo dst) (\<lambda>a. if a_ret a \<noteq> 0 then Ret (a_ret a, addr) else Ret (0, a_sockaddr a))"

end
