(* ===== verification/Rdma_Connect.thy ===== *)
theory Rdma_Connect
  imports Rdma_Verbs
begin

text \<open>
  The two ends of an RDMA connection, RDMA/CPU/driver/rdma_driver.h and rdma_driver.cc: the classes
  \<open>rdma_client\<close> and \<open>rdma_server\<close>.
\<close>

section \<open>The client\<close>

text \<open>\<open>c_attr_at\<close> and \<open>c_client_attr_at\<close> are the addresses of the members with the attributes.\<close>

record rdma_client =
  c_cm_event_channel :: nat
  c_cm_client_id :: nat
  c_pd :: nat
  c_io_completion_channel :: nat
  c_client_cq :: nat
  c_client_qp :: nat
  c_client_metadata_mr :: "mem_region option"
  c_client_src_mr :: "mem_region option"
  c_client_dst_mr :: "mem_region option"
  c_server_metadata_mr :: "mem_region option"
  c_remote_node_mr :: "mem_region option"
  c_server_metadata_attr :: rdma_buffer_attr
  c_attr_at :: "64 word"
  c_src :: "64 word"
  c_dst :: "64 word"
  c_src_len :: "64 word"

definition new_rdma_client :: "64 word \<Rightarrow> rdma_buffer_attr \<Rightarrow> rdma_client" where
  "new_rdma_client adr junk = \<lparr>c_cm_event_channel = 0, c_cm_client_id = 0, c_pd = 0, c_io_completion_channel = 0,
     c_client_cq = 0, c_client_qp = 0, c_client_metadata_mr = None, c_client_src_mr = None, c_client_dst_mr = None,
     c_server_metadata_mr = None, c_remote_node_mr = None, c_server_metadata_attr = junk, c_attr_at = adr,
     c_src = 0, c_dst = 0, c_src_len = 0\<rparr>"

definition client_prepare_connection :: "sockaddr \<Rightarrow> rdma_client \<Rightarrow> (int \<times> rdma_client) prog" where
  "client_prepare_connection s_addr c =
     must_ptr Rdma_create_event_channel (\<lambda>p. c\<lparr>c_cm_event_channel := p\<rparr>) (\<lambda>c.
     must (Rdma_create_id (c_cm_event_channel c)) c (\<lambda>a. let c = c\<lparr>c_cm_client_id := a_ptr a\<rparr> in
     must (Rdma_resolve_addr (c_cm_client_id c) s_addr 2000) c (\<lambda>_.
     wait_for (c_cm_event_channel c) RDMA_CM_EVENT_ADDR_RESOLVED c (\<lambda>_.
     must (Rdma_resolve_route (c_cm_client_id c) 2000) c (\<lambda>_.
     wait_for (c_cm_event_channel c) RDMA_CM_EVENT_ROUTE_RESOLVED c (\<lambda>_.
     must_ptr (Ibv_alloc_pd (c_cm_client_id c)) (\<lambda>p. c\<lparr>c_pd := p\<rparr>) (\<lambda>c.
     must_ptr (Ibv_create_comp_channel (c_cm_client_id c)) (\<lambda>p. c\<lparr>c_io_completion_channel := p\<rparr>) (\<lambda>c.
     must_ptr (Ibv_create_cq (c_cm_client_id c) CQ_CAPACITY (c_io_completion_channel c)) (\<lambda>p. c\<lparr>c_client_cq := p\<rparr>) (\<lambda>c.
     must (Ibv_req_notify_cq (c_client_cq c)) c (\<lambda>_.
     must (Rdma_create_qp (c_cm_client_id c) (c_pd c) (qp_init_attr (c_client_cq c))) c (\<lambda>a.
     Ret (0, c\<lparr>c_client_qp := a_ptr a\<rparr>))))))))))))"

definition client_pre_post_recv_buffer :: "rdma_client \<Rightarrow> (int \<times> rdma_client) prog" where
  "client_pre_post_recv_buffer c =
     must_register (c_pd c) (c_attr_at c) 20 {IBV_ACCESS_LOCAL_WRITE} (\<lambda>mr. c\<lparr>c_server_metadata_mr := mr\<rparr>) (\<lambda>c mr.
     Call (Ibv_post_recv (c_client_qp c) (sge_of mr)) (\<lambda>a. if a_ret a \<noteq> 0 then Ret (a_ret a, c) else Ret (0, c)))"

definition client_connect_to_server :: "rdma_client \<Rightarrow> (int \<times> rdma_client) prog" where
  "client_connect_to_server c =
     must (Rdma_connect (c_cm_client_id c) \<lparr>initiator_depth = 3, responder_resources = 3, retry_count = 3\<rparr>) c (\<lambda>_.
     wait_for (c_cm_event_channel c) RDMA_CM_EVENT_ESTABLISHED c (\<lambda>_. Ret (0, c)))"

text \<open>What a completion of the posted receive has written is in \<open>server_metadata_attr\<close>.\<close>

definition receive_attr :: "work_completion list \<Rightarrow> rdma_client \<Rightarrow> rdma_client" where
  "receive_attr wcs c = fold (\<lambda>w c. case wc_received w of None \<Rightarrow> c | Some x \<Rightarrow> c\<lparr>c_server_metadata_attr := x\<rparr>) wcs c"

definition client_xchange_metadata_with_server :: "nat \<Rightarrow> rdma_client \<Rightarrow> (int \<times> rdma_client) prog" where
  "client_xchange_metadata_with_server fuel c =
     then_prog (process_work_completion_events fuel (c_io_completion_channel c) 1) (\<lambda>(ret, wcs).
     let c = receive_attr wcs c in if ret \<noteq> 1 then Ret (ret, c) else Ret (0, c))"

definition rdma_client_setup :: "nat \<Rightarrow> string \<Rightarrow> 64 word \<Rightarrow> 64 word \<Rightarrow> rdma_client \<Rightarrow> (int \<times> rdma_client) prog" where
  "rdma_client_setup fuel address addr len c =
     then_prog (get_addr address \<lparr>sin_addr = htonl 0x7F000001, sin_port = 0\<rparr>) (\<lambda>(ret, sa).
     if ret \<noteq> 0 then Ret (ret, c)
     else let sa = (if sin_port sa = 0 then sa\<lparr>sin_port := htons DEFAULT_RDMA_PORT\<rparr> else sa) in
     stage (client_prepare_connection sa c) (\<lambda>c.
     stage (client_pre_post_recv_buffer c) (\<lambda>c.
     stage (client_connect_to_server c) (\<lambda>c.
     stage (client_xchange_metadata_with_server fuel c) (\<lambda>c.
     must_register (c_pd c) addr len {IBV_ACCESS_LOCAL_WRITE, IBV_ACCESS_REMOTE_WRITE, IBV_ACCESS_REMOTE_READ}
       (\<lambda>mr. c\<lparr>c_remote_node_mr := mr\<rparr>) (\<lambda>c mr. Ret (0, c)))))))"

text \<open>A write and a read of the example the driver comes from; nothing calls it.\<close>

definition remote_op :: "nat \<Rightarrow> send_wr \<Rightarrow> rdma_client \<Rightarrow> (rdma_client \<Rightarrow> (int \<times> rdma_client) prog) \<Rightarrow> (int \<times> rdma_client) prog" where
  "remote_op fuel wr c k = must (Ibv_post_send (c_client_qp c) wr) c (\<lambda>_.
     then_prog (process_work_completion_events fuel (c_io_completion_channel c) 1) (\<lambda>(ret, wcs).
     if ret \<noteq> 1 then Ret (ret, c) else k c))"

definition client_remote_memory_ops :: "nat \<Rightarrow> rdma_client \<Rightarrow> (int \<times> rdma_client) prog" where
  "client_remote_memory_ops fuel c = (if c_src c = 0 then Crash else
     must_register (c_pd c) (c_dst c) (c_src_len c) {IBV_ACCESS_LOCAL_WRITE, IBV_ACCESS_REMOTE_WRITE, IBV_ACCESS_REMOTE_READ}
       (\<lambda>mr. c\<lparr>c_client_dst_mr := mr\<rparr>) (\<lambda>c dst. case c_client_src_mr c of None \<Rightarrow> Crash | Some src \<Rightarrow>
     let attr = c_server_metadata_attr c in
     remote_op fuel (IBV_WR_RDMA_WRITE (sge_of src) (attr_address attr) (attr_stag attr)) c (\<lambda>c.
     remote_op fuel (IBV_WR_RDMA_READ (sge_of dst) (attr_address attr) (attr_stag attr)) c (\<lambda>c. Ret (0, c)))))"

text \<open>\<open>read_remote_node\<close>, call by call; the node read comes into \<open>remote_node\<close>.\<close>

definition read_remote_calls :: "nat \<Rightarrow> 64 word \<Rightarrow> 64 word \<Rightarrow> rdma_client \<Rightarrow> int prog" where
  "read_remote_calls fuel addr fbt_key c = (case c_remote_node_mr c of None \<Rightarrow> Crash | Some mr \<Rightarrow>
     let wr = (if addr = 0 then IBV_WR_RDMA_READ (sge_of mr) fbt_key 0
               else IBV_WR_RDMA_READ (sge_of mr) addr (attr_stag (c_server_metadata_attr c))) in
     Call (Ibv_post_send (c_client_qp c) wr) (\<lambda>a. if a_ret a \<noteq> 0 then Ret (- a_errno a)
     else then_prog (process_work_completion_events fuel (c_io_completion_channel c) 1) (\<lambda>(ret, wcs).
     if ret \<noteq> 1 then Ret ret else Ret 0)))"

text \<open>Calls that are made whatever the answers are.\<close>

primrec calls :: "verb list \<Rightarrow> 'a prog \<Rightarrow> 'a prog" where
  "calls [] p = p"
| "calls (v # vs) p = Call v (\<lambda>_. calls vs p)"

definition client_disconnect_and_clean :: "rdma_client \<Rightarrow> int prog" where
  "client_disconnect_and_clean c =
     calls [Rdma_disconnect (c_cm_client_id c)] (
     then_prog (process_rdma_cm_event (c_cm_event_channel c) RDMA_CM_EVENT_DISCONNECTED) (\<lambda>(ret, errno, e).
     calls [Rdma_ack_cm_event e, Rdma_destroy_qp (c_cm_client_id c), Rdma_destroy_id (c_cm_client_id c),
            Ibv_destroy_cq (c_client_cq c), Ibv_destroy_comp_channel (c_io_completion_channel c)] (
     then_prog (rdma_buffer_deregister (c_server_metadata_mr c)) (\<lambda>_.
     then_prog (rdma_buffer_deregister (c_client_metadata_mr c)) (\<lambda>_.
     then_prog (rdma_buffer_deregister (c_client_src_mr c)) (\<lambda>_.
     then_prog (rdma_buffer_deregister (c_client_dst_mr c)) (\<lambda>_.
     calls [Free_memory (c_src c), Free_memory (c_dst c), Ibv_dealloc_pd (c_pd c), Rdma_destroy_event_channel (c_cm_event_channel c)]
       (Ret 0))))))))"

section \<open>The server\<close>

record rdma_endpoint =
  s_cm_event_channel :: nat
  s_cm_server_id :: nat
  s_cm_client_id :: nat
  s_pd :: nat
  s_io_completion_channel :: nat
  s_cq :: nat
  s_client_qp :: nat
  s_client_metadata_mr :: "mem_region option"
  s_server_buffer_mr :: "mem_region option"
  s_server_metadata_mr :: "mem_region option"
  s_server_metadata_attr :: rdma_buffer_attr
  s_attr_at :: "64 word"

definition new_rdma_endpoint :: "64 word \<Rightarrow> rdma_buffer_attr \<Rightarrow> rdma_endpoint" where
  "new_rdma_endpoint adr junk = \<lparr>s_cm_event_channel = 0, s_cm_server_id = 0, s_cm_client_id = 0, s_pd = 0,
     s_io_completion_channel = 0, s_cq = 0, s_client_qp = 0, s_client_metadata_mr = None, s_server_buffer_mr = None,
     s_server_metadata_mr = None, s_server_metadata_attr = junk, s_attr_at = adr\<rparr>"

definition setup_client_resources :: "rdma_endpoint \<Rightarrow> (int \<times> rdma_endpoint) prog" where
  "setup_client_resources s = (if s_cm_client_id s = 0 then Ret (- EINVAL, s) else
     must_ptr (Ibv_alloc_pd (s_cm_client_id s)) (\<lambda>p. s\<lparr>s_pd := p\<rparr>) (\<lambda>s.
     must_ptr (Ibv_create_comp_channel (s_cm_client_id s)) (\<lambda>p. s\<lparr>s_io_completion_channel := p\<rparr>) (\<lambda>s.
     must_ptr (Ibv_create_cq (s_cm_client_id s) CQ_CAPACITY (s_io_completion_channel s)) (\<lambda>p. s\<lparr>s_cq := p\<rparr>) (\<lambda>s.
     must (Ibv_req_notify_cq (s_cq s)) s (\<lambda>_.
     must (Rdma_create_qp (s_cm_client_id s) (s_pd s) (qp_init_attr (s_cq s))) s (\<lambda>a.
     Ret (0, s\<lparr>s_client_qp := a_ptr a\<rparr>)))))))"

definition start_rdma_server :: "sockaddr \<Rightarrow> rdma_endpoint \<Rightarrow> (int \<times> rdma_endpoint) prog" where
  "start_rdma_server server_addr s =
     must_ptr Rdma_create_event_channel (\<lambda>p. s\<lparr>s_cm_event_channel := p\<rparr>) (\<lambda>s.
     must (Rdma_create_id (s_cm_event_channel s)) s (\<lambda>a. let s = s\<lparr>s_cm_server_id := a_ptr a\<rparr> in
     must (Rdma_bind_addr (s_cm_server_id s) server_addr) s (\<lambda>_.
     must (Rdma_listen (s_cm_server_id s) 8) s (\<lambda>_.
     then_prog (process_rdma_cm_event (s_cm_event_channel s) RDMA_CM_EVENT_CONNECT_REQUEST) (\<lambda>(ret, errno, e).
     if ret \<noteq> 0 then Ret (ret, s)
     else case e of None \<Rightarrow> Crash | Some ev \<Rightarrow> let s = s\<lparr>s_cm_client_id := ev_id ev\<rparr> in
       must (Rdma_ack_cm_event e) s (\<lambda>_. Ret (0, s)))))))"

text \<open>When the event is not a good one, \<open>errno\<close> is returned and not the number of the error.\<close>

definition accept_client_connection :: "rdma_endpoint \<Rightarrow> (int \<times> rdma_endpoint) prog" where
  "accept_client_connection s = (if s_cm_client_id s = 0 \<or> s_client_qp s = 0 then Ret (- EINVAL, s) else
     must (Rdma_accept (s_cm_client_id s) \<lparr>initiator_depth = 3, responder_resources = 3, retry_count = 0\<rparr>) s (\<lambda>_.
     then_prog (process_rdma_cm_event (s_cm_event_channel s) RDMA_CM_EVENT_ESTABLISHED) (\<lambda>(ret, errno, e).
     if ret \<noteq> 0 then Ret (- errno, s)
     else must (Rdma_ack_cm_event e) s (\<lambda>_. Ret (0, s)))))"

definition send_server_metadata_to_client :: "nat \<Rightarrow> 64 word \<Rightarrow> 64 word \<Rightarrow> rdma_endpoint \<Rightarrow> (int \<times> rdma_endpoint) prog" where
  "send_server_metadata_to_client fuel addr len s =
     must_register (s_pd s) addr len {IBV_ACCESS_LOCAL_WRITE, IBV_ACCESS_REMOTE_WRITE, IBV_ACCESS_REMOTE_READ}
       (\<lambda>mr. s\<lparr>s_server_buffer_mr := mr\<rparr>) (\<lambda>s mr.
     let s = s\<lparr>s_server_metadata_attr := \<lparr>attr_address = mr_addr mr, attr_length = mr_length mr, attr_stag = mr_lkey mr\<rparr>\<rparr> in
     must_register (s_pd s) (s_attr_at s) 20 {IBV_ACCESS_LOCAL_WRITE} (\<lambda>mr. s\<lparr>s_server_metadata_mr := mr\<rparr>) (\<lambda>s mr.
     must (Ibv_post_send (s_client_qp s)
       (IBV_WR_SEND \<lparr>sge_addr = s_attr_at s, sge_length = 20, sge_lkey = mr_lkey mr\<rparr> (s_server_metadata_attr s))) s (\<lambda>_.
     then_prog (process_work_completion_events fuel (s_io_completion_channel s) 1) (\<lambda>(ret, wcs).
     if ret \<noteq> 1 then Ret (ret, s) else Ret (0, s)))))"

text \<open>The file with the address and the key is what \<open>s_server_metadata_attr\<close> holds at the end.\<close>

definition rdma_server_setup :: "nat \<Rightarrow> 64 word \<Rightarrow> 64 word \<Rightarrow> rdma_endpoint \<Rightarrow> (int \<times> rdma_endpoint) prog" where
  "rdma_server_setup fuel addr len s =
     stage (start_rdma_server \<lparr>sin_addr = 0, sin_port = htons DEFAULT_RDMA_PORT\<rparr> s) (\<lambda>s.
     stage (setup_client_resources s) (\<lambda>s.
     stage (accept_client_connection s) (\<lambda>s.
     stage (send_server_metadata_to_client fuel addr len s) (\<lambda>s. Ret (0, s)))))"

definition disconnect_and_cleanup :: "rdma_endpoint \<Rightarrow> int prog" where
  "disconnect_and_cleanup s =
     then_prog (process_rdma_cm_event (s_cm_event_channel s) RDMA_CM_EVENT_DISCONNECTED) (\<lambda>(ret, errno, e).
     if ret \<noteq> 0 then Ret ret
     else Call (Rdma_ack_cm_event e) (\<lambda>a. if a_ret a \<noteq> 0 then Ret (- a_errno a)
     else calls [Rdma_destroy_qp (s_cm_client_id s), Rdma_destroy_id (s_cm_client_id s), Ibv_destroy_cq (s_cq s),
                 Ibv_destroy_comp_channel (s_io_completion_channel s)] (
     then_prog (rdma_buffer_free (s_server_buffer_mr s)) (\<lambda>_.
     then_prog (rdma_buffer_deregister (s_server_metadata_mr s)) (\<lambda>_.
     then_prog (rdma_buffer_deregister (s_client_metadata_mr s)) (\<lambda>_.
     calls [Ibv_dealloc_pd (s_pd s), Rdma_destroy_id (s_cm_server_id s), Rdma_destroy_event_channel (s_cm_event_channel s)]
       (Ret 0)))))))"

end
