(* ===== verification/Rdma_Calls.thy ===== *)
theory Rdma_Calls
  imports Rdma_Connect
begin

text \<open>
  What the two ends of the connection do whatever the library answers: which events they
  acknowledge, and when they report success.
\<close>

section \<open>Statements about all runs of a program\<close>

definition ensures :: "'a prog \<Rightarrow> ((verb \<times> answer) list \<Rightarrow> 'a \<Rightarrow> bool) \<Rightarrow> bool" where
  "ensures p Q \<longleftrightarrow> (\<forall>tr x. run p tr x \<longrightarrow> Q tr x)"

lemma ensures_simps [simp]:
  "ensures (Ret x) Q \<longleftrightarrow> Q [] x"
  "ensures Crash Q" "ensures Spin Q"
  "ensures (Call v k) Q \<longleftrightarrow> (\<forall>a. ensures (k a) (\<lambda>tr. Q ((v, a) # tr)))"
  by (auto simp: ensures_def)

lemma ensures_then [simp]: "ensures (then_prog p f) Q \<longleftrightarrow> ensures p (\<lambda>tr x. ensures (f x) (\<lambda>tr'. Q (tr @ tr')))"
  unfolding ensures_def run_then by blast

lemma ensures_mono: "ensures p Q \<Longrightarrow> (\<And>tr x. Q tr x \<Longrightarrow> R tr x) \<Longrightarrow> ensures p R"
  by (auto simp: ensures_def)

section \<open>Events and their acknowledgements\<close>

fun events_got :: "(verb \<times> answer) list \<Rightarrow> cm_event list" where
  "events_got [] = []"
| "events_got ((v, a) # tr) = (case v of Rdma_get_cm_event _ \<Rightarrow> if a_ret a = 0 then a_event a # events_got tr else events_got tr
     | _ \<Rightarrow> events_got tr)"

fun events_acked :: "(verb \<times> answer) list \<Rightarrow> cm_event list" where
  "events_acked [] = []"
| "events_acked ((v, a) # tr) = (case v of Rdma_ack_cm_event (Some e) \<Rightarrow> e # events_acked tr | _ \<Rightarrow> events_acked tr)"

lemma events_append [simp]:
  "events_got (tr @ tr') = events_got tr @ events_got tr'" "events_acked (tr @ tr') = events_acked tr @ events_acked tr'"
  by (induction tr) (auto split: verb.splits option.splits)

definition acknowledges :: "'a prog \<Rightarrow> bool" where
  "acknowledges p \<longleftrightarrow> ensures p (\<lambda>tr x. events_got tr = events_acked tr)"

named_theorems acks

definition no_cm_verb :: "verb \<Rightarrow> bool" where
  "no_cm_verb v = (case v of Rdma_get_cm_event _ \<Rightarrow> False | Rdma_ack_cm_event _ \<Rightarrow> False | _ \<Rightarrow> True)"

lemma events_no_cm [simp]:
  "no_cm_verb v \<Longrightarrow> events_got ((v, a) # tr) = events_got tr" "no_cm_verb v \<Longrightarrow> events_acked ((v, a) # tr) = events_acked tr"
  by (auto simp: no_cm_verb_def split: verb.splits)

lemma acks_basic [simp]:
  "acknowledges (Ret x)" "acknowledges Crash" "acknowledges Spin"
  "no_cm_verb v \<Longrightarrow> acknowledges (Call v k) \<longleftrightarrow> (\<forall>a. acknowledges (k a))"
  by (auto simp: acknowledges_def simp del: events_got.simps(2) events_acked.simps(2))

lemma acks_if [acks]: "(b \<Longrightarrow> acknowledges p) \<Longrightarrow> (\<not> b \<Longrightarrow> acknowledges q) \<Longrightarrow> acknowledges (if b then p else q)"
  by simp

lemma acks_then [acks]:
  assumes "acknowledges p" "\<And>x. acknowledges (f x)"
  shows "acknowledges (then_prog p f)"
proof -
  have "ensures p (\<lambda>tr x. ensures (f x) (\<lambda>tr' y. events_got (tr @ tr') = events_acked (tr @ tr')))"
    using assms(2) by (intro ensures_mono [OF assms(1) [unfolded acknowledges_def]]) (simp add: acknowledges_def)
  then show ?thesis by (simp add: acknowledges_def)
qed

lemma acks_must [acks]: "no_cm_verb v \<Longrightarrow> (\<And>a. acknowledges (k a)) \<Longrightarrow> acknowledges (must v c k)"
  by (auto simp: must_def)

lemma acks_must_ptr [acks]: "no_cm_verb v \<Longrightarrow> (\<And>c. acknowledges (k c)) \<Longrightarrow> acknowledges (must_ptr v f k)"
  by (auto simp: must_ptr_def Let_def)

lemma acks_stage [acks]: "acknowledges p \<Longrightarrow> (\<And>c. acknowledges (f c)) \<Longrightarrow> acknowledges (stage p f)"
  unfolding stage_def by (rule acks_then) (auto split: prod.splits)

lemma acks_register [acks]: "(\<And>c r. acknowledges (k c r)) \<Longrightarrow> acknowledges (must_register pd addr len perm put k)"
  unfolding must_register_def rdma_buffer_register_def
  by (rule acks_then) (auto simp: no_cm_verb_def split: option.splits)

lemma acks_poll [acks]: "acknowledges (poll_cq fuel cq n wcs)"
proof (induction fuel arbitrary: wcs)
  case (Suc fuel)
  show ?case unfolding poll_cq.simps
    by (simp add: no_cm_verb_def Let_def Suc.IH)
qed simp

lemma acks_process_work [acks]: "acknowledges (process_work_completion_events fuel ch n)"
proof -
  have "acknowledges (then_prog (poll_cq fuel q n []) (\<lambda>(ret, wcs). if ret < 0 then Ret (ret, wcs)
      else case find (\<lambda>w. wc_status w \<noteq> 0) wcs of Some w \<Rightarrow> Ret (- int (wc_status w), wcs)
      | None \<Rightarrow> Call (Ibv_ack_cq_events q 1) (\<lambda>_. Ret (ret, wcs))))" for q
    by (rule acks_then [OF acks_poll]) (auto simp: no_cm_verb_def split: option.splits)
  then show ?thesis
    unfolding process_work_completion_events_def
    by (simp add: no_cm_verb_def)
qed

text \<open>
  A function that gets an event and finds it good leaves the acknowledgement to its caller: what
  comes next must acknowledge it first.
\<close>

definition owes :: "cm_event \<Rightarrow> 'a prog \<Rightarrow> bool" where
  "owes e p \<longleftrightarrow> ensures p (\<lambda>tr x. e # events_got tr = events_acked tr)"

lemma owes_ack [acks]: "(\<And>a. acknowledges (k a)) \<Longrightarrow> owes e (Call (Rdma_ack_cm_event (Some e)) k)"
  by (auto simp: owes_def acknowledges_def)

lemma owes_must [acks]: "(\<And>a. acknowledges (k a)) \<Longrightarrow> owes e (must (Rdma_ack_cm_event (Some e)) c k)"
  unfolding must_def by (rule owes_ack) auto

lemma acks_process [acks]:
  assumes "\<And>r n e. r \<noteq> 0 \<Longrightarrow> acknowledges (f (r, n, e))" "\<And>n. acknowledges (f (0, n, None))" "\<And>n e. owes e (f (0, n, Some e))"
  shows "acknowledges (then_prog (process_rdma_cm_event ch ty) f)"
proof -
  have n: "acknowledges (f (r, n, None))" for r n using assms(1,2) by (cases "r = 0") auto
  show ?thesis
    using n assms(1,3) by (auto simp: process_rdma_cm_event_def acknowledges_def owes_def Let_def)
qed

lemma acks_null [acks]: "(\<And>a. acknowledges (k a)) \<Longrightarrow> acknowledges (Call (Rdma_ack_cm_event None) k)"
  by (auto simp: acknowledges_def)

lemma acks_wait_for [acks]:
  assumes "\<And>e. acknowledges (k e)"
  shows "acknowledges (wait_for ch ty c k)"
  unfolding wait_for_def
proof (rule acks_process)
  fix r n e
  show "r \<noteq> 0 \<Longrightarrow> acknowledges (case (r, n, e) of (ret, errno, e) \<Rightarrow> if ret \<noteq> 0 then Ret (ret, c) else must (Rdma_ack_cm_event e) c (\<lambda>_. case e of None \<Rightarrow> Crash | Some e \<Rightarrow> k e))"
    for r :: int and n :: int and e by auto
next
  show "acknowledges (case (0, n, None) of (ret, errno, e) \<Rightarrow> if ret \<noteq> 0 then Ret (ret, c) else must (Rdma_ack_cm_event e) c (\<lambda>_. case e of None \<Rightarrow> Crash | Some e \<Rightarrow> k e))"
    for n :: int by (auto simp: must_def intro: acks_null)
next
  show "owes e (case (0, n, Some e) of (ret, errno, e) \<Rightarrow> if ret \<noteq> 0 then Ret (ret, c) else must (Rdma_ack_cm_event e) c (\<lambda>_. case e of None \<Rightarrow> Crash | Some e \<Rightarrow> k e))"
    for n :: int and e using assms by (auto intro: owes_must)
qed

text \<open>Both ends, whatever happens.\<close>

lemmas must_then_simps = client_prepare_connection_def client_pre_post_recv_buffer_def client_connect_to_server_def
  client_xchange_metadata_with_server_def start_rdma_server_def setup_client_resources_def send_server_metadata_to_client_def

lemma acks_client_setup: "acknowledges (rdma_client_setup fuel address addr len c)"
  unfolding rdma_client_setup_def get_addr_def must_then_simps Let_def
  by (auto intro!: acks simp: no_cm_verb_def)

lemma acks_server_setup: "acknowledges (rdma_server_setup fuel addr len s)"
proof -
  have a: "acknowledges (start_rdma_server sa s)" for sa s
  proof -
    have w: "acknowledges (then_prog (process_rdma_cm_event ch ty) (\<lambda>(ret, errno, e). if ret \<noteq> 0 then Ret (ret, s)
        else case e of None \<Rightarrow> Crash | Some ev \<Rightarrow> must (Rdma_ack_cm_event e) (g ev) (\<lambda>_. Ret (0 :: int, g ev))))"
      for ch ty and s :: rdma_endpoint and g by (rule acks_process) (auto intro: owes_must)
    show ?thesis
      unfolding start_rdma_server_def Let_def by (intro acks_must_ptr acks_must w) (simp_all add: no_cm_verb_def)
  qed
  have b: "acknowledges (accept_client_connection s)" for s
    unfolding accept_client_connection_def
    by (intro acks_if acks_must acks_process) (auto simp: no_cm_verb_def must_def intro!: acks_null owes_ack)
  show ?thesis
    unfolding rdma_server_setup_def setup_client_resources_def send_server_metadata_to_client_def Let_def
    by (auto intro!: acks a b simp: no_cm_verb_def)
qed

section \<open>What success means\<close>

text \<open>A call that succeeds.\<close>

fun succeeded :: "verb \<Rightarrow> answer \<Rightarrow> bool" where
  "succeeded Rdma_create_event_channel a \<longleftrightarrow> a_ptr a \<noteq> 0"
| "succeeded (Ibv_alloc_pd i) a \<longleftrightarrow> a_ptr a \<noteq> 0"
| "succeeded (Ibv_create_comp_channel i) a \<longleftrightarrow> a_ptr a \<noteq> 0"
| "succeeded (Ibv_create_cq i n ch) a \<longleftrightarrow> a_ptr a \<noteq> 0"
| "succeeded (Ibv_reg_mr pd addr len perm) a \<longleftrightarrow> a_mr a \<noteq> None"
| "succeeded (Rdma_get_cm_event ch) a \<longleftrightarrow> a_ret a = 0 \<and> ev_status (a_event a) = 0"
| "succeeded (Ibv_poll_cq q n) a \<longleftrightarrow> 0 \<le> a_ret a \<and> (\<forall>w \<in> set (a_wcs a). wc_status w = 0)"
| "succeeded (Ibv_ack_cq_events q n) a \<longleftrightarrow> True"
| "succeeded v a \<longleftrightarrow> a_ret a = 0"

text \<open>
  Most failures are reported by returning \<open>-errno\<close>. One that leaves no positive number in \<open>errno\<close>
  is silent. An error of the address, of a receive that cannot be posted, of a region, of an event
  or of a completion is reported by another number.
\<close>

fun silent :: "verb \<Rightarrow> answer \<Rightarrow> bool" where
  "silent (Getaddrinfo d) a \<longleftrightarrow> False"
| "silent (Ibv_post_recv q g) a \<longleftrightarrow> False"
| "silent (Ibv_reg_mr pd addr len perm) a \<longleftrightarrow> False"
| "silent (Ibv_poll_cq q n) a \<longleftrightarrow> False"
| "silent (Rdma_get_cm_event ch) a \<longleftrightarrow> a_ret a \<noteq> 0 \<and> a_errno a \<le> 0"
| "silent v a \<longleftrightarrow> \<not> succeeded v a \<and> a_errno a \<le> 0"

abbreviation fine :: "verb \<Rightarrow> answer \<Rightarrow> bool" where
  "fine v a \<equiv> succeeded v a \<or> silent v a"

definition all_fine :: "(verb \<times> answer) list \<Rightarrow> bool" where
  "all_fine tr \<longleftrightarrow> (\<forall>(v, a) \<in> set tr. fine v a)"

lemma all_fine_simps [simp]:
  "all_fine []" "all_fine ((v, a) # tr) \<longleftrightarrow> fine v a \<and> all_fine tr" "all_fine (tr @ tr') \<longleftrightarrow> all_fine tr \<and> all_fine tr'"
  by (auto simp: all_fine_def)

definition honest :: "('a \<Rightarrow> bool) \<Rightarrow> 'a prog \<Rightarrow> bool" where
  "honest good p \<longleftrightarrow> ensures p (\<lambda>tr x. good x \<longrightarrow> all_fine tr)"

definition fails :: "('a \<Rightarrow> bool) \<Rightarrow> 'a prog \<Rightarrow> bool" where
  "fails good p \<longleftrightarrow> ensures p (\<lambda>tr x. \<not> good x)"

lemma honest_Ret [simp]: "honest good (Ret x)" "honest good Crash" "honest good Spin" "fails good (Ret x) \<longleftrightarrow> \<not> good x"
  "fails good Crash" "fails good Spin"
  by (simp_all add: honest_def fails_def)

lemma fails_honest: "fails good p \<Longrightarrow> honest good p"
  by (auto simp: fails_def honest_def ensures_def)

lemma fails_Call: "(\<And>a. fails good (k a)) \<Longrightarrow> fails good (Call v k)"
  by (simp add: fails_def)

lemma honest_Call:
  assumes "\<And>a. fine v a \<Longrightarrow> honest good (k a)" "\<And>a. \<not> fine v a \<Longrightarrow> fails good (k a)"
  shows "honest good (Call v k)"
  using assms unfolding honest_def fails_def ensures_def by (auto, blast+)

lemma honest_then:
  assumes "honest good' p" "\<And>x. good' x \<Longrightarrow> honest good (f x)" "\<And>x. \<not> good' x \<Longrightarrow> fails good (f x)"
  shows "honest good (then_prog p f)"
  unfolding honest_def ensures_def
proof (intro allI impI)
  fix tr y assume r: "run (then_prog p f) tr y" "good y"
  then obtain tr1 x tr2 where t: "tr = tr1 @ tr2" "run p tr1 x" "run (f x) tr2 y" by (auto simp: run_then)
  show "all_fine tr"
  proof (cases "good' x")
    case True
    then show ?thesis using t r assms(1) assms(2) [OF True] by (auto simp: honest_def ensures_def)
  next
    case False
    then show ?thesis using t r assms(3) [OF False] by (auto simp: fails_def ensures_def)
  qed
qed

abbreviation reports_0 :: "int \<times> 'a \<Rightarrow> bool" where
  "reports_0 \<equiv> \<lambda>x. fst x = 0"

named_theorems honesty

lemma honest_must [honesty]:
  assumes "\<And>a. \<not> fine v a \<Longrightarrow> a_ret a \<noteq> 0 \<and> 0 < a_errno a" "\<And>a. honest reports_0 (k a)"
  shows "honest reports_0 (must v c k)"
  unfolding must_def by (rule honest_Call) (use assms in force)+

lemma honest_must_ptr [honesty]:
  assumes "\<And>a. \<not> fine v a \<Longrightarrow> a_ptr a = 0 \<and> 0 < a_errno a" "\<And>c. honest reports_0 (k c)"
  shows "honest reports_0 (must_ptr v put k)"
  unfolding must_ptr_def Let_def by (rule honest_Call) (use assms in force)+

lemma honest_stage [honesty]:
  "honest reports_0 p \<Longrightarrow> (\<And>c. honest reports_0 (f c)) \<Longrightarrow> honest reports_0 (stage p f)"
  unfolding stage_def by (rule honest_then [where good' = reports_0]) auto

lemma honest_process: "honest reports_0 (process_rdma_cm_event ch ty)"
  unfolding process_rdma_cm_event_def by (rule honest_Call) (auto intro!: fails_honest fails_Call simp: Let_def)

lemma honest_wait_for [honesty]:
  "(\<And>e. honest reports_0 (k e)) \<Longrightarrow> honest reports_0 (wait_for ch ty c k)"
  unfolding wait_for_def
  by (rule honest_then [OF honest_process]) (auto intro!: honest_must split: option.splits)

lemma honest_register [honesty]:
  assumes "\<And>c r. honest reports_0 (k c r)"
  shows "honest reports_0 (must_register pd addr len perm put k)"
proof -
  have "honest (\<lambda>mr. mr \<noteq> None) (rdma_buffer_register pd addr len perm)"
    unfolding rdma_buffer_register_def by (auto intro!: honest_Call)
  then show ?thesis
    unfolding must_register_def by (rule honest_then) (use assms in \<open>auto simp: ENOMEM_def\<close>)
qed

definition good_poll :: "int \<times> work_completion list \<Rightarrow> bool" where
  "good_poll x \<longleftrightarrow> 0 \<le> fst x \<and> (\<forall>w \<in> set (snd x). wc_status w = 0)"

lemma poll_fails: "w \<in> set wcs \<Longrightarrow> wc_status w \<noteq> 0 \<Longrightarrow> fails good_poll (poll_cq fuel q n wcs)"
proof (induction fuel arbitrary: wcs)
  case (Suc fuel)
  show ?case unfolding poll_cq.simps
    by (rule fails_Call) (use Suc in \<open>auto simp: Let_def good_poll_def\<close>)
qed (simp add: fails_def)

lemma honest_poll: "(\<And>w. w \<in> set wcs \<Longrightarrow> wc_status w = 0) \<Longrightarrow> honest good_poll (poll_cq fuel q n wcs)"
proof (induction fuel arbitrary: wcs)
  case (Suc fuel)
  show ?case unfolding poll_cq.simps
  proof (rule honest_Call)
    fix a assume a: "fine (Ibv_poll_cq q (n - length wcs)) a"
    then have "honest good_poll (poll_cq fuel q n (wcs @ a_wcs a))"
      using Suc.prems by (intro Suc.IH) auto
    with a show "honest good_poll (if a_ret a < 0 then Ret (a_ret a, wcs)
      else if a_ret a \<noteq> int (length (a_wcs a)) \<or> n < length wcs + length (a_wcs a) then Crash
      else let wcs = wcs @ a_wcs a in if length wcs < n then poll_cq fuel q n wcs else Ret (int (length wcs), wcs))"
      by (simp add: Let_def)
  next
    fix a assume a: "\<not> fine (Ibv_poll_cq q (n - length wcs)) a"
    show "fails good_poll (if a_ret a < 0 then Ret (a_ret a, wcs)
      else if a_ret a \<noteq> int (length (a_wcs a)) \<or> n < length wcs + length (a_wcs a) then Crash
      else let wcs = wcs @ a_wcs a in if length wcs < n then poll_cq fuel q n wcs else Ret (int (length wcs), wcs))"
      using a poll_fails [of _ "wcs @ a_wcs a"] by (auto simp: Let_def good_poll_def)
  qed
qed simp

text \<open>The caller compares what it gets with the number of completions it waits for.\<close>

lemma honest_process_work: "honest (\<lambda>x. 0 \<le> fst x) (process_work_completion_events fuel ch 1)"
proof -
  have p: "honest (\<lambda>x. 0 \<le> fst x) (then_prog (poll_cq fuel q n []) (\<lambda>(ret, wcs). if ret < 0 then Ret (ret, wcs)
      else case find (\<lambda>w. wc_status w \<noteq> 0) wcs of Some w \<Rightarrow> Ret (- int (wc_status w), wcs)
      | None \<Rightarrow> Call (Ibv_ack_cq_events q 1) (\<lambda>_. Ret (ret, wcs))))" for q n
  proof (rule honest_then [OF honest_poll])
    show "honest (\<lambda>x. 0 \<le> fst x) (case x of (ret, wcs) \<Rightarrow> if ret < 0 then Ret (ret, wcs)
      else case find (\<lambda>w. wc_status w \<noteq> 0) wcs of Some w \<Rightarrow> Ret (- int (wc_status w), wcs)
      | None \<Rightarrow> Call (Ibv_ack_cq_events q 1) (\<lambda>_. Ret (ret, wcs)))" for x
      by (auto split: prod.splits option.splits intro!: honest_Call)
    show "fails (\<lambda>x. 0 \<le> fst x) (case x of (ret, wcs) \<Rightarrow> if ret < 0 then Ret (ret, wcs)
      else case find (\<lambda>w. wc_status w \<noteq> 0) wcs of Some w \<Rightarrow> Ret (- int (wc_status w), wcs)
      | None \<Rightarrow> Call (Ibv_ack_cq_events q 1) (\<lambda>_. Ret (ret, wcs)))" if "\<not> good_poll x" for x
      using that by (auto simp: good_poll_def find_None_iff find_Some_iff split: prod.splits option.splits)
  qed simp
  have n: "honest (\<lambda>x. 0 \<le> fst x) (Call (Ibv_req_notify_cq q) (\<lambda>b. if a_ret b \<noteq> 0 then Ret (- a_errno b, [])
      else then_prog (poll_cq fuel q n []) (\<lambda>(ret, wcs). if ret < 0 then Ret (ret, wcs)
      else case find (\<lambda>w. wc_status w \<noteq> 0) wcs of Some w \<Rightarrow> Ret (- int (wc_status w), wcs)
      | None \<Rightarrow> Call (Ibv_ack_cq_events q 1) (\<lambda>_. Ret (ret, wcs)))))" for q n
    by (rule honest_Call) (use p in auto)
  show ?thesis
    unfolding process_work_completion_events_def by (rule honest_Call) (use n in auto)
qed

lemma honest_client_setup: "honest reports_0 (rdma_client_setup fuel address addr len c)"
proof -
  have x: "honest reports_0 (client_xchange_metadata_with_server fuel c)" for c
    unfolding client_xchange_metadata_with_server_def Let_def
    by (rule honest_then [OF honest_process_work]) (auto split: prod.splits)
  have r: "honest reports_0 (client_pre_post_recv_buffer c)" for c
    unfolding client_pre_post_recv_buffer_def by (rule honest_register, rule honest_Call) auto
  have p: "honest reports_0 (client_prepare_connection sa c)" for sa c
    unfolding client_prepare_connection_def Let_def by (intro honesty) auto
  have q: "honest reports_0 (client_connect_to_server c)" for c
    unfolding client_connect_to_server_def by (intro honesty) auto
  have s: "honest reports_0 (stage (client_prepare_connection sa c) (\<lambda>c.
     stage (client_pre_post_recv_buffer c) (\<lambda>c.
     stage (client_connect_to_server c) (\<lambda>c.
     stage (client_xchange_metadata_with_server fuel c) (\<lambda>c.
     must_register (c_pd c) addr len perm put (\<lambda>c mr. Ret (0, c)))))))" for sa c perm and put :: "mem_region option \<Rightarrow> rdma_client"
    by (intro honest_stage honest_register p q r x) simp_all
  have g: "honest reports_0 (get_addr address sa)" for sa
    unfolding get_addr_def by (rule honest_Call) auto
  show ?thesis
    unfolding rdma_client_setup_def Let_def
  proof (rule honest_then [OF g])
  qed (auto split: prod.splits intro!: honesty p q r x)
qed

end
