(* ===== verification/Rdma_Handshake.thy ===== *)
theory Rdma_Handshake
  imports Rdma_Connect
begin

text \<open>
  The client and the server of a connection side by side. What the verbs library does is stated as
  a hypothesis on a library that is a parameter: how it answers a call in the state of the two
  ends it knows, and when a call waits. The two programs are shown to follow this protocol, and
  then to come to an end together under every schedule.
\<close>

section \<open>What the library knows of an end\<close>

text \<open>
  The handles it has given out and how far the connection is. \<open>p_conn\<close> is the identifier of the
  connection; at the server it comes with the request, and \<open>p_id\<close> is the one that listens.
  \<open>p_attr\<close> is what has been received, at the server what has been sent; \<open>p_keys\<close> what the device
  guarantees of the local and the remote key of a region.
\<close>

record proto =
  p_phase :: nat
  p_channel :: nat
  p_id :: nat
  p_conn :: nat
  p_pd :: nat
  p_comp :: nat
  p_cq :: nat
  p_qp :: nat
  p_mrs :: "mem_region list"
  p_attr :: "rdma_buffer_attr option"
  p_keys :: "32 word \<Rightarrow> 32 word \<Rightarrow> bool"

definition new_proto :: "(32 word \<Rightarrow> 32 word \<Rightarrow> bool) \<Rightarrow> proto" where
  "new_proto K = \<lparr>p_phase = 0, p_channel = 0, p_id = 0, p_conn = 0, p_pd = 0, p_comp = 0, p_cq = 0, p_qp = 0, p_mrs = [], p_attr = None, p_keys = K\<rparr>"

text \<open>Calls that ask for resources: with the right handles, they are answered with new ones.\<close>

fun resource_may :: "proto \<Rightarrow> verb \<Rightarrow> bool" where
  "resource_may c (Getaddrinfo d) \<longleftrightarrow> True"
| "resource_may c Rdma_create_event_channel \<longleftrightarrow> True"
| "resource_may c (Rdma_create_id ch) \<longleftrightarrow> ch = p_channel c"
| "resource_may c (Rdma_ack_cm_event e) \<longleftrightarrow> e \<noteq> None"
| "resource_may c (Ibv_alloc_pd i) \<longleftrightarrow> i = p_conn c"
| "resource_may c (Ibv_create_comp_channel i) \<longleftrightarrow> i = p_conn c"
| "resource_may c (Ibv_create_cq i n ch) \<longleftrightarrow> i = p_conn c \<and> 0 < n \<and> ch = p_comp c"
| "resource_may c (Ibv_req_notify_cq q) \<longleftrightarrow> q = p_cq c"
| "resource_may c (Rdma_create_qp i pd attr) \<longleftrightarrow> i = p_conn c \<and> pd = p_pd c \<and> recv_cq attr = p_cq c \<and> send_cq attr = p_cq c"
| "resource_may c (Ibv_reg_mr pd addr len perm) \<longleftrightarrow> pd = p_pd c"
| "resource_may c (Ibv_ack_cq_events q n) \<longleftrightarrow> q = p_cq c"
| "resource_may c v \<longleftrightarrow> False"

fun resource_next :: "proto \<Rightarrow> verb \<Rightarrow> answer \<Rightarrow> proto" where
  "resource_next c Rdma_create_event_channel a = c\<lparr>p_channel := a_ptr a\<rparr>"
| "resource_next c (Rdma_create_id ch) a = c\<lparr>p_id := a_ptr a\<rparr>"
| "resource_next c (Ibv_alloc_pd i) a = c\<lparr>p_pd := a_ptr a\<rparr>"
| "resource_next c (Ibv_create_comp_channel i) a = c\<lparr>p_comp := a_ptr a\<rparr>"
| "resource_next c (Ibv_create_cq i n ch) a = c\<lparr>p_cq := a_ptr a\<rparr>"
| "resource_next c (Rdma_create_qp i pd attr) a = c\<lparr>p_qp := a_ptr a\<rparr>"
| "resource_next c (Ibv_reg_mr pd addr len perm) a = (case a_mr a of None \<Rightarrow> c | Some mr \<Rightarrow> c\<lparr>p_mrs := mr # p_mrs c\<rparr>)"
| "resource_next c v a = c"

text \<open>
  A good answer: no error, a pointer that is not null, a region where it was asked for. As an
  idealisation a queue that has notified is never found empty and never has more than the one
  completion an end waits for: polling gives exactly this one.
\<close>

fun good_answer :: "proto \<Rightarrow> verb \<Rightarrow> answer \<Rightarrow> bool" where
  "good_answer c (Ibv_reg_mr pd addr len perm) a \<longleftrightarrow> (case a_mr a of None \<Rightarrow> False | Some mr \<Rightarrow> mr_addr mr = addr \<and> mr_length mr = len \<and> p_keys c (mr_lkey mr) (mr_rkey mr))"
| "good_answer c (Ibv_get_cq_event ch) a \<longleftrightarrow> a_ret a = 0 \<and> a_ptr a = p_cq c"
| "good_answer c (Ibv_poll_cq q n) a \<longleftrightarrow> a_ret a = 1 \<and> length (a_wcs a) = 1 \<and> wc_status (hd (a_wcs a)) = 0"
| "good_answer c (Rdma_get_cm_event ch) a \<longleftrightarrow> a_ret a = 0 \<and> ev_status (a_event a) = 0 \<and> ev_id (a_event a) \<noteq> 0"
| "good_answer c v a \<longleftrightarrow> a_ret a = 0 \<and> a_ptr a \<noteq> 0"

section \<open>The client's side of the protocol\<close>

text \<open>
  Phases of the client: 0 at the beginning, 1 resolving the address, 2 resolved, 3 resolving the
  route, 4 resolved, 5 a receive is posted, 6 connecting, 7 connected, 8 told of a completion, 9
  the completion is there.
\<close>

fun client_may :: "proto \<Rightarrow> verb \<Rightarrow> bool" where
  "client_may c (Rdma_resolve_addr i sa n) \<longleftrightarrow> p_phase c = 0 \<and> i = p_conn c"
| "client_may c (Rdma_resolve_route i n) \<longleftrightarrow> p_phase c = 2 \<and> i = p_conn c"
| "client_may c (Rdma_get_cm_event ch) \<longleftrightarrow> p_phase c \<in> {1, 3, 6} \<and> ch = p_channel c"
| "client_may c (Ibv_post_recv q s) \<longleftrightarrow> p_phase c = 4 \<and> q = p_qp c \<and> (\<exists>mr \<in> set (p_mrs c). s = sge_of mr)"
| "client_may c (Rdma_connect i p) \<longleftrightarrow> p_phase c = 5 \<and> i = p_conn c"
| "client_may c (Ibv_get_cq_event ch) \<longleftrightarrow> p_phase c = 7 \<and> ch = p_comp c"
| "client_may c (Ibv_poll_cq q n) \<longleftrightarrow> p_phase c = 8 \<and> q = p_cq c \<and> 0 < n"
| "client_may c v \<longleftrightarrow> resource_may c v"

definition client_event :: "nat \<Rightarrow> cm_type" where
  "client_event ph = (if ph = 1 then RDMA_CM_EVENT_ADDR_RESOLVED else if ph = 3 then RDMA_CM_EVENT_ROUTE_RESOLVED else RDMA_CM_EVENT_ESTABLISHED)"

definition client_answer :: "proto \<Rightarrow> verb \<Rightarrow> answer \<Rightarrow> bool" where
  "client_answer c v a \<longleftrightarrow> good_answer c v a \<and> (case v of
     Rdma_get_cm_event ch \<Rightarrow> ev_type (a_event a) = client_event (p_phase c)
   | Ibv_poll_cq q n \<Rightarrow> wc_received (hd (a_wcs a)) \<noteq> None
   | _ \<Rightarrow> True)"

fun client_next :: "proto \<Rightarrow> verb \<Rightarrow> answer \<Rightarrow> proto" where
  "client_next c (Rdma_create_id ch) a = c\<lparr>p_id := a_ptr a, p_conn := a_ptr a\<rparr>"
| "client_next c (Rdma_resolve_addr i sa n) a = c\<lparr>p_phase := 1\<rparr>"
| "client_next c (Rdma_resolve_route i n) a = c\<lparr>p_phase := 3\<rparr>"
| "client_next c (Rdma_get_cm_event ch) a = c\<lparr>p_phase := p_phase c + 1\<rparr>"
| "client_next c (Ibv_post_recv q s) a = c\<lparr>p_phase := 5\<rparr>"
| "client_next c (Rdma_connect i p) a = c\<lparr>p_phase := 6\<rparr>"
| "client_next c (Ibv_get_cq_event ch) a = c\<lparr>p_phase := 8\<rparr>"
| "client_next c (Ibv_poll_cq q n) a = c\<lparr>p_phase := 9, p_attr := wc_received (hd (a_wcs a))\<rparr>"
| "client_next c v a = resource_next c v a"

section \<open>The server's side\<close>

text \<open>
  Phases of the server: 0 at the beginning, 1 listening, 2 a request is there, 3 accepted, 4
  connected, 5 the attributes are sent, 6 told of the completion, 7 the completion is there.
\<close>

fun server_may :: "proto \<Rightarrow> verb \<Rightarrow> bool" where
  "server_may s (Rdma_bind_addr i sa) \<longleftrightarrow> p_phase s = 0 \<and> i = p_id s"
| "server_may s (Rdma_listen i n) \<longleftrightarrow> p_phase s = 0 \<and> i = p_id s"
| "server_may s (Rdma_get_cm_event ch) \<longleftrightarrow> p_phase s \<in> {1, 3} \<and> ch = p_channel s"
| "server_may s (Rdma_accept i p) \<longleftrightarrow> p_phase s = 2 \<and> i = p_conn s \<and> p_qp s \<noteq> 0"
| "server_may s (Ibv_post_send q (IBV_WR_SEND g x)) \<longleftrightarrow> p_phase s = 4 \<and> q = p_qp s \<and> (\<exists>mr \<in> set (p_mrs s). sge_lkey g = mr_lkey mr \<and> sge_addr g = mr_addr mr)"
| "server_may s (Ibv_get_cq_event ch) \<longleftrightarrow> p_phase s = 5 \<and> ch = p_comp s"
| "server_may s (Ibv_poll_cq q n) \<longleftrightarrow> p_phase s = 6 \<and> q = p_cq s \<and> 0 < n"
| "server_may s v \<longleftrightarrow> resource_may s v"

definition server_answer :: "proto \<Rightarrow> verb \<Rightarrow> answer \<Rightarrow> bool" where
  "server_answer s v a \<longleftrightarrow> good_answer s v a \<and> (case v of
     Rdma_get_cm_event ch \<Rightarrow> ev_type (a_event a) = (if p_phase s = 1 then RDMA_CM_EVENT_CONNECT_REQUEST else RDMA_CM_EVENT_ESTABLISHED)
   | _ \<Rightarrow> True)"

fun server_next :: "proto \<Rightarrow> verb \<Rightarrow> answer \<Rightarrow> proto" where
  "server_next s (Rdma_listen i n) a = s\<lparr>p_phase := 1\<rparr>"
| "server_next s (Rdma_get_cm_event ch) a = (if p_phase s = 1 then s\<lparr>p_phase := 2, p_conn := ev_id (a_event a)\<rparr> else s\<lparr>p_phase := 4\<rparr>)"
| "server_next s (Rdma_accept i p) a = s\<lparr>p_phase := 3\<rparr>"
| "server_next s (Ibv_post_send q (IBV_WR_SEND g x)) a = s\<lparr>p_phase := 5, p_attr := Some x\<rparr>"
| "server_next s (Ibv_get_cq_event ch) a = s\<lparr>p_phase := 6\<rparr>"
| "server_next s (Ibv_poll_cq q n) a = s\<lparr>p_phase := 7\<rparr>"
| "server_next s v a = resource_next s v a"

section \<open>Following a protocol\<close>

text \<open>
  A program follows a protocol: it makes only calls the protocol allows, with the right handles,
  and does so after every good answer; \<open>Q\<close> holds at the end.
\<close>

primrec follows :: "(proto \<Rightarrow> verb \<Rightarrow> bool) \<Rightarrow> (proto \<Rightarrow> verb \<Rightarrow> answer \<Rightarrow> bool) \<Rightarrow> (proto \<Rightarrow> verb \<Rightarrow> answer \<Rightarrow> proto)
    \<Rightarrow> 'a prog \<Rightarrow> ('a \<Rightarrow> proto \<Rightarrow> bool) \<Rightarrow> proto \<Rightarrow> bool" where
  "follows may ans nxt (Ret x) Q c \<longleftrightarrow> Q x c"
| "follows may ans nxt (Call v k) Q c \<longleftrightarrow> may c v \<and> (\<forall>a. ans c v a \<longrightarrow> follows may ans nxt (k a) Q (nxt c v a))"
| "follows may ans nxt Crash Q c \<longleftrightarrow> False"
| "follows may ans nxt Spin Q c \<longleftrightarrow> False"

lemma follows_then [simp]:
  "follows may ans nxt (then_prog p f) Q c \<longleftrightarrow> follows may ans nxt p (\<lambda>x. follows may ans nxt (f x) Q) c"
  by (induction p arbitrary: c) auto

lemma follows_mono: "follows may ans nxt p Q c \<Longrightarrow> (\<And>x c. Q x c \<Longrightarrow> R x c) \<Longrightarrow> follows may ans nxt p R c"
  by (induction p arbitrary: c) auto

abbreviation client_follows :: "'a prog \<Rightarrow> ('a \<Rightarrow> proto \<Rightarrow> bool) \<Rightarrow> proto \<Rightarrow> bool" where
  "client_follows \<equiv> follows client_may client_answer client_next"

abbreviation server_follows :: "'a prog \<Rightarrow> ('a \<Rightarrow> proto \<Rightarrow> bool) \<Rightarrow> proto \<Rightarrow> bool" where
  "server_follows \<equiv> follows server_may server_answer server_next"

lemma one_wc: "length xs = 1 \<Longrightarrow> xs = [hd xs]"
  by (cases xs) auto

lemma client_work:
  assumes "p_phase c = 7" "ch = p_comp c" "0 < fuel"
    and "\<And>w x. wc_received w = Some x \<Longrightarrow> Q (1, [w]) (c\<lparr>p_phase := 9, p_attr := Some x\<rparr>)"
  shows "client_follows (process_work_completion_events fuel ch 1) Q c"
proof -
  obtain f where f: "fuel = Suc f" using assms(3) by (cases fuel) auto
  show ?thesis
    using assms(1,2) by (auto simp: process_work_completion_events_def client_answer_def f Let_def assms(4) length_Suc_conv)
qed

section \<open>The client follows the protocol\<close>

definition client_knows :: "rdma_client \<Rightarrow> proto \<Rightarrow> bool" where
  "client_knows c p \<longleftrightarrow> c_cm_event_channel c = p_channel p \<and> c_cm_client_id c = p_conn p \<and> c_pd c = p_pd p
     \<and> c_io_completion_channel c = p_comp p \<and> c_client_cq c = p_cq p \<and> c_client_qp c = p_qp p \<and> p_pd p \<noteq> 0"

lemmas calling = must_def must_ptr_def wait_for_def process_rdma_cm_event_def must_register_def rdma_buffer_register_def Let_def
  client_answer_def server_answer_def

lemma client_prepares:
  assumes "p_phase p = 0"
  shows "client_follows (client_prepare_connection sa c) (\<lambda>(ret, c') p'. ret = 0 \<and> client_knows c' p' \<and> p_phase p' = 4) p"
  using assms by (simp add: client_prepare_connection_def calling client_event_def client_knows_def qp_init_attr_def CQ_CAPACITY_def)

lemma client_posts:
  assumes "client_knows c p" "p_phase p = 4"
  shows "client_follows (client_pre_post_recv_buffer c) (\<lambda>(ret, c') p'. ret = 0 \<and> client_knows c' p' \<and> p_phase p' = 5) p"
  using assms by (auto simp: client_pre_post_recv_buffer_def calling client_knows_def split: option.splits)

lemma client_connects:
  assumes "client_knows c p" "p_phase p = 5"
  shows "client_follows (client_connect_to_server c) (\<lambda>(ret, c') p'. ret = 0 \<and> client_knows c' p' \<and> p_phase p' = 7) p"
  using assms by (simp add: client_connect_to_server_def calling client_event_def client_knows_def)

lemma client_receives:
  assumes "client_knows c p" "p_phase p = 7" "0 < fuel"
  shows "client_follows (client_xchange_metadata_with_server fuel c)
    (\<lambda>(ret, c') p'. ret = 0 \<and> client_knows c' p' \<and> p_phase p' = 9 \<and> p_attr p' = Some (c_server_metadata_attr c')) p"
  unfolding client_xchange_metadata_with_server_def follows_then
  by (rule client_work) (use assms in \<open>auto simp: client_knows_def receive_attr_def\<close>)

text \<open>What the client has at the end: it knows the pool's attributes and its node buffer is registered.\<close>

definition client_done :: "64 word \<Rightarrow> 64 word \<Rightarrow> int \<times> rdma_client \<Rightarrow> proto \<Rightarrow> bool" where
  "client_done addr len x p \<longleftrightarrow> fst x = 0 \<and> p_phase p = 9 \<and> p_attr p = Some (c_server_metadata_attr (snd x))
     \<and> c_io_completion_channel (snd x) = p_comp p \<and> c_client_qp (snd x) = p_qp p
     \<and> (case c_remote_node_mr (snd x) of None \<Rightarrow> False | Some mr \<Rightarrow> mr_addr mr = addr \<and> mr_length mr = len)"

lemma client_setup_follows:
  assumes "p_phase p = 0" "0 < fuel"
  shows "client_follows (rdma_client_setup fuel address addr len c) (client_done addr len) p"
proof -
  have r: "client_follows (must_register (c_pd c) addr len perm (\<lambda>mr. c\<lparr>c_remote_node_mr := mr\<rparr>) (\<lambda>c mr. Ret (0, c))) (client_done addr len) p"
    if "client_knows c p" "p_phase p = 9" "p_attr p = Some (c_server_metadata_attr c)" for c p perm
    using that by (auto simp: calling client_knows_def client_done_def split: option.splits)
  have "client_follows (stage (client_prepare_connection sa c) (\<lambda>c. stage (client_pre_post_recv_buffer c) (\<lambda>c.
     stage (client_connect_to_server c) (\<lambda>c. stage (client_xchange_metadata_with_server fuel c) (\<lambda>c.
     must_register (c_pd c) addr len perm (\<lambda>mr. c\<lparr>c_remote_node_mr := mr\<rparr>) (\<lambda>c mr. Ret (0, c))))))) (client_done addr len) p" for sa perm
    unfolding stage_def follows_then
    by (rule follows_mono [OF client_prepares [OF assms(1)]], clarsimp,
        rule follows_mono [OF client_posts], assumption, assumption, clarsimp,
        rule follows_mono [OF client_connects], assumption, assumption, clarsimp,
        rule follows_mono [OF client_receives [OF _ _ assms(2)]], assumption, assumption, clarsimp, rule r)
  then show ?thesis
    by (simp add: rdma_client_setup_def get_addr_def Let_def client_answer_def)
qed

section \<open>The server follows the protocol\<close>

lemma server_work:
  assumes "p_phase s = 5" "ch = p_comp s" "0 < fuel" "\<And>w. Q (1, [w]) (s\<lparr>p_phase := 7\<rparr>)"
  shows "server_follows (process_work_completion_events fuel ch 1) Q s"
proof -
  obtain f where f: "fuel = Suc f" using assms(3) by (cases fuel) auto
  show ?thesis
    using assms(1,2) by (auto simp: process_work_completion_events_def server_answer_def f Let_def assms(4) length_Suc_conv)
qed

definition server_knows :: "(32 word \<Rightarrow> 32 word \<Rightarrow> bool) \<Rightarrow> rdma_endpoint \<Rightarrow> proto \<Rightarrow> bool" where
  "server_knows K s p \<longleftrightarrow> p_keys p = K \<and> s_cm_event_channel s = p_channel p \<and> s_cm_client_id s = p_conn p \<and> p_conn p \<noteq> 0"

definition server_has :: "(32 word \<Rightarrow> 32 word \<Rightarrow> bool) \<Rightarrow> rdma_endpoint \<Rightarrow> proto \<Rightarrow> bool" where
  "server_has K s p \<longleftrightarrow> server_knows K s p \<and> s_pd s = p_pd p \<and> s_io_completion_channel s = p_comp p \<and> s_client_qp s = p_qp p
     \<and> p_pd p \<noteq> 0 \<and> p_qp p \<noteq> 0"

text \<open>The queue pair of a connection is one the library has given out, hence not null.\<close>

lemma server_starts:
  assumes "p_phase p = 0" "p_keys p = K"
  shows "server_follows (start_rdma_server sa s) (\<lambda>(ret, s') p'. ret = 0 \<and> server_knows K s' p' \<and> p_phase p' = 2) p"
  using assms by (simp add: start_rdma_server_def calling server_knows_def)

lemma server_prepares:
  assumes "server_knows K s p" "p_phase p = 2"
  shows "server_follows (setup_client_resources s) (\<lambda>(ret, s') p'. ret = 0 \<and> server_has K s' p' \<and> p_phase p' = 2) p"
  using assms by (auto simp: setup_client_resources_def calling server_knows_def server_has_def qp_init_attr_def CQ_CAPACITY_def)

lemma server_accepts:
  assumes "server_has K s p" "p_phase p = 2"
  shows "server_follows (accept_client_connection s) (\<lambda>(ret, s') p'. ret = 0 \<and> server_has K s' p' \<and> p_phase p' = 4) p"
  using assms by (auto simp: accept_client_connection_def calling server_knows_def server_has_def)

definition server_done :: "(32 word \<Rightarrow> 32 word \<Rightarrow> bool) \<Rightarrow> 64 word \<Rightarrow> 64 word \<Rightarrow> int \<times> rdma_endpoint \<Rightarrow> proto \<Rightarrow> bool" where
  "server_done K addr len x p \<longleftrightarrow> fst x = 0 \<and> p_phase p = 7 \<and> (case s_server_buffer_mr (snd x) of None \<Rightarrow> False
     | Some mr \<Rightarrow> mr_addr mr = addr \<and> mr_length mr = len \<and> K (mr_lkey mr) (mr_rkey mr)
        \<and> s_server_metadata_attr (snd x) = \<lparr>attr_address = addr, attr_length = len, attr_stag = mr_lkey mr\<rparr>
        \<and> p_attr p = Some (s_server_metadata_attr (snd x)))"

lemma server_sends:
  assumes "server_has K s p" "p_phase p = 4" "0 < fuel"
  shows "server_follows (send_server_metadata_to_client fuel addr len s) (server_done K addr len) p"
proof -
  show ?thesis
    using assms unfolding send_server_metadata_to_client_def
    by (auto simp: calling server_knows_def server_has_def server_done_def split: option.splits intro!: server_work [unfolded One_nat_def])
qed

lemma server_setup_follows:
  assumes "p_phase p = 0" "p_keys p = K" "0 < fuel"
  shows "server_follows (rdma_server_setup fuel addr len s) (server_done K addr len) p"
proof -
  have f: "server_done K addr len (ret, s') q \<Longrightarrow> ret = 0" for ret s' q by (simp add: server_done_def)
  show ?thesis
    unfolding rdma_server_setup_def stage_def follows_then
    by (rule follows_mono [OF server_starts [OF assms(1,2)]], clarsimp,
        rule follows_mono [OF server_prepares], assumption, assumption, clarsimp,
        rule follows_mono [OF server_accepts], assumption, assumption, clarsimp,
        rule follows_mono [OF server_sends [OF _ _ assms(3)]], assumption, assumption, auto dest: f)
qed

end
