(* ===== verification/Rdma_Joint.thy ===== *)
theory Rdma_Joint
  imports Rdma_Handshake
begin

text \<open>
  The two ends run together on one library, in the order of a schedule.
\<close>

section \<open>The library\<close>

datatype side = Client_side | Server_side

type_synonym 'w library = "side \<Rightarrow> verb \<Rightarrow> 'w \<Rightarrow> (answer \<times> 'w) option"

text \<open>
  When a call need not wait. The client's connection is established once the server has accepted;
  its receive completes once the server has sent. The request comes when the client connects;
  the server's connection is established at the latest when the client has seen it is.
\<close>

definition client_ready :: "proto \<Rightarrow> proto \<Rightarrow> verb \<Rightarrow> bool" where
  "client_ready c s v = (case v of Rdma_get_cm_event ch \<Rightarrow> p_phase c \<noteq> 6 \<or> 3 \<le> p_phase s | Ibv_get_cq_event ch \<Rightarrow> 5 \<le> p_phase s | _ \<Rightarrow> True)"

definition server_ready :: "proto \<Rightarrow> proto \<Rightarrow> verb \<Rightarrow> bool" where
  "server_ready c s v = (case v of Rdma_get_cm_event ch \<Rightarrow> (if p_phase s = 1 then 6 \<le> p_phase c else 7 \<le> p_phase c) | _ \<Rightarrow> True)"

definition server_possible :: "proto \<Rightarrow> proto \<Rightarrow> verb \<Rightarrow> bool" where
  "server_possible c s v = (case v of Rdma_get_cm_event ch \<Rightarrow> 6 \<le> p_phase c | _ \<Rightarrow> True)"

text \<open>What is always so on a connection: neither end is ahead of what the other has done.\<close>

definition in_step :: "proto \<Rightarrow> proto \<Rightarrow> bool" where
  "in_step c s \<longleftrightarrow> 1 \<le> p_phase s \<and> (2 \<le> p_phase s \<longrightarrow> 6 \<le> p_phase c) \<and> (7 \<le> p_phase c \<longrightarrow> 3 \<le> p_phase s)
     \<and> (8 \<le> p_phase c \<longrightarrow> 5 \<le> p_phase s) \<and> (5 \<le> p_phase s \<longrightarrow> p_attr s \<noteq> None) \<and> (p_phase c = 9 \<longrightarrow> p_attr c = p_attr s)"

text \<open>
  The documented behaviour of a library on a reliable connection, with \<open>obs\<close> what it knows of the
  two ends: a call that an end may make is answered well and changes what is known accordingly,
  unless it waits; what the client receives is what the server has sent. For the client this is
  asked only once the server listens.
\<close>

definition verbs_ok :: "'w library \<Rightarrow> ('w \<Rightarrow> proto \<times> proto) \<Rightarrow> bool" where
  "verbs_ok lib obs \<longleftrightarrow> (\<forall>w v c s. obs w = (c, s) \<longrightarrow>
     (client_may c v \<and> in_step c s \<longrightarrow> (case lib Client_side v w of
         None \<Rightarrow> \<not> client_ready c s v
       | Some (a, w') \<Rightarrow> client_ready c s v \<and> client_answer c v a \<and> obs w' = (client_next c v a, s)
           \<and> (case v of Ibv_poll_cq q n \<Rightarrow> wc_received (hd (a_wcs a)) = p_attr s | _ \<Rightarrow> True)))
   \<and> (server_may s v \<longrightarrow> (case lib Server_side v w of
         None \<Rightarrow> \<not> server_ready c s v
       | Some (a, w') \<Rightarrow> server_possible c s v \<and> server_answer s v a \<and> obs w' = (c, server_next s v a))))"

section \<open>Two programs on one library\<close>

type_synonym ('a, 'b, 'w) joint = "'a prog \<times> 'b prog \<times> 'w"

fun joint_step :: "'w library \<Rightarrow> side \<Rightarrow> ('a, 'b, 'w) joint \<Rightarrow> ('a, 'b, 'w) joint" where
  "joint_step lib Client_side (Call v k, ps, w) = (case lib Client_side v w of None \<Rightarrow> (Call v k, ps, w) | Some (a, w) \<Rightarrow> (k a, ps, w))"
| "joint_step lib Server_side (pc, Call v k, w) = (case lib Server_side v w of None \<Rightarrow> (pc, Call v k, w) | Some (a, w) \<Rightarrow> (pc, k a, w))"
| "joint_step lib sd st = st"

definition joint_run :: "'w library \<Rightarrow> side list \<Rightarrow> ('a, 'b, 'w) joint \<Rightarrow> ('a, 'b, 'w) joint" where
  "joint_run lib sched st = fold (joint_step lib) sched st"

lemma joint_run_simps [simp]:
  "joint_run lib [] st = st" "joint_run lib (sd # sched) st = joint_run lib sched (joint_step lib sd st)"
  "joint_run lib (xs @ ys) st = joint_run lib ys (joint_run lib xs st)"
  by (simp_all add: joint_run_def)

section \<open>The invariant\<close>

lemma in_step_client:
  assumes "in_step c s" "client_may c v" "client_ready c s v" "client_answer c v a"
    and "case v of Ibv_poll_cq q n \<Rightarrow> wc_received (hd (a_wcs a)) = p_attr s | _ \<Rightarrow> True" "p_phase c \<noteq> 9 \<or> p_attr c = p_attr s"
  shows "in_step (client_next c v a) s"
  using assms by (cases v) (auto simp: in_step_def client_ready_def split: option.splits)

lemma in_step_server:
  assumes "in_step c s" "server_may s v" "server_possible c s v" "server_answer s v a"
  shows "in_step c (server_next s v a)"
proof (cases v)
  case (Ibv_post_send q wr)
  then show ?thesis using assms by (cases wr) (auto simp: in_step_def)
qed (use assms in \<open>auto simp: in_step_def server_possible_def split: option.splits if_splits\<close>)

definition good_joint :: "('w \<Rightarrow> proto \<times> proto) \<Rightarrow> ('a \<Rightarrow> proto \<Rightarrow> bool) \<Rightarrow> ('b \<Rightarrow> proto \<Rightarrow> bool) \<Rightarrow> ('a, 'b, 'w) joint \<Rightarrow> bool" where
  "good_joint obs Qc Qs st \<longleftrightarrow> (case st of (pc, ps, w) \<Rightarrow> client_follows pc Qc (fst (obs w)) \<and> server_follows ps Qs (snd (obs w))
     \<and> in_step (fst (obs w)) (snd (obs w)))"

primrec bounded :: "'a prog \<Rightarrow> nat \<Rightarrow> bool" where
  "bounded (Ret x) n = True"
| "bounded (Call v k) n = (0 < n \<and> (\<forall>a. bounded (k a) (n - 1)))"
| "bounded Crash n = True"
| "bounded Spin n = True"

definition joint_le :: "('a, 'b, 'w) joint \<Rightarrow> nat \<Rightarrow> bool" where
  "joint_le st n \<longleftrightarrow> (\<exists>a b. bounded (fst st) a \<and> bounded (fst (snd st)) b \<and> a + b \<le> n)"

lemma joint_le_less:
  "joint_le (Call v k, ps, w) n \<Longrightarrow> 0 < n \<and> joint_le (k a, ps, w') (n - 1)"
  "joint_le (pc, Call v k', w) n \<Longrightarrow> 0 < n \<and> joint_le (pc, k' a, w') (n - 1)"
proof -
  show "0 < n \<and> joint_le (k a, ps, w') (n - 1)" if l: "joint_le (Call v k, ps, w) n"
  proof -
    obtain i j where "bounded (Call v k) i" "bounded ps j" "i + j \<le> n" using l by (auto simp: joint_le_def)
    then show ?thesis unfolding joint_le_def by (intro conjI exI [of _ "i - 1"] exI [of _ j]) auto
  qed
  show "0 < n \<and> joint_le (pc, k' a, w') (n - 1)" if l: "joint_le (pc, Call v k', w) n"
  proof -
    obtain i j where "bounded pc i" "bounded (Call v k') j" "i + j \<le> n" using l by (auto simp: joint_le_def)
    then show ?thesis unfolding joint_le_def by (intro conjI exI [of _ i] exI [of _ "j - 1"]) auto
  qed
qed

lemma joint_le_weaken: "joint_le st (n - 1) \<Longrightarrow> joint_le st n"
  unfolding joint_le_def by (meson diff_le_self le_trans)

text \<open>A side moves when its program is at a call that is answered.\<close>

fun moves :: "'w library \<Rightarrow> side \<Rightarrow> ('a, 'b, 'w) joint \<Rightarrow> bool" where
  "moves lib Client_side (Call v k, ps, w) \<longleftrightarrow> lib Client_side v w \<noteq> None"
| "moves lib Server_side (pc, Call v k, w) \<longleftrightarrow> lib Server_side v w \<noteq> None"
| "moves lib sd st \<longleftrightarrow> False"

lemma joint_step_still: "\<not> moves lib sd st \<Longrightarrow> joint_step lib sd st = st"
  by (cases "(lib, sd, st)" rule: moves.cases) (auto split: option.splits)

lemma joint_step_less: "moves lib sd st \<Longrightarrow> joint_le st n \<Longrightarrow> 0 < n \<and> joint_le (joint_step lib sd st) (n - 1)"
  by (cases "(lib, sd, st)" rule: moves.cases) (use joint_le_less in fastforce)+

lemma joint_step_ok:
  assumes lib: "verbs_ok lib obs" and st: "good_joint obs Qc Qs st"
  shows "good_joint obs Qc Qs (joint_step lib sd st)"
proof (cases "moves lib sd st")
  case False
  then show ?thesis using st by (simp add: joint_step_still)
next
  case True
  obtain pc ps w where p: "st = (pc, ps, w)" by (rule prod_cases3)
  obtain c s where o: "obs w = (c, s)" by (cases "obs w")
  have f: "client_follows pc Qc c" "server_follows ps Qs s" "in_step c s" using st by (simp_all add: good_joint_def p o)
  show ?thesis
  proof (cases sd)
    case Client_side
    obtain v k where k: "pc = Call v k" using True by (cases pc) (simp_all add: Client_side p)
    obtain a w' where aw: "lib Client_side v w = Some (a, w')" using True by (auto simp: Client_side p k)
    have m: "client_may c v" using f(1) k by simp
    have l: "client_ready c s v" "client_answer c v a" "obs w' = (client_next c v a, s)"
      "case v of Ibv_poll_cq q n \<Rightarrow> wc_received (hd (a_wcs a)) = p_attr s | _ \<Rightarrow> True"
      using lib [unfolded verbs_ok_def, rule_format, OF o, of v] m f(3) aw by auto
    have "in_step (client_next c v a) s" by (rule in_step_client [OF f(3) m l(1,2,4)]) (use f(3) in \<open>auto simp: in_step_def\<close>)
    moreover have "client_follows (k a) Qc (client_next c v a)" using f(1) l(2) k by simp
    ultimately show ?thesis using f(2) l(3) aw by (simp add: Client_side p k good_joint_def)
  next
    case Server_side
    obtain v k where k: "ps = Call v k" using True by (cases ps) (simp_all add: Server_side p)
    obtain a w' where aw: "lib Server_side v w = Some (a, w')" using True by (auto simp: Server_side p k)
    have m: "server_may s v" using f(2) k by simp
    have l: "server_possible c s v" "server_answer s v a" "obs w' = (c, server_next s v a)"
      using lib [unfolded verbs_ok_def, rule_format, OF o, of v] m aw by auto
    have "in_step c (server_next s v a)" by (rule in_step_server [OF f(3) m l(1,2)])
    moreover have "server_follows (k a) Qs (server_next s v a)" using f(2) l(2) k by simp
    ultimately show ?thesis using f(1) l(3) aw by (simp add: Server_side p k good_joint_def)
  qed
qed

section \<open>No schedule gets stuck\<close>

definition both_done :: "('a, 'b, 'w) joint \<Rightarrow> bool" where
  "both_done st \<longleftrightarrow> (\<exists>x y w. st = (Ret x, Ret y, w))"

lemma some_side_moves:
  assumes lib: "verbs_ok lib obs" and st: "good_joint obs Qc Qs st" "\<not> both_done st"
    and q: "\<And>x c. Qc x c \<Longrightarrow> p_phase c = 9" "\<And>y s. Qs y s \<Longrightarrow> p_phase s = 7"
  shows "moves lib Client_side st \<or> moves lib Server_side st"
proof (rule ccontr)
  assume stuck: "\<not> (moves lib Client_side st \<or> moves lib Server_side st)"
  obtain pc ps w where p: "st = (pc, ps, w)" by (rule prod_cases3)
  obtain c s where o: "obs w = (c, s)" by (cases "obs w")
  have f: "client_follows pc Qc c" "server_follows ps Qs s" "in_step c s" using st by (simp_all add: good_joint_def p o)
  have c: "(\<exists>x. pc = Ret x) \<and> p_phase c = 9 \<or> p_phase c = 6 \<and> p_phase s < 3 \<or> p_phase c = 7 \<and> p_phase s < 5"
  proof (cases pc)
    case (Call v k)
    have m: "client_may c v" using f(1) Call by simp
    have "\<not> client_ready c s v"
      using lib [unfolded verbs_ok_def, rule_format, OF o, of v] m f(3) stuck by (auto simp: p Call split: option.splits)
    then show ?thesis using m by (cases v) (auto simp: client_ready_def)
  qed (use f(1) q(1) in auto)
  have s: "(\<exists>y. ps = Ret y) \<and> p_phase s = 7 \<or> p_phase s = 1 \<and> p_phase c < 6 \<or> p_phase s = 3 \<and> p_phase c < 7"
  proof (cases ps)
    case (Call v k)
    have m: "server_may s v" using f(2) Call by simp
    have "\<not> server_ready c s v"
      using lib [unfolded verbs_ok_def, rule_format, OF o, of v] m stuck by (cases pc) (auto simp: p Call split: option.splits)
    then show ?thesis using m by (cases v) (auto simp: server_ready_def split: if_splits)
  qed (use f(2) q(2) in auto)
  have "(\<exists>x. pc = Ret x) \<and> (\<exists>y. ps = Ret y)" using c s f(3) by (auto simp: in_step_def)
  then show False using st(2) by (auto simp: both_done_def p)
qed

lemma joint_run_ok: "verbs_ok lib obs \<Longrightarrow> good_joint obs Qc Qs st \<Longrightarrow> good_joint obs Qc Qs (joint_run lib sched st)"
  by (induction sched arbitrary: st) (simp_all add: joint_step_ok)

lemma joint_run_done: "both_done st \<Longrightarrow> joint_run lib sched st = st"
proof (induction sched)
  case (Cons sd sched)
  then show ?case by (cases sd) (auto simp: both_done_def)
qed simp

lemma joint_run_progress:
  "joint_le st (Suc n) \<Longrightarrow> (\<forall>sd \<in> set sched. \<not> moves lib sd st) \<and> joint_run lib sched st = st \<or> joint_le (joint_run lib sched st) n"
proof (induction sched arbitrary: st n)
  case (Cons sd sched)
  have mono: "joint_le st m \<Longrightarrow> joint_le (joint_run lib xs st) m" for st m xs
  proof (induction xs arbitrary: st m)
    case (Cons sd xs)
    have "joint_le (joint_step lib sd st) m"
      using Cons.prems joint_step_less [of lib sd st m] joint_step_still [of lib sd st]
      by (cases "moves lib sd st") (auto intro: joint_le_weaken)
    then show ?case using Cons.IH by simp
  qed simp
  show ?case
  proof (cases "moves lib sd st")
    case True
    then show ?thesis using joint_step_less [OF True Cons.prems] mono by simp
  next
    case False
    then show ?thesis using Cons.IH [OF Cons.prems] joint_step_still [OF False] by simp
  qed
qed simp

text \<open>A fair schedule: rounds in each of which both sides come up.\<close>

definition fair_rounds :: "side list list \<Rightarrow> bool" where
  "fair_rounds rounds \<longleftrightarrow> (\<forall>r \<in> set rounds. Client_side \<in> set r \<and> Server_side \<in> set r)"

lemma joint_finishes:
  assumes lib: "verbs_ok lib obs" and q: "\<And>x c. Qc x c \<Longrightarrow> p_phase c = 9" "\<And>y s. Qs y s \<Longrightarrow> p_phase s = 7"
  shows "good_joint obs Qc Qs st \<Longrightarrow> joint_le st n \<Longrightarrow> fair_rounds rounds \<Longrightarrow> n \<le> length rounds
    \<Longrightarrow> both_done (joint_run lib (concat rounds) st)"
proof (induction rounds arbitrary: st n)
  case Nil
  then have z: "bounded (fst st) 0" "bounded (fst (snd st)) 0" by (auto simp: joint_le_def)
  obtain pc ps w where p: "st = (pc, ps, w)" by (rule prod_cases3)
  show ?case using Nil.prems(1) z by (cases pc; cases ps) (auto simp: p good_joint_def both_done_def)
next
  case (Cons r rounds)
  show ?case
  proof (cases "both_done st")
    case True
    then show ?thesis by (simp only: joint_run_done)
  next
    case False
    have m: "moves lib Client_side st \<or> moves lib Server_side st" by (rule some_side_moves [OF lib Cons.prems(1) False q])
    then obtain k where k: "n = Suc k" using joint_step_less [OF _ Cons.prems(2)] by (cases n) auto
    have "joint_le (joint_run lib r st) k"
      using joint_run_progress [of st k r lib] m Cons.prems(2,3) by (auto simp: k fair_rounds_def)
    moreover have "good_joint obs Qc Qs (joint_run lib r st)" by (rule joint_run_ok [OF lib Cons.prems(1)])
    ultimately show ?thesis using Cons.IH Cons.prems(3,4) by (simp add: k fair_rounds_def)
  qed
qed

section \<open>How many calls the two programs make\<close>

lemma bounded_mono: "bounded p n \<Longrightarrow> n \<le> m \<Longrightarrow> bounded p m"
proof (induction p arbitrary: n m)
  case (Call v k)
  have b: "0 < n" "bounded (k a) (n - 1)" for a using Call.prems(1) by simp_all
  have "bounded (k a) (m - 1)" for a
    by (rule Call.IH [OF rangeI b(2)]) (rule diff_le_mono [OF Call.prems(2)])
  then show ?case using b(1) Call.prems(2) by simp
qed simp_all

lemma bounded_then: "bounded p n \<Longrightarrow> (\<And>x. bounded (f x) m) \<Longrightarrow> bounded (then_prog p f) (n + m)"
proof (induction p arbitrary: n)
  case (Ret x)
  then show ?case using bounded_mono [of "f x" m] by simp
next
  case (Call v k)
  have b: "0 < n" "bounded (k a) (n - 1)" for a using Call.prems(1) by simp_all
  have "bounded (then_prog (k a) f) (n - 1 + m)" for a by (rule Call.IH [OF rangeI b(2) Call.prems(2)])
  moreover have "n + m - 1 = n - 1 + m" using b(1) by simp
  ultimately show ?case using b(1) by simp
qed simp_all

lemma bounded_stage: "bounded p n \<Longrightarrow> (\<And>c. bounded (f c) m) \<Longrightarrow> bounded (stage p f) (n + m)"
  unfolding stage_def by (rule bounded_then) (auto split: prod.splits)

lemma bounded_poll: "bounded (poll_cq fuel q n wcs) fuel"
  by (induction fuel arbitrary: wcs) (simp_all add: Let_def)

lemma bounded_work: "bounded (process_work_completion_events fuel ch n) (3 + fuel)"
proof -
  have p: "bounded (then_prog (poll_cq fuel q n []) (\<lambda>(ret, wcs). if ret < 0 then Ret (ret, wcs)
      else case find (\<lambda>w. wc_status w \<noteq> 0) wcs of Some w \<Rightarrow> Ret (- int (wc_status w), wcs)
      | None \<Rightarrow> Call (Ibv_ack_cq_events q 1) (\<lambda>_. Ret (ret, wcs)))) (fuel + 1)" for q
    by (rule bounded_then [OF bounded_poll]) (auto split: option.splits)
  show ?thesis using p by (simp add: process_work_completion_events_def)
qed

lemma bounded_work_then:
  "(\<And>x. bounded (f x) 0) \<Longrightarrow> bounded (then_prog (process_work_completion_events fuel ch n) f) (3 + fuel)"
  using bounded_then [of "process_work_completion_events fuel ch n" "3 + fuel" f 0, OF bounded_work] by simp

lemma bounded_xchange: "bounded (client_xchange_metadata_with_server fuel c) (3 + fuel)"
  unfolding client_xchange_metadata_with_server_def Let_def by (rule bounded_work_then) (auto split: prod.splits)

lemma bounded_client: "bounded (rdma_client_setup fuel address addr len c) (23 + fuel)"
proof -
  have "bounded (client_prepare_connection sa c) 13" for sa c by (simp add: client_prepare_connection_def calling)
  moreover have "bounded (client_pre_post_recv_buffer c) 2" for c
    by (auto simp: client_pre_post_recv_buffer_def calling split: option.splits)
  moreover have "bounded (client_connect_to_server c) 3" for c by (simp add: client_connect_to_server_def calling)
  moreover have "bounded (must_register (c_pd c) addr len perm put (\<lambda>c mr. Ret (0, c))) 1" for c perm and put :: "mem_region option \<Rightarrow> rdma_client"
    by (auto simp: calling split: option.splits)
  ultimately have "bounded (stage (client_prepare_connection sa c) (\<lambda>c. stage (client_pre_post_recv_buffer c) (\<lambda>c.
     stage (client_connect_to_server c) (\<lambda>c. stage (client_xchange_metadata_with_server fuel c) (\<lambda>c.
     must_register (c_pd c) addr len perm (\<lambda>mr. c\<lparr>c_remote_node_mr := mr\<rparr>) (\<lambda>c mr. Ret (0, c))))))) (13 + (2 + (3 + (3 + fuel + 1))))" for sa perm
    by (intro bounded_stage bounded_xchange)
  then have "bounded (rdma_client_setup fuel address addr len c) (1 + (13 + (2 + (3 + (3 + fuel + 1)))))"
    unfolding rdma_client_setup_def by (intro bounded_then) (auto simp: get_addr_def Let_def split: prod.splits)
  then show ?thesis by (simp add: algebra_simps)
qed

lemma bounded_server: "bounded (rdma_server_setup fuel addr len s) (20 + fuel)"
proof -
  have "bounded (start_rdma_server sa s) 6" for sa s by (simp add: start_rdma_server_def calling split: option.splits)
  moreover have "bounded (setup_client_resources s) 5" for s by (simp add: setup_client_resources_def calling)
  moreover have "bounded (accept_client_connection s) 3" for s by (simp add: accept_client_connection_def calling)
  moreover have "bounded (send_server_metadata_to_client fuel addr len s) (6 + fuel)" for s
  proof -
    have w: "bounded (then_prog (process_work_completion_events fuel ch 1) (\<lambda>(ret, wcs). if ret \<noteq> 1 then Ret (ret, s) else Ret (0, s))) (3 + fuel)"
      for ch and s :: rdma_endpoint
      by (rule bounded_work_then) (auto split: prod.splits)
    show ?thesis
      unfolding send_server_metadata_to_client_def using w
      by (auto simp: calling numeral_eq_Suc split: option.splits)
  qed
  ultimately have "bounded (rdma_server_setup fuel addr len s) (6 + (5 + (3 + (6 + fuel + 0))))"
    unfolding rdma_server_setup_def by (intro bounded_stage) simp_all
  then show ?thesis by (simp add: algebra_simps)
qed

section \<open>The server listens first\<close>

lemma server_call:
  assumes lib: "verbs_ok lib obs" and o: "obs w = (c, s)" and f: "server_follows (Call v k) Q s" and r: "server_ready c s v"
  shows "\<exists>a w'. joint_step lib Server_side (pc, Call v k, w) = (pc, k a, w') \<and> server_answer s v a
    \<and> obs w' = (c, server_next s v a) \<and> server_follows (k a) Q (server_next s v a)"
proof -
  obtain a w' where "lib Server_side v w = Some (a, w')" "server_answer s v a" "obs w' = (c, server_next s v a)"
    using lib [unfolded verbs_ok_def, rule_format, OF o, of v] f r by (auto split: option.splits)
  then show ?thesis using f by (cases pc) auto
qed

lemma server_listens:
  assumes lib: "verbs_ok lib obs" and o: "obs w = (new_proto K, new_proto K)" and f: "0 < fuel"
  shows "\<exists>ps w' s. joint_run lib (replicate 4 Server_side) (pc, rdma_server_setup fuel addr len e, w) = (pc, ps, w')
    \<and> obs w' = (new_proto K, s) \<and> p_phase s = 1 \<and> server_follows ps (server_done K addr len) s \<and> bounded ps (16 + fuel)"
proof -
  obtain k1 where k1: "rdma_server_setup fuel addr len e = Call Rdma_create_event_channel k1"
    and next1: "\<And>a. a_ptr a \<noteq> 0 \<Longrightarrow> \<exists>k2. k1 a = Call (Rdma_create_id (a_ptr a)) k2
      \<and> (\<forall>b. a_ret b = 0 \<longrightarrow> (\<exists>k3. k2 b = Call (Rdma_bind_addr (a_ptr b) \<lparr>sin_addr = 0, sin_port = htons DEFAULT_RDMA_PORT\<rparr>) k3
      \<and> (\<forall>d. a_ret d = 0 \<longrightarrow> (\<exists>k4. k3 d = Call (Rdma_listen (a_ptr b) 8) k4))))"
    by (simp add: rdma_server_setup_def stage_def start_rdma_server_def must_def must_ptr_def Let_def)
  have f1: "server_follows (Call Rdma_create_event_channel k1) (server_done K addr len) (new_proto K)"
    using server_setup_follows [of "new_proto K" K fuel addr len e] f by (simp add: k1 new_proto_def)
  obtain a w1 where s1: "joint_step lib Server_side (pc, Call Rdma_create_event_channel k1, w) = (pc, k1 a, w1)"
    "server_answer (new_proto K) Rdma_create_event_channel a" "obs w1 = (new_proto K, server_next (new_proto K) Rdma_create_event_channel a)"
    "server_follows (k1 a) (server_done K addr len) (server_next (new_proto K) Rdma_create_event_channel a)"
    using server_call [OF lib o f1, of pc] by (auto simp: server_ready_def)
  obtain k2 where k2: "k1 a = Call (Rdma_create_id (a_ptr a)) k2"
    and next2: "\<And>b. a_ret b = 0 \<Longrightarrow> \<exists>k3. k2 b = Call (Rdma_bind_addr (a_ptr b) \<lparr>sin_addr = 0, sin_port = htons DEFAULT_RDMA_PORT\<rparr>) k3
      \<and> (\<forall>d. a_ret d = 0 \<longrightarrow> (\<exists>k4. k3 d = Call (Rdma_listen (a_ptr b) 8) k4))"
    using next1 [of a] s1(2) by (auto simp: server_answer_def)
  obtain b w2 where s2: "joint_step lib Server_side (pc, Call (Rdma_create_id (a_ptr a)) k2, w1) = (pc, k2 b, w2)" "a_ret b = 0"
    "obs w2 = (new_proto K, server_next (server_next (new_proto K) Rdma_create_event_channel a) (Rdma_create_id (a_ptr a)) b)"
    "server_follows (k2 b) (server_done K addr len) (server_next (server_next (new_proto K) Rdma_create_event_channel a) (Rdma_create_id (a_ptr a)) b)"
    using server_call [OF lib s1(3) s1(4) [unfolded k2], of pc] by (auto simp: server_ready_def server_answer_def)
  obtain k3 where k3: "k2 b = Call (Rdma_bind_addr (a_ptr b) \<lparr>sin_addr = 0, sin_port = htons DEFAULT_RDMA_PORT\<rparr>) k3"
    and next3: "\<And>d. a_ret d = 0 \<Longrightarrow> \<exists>k4. k3 d = Call (Rdma_listen (a_ptr b) 8) k4" using next2 [OF s2(2)] by blast
  obtain d w3 where s3: "joint_step lib Server_side (pc, k2 b, w2) = (pc, k3 d, w3)" "a_ret d = 0"
    "obs w3 = (new_proto K, server_next (server_next (new_proto K) Rdma_create_event_channel a) (Rdma_create_id (a_ptr a)) b)"
    "server_follows (k3 d) (server_done K addr len) (server_next (server_next (new_proto K) Rdma_create_event_channel a) (Rdma_create_id (a_ptr a)) b)"
    using server_call [OF lib s2(3) s2(4) [unfolded k3], of pc] by (auto simp: server_ready_def server_answer_def k3)
  obtain k4 where k4: "k3 d = Call (Rdma_listen (a_ptr b) 8) k4" using next3 [OF s3(2)] by blast
  obtain g w4 s where s4: "joint_step lib Server_side (pc, k3 d, w3) = (pc, k4 g, w4)" "obs w4 = (new_proto K, s)" "p_phase s = 1"
    "server_follows (k4 g) (server_done K addr len) s"
    using server_call [OF lib s3(3) s3(4) [unfolded k4], of pc] by (auto simp: server_ready_def k4)
  have "bounded (Call Rdma_create_event_channel k1) (20 + fuel)" using bounded_server [of fuel addr len e] by (simp only: k1)
  then have "bounded (k1 a) (19 + fuel)" by simp
  then have "bounded (k2 b) (18 + fuel)" by (simp add: k2)
  then have "bounded (k3 d) (17 + fuel)" by (simp add: k3)
  then have "bounded (k4 g) (16 + fuel)" by (simp add: k4)
  then show ?thesis using s1(1) s2(1) s3(1) s4 by (auto simp: k1 k2 numeral_eq_Suc)
qed

end
