(* ===== verification/Rdma_Array.thy ===== *)
theory Rdma_Array
  imports Field_Table
begin

text \<open>
  lib/fixed_size_container.h of the RDMA version: arrays of a fixed size with a length, and
  strings and records made of them. An array is its length and the memory its elements may use;
  an operation that reads or writes outside that memory is \<open>None\<close>. The second half gives the
  order of the keys, \<open>operator<\<close> on strings of signed characters, as a linear order.
\<close>

section \<open>Memory\<close>

text \<open>\<open>memmove\<close> of \<open>n\<close> elements within one block of memory.\<close>

definition memmove :: "nat \<Rightarrow> nat \<Rightarrow> nat \<Rightarrow> 'a list \<Rightarrow> 'a list option" where
  "memmove dst src n xs = (if dst + n \<le> length xs \<and> src + n \<le> length xs
     then Some (take dst xs @ take n (drop src xs) @ drop (dst + n) xs) else None)"

text \<open>\<open>memmove\<close> from another block, whose elements are \<open>ys\<close>.\<close>

definition memcpy :: "nat \<Rightarrow> 'a list \<Rightarrow> 'a list \<Rightarrow> 'a list option" where
  "memcpy dst ys xs = (if dst + length ys \<le> length xs
     then Some (take dst xs @ ys @ drop (dst + length ys) xs) else None)"

lemma memcpy_length: "memcpy dst ys xs = Some zs \<Longrightarrow> length zs = length xs"
  by (auto simp: memcpy_def split: if_splits)

lemma memmove_length: "memmove dst src n xs = Some zs \<Longrightarrow> length zs = length xs"
  by (auto simp: memmove_def split: if_splits)

section \<open>Arrays\<close>

record 'a farr =
  fa_size :: nat
  fa_val :: "'a list"

definition fa_clear :: "'a farr \<Rightarrow> 'a farr" where
  "fa_clear a = a\<lparr>fa_size := 0\<rparr>"

text \<open>The default constructor leaves the elements as they are, here \<open>junk\<close>.\<close>

definition fa_new :: "'a list \<Rightarrow> 'a farr" where
  "fa_new junk = fa_clear \<lparr>fa_size = 0, fa_val = junk\<rparr>"

definition fa_of :: "'a list \<Rightarrow> 'a list \<Rightarrow> 'a farr option" where
  "fa_of junk x = do { v \<leftarrow> memcpy 0 x junk; Some \<lparr>fa_size = length x, fa_val = v\<rparr> }"

definition fa_resize :: "nat \<Rightarrow> 'a farr \<Rightarrow> 'a farr" where
  "fa_resize n a = a\<lparr>fa_size := n\<rparr>"

definition fa_get :: "nat \<Rightarrow> 'a farr \<Rightarrow> 'a option" where
  "fa_get n a = nth_opt (fa_val a) n"

definition fa_back :: "'a farr \<Rightarrow> 'a option" where
  "fa_back a = (if fa_size a = 0 then None else nth_opt (fa_val a) (fa_size a - 1))"

definition fa_push_back :: "'a \<Rightarrow> 'a farr \<Rightarrow> 'a farr option" where
  "fa_push_back x a = do { v \<leftarrow> memcpy (fa_size a) [x] (fa_val a); Some \<lparr>fa_size = fa_size a + 1, fa_val = v\<rparr> }"

definition fa_insert :: "nat \<Rightarrow> 'a \<Rightarrow> 'a farr \<Rightarrow> 'a farr option" where
  "fa_insert pos x a = (if fa_size a < pos then None else do {
     v \<leftarrow> memmove (pos + 1) pos (fa_size a - pos) (fa_val a);
     v \<leftarrow> memcpy pos [x] v;
     Some \<lparr>fa_size = fa_size a + 1, fa_val = v\<rparr> })"

text \<open>The elements between two iterators, and the insertion of such a range.\<close>

definition fa_range :: "nat \<Rightarrow> nat \<Rightarrow> 'a farr \<Rightarrow> 'a list option" where
  "fa_range first lst a = (if first \<le> lst \<and> lst \<le> length (fa_val a)
     then Some (take (lst - first) (drop first (fa_val a))) else None)"

definition fa_insert_range :: "nat \<Rightarrow> 'a list \<Rightarrow> 'a farr \<Rightarrow> 'a farr option" where
  "fa_insert_range pos xs a = (if fa_size a < pos then None else do {
     v \<leftarrow> memmove (pos + length xs) pos (fa_size a - pos) (fa_val a);
     v \<leftarrow> memcpy pos xs v;
     Some \<lparr>fa_size = fa_size a + length xs, fa_val = v\<rparr> })"

definition fa_erase :: "nat \<Rightarrow> nat \<Rightarrow> 'a farr \<Rightarrow> 'a farr option" where
  "fa_erase first lst a = (if fa_size a < lst \<or> lst < first then None else do {
     v \<leftarrow> memmove first lst (fa_size a - lst) (fa_val a);
     Some \<lparr>fa_size = fa_size a - (lst - first), fa_val = v\<rparr> })"

text \<open>\<open>to_vector\<close>, and \<open>to_string\<close> of a string.\<close>

definition fa_list :: "'a farr \<Rightarrow> 'a list" where
  "fa_list a = take (fa_size a) (fa_val a)"

definition fa_to_vector :: "'a farr \<Rightarrow> 'a list option" where
  "fa_to_vector a = fa_range 0 (fa_size a) a"

text \<open>The comparisons are loops over the elements; \<open>lt\<close> is \<open>operator<\<close> of the elements.\<close>

fun fa_differs :: "nat \<Rightarrow> nat \<Rightarrow> 'a list \<Rightarrow> 'a list \<Rightarrow> bool" where
  "fa_differs 0 i v w = False"
| "fa_differs (Suc n) i v w = (if v ! i \<noteq> w ! i then True else fa_differs n (i + 1) v w)"

definition fa_eq :: "'a farr \<Rightarrow> 'a farr \<Rightarrow> bool" where
  "fa_eq a b = (if fa_size a \<noteq> fa_size b then False else \<not> fa_differs (fa_size a) 0 (fa_val a) (fa_val b))"

definition fa_ne :: "'a farr \<Rightarrow> 'a farr \<Rightarrow> bool" where
  "fa_ne a b = (if fa_size a \<noteq> fa_size b then True else fa_differs (fa_size a) 0 (fa_val a) (fa_val b))"

fun fa_less_loop :: "('a \<Rightarrow> 'a \<Rightarrow> bool) \<Rightarrow> nat \<Rightarrow> nat \<Rightarrow> 'a list \<Rightarrow> 'a list \<Rightarrow> bool option" where
  "fa_less_loop lt 0 i v w = None"
| "fa_less_loop lt (Suc n) i v w = (if lt (v ! i) (w ! i) then Some True
     else if lt (w ! i) (v ! i) then Some False else fa_less_loop lt n (i + 1) v w)"

definition fa_less :: "('a \<Rightarrow> 'a \<Rightarrow> bool) \<Rightarrow> 'a farr \<Rightarrow> 'a farr \<Rightarrow> bool" where
  "fa_less lt a b = (case fa_less_loop lt (min (fa_size a) (fa_size b)) 0 (fa_val a) (fa_val b) of
     Some r \<Rightarrow> r | None \<Rightarrow> fa_size a < fa_size b)"

section \<open>The operations as operations on vectors\<close>

definition fa_ok :: "'a farr \<Rightarrow> bool" where
  "fa_ok a \<longleftrightarrow> fa_size a \<le> length (fa_val a)"

lemma fa_ok_length [simp]: "fa_ok a \<Longrightarrow> length (fa_list a) = fa_size a"
  by (simp add: fa_ok_def fa_list_def)

lemma fa_list_clear [simp]: "fa_list (fa_clear a) = []" "fa_ok (fa_clear a)" "fa_val (fa_clear a) = fa_val a"
  by (simp_all add: fa_list_def fa_clear_def fa_ok_def)

lemma fa_list_new [simp]: "fa_list (fa_new junk) = []" "fa_ok (fa_new junk)" "fa_val (fa_new junk) = junk"
  by (simp_all add: fa_new_def fa_clear_def fa_list_def fa_ok_def)

lemma fa_to_vector_ok: "fa_ok a \<Longrightarrow> fa_to_vector a = Some (fa_list a)"
  by (simp add: fa_to_vector_def fa_range_def fa_ok_def fa_list_def)

lemma fa_back_ok: "fa_ok a \<Longrightarrow> fa_list a \<noteq> [] \<Longrightarrow> fa_back a = Some (last (fa_list a))"
proof -
  assume a: "fa_ok a" "fa_list a \<noteq> []"
  then have l: "length (fa_list a) = fa_size a" by simp
  with a(2) have n: "fa_size a \<noteq> 0" by (metis length_0_conv)
  have "fa_val a ! (fa_size a - 1) = last (fa_list a)"
    using l n a(2) by (simp add: last_conv_nth) (simp add: fa_list_def)
  then show ?thesis using n a(1) by (simp add: fa_back_def nth_opt_def fa_ok_def)
qed

lemma fa_get_ok: "fa_ok a \<Longrightarrow> i < fa_size a \<Longrightarrow> fa_get i a = Some (fa_list a ! i)"
  by (simp add: fa_get_def fa_ok_def fa_list_def nth_opt_def)

lemma fa_range_ok: "fa_ok a \<Longrightarrow> i \<le> fa_size a \<Longrightarrow> fa_range i (fa_size a) a = Some (drop i (fa_list a))"
  by (simp add: fa_range_def fa_ok_def fa_list_def drop_take)

lemma fa_insert_ok:
  assumes "fa_ok a" "p \<le> fa_size a" "fa_size a < length (fa_val a)"
  obtains b where "fa_insert p x a = Some b" "fa_ok b" "fa_list b = take p (fa_list a) @ x # drop p (fa_list a)"
    "length (fa_val b) = length (fa_val a)"
proof -
  let ?l1 = "take p (fa_list a)" and ?l2 = "drop p (fa_list a)"
  obtain c r where r: "drop (fa_size a) (fa_val a) = c # r" using assms(3) by (cases "drop (fa_size a) (fa_val a)") auto
  have "fa_val a = fa_list a @ c # r" unfolding r [symmetric] fa_list_def by simp
  then have v: "fa_val a = ?l1 @ ?l2 @ c # r" by (metis append.assoc append_take_drop_id)
  have l: "length ?l1 = p" "length ?l2 = fa_size a - p" "min (length (fa_list a)) p = p" using assms(1,2) by simp_all
  obtain d t where dt: "?l2 @ [c] = d # t" by (cases "?l2 @ [c]") auto
  have lt: "length t = fa_size a - p" using arg_cong [OF dt, of length] l(2) by simp
  have v': "fa_val a = ?l1 @ d # t @ r" using v dt by (metis append.assoc append_Cons append_Nil)
  have "memmove (p + 1) p (fa_size a - p) (fa_val a) = Some (?l1 @ d # ?l2 @ r)"
  proof -
    have "take (p + 1) (fa_val a) = ?l1 @ [d]" by (subst v') (simp add: l Suc_diff_le assms)
    moreover have "take (fa_size a - p) (drop p (fa_val a)) = ?l2" by (subst v) (simp add: l assms)
    moreover have "drop (p + 1 + (fa_size a - p)) (fa_val a) = r" by (subst v') (simp add: l lt)
    ultimately show ?thesis using assms by (simp add: memmove_def)
  qed
  moreover have "memcpy p [x] (?l1 @ d # ?l2 @ r) = Some (?l1 @ x # ?l2 @ r)" by (simp add: memcpy_def l)
  ultimately have "fa_insert p x a = Some \<lparr>fa_size = fa_size a + 1, fa_val = ?l1 @ x # ?l2 @ r\<rparr>"
    using assms by (simp add: fa_insert_def)
  moreover have "take (fa_size a + 1) (?l1 @ x # ?l2 @ r) = ?l1 @ x # ?l2" using l assms by (simp add: Suc_diff_le)
  moreover have "length (?l1 @ x # ?l2 @ r) = length (fa_val a)" by (subst v) simp
  ultimately show thesis using that assms by (simp add: fa_ok_def fa_list_def)
qed

lemma fa_push_back_ok:
  assumes "fa_ok a" "fa_size a < length (fa_val a)"
  obtains b where "fa_push_back x a = Some b" "fa_ok b" "fa_list b = fa_list a @ [x]" "length (fa_val b) = length (fa_val a)"
  using assms that by (simp add: fa_push_back_def memcpy_def fa_ok_def fa_list_def)

lemma fa_insert_range_ok:
  assumes "fa_ok a" "fa_list a = []" "length xs \<le> length (fa_val a)"
  obtains b where "fa_insert_range 0 xs a = Some b" "fa_ok b" "fa_list b = xs" "length (fa_val b) = length (fa_val a)"
proof -
  have "fa_size a = 0" using assms by (metis fa_ok_length list.size(3))
  then show thesis using that assms by (simp add: fa_insert_range_def memmove_def memcpy_def fa_ok_def fa_list_def)
qed

lemma fa_erase_ok:
  assumes "fa_ok a" "p \<le> fa_size a"
  obtains b where "fa_erase p (fa_size a) a = Some b" "fa_ok b" "fa_list b = take p (fa_list a)" "length (fa_val b) = length (fa_val a)"
  using assms that by (simp add: fa_erase_def memmove_def fa_ok_def fa_list_def)

lemma fa_of_ok:
  assumes "length xs \<le> length junk"
  obtains a where "fa_of junk xs = Some a" "fa_ok a" "fa_list a = xs" "length (fa_val a) = length junk"
  using assms that by (simp add: fa_of_def memcpy_def fa_ok_def fa_list_def)

lemma fa_of_None: "length junk < length xs \<Longrightarrow> fa_of junk xs = None"
  by (simp add: fa_of_def memcpy_def)

text \<open>The comparisons look at the elements only.\<close>

lemma fa_differs_iff: "fa_differs n i v w \<longleftrightarrow> (\<exists>j < n. v ! (i + j) \<noteq> w ! (i + j))"
proof (induction n arbitrary: i)
  case (Suc n)
  show ?case unfolding fa_differs.simps Suc using less_Suc_eq_0_disj by (auto simp: Ex_less_Suc2)
qed simp

lemma fa_eq_iff:
  assumes "fa_ok a" "fa_ok b"
  shows "fa_eq a b \<longleftrightarrow> fa_list a = fa_list b"
proof -
  have "fa_list a = fa_list b \<longleftrightarrow> fa_size a = fa_size b \<and> (\<forall>i < fa_size a. fa_val a ! i = fa_val b ! i)"
    using assms fa_ok_length [OF assms(1)] fa_ok_length [OF assms(2)]
    by (auto simp: list_eq_iff_nth_eq fa_list_def)
  then show ?thesis by (auto simp: fa_eq_def fa_differs_iff)
qed

lemma fa_ne_eq: "fa_ne a b = (\<not> fa_eq a b)"
  by (simp add: fa_ne_def fa_eq_def)

section \<open>Strings\<close>

definition KEY_LEN :: nat where "KEY_LEN = 33"
definition FIELD_LEN :: nat where "FIELD_LEN = 6"
definition VALUE_LEN :: nat where "VALUE_LEN = 100"
definition FIELD_NUM :: nat where "FIELD_NUM = 10"

text \<open>
  A string of at most \<open>mx\<close> characters as a value: the characters up to its length, which are all
  that is read of it. The constructor from a \<open>std::string\<close> does not check the length.
\<close>

datatype fixed_string = Fixed (chars: string)

definition new_fixed :: "nat \<Rightarrow> string \<Rightarrow> fixed_string option" where
  "new_fixed mx x = (if length x \<le> mx then Some (Fixed x) else None)"

definition fixed_to_string :: "fixed_string \<Rightarrow> string" where
  "fixed_to_string x = chars x"

text \<open>A \<open>char\<close> is signed here; the order of two strings.\<close>

definition schar :: "char \<Rightarrow> int" where
  "schar c = sint (of_nat (of_char c) :: 8 word)"

fun fixed_less :: "string \<Rightarrow> string \<Rightarrow> bool" where
  "fixed_less (x # xs) (y # ys) = (if schar x < schar y then True else if schar y < schar x then False else fixed_less xs ys)"
| "fixed_less [] ys = (ys \<noteq> [])"
| "fixed_less (x # xs) [] = False"

lemma schar_inj: "schar c = schar d \<longleftrightarrow> c = d"
proof
  assume "schar c = schar d"
  then have "(of_nat (of_char c) :: 8 word) = of_nat (of_char d)" unfolding schar_def by (rule signed_word_eqI)
  then have "unat (of_nat (of_char c) :: 8 word) = unat (of_nat (of_char d) :: 8 word)" by simp
  then have "char_of (of_char c mod 256 :: nat) = (char_of (of_char d mod 256 :: nat) :: char)"
    by (simp add: unat_of_nat)
  then show "c = d" by simp
qed simp

lemma fixed_less_irrefl: "\<not> fixed_less x x"
  by (induction x) simp_all

lemma fixed_less_trans: "fixed_less x y \<Longrightarrow> fixed_less y z \<Longrightarrow> fixed_less x z"
proof (induction x y arbitrary: z rule: fixed_less.induct)
  case (1 x xs y ys)
  then show ?case by (cases z) (auto split: if_splits)
next
  case (2 ys)
  then show ?case by (cases z; cases ys) auto
qed simp

lemma fixed_less_total: "x = y \<or> fixed_less x y \<or> fixed_less y x"
proof (induction x y rule: fixed_less.induct)
  case (2 ys)
  then show ?case by (cases ys) auto
qed (auto simp: schar_inj [symmetric])

instantiation fixed_string :: linorder
begin

definition less_fixed_string :: "fixed_string \<Rightarrow> fixed_string \<Rightarrow> bool" where
  "x < y \<longleftrightarrow> fixed_less (chars x) (chars y)"

definition less_eq_fixed_string :: "fixed_string \<Rightarrow> fixed_string \<Rightarrow> bool" where
  "x \<le> y \<longleftrightarrow> x = y \<or> fixed_less (chars x) (chars y)"

instance
proof
  fix x y z :: fixed_string
  show "x < y \<longleftrightarrow> x \<le> y \<and> \<not> y \<le> x"
    using fixed_less_irrefl [of "chars x"] fixed_less_trans [of "chars x" "chars y" "chars x"]
    by (auto simp: less_fixed_string_def less_eq_fixed_string_def)
  show "x \<le> x" by (simp add: less_eq_fixed_string_def)
  show "x \<le> y \<Longrightarrow> y \<le> z \<Longrightarrow> x \<le> z"
    using fixed_less_trans [of "chars x" "chars y" "chars z"] by (auto simp: less_eq_fixed_string_def)
  show "x \<le> y \<Longrightarrow> y \<le> x \<Longrightarrow> x = y"
    using fixed_less_irrefl [of "chars x"] fixed_less_trans [of "chars x" "chars y" "chars x"]
    by (auto simp: less_eq_fixed_string_def)
  show "x \<le> y \<or> y \<le> x"
    using fixed_less_total [of "chars x" "chars y"] by (auto simp: less_eq_fixed_string_def fixed_string.expand)
qed

end

text \<open>It is what the loop of \<open>operator<\<close> computes.\<close>

lemma fa_less_loop_eq:
  "i + n \<le> length v \<Longrightarrow> i + m \<le> length w \<Longrightarrow>
    (case fa_less_loop (\<lambda>x y. schar x < schar y) (min n m) i v w of Some r \<Rightarrow> r | None \<Rightarrow> n < m)
    = fixed_less (take n (drop i v)) (take m (drop i w))"
proof (induction n arbitrary: i m)
  case 0
  then show ?case by (cases m) (simp_all add: Cons_nth_drop_Suc [symmetric])
next
  case (Suc n)
  have v: "take (Suc n) (drop i v) = v ! i # take n (drop (Suc i) v)"
    using Suc.prems(1) by (simp add: Cons_nth_drop_Suc [symmetric])
  show ?case
  proof (cases m)
    case (Suc k)
    have w: "take (Suc k) (drop i w) = w ! i # take k (drop (Suc i) w)"
      using Suc.prems(2) \<open>m = Suc k\<close> by (simp add: Cons_nth_drop_Suc [symmetric])
    have "Suc i + n \<le> length v" "Suc i + k \<le> length w" using Suc.prems \<open>m = Suc k\<close> by simp_all
    note IH = Suc.IH [OF this]
    show ?thesis unfolding Suc v w by (simp add: IH [symmetric] split: option.split)
  qed (simp add: v)
qed

lemma fa_less_fixed:
  assumes "fa_ok a" "fa_ok b"
  shows "fa_less (\<lambda>x y. schar x < schar y) a b \<longleftrightarrow> Fixed (fa_list a) < Fixed (fa_list b)"
  using fa_less_loop_eq [of 0 "fa_size a" "fa_val a" "fa_size b" "fa_val b"] assms
  by (simp add: fa_less_def fa_ok_def fa_list_def less_fixed_string_def)

text \<open>On characters below 128 it is the order of \<open>std::string\<close>.\<close>

definition ascii :: "string \<Rightarrow> bool" where
  "ascii s \<longleftrightarrow> list_all (\<lambda>c. (of_char c :: nat) < 128) s"

end
