(* ===== verification/Rdma_Tree.thy ===== *)
theory Rdma_Tree
  imports Rdma_Array Pool_Tree
begin

text \<open>
  The B+ tree of the RDMA server (RDMA/CPU/lib/b_plus_tree.h). It works like the tree of the
  Ethernet backend, but its nodes are flat so that a client can read one with a single remote
  read: keys, children and the record are fixed arrays. \<open>None\<close> stands for undefined behaviour
  and for a walk that never ends, as in Pool_Tree.
\<close>

section \<open>Nodes\<close>

text \<open>
  The array \<open>child\<close> has room for M children, but an inner node with M keys has M + 1 of them: the
  code writes behind the array. C++ gives this no meaning. The model gives it the one it has on a
  64-bit machine: the member after \<open>child\<close> is \<open>val\<close>, and the first word of \<open>val\<close> is its length. So
  a cell of memory holds a pointer or a number, and the operations on \<open>child\<close> see its M cells and
  the word behind them (\<open>r_child\<close>); what they do to that word they do to the length of \<open>val\<close>.
\<close>

datatype cell = Ptr nat | Num nat

fun un_ptr :: "cell \<Rightarrow> nat option" where
  "un_ptr (Ptr n) = Some n"
| "un_ptr (Num m) = None"

record 'k rnode =
  r_isLeaf :: bool
  r_isValue :: bool
  r_parent :: "nat option"
  r_key :: "'k farr"
  r_own :: "cell farr"
  r_val_len :: cell
  r_pairs :: "(string \<times> string) list"
  r_access_count :: "32 word"
  r_loaded :: bool

record 'k rtree =
  rpool :: "nat \<Rightarrow> 'k rnode"
  r_nb_node :: nat
  r_depth :: "32 word"
  r_nb_query :: "32 word"
  r_nb_access :: "32 word"
  key_map :: "'k \<Rightarrow> int"

definition new_RNode :: "'k \<Rightarrow> 'k rnode" where
  "new_RNode k0 = \<lparr>r_isLeaf = True, r_isValue = False, r_parent = None, r_key = fa_new (replicate tree_M k0),
     r_own = fa_new (replicate tree_M (Num 0)), r_val_len = Num 0, r_pairs = replicate FIELD_NUM ([], []),
     r_access_count = 0, r_loaded = False\<rparr>"

definition new_rtree :: "'k \<Rightarrow> 'k rtree" where
  "new_rtree k0 = \<lparr>rpool = (\<lambda>_. new_RNode k0), r_nb_node = 1, r_depth = 1, r_nb_query = 0, r_nb_access = 0,
     key_map = (\<lambda>_. 0)\<rparr>"

definition rdma_MAX_NODE_SIZE :: nat where
  "rdma_MAX_NODE_SIZE = 20000000"

definition r_upd :: "nat \<Rightarrow> ('k rnode \<Rightarrow> 'k rnode) \<Rightarrow> 'k rtree \<Rightarrow> 'k rtree" where
  "r_upd n f s = s\<lparr>rpool := (rpool s)(n := f (rpool s n))\<rparr>"

definition r_alloc :: "nat \<Rightarrow> 'k rtree \<Rightarrow> (nat \<times> 'k rtree) option" where
  "r_alloc mx s = (if r_nb_node s < mx then Some (r_nb_node s, s\<lparr>r_nb_node := r_nb_node s + 1\<rparr>) else None)"

section \<open>The record of a node\<close>

text \<open>The member \<open>val\<close> is its length \<open>r_val_len\<close> and its elements \<open>r_pairs\<close>.\<close>

definition val_read :: "'k rnode \<Rightarrow> (string \<times> string) farr option" where
  "val_read nd = (case r_val_len nd of
     Num n \<Rightarrow> Some \<lparr>fa_size = n, fa_val = r_pairs nd\<rparr> | Ptr _ \<Rightarrow> None)"

definition val_assign :: "(string \<times> string) farr \<Rightarrow> 'k rnode \<Rightarrow> 'k rnode" where
  "val_assign v nd = nd\<lparr>r_val_len := Num (fa_size v), r_pairs := fa_val v\<rparr>"

definition val_copy :: "'k rnode \<Rightarrow> 'k rnode \<Rightarrow> 'k rnode" where
  "val_copy src nd = nd\<lparr>r_val_len := r_val_len src, r_pairs := r_pairs src\<rparr>"

definition val_clear :: "'k rnode \<Rightarrow> 'k rnode" where
  "val_clear nd = nd\<lparr>r_val_len := Num 0\<rparr>"

text \<open>\<open>copy_node->child = cur->child\<close> copies the length and M pointers.\<close>

definition child_copy :: "'k rnode \<Rightarrow> 'k rnode \<Rightarrow> 'k rnode" where
  "child_copy src nd = nd\<lparr>r_own := r_own src\<rparr>"

text \<open>The member \<open>child\<close> with the word behind it, as its operations see and change it.\<close>

definition r_child :: "'k rnode \<Rightarrow> cell farr" where
  "r_child nd = \<lparr>fa_size = fa_size (r_own nd), fa_val = fa_val (r_own nd) @ [r_val_len nd]\<rparr>"

definition set_child :: "cell farr \<Rightarrow> 'k rnode \<Rightarrow> 'k rnode" where
  "set_child c nd = nd\<lparr>r_own := \<lparr>fa_size = fa_size c, fa_val = butlast (fa_val c)\<rparr>, r_val_len := last (fa_val c)\<rparr>"

lemma r_child_upd [simp]:
  "r_child (nd\<lparr>r_isLeaf := a\<rparr>) = r_child nd" "r_child (nd\<lparr>r_isValue := a\<rparr>) = r_child nd"
  "r_child (nd\<lparr>r_parent := p\<rparr>) = r_child nd" "r_child (nd\<lparr>r_key := k\<rparr>) = r_child nd"
  "r_child (nd\<lparr>r_pairs := v\<rparr>) = r_child nd" "r_child (nd\<lparr>r_access_count := c\<rparr>) = r_child nd"
  "r_child (nd\<lparr>r_loaded := a\<rparr>) = r_child nd" "fa_size (r_child (nd\<lparr>r_val_len := l\<rparr>)) = fa_size (r_child nd)"
  by (simp_all add: r_child_def)

lemma set_child_sel [simp]:
  "r_isLeaf (set_child c nd) = r_isLeaf nd" "r_isValue (set_child c nd) = r_isValue nd"
  "r_parent (set_child c nd) = r_parent nd" "r_key (set_child c nd) = r_key nd" "r_pairs (set_child c nd) = r_pairs nd"
  "r_access_count (set_child c nd) = r_access_count nd" "r_loaded (set_child c nd) = r_loaded nd"
  "fa_val c \<noteq> [] \<Longrightarrow> r_child (set_child c nd) = c" "set_child c (set_child d nd) = set_child c nd"
  "set_child c (nd\<lparr>r_val_len := l\<rparr>) = set_child c nd" "(set_child c nd)\<lparr>r_key := k\<rparr> = set_child c (nd\<lparr>r_key := k\<rparr>)"
  by (simp_all add: set_child_def r_child_def)

text \<open>The children as pointers: one of them, and all.\<close>

definition r_child_at :: "'k rnode \<Rightarrow> nat \<Rightarrow> nat option" where
  "r_child_at nd i = do { c \<leftarrow> fa_get i (r_child nd); un_ptr c }"

definition r_children :: "'k rnode \<Rightarrow> nat list option" where
  "r_children nd = do { cs \<leftarrow> fa_to_vector (r_child nd); those (map un_ptr cs) }"

section \<open>Walking down\<close>

definition r_next_child :: "'k::linorder rtree \<Rightarrow> nat \<Rightarrow> 'k \<Rightarrow> nat option" where
  "r_next_child s cur in_key = r_child_at (rpool s cur) (lower_bound (fa_list (r_key (rpool s cur))) in_key)"

fun r_find_leaf :: "nat \<Rightarrow> 'k::linorder rtree \<Rightarrow> nat \<Rightarrow> 'k \<Rightarrow> nat option" where
  "r_find_leaf 0 s cur in_key = None"
| "r_find_leaf (Suc fuel) s cur in_key =
     (if r_isLeaf (rpool s cur) then Some cur
      else do { cur \<leftarrow> r_next_child s cur in_key; r_find_leaf fuel s cur in_key })"

fun r_walk :: "nat \<Rightarrow> 'k::linorder rtree \<Rightarrow> nat \<Rightarrow> 'k \<Rightarrow> ('k rtree \<times> nat) option" where
  "r_walk 0 s cur in_key = None"
| "r_walk (Suc fuel) s cur in_key =
     (if r_isValue (rpool s cur) then Some (s, cur)
      else do {
        let s = s\<lparr>r_nb_access := r_nb_access s + 1\<rparr>;
        cur \<leftarrow> r_next_child s cur in_key;
        let s = r_upd cur (\<lambda>n. n\<lparr>r_access_count := r_access_count n + 1\<rparr>) s;
        r_walk fuel s cur in_key })"

text \<open>\<open>lookup\<close> from a node, \<open>None\<close> being the null pointer; the result is a reference to \<open>val\<close>.\<close>

definition r_lookup :: "'k::linorder rtree \<Rightarrow> 'k \<Rightarrow> nat option \<Rightarrow> ('k rtree \<times> nat) option" where
  "r_lookup s in_key cur = do {
     let s = s\<lparr>r_nb_query := r_nb_query s + 1\<rparr>;
     let cur = (case cur of None \<Rightarrow> 0 | Some n \<Rightarrow> n);
     let s = r_upd cur (\<lambda>n. n\<lparr>r_access_count := r_access_count n + 1\<rparr>) s;
     r_walk (Suc (r_nb_node s)) s cur in_key }"

section \<open>Splitting\<close>

definition r_set_parents :: "nat \<Rightarrow> nat list \<Rightarrow> 'k rtree \<Rightarrow> 'k rtree" where
  "r_set_parents p cs s = fold (\<lambda>ch. r_upd ch (\<lambda>n. n\<lparr>r_parent := Some p\<rparr>)) cs s"

definition r_overflow_copy :: "nat \<Rightarrow> 'k rtree \<Rightarrow> nat \<Rightarrow> (nat \<times> 'k rtree) option" where
  "r_overflow_copy mx s cur = do {
     let s = (if cur = 0 then s\<lparr>r_depth := r_depth s + 1\<rparr> else s);
     (copy_node, s) \<leftarrow> r_alloc mx s;
     let s = r_upd copy_node (\<lambda>n. n\<lparr>r_isLeaf := r_isLeaf (rpool s cur), r_parent := Some cur,
       r_key := r_key (rpool s cur)\<rparr>) s;
     let s = r_upd copy_node (val_copy (rpool s cur)) s;
     let s = r_upd copy_node (child_copy (rpool s cur)) s;
     let s = r_upd copy_node (\<lambda>n. n\<lparr>r_loaded := False\<rparr>) s;
     chs \<leftarrow> r_children (rpool s copy_node);
     let s = r_set_parents copy_node chs s;
     let s = r_upd cur (\<lambda>n. n\<lparr>r_isLeaf := False, r_key := fa_clear (r_key n)\<rparr>) s;
     let s = r_upd cur val_clear s;
     ch \<leftarrow> fa_push_back (Ptr copy_node) (fa_clear (r_child (rpool s cur)));
     Some (copy_node, r_upd cur (set_child ch) s) }"

text \<open>\<open>to.insert(to.begin(), from.begin() + i, from.end())\<close> and \<open>from.erase(from.begin() + i, from.end())\<close>\<close>

definition fa_append_tail :: "nat \<Rightarrow> 'a farr \<Rightarrow> 'a farr \<Rightarrow> 'a farr option" where
  "fa_append_tail i src dst = do { xs \<leftarrow> fa_range i (fa_size src) src; fa_insert_range 0 xs dst }"

definition fa_cut :: "nat \<Rightarrow> 'a farr \<Rightarrow> 'a farr option" where
  "fa_cut i a = fa_erase i (fa_size a) a"

definition r_move_keys :: "nat \<Rightarrow> nat \<Rightarrow> nat \<Rightarrow> 'k rtree \<Rightarrow> 'k rtree option" where
  "r_move_keys cur new_node i s = do {
     k \<leftarrow> fa_append_tail i (r_key (rpool s cur)) (r_key (rpool s new_node));
     Some (r_upd new_node (\<lambda>n. n\<lparr>r_key := k\<rparr>) s) }"

definition r_cut_keys :: "nat \<Rightarrow> nat \<Rightarrow> 'k rtree \<Rightarrow> 'k rtree option" where
  "r_cut_keys cur i s = do { k \<leftarrow> fa_cut i (r_key (rpool s cur)); Some (r_upd cur (\<lambda>n. n\<lparr>r_key := k\<rparr>) s) }"

definition r_move_children :: "nat \<Rightarrow> nat \<Rightarrow> nat \<Rightarrow> 'k rtree \<Rightarrow> 'k rtree option" where
  "r_move_children cur new_node i s = do {
     c \<leftarrow> fa_append_tail i (r_child (rpool s cur)) (r_child (rpool s new_node));
     s \<leftarrow> Some (r_upd new_node (set_child c) s);
     c \<leftarrow> fa_cut i (r_child (rpool s cur));
     Some (r_upd cur (set_child c) s) }"

text \<open>The new node and its separator enter the parent.\<close>

definition r_enter :: "nat \<Rightarrow> nat \<Rightarrow> 'k \<Rightarrow> nat \<Rightarrow> nat \<Rightarrow> 'k rtree \<Rightarrow> 'k rtree option" where
  "r_enter par p sep q new_node s = do {
     k \<leftarrow> fa_insert p sep (r_key (rpool s par));
     let s = r_upd par (\<lambda>n. n\<lparr>r_key := k\<rparr>) s;
     c \<leftarrow> fa_insert q (Ptr new_node) (r_child (rpool s par));
     Some (r_upd par (set_child c) s) }"

definition r_split_leaf :: "'k::linorder rtree \<Rightarrow> nat \<Rightarrow> nat \<Rightarrow> nat \<Rightarrow> 'k rtree option" where
  "r_split_leaf s cur new_node par = do {
     s \<leftarrow> r_move_keys cur new_node (tree_M div 2) s;
     s \<leftarrow> r_cut_keys cur (tree_M div 2) s;
     s \<leftarrow> r_move_children cur new_node (tree_M div 2) s;
     first \<leftarrow> fa_get 0 (r_key (rpool s new_node));
     let p = lower_bound (fa_list (r_key (rpool s par))) first;
     back \<leftarrow> fa_back (r_key (rpool s cur));
     r_enter par p back (p + 1) new_node s }"

definition r_split_inner :: "'k::linorder rtree \<Rightarrow> nat \<Rightarrow> nat \<Rightarrow> nat \<Rightarrow> 'k rtree option" where
  "r_split_inner s cur new_node par = do {
     s \<leftarrow> r_move_keys cur new_node (tree_M div 2 + 1) s;
     new_key \<leftarrow> fa_get (tree_M div 2) (r_key (rpool s cur));
     s \<leftarrow> r_cut_keys cur (tree_M div 2) s;
     s \<leftarrow> r_move_children cur new_node (tree_M div 2 + 1) s;
     chs \<leftarrow> r_children (rpool s new_node);
     let s = r_set_parents new_node chs s;
     let p = lower_bound (fa_list (r_key (rpool s par))) new_key;
     r_enter par p new_key (p + 1) new_node s }"

definition r_overflow_step :: "nat \<Rightarrow> 'k::linorder rtree \<Rightarrow> nat \<Rightarrow> (nat \<times> 'k rtree) option" where
  "r_overflow_step mx s cur = do {
     (cur, s) \<leftarrow> (if cur = 0 \<or> r_loaded (rpool s cur) then r_overflow_copy mx s cur else Some (cur, s));
     (new_node, s) \<leftarrow> r_alloc mx s;
     let s = r_upd new_node (\<lambda>n. n\<lparr>r_parent := r_parent (rpool s cur), r_isLeaf := r_isLeaf (rpool s cur)\<rparr>) s;
     par \<leftarrow> r_parent (rpool s cur);
     s \<leftarrow> (if r_isLeaf (rpool s cur) then r_split_leaf s cur new_node par else r_split_inner s cur new_node par);
     Some (par, s) }"

fun r_overflow :: "nat \<Rightarrow> nat \<Rightarrow> 'k::linorder rtree \<Rightarrow> nat \<Rightarrow> 'k rtree option" where
  "r_overflow mx 0 s cur = None"
| "r_overflow mx (Suc fuel) s cur =
     (if tree_M \<le> fa_size (r_key (rpool s cur))
      then do { (par, s) \<leftarrow> r_overflow_step mx s cur; r_overflow mx fuel s par }
      else Some s)"

section \<open>Insertion\<close>

definition r_insert :: "nat \<Rightarrow> 'k::linorder rtree \<Rightarrow> 'k \<Rightarrow> (string \<times> string) farr \<Rightarrow> 'k rtree option" where
  "r_insert mx s in_key in_val = do {
     let s = s\<lparr>key_map := (key_map s)(in_key := key_map s in_key + 1)\<rparr>;
     cur \<leftarrow> r_find_leaf (Suc (r_nb_node s)) s 0 in_key;
     (node_v, s) \<leftarrow> r_alloc mx s;
     let s = r_upd node_v (\<lambda>n. n\<lparr>r_isLeaf := False, r_isValue := True, r_parent := Some cur\<rparr>) s;
     let s = r_upd node_v (val_assign in_val) s;
     let p = lower_bound (fa_list (r_key (rpool s cur))) in_key;
     s \<leftarrow> r_enter cur p in_key p node_v s;
     r_overflow mx (Suc (r_nb_node s)) s cur }"

end
