(* ===== verification/Rdma_Sim.thy ===== *)
theory Rdma_Sim
  imports Rdma_Tree Tree_Syntactic
begin

text \<open>
  The flat tree does what the tree with vectors does: a simulation between the states, the
  bounds on the nodes that keep the arrays from overflowing, and the operations step by step.
\<close>

section \<open>The simulation\<close>

definition node_sim :: "'k rnode \<Rightarrow> ('k, fields) node \<Rightarrow> bool" where
  "node_sim r n \<longleftrightarrow> r_isLeaf r = isLeaf n \<and> r_isValue r = isValue n \<and> r_parent r = parent n
     \<and> r_access_count r = access_count n \<and> r_loaded r = isLoaded2Switch n
     \<and> fa_ok (r_key r) \<and> length (fa_val (r_key r)) = tree_M \<and> fa_list (r_key r) = nkey n
     \<and> fa_ok (r_child r) \<and> length (fa_val (r_child r)) = Suc tree_M \<and> fa_list (r_child r) = map Ptr (child n)
     \<and> (isValue n \<longrightarrow> (\<exists>v. val_read r = Some v \<and> fa_ok v \<and> fa_list v = nval n))"

definition tree_sim :: "'k rtree \<Rightarrow> ('k, fields) tree \<Rightarrow> bool" where
  "tree_sim r t \<longleftrightarrow> (\<forall>n. node_sim (rpool r n) (pool t n)) \<and> r_nb_node r = nb_node t \<and> r_depth r = depth t
     \<and> r_nb_query r = nb_query t \<and> r_nb_access r = nb_access t"

lemma simD:
  assumes "tree_sim r t"
  shows "node_sim (rpool r n) (pool t n)" "r_nb_node r = nb_node t" "r_depth r = depth t"
    "r_nb_query r = nb_query t" "r_nb_access r = nb_access t"
  using assms by (simp_all add: tree_sim_def)

lemma node_simD:
  assumes "node_sim r n"
  shows "r_isLeaf r = isLeaf n" "r_isValue r = isValue n" "r_parent r = parent n"
    "r_access_count r = access_count n" "r_loaded r = isLoaded2Switch n"
    "fa_ok (r_key r)" "length (fa_val (r_key r)) = tree_M" "fa_list (r_key r) = nkey n" "fa_size (r_key r) = length (nkey n)"
    "fa_ok (r_child r)" "length (fa_val (r_child r)) = Suc tree_M" "fa_list (r_child r) = map Ptr (child n)"
    "fa_size (r_child r) = length (child n)"
  using assms fa_ok_length [of "r_key r"] fa_ok_length [of "r_child r"] by (auto simp: node_sim_def)

lemmas sim_node = simD(1) [THEN node_simD(1)] simD(1) [THEN node_simD(2)] simD(1) [THEN node_simD(3)]
  simD(1) [THEN node_simD(4)] simD(1) [THEN node_simD(5)] simD(1) [THEN node_simD(8)] simD(1) [THEN node_simD(9)]

lemma r_upd_sel [simp]: "rpool (r_upd n f s) m = (if m = n then f (rpool s n) else rpool s m)"
  "r_nb_node (r_upd n f s) = r_nb_node s" "r_depth (r_upd n f s) = r_depth s"
  "r_nb_query (r_upd n f s) = r_nb_query s" "r_nb_access (r_upd n f s) = r_nb_access s"
  by (simp_all add: r_upd_def)

lemma sim_upd:
  assumes "tree_sim r t" "node_sim (f (rpool r n)) (g (pool t n))"
  shows "tree_sim (r_upd n f r) (upd_node n g t)"
  using assms by (simp add: tree_sim_def upd_node_def)

lemma sim_new: "tree_sim (new_rtree k0) (new_BPlusTree [])"
  by (simp add: tree_sim_def new_rtree_def new_BPlusTree_def node_sim_def new_RNode_def new_Node_def
      r_child_def fa_new_def fa_clear_def fa_ok_def fa_list_def)

text \<open>Changes that do not touch the arrays.\<close>

lemma val_read_upd [simp]:
  "val_read (r\<lparr>r_parent := p\<rparr>) = val_read r" "val_read (r\<lparr>r_access_count := a\<rparr>) = val_read r"
  "val_read (r\<lparr>r_loaded := l\<rparr>) = val_read r" "val_read (r\<lparr>r_isLeaf := b\<rparr>) = val_read r"
  "val_read (r\<lparr>r_key := k\<rparr>) = val_read r" "val_read (r\<lparr>r_isValue := b\<rparr>) = val_read r"
  by (simp_all add: val_read_def split: cell.split)

lemma node_sim_flags:
  assumes "node_sim r n"
  shows "node_sim (r\<lparr>r_parent := p\<rparr>) (n\<lparr>parent := p\<rparr>)"
    "node_sim (r\<lparr>r_access_count := a\<rparr>) (n\<lparr>access_count := a\<rparr>)"
    "node_sim (r\<lparr>r_loaded := l\<rparr>) (n\<lparr>isLoaded2Switch := l\<rparr>)"
    "node_sim (r\<lparr>r_isLeaf := b\<rparr>) (n\<lparr>isLeaf := b\<rparr>)"
  using assms by (auto simp: node_sim_def)

lemma node_sim_key:
  assumes "node_sim r n" "fa_ok k" "length (fa_val k) = tree_M" "fa_list k = ks"
  shows "node_sim (r\<lparr>r_key := k\<rparr>) (n\<lparr>nkey := ks\<rparr>)"
  using assms by (auto simp: node_sim_def)

lemma node_sim_child:
  assumes "node_sim r n" "\<not> isValue n" "fa_ok c" "length (fa_val c) = Suc tree_M" "fa_list c = map Ptr cs"
  shows "node_sim (set_child c r) (n\<lparr>child := cs\<rparr>)"
proof -
  have "fa_val c \<noteq> []" using assms(4) by auto
  then show ?thesis using assms by (auto simp: node_sim_def)
qed

lemma sim_set_parents: "tree_sim r t \<Longrightarrow> tree_sim (r_set_parents p cs r) (set_parents p cs t)"
proof (induction cs arbitrary: r t)
  case (Cons c cs)
  have "tree_sim (r_upd c (\<lambda>n. n\<lparr>r_parent := Some p\<rparr>) r) (upd_node c (\<lambda>n. n\<lparr>parent := Some p\<rparr>) t)"
    using Cons.prems by (intro sim_upd node_sim_flags simD)
  from Cons.IH [OF this] show ?case by (simp add: r_set_parents_def set_parents_def)
qed (simp add: r_set_parents_def set_parents_def)

lemma those_ptrs [simp]: "those (map un_ptr (map Ptr ns)) = Some ns"
  by (induction ns) simp_all

lemma sim_children: "node_sim r n \<Longrightarrow> r_children r = Some (child n)"
  using node_simD [of r n] by (simp add: r_children_def fa_to_vector_ok del: map_map)

lemma sim_alloc:
  assumes "tree_sim r t" "alloc mx t = Some (w, u)"
  shows "\<exists>r'. r_alloc mx r = Some (w, r') \<and> tree_sim r' u \<and> rpool r' = rpool r"
  using assms by (auto simp: alloc_def r_alloc_def tree_sim_def split: if_splits)

section \<open>Walks\<close>

lemma sim_next_child:
  assumes "tree_sim r t" "next_child t cur k = Some c"
  shows "r_next_child r cur k = Some c"
proof -
  note n = node_simD [OF simD(1) [OF assms(1), of cur]]
  from assms(2) have "lower_bound (nkey (pool t cur)) k < length (child (pool t cur))"
    "c = child (pool t cur) ! lower_bound (nkey (pool t cur)) k" by (auto simp: next_child_def dest: nth_opt_SomeE)
  then show ?thesis using n by (simp add: r_next_child_def r_child_at_def fa_get_ok)
qed

lemma sim_find_leaf: "tree_sim r t \<Longrightarrow> find_leaf f t cur k = Some l \<Longrightarrow> r_find_leaf f r cur k = Some l"
proof (induction f arbitrary: cur)
  case (Suc f)
  then show ?case
    using sim_next_child [OF Suc.prems(1)] by (auto simp: sim_node split: if_splits bind_splits)
qed simp

lemma sim_walk:
  "tree_sim r t \<Longrightarrow> walk f True t cur k = Some (u, n) \<Longrightarrow> \<exists>r'. r_walk f r cur k = Some (r', n) \<and> tree_sim r' u"
proof (induction f arbitrary: r t cur)
  case (Suc f)
  show ?case
  proof (cases "isValue (pool t cur)")
    case True
    then show ?thesis using Suc.prems by (simp add: sim_node)
  next
    case False
    let ?t = "t\<lparr>nb_access := nb_access t + 1\<rparr>" and ?r = "r\<lparr>r_nb_access := r_nb_access r + 1\<rparr>"
    have s: "tree_sim ?r ?t" using Suc.prems(1) by (simp add: tree_sim_def)
    obtain c where c: "next_child ?t cur k = Some c"
      "walk f True (upd_node c (\<lambda>n. n\<lparr>access_count := access_count n + 1\<rparr>) ?t) c k = Some (u, n)"
      using Suc.prems(2) False by (auto simp: Let_def split: bind_splits)
    have n: "node_sim (rpool ?r c) (pool ?t c)" by (rule simD [OF s])
    have "tree_sim (r_upd c (\<lambda>n. n\<lparr>r_access_count := r_access_count n + 1\<rparr>) ?r)
        (upd_node c (\<lambda>n. n\<lparr>access_count := access_count n + 1\<rparr>) ?t)"
      by (rule sim_upd [OF s]) (simp only: node_simD(4) [OF n] node_sim_flags [OF n])
    from Suc.IH [OF this c(2)] show ?thesis
      using False sim_next_child [OF s c(1)] by (simp add: sim_node [OF Suc.prems(1)] Let_def)
  qed
qed simp

section \<open>Bounds on the nodes\<close>

text \<open>
  What keeps the arrays from overflowing: every node but \<open>c\<close> has less than M keys and \<open>c\<close> at most M,
  a node has at most one child more than keys, and parents are inner nodes in use.
\<close>

definition tidy :: "nat option \<Rightarrow> ('k, 'v) tree \<Rightarrow> bool" where
  "tidy c t \<longleftrightarrow> 0 < nb_node t \<and> (\<forall>n. nb_node t \<le> n \<longrightarrow> nkey (pool t n) = [] \<and> child (pool t n) = [] \<and> \<not> isValue (pool t n))
     \<and> (\<forall>n p. parent (pool t n) = Some p \<longrightarrow> p < nb_node t \<and> p \<noteq> n \<and> \<not> isValue (pool t p))
     \<and> (\<forall>n. \<forall>ch \<in> set (child (pool t n)). ch < nb_node t \<and> ch \<noteq> n)
     \<and> (\<forall>n. isValue (pool t n) \<longrightarrow> \<not> isLeaf (pool t n) \<and> nkey (pool t n) = [])
     \<and> (\<forall>n. length (child (pool t n)) \<le> Suc (length (nkey (pool t n))))
     \<and> (\<forall>n. length (nkey (pool t n)) < tree_M \<or> c = Some n \<and> length (nkey (pool t n)) = tree_M)"

lemma tidyD:
  assumes "tidy c t"
  shows "0 < nb_node t" "nb_node t \<le> n \<Longrightarrow> nkey (pool t n) = [] \<and> child (pool t n) = [] \<and> \<not> isValue (pool t n)"
    "parent (pool t n) = Some p \<Longrightarrow> p < nb_node t \<and> p \<noteq> n \<and> \<not> isValue (pool t p)"
    "ch \<in> set (child (pool t n)) \<Longrightarrow> ch < nb_node t \<and> ch \<noteq> n"
    "isValue (pool t n) \<Longrightarrow> \<not> isLeaf (pool t n) \<and> nkey (pool t n) = []"
    "length (child (pool t n)) \<le> Suc (length (nkey (pool t n)))"
    "length (nkey (pool t n)) < tree_M \<or> c = Some n \<and> length (nkey (pool t n)) = tree_M"
  using assms unfolding tidy_def by blast+

lemma tidy_new: "tidy None (new_BPlusTree v0)"
  by (simp add: tidy_def new_BPlusTree_def new_Node_def tree_M_def)

end
