(* ===== verification/Rdma_Step.thy ===== *)
theory Rdma_Step
  imports Rdma_Sim
begin

text \<open>
  The split of a node in the flat tree is the split in the tree with vectors, and the bounds of
  Rdma_Sim are kept by every operation.
\<close>

section \<open>The parts of a split\<close>

lemma M_pos [simp]: "tree_M = 16"
  by (simp add: tree_M_def)

lemma sim_move_keys:
  assumes s: "tree_sim r s" and w: "nkey (pool s w) = []" and i: "i \<le> length (nkey (pool s cur))"
  shows "\<exists>r'. r_move_keys cur w i r = Some r' \<and>
    tree_sim r' (upd_node w (\<lambda>n. n\<lparr>nkey := drop i (nkey (pool s cur)) @ nkey n\<rparr>) s)"
proof -
  note c = node_simD [OF simD(1) [OF s, of cur]] and d = node_simD [OF simD(1) [OF s, of w]]
  have x: "fa_range i (fa_size (r_key (rpool r cur))) (r_key (rpool r cur)) = Some (drop i (nkey (pool s cur)))"
    using fa_range_ok [OF c(6), of i] c(8,9) i by simp
  have "length (drop i (nkey (pool s cur))) \<le> length (fa_val (r_key (rpool r w)))"
    using c(6,7,9) d(7) unfolding fa_ok_def by simp
  then obtain k where k: "fa_insert_range 0 (drop i (nkey (pool s cur))) (r_key (rpool r w)) = Some k" "fa_ok k"
    "fa_list k = drop i (nkey (pool s cur))" "length (fa_val k) = length (fa_val (r_key (rpool r w)))"
    using fa_insert_range_ok [OF d(6)] d(8) w by metis
  have "tree_sim (r_upd w (\<lambda>n. n\<lparr>r_key := k\<rparr>) r) (upd_node w (\<lambda>n. n\<lparr>nkey := drop i (nkey (pool s cur)) @ nkey n\<rparr>) s)"
    by (rule sim_upd [OF s]) (rule node_sim_key [OF simD(1) [OF s] k(2)], use k d(7) w in simp_all)
  then show ?thesis using x k(1) by (simp add: r_move_keys_def fa_append_tail_def)
qed

lemma sim_cut_keys:
  assumes s: "tree_sim r s" and i: "i \<le> length (nkey (pool s cur))"
  shows "\<exists>r'. r_cut_keys cur i r = Some r' \<and> tree_sim r' (upd_node cur (\<lambda>n. n\<lparr>nkey := take i (nkey n)\<rparr>) s)"
proof -
  note c = node_simD [OF simD(1) [OF s, of cur]]
  obtain k where k: "fa_erase i (fa_size (r_key (rpool r cur))) (r_key (rpool r cur)) = Some k" "fa_ok k"
    "fa_list k = take i (nkey (pool s cur))" "length (fa_val k) = length (fa_val (r_key (rpool r cur)))"
    using fa_erase_ok [OF c(6), of i] c(8,9) i by metis
  have "tree_sim (r_upd cur (\<lambda>n. n\<lparr>r_key := k\<rparr>) r) (upd_node cur (\<lambda>n. n\<lparr>nkey := take i (nkey n)\<rparr>) s)"
    by (rule sim_upd [OF s]) (rule node_sim_key [OF simD(1) [OF s] k(2)], use k c(7) in simp_all)
  then show ?thesis using k(1) by (simp add: r_cut_keys_def fa_cut_def)
qed

lemma sim_move_children:
  assumes s: "tree_sim r s" and w: "child (pool s w) = []" and i: "i \<le> length (child (pool s cur))"
    and v: "\<not> isValue (pool s w)" "\<not> isValue (pool s cur)" "cur \<noteq> w"
  shows "\<exists>r'. r_move_children cur w i r = Some r' \<and>
    tree_sim r' (upd_node cur (\<lambda>n. n\<lparr>child := take i (child n)\<rparr>)
      (upd_node w (\<lambda>n. n\<lparr>child := drop i (child (pool s cur)) @ child n\<rparr>) s))"
proof -
  let ?C = "child (pool s cur)"
  note c = node_simD [OF simD(1) [OF s, of cur]] and d = node_simD [OF simD(1) [OF s, of w]]
  have x: "fa_range i (fa_size (r_child (rpool r cur))) (r_child (rpool r cur)) = Some (map Ptr (drop i ?C))"
    using fa_range_ok [OF c(10), of i] c(12,13) i by (simp add: drop_map)
  have "length (map Ptr (drop i ?C)) \<le> length (fa_val (r_child (rpool r w)))"
    using c(10,11,13) d(11) unfolding fa_ok_def by simp
  then obtain k where k: "fa_insert_range 0 (map Ptr (drop i ?C)) (r_child (rpool r w)) = Some k" "fa_ok k"
    "fa_list k = map Ptr (drop i ?C)" "length (fa_val k) = length (fa_val (r_child (rpool r w)))"
    using fa_insert_range_ok [OF d(10)] d(12) w by (metis list.map_disc_iff)
  let ?r = "r_upd w (set_child k) r" and ?s = "upd_node w (\<lambda>n. n\<lparr>child := drop i ?C @ child n\<rparr>) s"
  have s1: "tree_sim ?r ?s"
    by (rule sim_upd [OF s]) (rule node_sim_child [OF simD(1) [OF s] v(1) k(2)], use k d(11) w in simp_all)
  obtain l where l: "fa_erase i (fa_size (r_child (rpool r cur))) (r_child (rpool r cur)) = Some l" "fa_ok l"
    "fa_list l = map Ptr (take i ?C)" "length (fa_val l) = length (fa_val (r_child (rpool r cur)))"
    using fa_erase_ok [OF c(10), of i] c(12,13) i by (metis take_map)
  have p: "pool ?s cur = pool s cur" using v(3) by (simp add: upd_node_def)
  have "tree_sim (r_upd cur (set_child l) ?r) (upd_node cur (\<lambda>n. n\<lparr>child := take i (child n)\<rparr>) ?s)"
    by (rule sim_upd [OF s1]) (rule node_sim_child [OF simD(1) [OF s1] _ l(2)], use l c(11) v(2) p in simp_all)
  then show ?thesis using x k(1) l(1) v(3) by (simp add: r_move_children_def fa_append_tail_def fa_cut_def)
qed

lemma sim_enter:
  assumes s: "tree_sim r s" and v: "\<not> isValue (pool s par)"
    and p: "p \<le> length (nkey (pool s par))" "length (nkey (pool s par)) < tree_M"
    and q: "q \<le> length (child (pool s par))" "length (child (pool s par)) \<le> tree_M"
  shows "\<exists>r'. r_enter par p sep q w r = Some r' \<and>
    tree_sim r' (upd_node par (\<lambda>n. n\<lparr>child := take q (child (pool s par)) @ w # drop q (child (pool s par))\<rparr>)
      (upd_node par (\<lambda>n. n\<lparr>nkey := take p (nkey (pool s par)) @ sep # drop p (nkey (pool s par))\<rparr>) s))"
proof -
  let ?K = "nkey (pool s par)" and ?C = "child (pool s par)"
  note c = node_simD [OF simD(1) [OF s, of par]]
  obtain k where k: "fa_insert p sep (r_key (rpool r par)) = Some k" "fa_ok k" "fa_list k = take p ?K @ sep # drop p ?K"
    "length (fa_val k) = length (fa_val (r_key (rpool r par)))"
    using fa_insert_ok [OF c(6), of p sep] c(7,8,9) p by metis
  let ?r = "r_upd par (\<lambda>n. n\<lparr>r_key := k\<rparr>) r" and ?s = "upd_node par (\<lambda>n. n\<lparr>nkey := take p ?K @ sep # drop p ?K\<rparr>) s"
  have s1: "tree_sim ?r ?s"
    by (rule sim_upd [OF s]) (rule node_sim_key [OF simD(1) [OF s] k(2)], use k c(7) in simp_all)
  have "fa_size (r_child (rpool r par)) < length (fa_val (r_child (rpool r par)))" "q \<le> fa_size (r_child (rpool r par))"
    using c(11,13) q by simp_all
  then obtain l where l: "fa_insert q (Ptr w) (r_child (rpool r par)) = Some l" "fa_ok l"
    "fa_list l = take q (map Ptr ?C) @ Ptr w # drop q (map Ptr ?C)" "length (fa_val l) = length (fa_val (r_child (rpool r par)))"
    using fa_insert_ok [OF c(10), of q "Ptr w"] c(12) by metis
  have "tree_sim (r_upd par (set_child l) ?r) (upd_node par (\<lambda>n. n\<lparr>child := take q ?C @ w # drop q ?C\<rparr>) ?s)"
    by (rule sim_upd [OF s1]) (rule node_sim_child [OF simD(1) [OF s1] _ l(2)],
      use l c(11) v in \<open>simp_all add: upd_node_def take_map drop_map\<close>)
  then show ?thesis using k(1) l(1) by (simp add: r_enter_def)
qed

text \<open>A node whose array of children is full: the last child is written over the length of \<open>val\<close>.\<close>

lemma enter_behind:
  assumes sm: "tree_sim r s" and u: "r_enter par p sep q w r = Some u" and full: "fa_size (r_own (rpool r par)) = tree_M"
  shows "fa_size (r_own (rpool u par)) = Suc tree_M" "length (fa_val (r_own (rpool u par))) = tree_M"
    "r_val_len (rpool u par) = Ptr (last (take q (child (pool s par)) @ w # drop q (child (pool s par))))"
proof -
  let ?C = "child (pool s par)" and ?a = "r_child (rpool r par)"
  note n = node_simD [OF simD(1) [OF sm, of par]]
  obtain k c where c: "fa_insert q (Ptr w) ?a = Some c" "rpool u par = set_child c ((rpool r par)\<lparr>r_key := k\<rparr>)"
    using u by (auto simp: r_enter_def split: bind_splits)
  have z: "fa_size ?a = tree_M" using full by (simp add: r_child_def)
  then have q: "q \<le> fa_size ?a" using c(1) by (auto simp: fa_insert_def split: if_splits)
  obtain b where "fa_insert q (Ptr w) ?a = Some b" "fa_ok b" "fa_list b = take q (map Ptr ?C) @ Ptr w # drop q (map Ptr ?C)"
    "length (fa_val b) = length (fa_val ?a)" using fa_insert_ok [OF n(10) q, of "Ptr w"] n(11,12) z by auto
  then have b: "fa_ok c" "fa_list c = take q (map Ptr ?C) @ Ptr w # drop q (map Ptr ?C)" "length (fa_val c) = Suc tree_M"
    using c(1) n(11) by simp_all
  have "length (fa_list c) = Suc tree_M" using n(13) z by (simp add: b(2) del: M_pos)
  then have s: "fa_size c = Suc tree_M" using b(1) by simp
  then have "fa_val c = fa_list c" using b(3) by (simp add: fa_list_def)
  also have "\<dots> = map Ptr (take q ?C @ w # drop q ?C)" by (simp add: b(2) take_map drop_map)
  finally have v: "last (fa_val c) = Ptr (last (take q ?C @ w # drop q ?C))" by (simp add: last_map)
  show "fa_size (r_own (rpool u par)) = Suc tree_M" "length (fa_val (r_own (rpool u par))) = tree_M"
    "r_val_len (rpool u par) = Ptr (last (take q ?C @ w # drop q ?C))"
    using s b(3) v by (simp_all add: c(2) set_child_def)
qed

section \<open>Splitting a node\<close>

text \<open>The situation of a split: a node, its parent, and a new node that is still empty.\<close>

definition splitting :: "('k, 'v) tree \<Rightarrow> nat \<Rightarrow> nat \<Rightarrow> nat \<Rightarrow> bool" where
  "splitting s cur w par \<longleftrightarrow> cur \<noteq> w \<and> cur \<noteq> par \<and> par \<noteq> w \<and> nkey (pool s w) = [] \<and> child (pool s w) = []
     \<and> \<not> isValue (pool s cur) \<and> \<not> isValue (pool s w) \<and> \<not> isValue (pool s par)"

lemma splitting_upd: "splitting s cur w par \<Longrightarrow> (\<And>n. isValue (f n) = isValue n) \<Longrightarrow> m \<noteq> w \<Longrightarrow> splitting (upd_node m f s) cur w par"
  by (auto simp: splitting_def upd_node_def)

lemma split_leaf_chain:
  assumes t: "split_leaf M s cur w par = Some t" and S: "splitting s cur w par"
  obtains s1 s2 p sep where
    "s1 = upd_node w (\<lambda>n. n\<lparr>nkey := drop (M div 2) (nkey (pool s cur)) @ nkey n\<rparr>) s"
    "s2 = upd_node cur (\<lambda>n. n\<lparr>nkey := take (M div 2) (nkey n)\<rparr>) s1"
    "M div 2 < length (nkey (pool s cur))" "M div 2 \<le> length (child (pool s cur))"
    "p = lower_bound (nkey (pool s par)) (nkey (pool s cur) ! (M div 2))" "p \<le> length (nkey (pool s par))"
    "Suc p \<le> length (child (pool s par))" "take (M div 2) (nkey (pool s cur)) \<noteq> []"
    "sep = last (take (M div 2) (nkey (pool s cur)))"
    "t = upd_node par (\<lambda>n. n\<lparr>child := take (p + 1) (child (pool s par)) @ w # drop (p + 1) (child (pool s par))\<rparr>)
      (upd_node par (\<lambda>n. n\<lparr>nkey := take p (nkey (pool s par)) @ sep # drop p (nkey (pool s par))\<rparr>)
      (upd_node cur (\<lambda>n. n\<lparr>child := take (M div 2) (child n)\<rparr>)
      (upd_node w (\<lambda>n. n\<lparr>child := drop (M div 2) (child (pool s cur)) @ child n\<rparr>) s2)))"
proof -
  let ?a = "M div 2" and ?K = "nkey (pool s cur)" and ?C = "child (pool s cur)"
  have d: "cur \<noteq> w" "cur \<noteq> par" "par \<noteq> w" and un: "nkey (pool s w) = []" "child (pool s w) = []"
    using S by (auto simp: splitting_def)
  define s1 where "s1 = upd_node w (\<lambda>n. n\<lparr>nkey := drop ?a ?K @ nkey n\<rparr>) s"
  define s2 where "s2 = upd_node cur (\<lambda>n. n\<lparr>nkey := take ?a (nkey n)\<rparr>) s1"
  define s3 where "s3 = upd_node cur (\<lambda>n. n\<lparr>child := take ?a (child n)\<rparr>)
    (upd_node w (\<lambda>n. n\<lparr>child := drop ?a (child (pool s2 cur)) @ child n\<rparr>) s2)"
  have c2: "child (pool s2 cur) = ?C" using d by (simp add: s2_def s1_def upd_node_def)
  have p3: "nkey (pool s3 w) = drop ?a ?K" "nkey (pool s3 cur) = take ?a ?K" "pool s3 par = pool s par"
    using d un by (simp_all add: s3_def s2_def s1_def upd_node_def)
  have p4: "child (pool (upd_node par (\<lambda>n. n\<lparr>nkey := ks\<rparr>) s3) par) = child (pool s par)" for ks
    by (simp add: upd_node_def p3)
  from t obtain fst_key bk ks cs where f: "nth_opt (drop ?a ?K) 0 = Some fst_key" "?a \<le> length ?C"
    "take ?a ?K \<noteq> []" "bk = last (take ?a ?K)"
    "vec_insert (lower_bound (nkey (pool s par)) fst_key) bk (nkey (pool s par)) = Some ks"
    "vec_insert (lower_bound (nkey (pool s par)) fst_key + 1) w (child (pool s par)) = Some cs"
    "t = upd_node par (\<lambda>n. n\<lparr>child := cs\<rparr>) (upd_node par (\<lambda>n. n\<lparr>nkey := ks\<rparr>) s3)"
    unfolding split_leaf_def Let_def s1_def [symmetric] s2_def [symmetric] c2 s3_def [symmetric, unfolded c2]
    by (auto simp: p3 p4 split: bind_splits if_splits)
  have 1: "?a < length ?K" "fst_key = ?K ! ?a" using f(1) by (auto simp: nth_opt_def split: if_splits)
  note ks = vec_insert_SomeE [OF f(5)] and cs = vec_insert_SomeE [OF f(6)]
  show thesis
    by (rule that [OF s1_def s2_def 1(1) f(2) refl _ _ f(3) refl])
      (use ks cs f(4,7) 1(2) in \<open>simp_all add: s3_def c2\<close>)
qed

lemma sim_split_leaf:
  assumes sm: "tree_sim r s" and t: "split_leaf tree_M s cur w par = Some t" and S: "splitting s cur w par"
    and b: "length (nkey (pool s par)) < tree_M" "length (child (pool s par)) \<le> tree_M"
  shows "\<exists>r'. r_split_leaf r cur w par = Some r' \<and> tree_sim r' t"
proof -
  let ?a = "tree_M div 2" and ?K = "nkey (pool s cur)" and ?C = "child (pool s cur)"
  have d: "cur \<noteq> w" "cur \<noteq> par" "par \<noteq> w" and un: "nkey (pool s w) = []" "child (pool s w) = []"
    and v: "\<not> isValue (pool s cur)" "\<not> isValue (pool s w)" "\<not> isValue (pool s par)" using S by (auto simp: splitting_def)
  obtain s1 s2 p sep where c: "s1 = upd_node w (\<lambda>n. n\<lparr>nkey := drop ?a ?K @ nkey n\<rparr>) s"
    "s2 = upd_node cur (\<lambda>n. n\<lparr>nkey := take ?a (nkey n)\<rparr>) s1" "?a < length ?K" "?a \<le> length ?C"
    "p = lower_bound (nkey (pool s par)) (?K ! ?a)" "p \<le> length (nkey (pool s par))"
    "Suc p \<le> length (child (pool s par))" "take ?a ?K \<noteq> []" "sep = last (take ?a ?K)"
    "t = upd_node par (\<lambda>n. n\<lparr>child := take (p + 1) (child (pool s par)) @ w # drop (p + 1) (child (pool s par))\<rparr>)
      (upd_node par (\<lambda>n. n\<lparr>nkey := take p (nkey (pool s par)) @ sep # drop p (nkey (pool s par))\<rparr>)
      (upd_node cur (\<lambda>n. n\<lparr>child := take ?a (child n)\<rparr>)
      (upd_node w (\<lambda>n. n\<lparr>child := drop ?a ?C @ child n\<rparr>) s2)))"
    by (rule split_leaf_chain [OF t S])
  obtain r1 where r1: "r_move_keys cur w ?a r = Some r1" "tree_sim r1 s1"
    using sim_move_keys [OF sm un(1), of ?a cur] c(1,3) by auto
  have k1: "nkey (pool s1 cur) = ?K" using d c(1) by (simp add: upd_node_def)
  obtain r2 where r2: "r_cut_keys cur ?a r1 = Some r2" "tree_sim r2 s2"
    using sim_cut_keys [OF r1(2), of ?a cur] c(2,3) k1 by auto
  have p2: "child (pool s2 w) = []" "child (pool s2 cur) = ?C" "\<not> isValue (pool s2 w)" "\<not> isValue (pool s2 cur)"
    using un v d by (simp_all add: c(1,2) upd_node_def)
  define s3 where "s3 = upd_node cur (\<lambda>n. n\<lparr>child := take ?a (child n)\<rparr>)
      (upd_node w (\<lambda>n. n\<lparr>child := drop ?a ?C @ child n\<rparr>) s2)"
  obtain r3 where r3: "r_move_children cur w ?a r2 = Some r3" "tree_sim r3 s3"
    using sim_move_children [OF r2(2) p2(1) _ p2(3,4) d(1), of ?a] c(4) p2(2) unfolding s3_def by auto
  have p3: "nkey (pool s3 w) = drop ?a ?K" "nkey (pool s3 cur) = take ?a ?K" "pool s3 par = pool s par"
    using d un by (simp_all add: s3_def c(1,2) upd_node_def)
  note kw = node_simD [OF simD(1) [OF r3(2), of w]] and kc = node_simD [OF simD(1) [OF r3(2), of cur]]
    and kp = node_simD [OF simD(1) [OF r3(2), of par]]
  have "fa_get 0 (r_key (rpool r3 w)) = Some (?K ! ?a)"
    using fa_get_ok [OF kw(6), of 0] kw(8,9) p3(1) c(3) by simp
  moreover have "fa_back (r_key (rpool r3 cur)) = Some sep"
    using fa_back_ok [OF kc(6)] kc(8) p3(2) c(8,9) by simp
  moreover obtain r4 where "r_enter par p sep (p + 1) w r3 = Some r4" "tree_sim r4 t"
    using sim_enter [OF r3(2), of par p "p + 1" sep w] v(3) c(6,7) b unfolding p3(3) c(10) s3_def [symmetric] by auto
  ultimately show ?thesis
    using r1(1) r2(1) r3(1) kp(8) c(5) unfolding r_split_leaf_def p3(3) by (simp del: M_pos)
qed

lemma split_inner_chain:
  assumes t: "split_inner M s cur w par = Some t" and S: "splitting s cur w par"
  obtains s1 s2 s3 p sep where
    "s1 = upd_node w (\<lambda>n. n\<lparr>nkey := drop (M div 2 + 1) (nkey (pool s cur)) @ nkey n\<rparr>) s"
    "s2 = upd_node cur (\<lambda>n. n\<lparr>nkey := take (M div 2) (nkey n)\<rparr>) s1"
    "s3 = upd_node cur (\<lambda>n. n\<lparr>child := take (M div 2 + 1) (child n)\<rparr>)
      (upd_node w (\<lambda>n. n\<lparr>child := drop (M div 2 + 1) (child (pool s cur)) @ child n\<rparr>) s2)"
    "M div 2 + 1 \<le> length (nkey (pool s cur))" "M div 2 + 1 \<le> length (child (pool s cur))"
    "sep = nkey (pool s cur) ! (M div 2)" "p = lower_bound (nkey (pool s par)) sep" "p \<le> length (nkey (pool s par))"
    "Suc p \<le> length (child (pool s par))"
    "t = upd_node par (\<lambda>n. n\<lparr>child := take (p + 1) (child (pool s par)) @ w # drop (p + 1) (child (pool s par))\<rparr>)
      (upd_node par (\<lambda>n. n\<lparr>nkey := take p (nkey (pool s par)) @ sep # drop p (nkey (pool s par))\<rparr>)
      (set_parents w (drop (M div 2 + 1) (child (pool s cur))) s3))"
proof -
  let ?a = "M div 2" and ?K = "nkey (pool s cur)" and ?C = "child (pool s cur)"
  have d: "cur \<noteq> w" "cur \<noteq> par" "par \<noteq> w" and un: "nkey (pool s w) = []" "child (pool s w) = []"
    using S by (auto simp: splitting_def)
  define s1 where "s1 = upd_node w (\<lambda>n. n\<lparr>nkey := drop (?a + 1) ?K @ nkey n\<rparr>) s"
  define s2 where "s2 = upd_node cur (\<lambda>n. n\<lparr>nkey := take ?a (nkey n)\<rparr>) s1"
  define s3 where "s3 = upd_node cur (\<lambda>n. n\<lparr>child := take (?a + 1) (child n)\<rparr>)
    (upd_node w (\<lambda>n. n\<lparr>child := drop (?a + 1) (child (pool s2 cur)) @ child n\<rparr>) s2)"
  define s4 where "s4 = set_parents w (child (pool s3 w)) s3"
  have k1: "nkey (pool s1 cur) = ?K" using d by (simp add: s1_def upd_node_def)
  have c2: "child (pool s2 cur) = ?C" using d by (simp add: s2_def s1_def upd_node_def)
  have p3: "child (pool s3 w) = drop (?a + 1) ?C" using d un by (simp add: s3_def c2, simp add: s2_def s1_def upd_node_def)
  have p4: "nkey (pool s4 par) = nkey (pool s par)" "child (pool s4 par) = child (pool s par)"
    using d by (simp_all add: s4_def set_parents_sel s3_def s2_def s1_def upd_node_def)
  have p5: "child (pool (upd_node par (\<lambda>n. n\<lparr>nkey := ks\<rparr>) s4) par) = child (pool s par)" for ks
    by (simp add: upd_node_def p4)
  from t obtain sep ks cs where f: "nth_opt ?K ?a = Some sep" "?a + 1 \<le> length ?K" "?a + 1 \<le> length ?C"
    "vec_insert (lower_bound (nkey (pool s par)) sep) sep (nkey (pool s par)) = Some ks"
    "vec_insert (lower_bound (nkey (pool s par)) sep + 1) w (child (pool s par)) = Some cs"
    "t = upd_node par (\<lambda>n. n\<lparr>child := cs\<rparr>) (upd_node par (\<lambda>n. n\<lparr>nkey := ks\<rparr>) s4)"
    unfolding split_inner_def Let_def s1_def [symmetric] k1 s2_def [symmetric] c2 s3_def [symmetric, unfolded c2] s4_def [symmetric]
    by (auto simp: p4 p5 split: bind_splits if_splits)
  have 1: "sep = ?K ! ?a" using f(1) by (auto simp: nth_opt_def split: if_splits)
  note ks = vec_insert_SomeE [OF f(4)] and cs = vec_insert_SomeE [OF f(5)]
  show thesis
    by (rule that [OF s1_def s2_def s3_def [unfolded c2] f(2,3) 1 refl])
      (use ks cs f(6) in \<open>simp_all add: s4_def p3\<close>)
qed

lemma sim_split_inner:
  assumes sm: "tree_sim r s" and t: "split_inner tree_M s cur w par = Some t" and S: "splitting s cur w par"
    and b: "length (nkey (pool s par)) < tree_M" "length (child (pool s par)) \<le> tree_M"
  shows "\<exists>r'. r_split_inner r cur w par = Some r' \<and> tree_sim r' t"
proof -
  let ?a = "tree_M div 2" and ?K = "nkey (pool s cur)" and ?C = "child (pool s cur)"
  have d: "cur \<noteq> w" "cur \<noteq> par" "par \<noteq> w" and un: "nkey (pool s w) = []" "child (pool s w) = []"
    and v: "\<not> isValue (pool s cur)" "\<not> isValue (pool s w)" "\<not> isValue (pool s par)" using S by (auto simp: splitting_def)
  obtain s1 s2 s3 p sep where c: "s1 = upd_node w (\<lambda>n. n\<lparr>nkey := drop (?a + 1) ?K @ nkey n\<rparr>) s"
    "s2 = upd_node cur (\<lambda>n. n\<lparr>nkey := take ?a (nkey n)\<rparr>) s1"
    "s3 = upd_node cur (\<lambda>n. n\<lparr>child := take (?a + 1) (child n)\<rparr>)
      (upd_node w (\<lambda>n. n\<lparr>child := drop (?a + 1) ?C @ child n\<rparr>) s2)"
    "?a + 1 \<le> length ?K" "?a + 1 \<le> length ?C" "sep = ?K ! ?a" "p = lower_bound (nkey (pool s par)) sep"
    "p \<le> length (nkey (pool s par))" "Suc p \<le> length (child (pool s par))"
    "t = upd_node par (\<lambda>n. n\<lparr>child := take (p + 1) (child (pool s par)) @ w # drop (p + 1) (child (pool s par))\<rparr>)
      (upd_node par (\<lambda>n. n\<lparr>nkey := take p (nkey (pool s par)) @ sep # drop p (nkey (pool s par))\<rparr>)
      (set_parents w (drop (?a + 1) ?C) s3))"
    by (rule split_inner_chain [OF t S])
  obtain r1 where r1: "r_move_keys cur w (?a + 1) r = Some r1" "tree_sim r1 s1"
    using sim_move_keys [OF sm un(1) c(4)] c(1) by auto
  have k1: "nkey (pool s1 cur) = ?K" using d c(1) by (simp add: upd_node_def)
  note kc = node_simD [OF simD(1) [OF r1(2), of cur]]
  have g: "fa_get ?a (r_key (rpool r1 cur)) = Some sep"
    using fa_get_ok [OF kc(6), of ?a] kc(8,9) k1 c(4,6) by simp
  obtain r2 where r2: "r_cut_keys cur ?a r1 = Some r2" "tree_sim r2 s2"
    using sim_cut_keys [OF r1(2), of ?a cur] c(2,4) k1 by auto
  have p2: "child (pool s2 w) = []" "child (pool s2 cur) = ?C" "\<not> isValue (pool s2 w)" "\<not> isValue (pool s2 cur)"
    using un v d by (simp_all add: c(1,2) upd_node_def)
  obtain r3 where r3: "r_move_children cur w (?a + 1) r2 = Some r3" "tree_sim r3 s3"
    using sim_move_children [OF r2(2) p2(1) _ p2(3,4) d(1), of "?a + 1"] c(3,5) p2(2) by auto
  have w3: "child (pool s3 w) = drop (?a + 1) ?C" using d p2(1) by (simp add: c(3) upd_node_def)
  let ?r4 = "r_set_parents w (drop (?a + 1) ?C) r3" and ?s4 = "set_parents w (drop (?a + 1) ?C) s3"
  have s4: "tree_sim ?r4 ?s4" by (rule sim_set_parents [OF r3(2)])
  have ch: "r_children (rpool r3 w) = Some (drop (?a + 1) ?C)" using sim_children [OF simD(1) [OF r3(2)]] w3 by simp
  have p4: "nkey (pool ?s4 par) = nkey (pool s par)" "child (pool ?s4 par) = child (pool s par)" "\<not> isValue (pool ?s4 par)"
    using d v by (simp_all add: set_parents_sel c(1-3) upd_node_def)
  note kp = node_simD [OF simD(1) [OF s4, of par]]
  obtain r5 where r5: "r_enter par p sep (p + 1) w ?r4 = Some r5" "tree_sim r5 t"
    using sim_enter [OF s4 p4(3), of p "p + 1" sep w] c(8,9) b unfolding p4(1,2) c(10) by auto
  show ?thesis
    using r1(1) g r2(1) r3(1) ch r5 kp(8) c(7) unfolding r_split_inner_def p4(1) by (simp del: M_pos)
qed

end
