(* ===== verification/Rdma_Insert.thy ===== *)
theory Rdma_Insert
  imports Rdma_Step
begin

text \<open>
  The copy of a node, the levels of an overflow, and insertion: whatever the tree with vectors
  does, the flat tree does, and the bounds on the nodes are kept.
\<close>

section \<open>The copy of a node\<close>

lemma sim_overflow_copy:
  assumes sm: "tree_sim r s" and t: "overflow_copy mx s cur = Some (w, t)"
    and v: "\<not> isValue (pool s cur)" "\<not> isValue (pool s (nb_node s))" "cur \<noteq> nb_node s"
  shows "\<exists>r'. r_overflow_copy mx r cur = Some (w, r') \<and> tree_sim r' t"
proof -
  define s0 where "s0 = (if cur = 0 then s\<lparr>depth := depth s + 1\<rparr> else s)"
  define r0 where "r0 = (if cur = 0 then r\<lparr>r_depth := r_depth r + 1\<rparr> else r)"
  have 0: "tree_sim r0 s0" using sm by (simp add: tree_sim_def s0_def r0_def)
  have w: "w = nb_node s" "nb_node s < mx" using t by (auto simp: overflow_copy_def alloc_def Let_def split: if_splits)
  define s1 where "s1 = s0\<lparr>nb_node := nb_node s0 + 1\<rparr>"
  define r1 where "r1 = r0\<lparr>r_nb_node := r_nb_node r0 + 1\<rparr>"
  have 1: "tree_sim r1 s1" using 0 by (simp add: tree_sim_def s1_def r1_def)
  have al: "alloc mx s0 = Some (w, s1)" "r_alloc mx r0 = Some (w, r1)"
    using w simD(2) [OF 0] by (simp_all add: alloc_def r_alloc_def s0_def s1_def r1_def)
  have ps1: "pool s1 = pool s" by (simp add: s1_def s0_def)
  let ?rc = "rpool r1 cur" and ?rw = "rpool r1 w"
  note kc = node_simD [OF simD(1) [OF 1, of cur]] and kw = node_simD [OF simD(1) [OF 1, of w]]
  have cw: "cur \<noteq> w" and vw: "\<not> isValue (pool s1 w)" "\<not> isValue (pool s1 cur)" using v w ps1 by auto
  define s2 where "s2 = upd_node w (\<lambda>n. n\<lparr>isLeaf := isLeaf (pool s1 cur), parent := Some cur,
       nkey := nkey (pool s1 cur), child := child (pool s1 cur), isLoaded2Switch := False\<rparr>) s1"
  define r2 where "r2 = r_upd w (\<lambda>n. n\<lparr>r_loaded := False\<rparr>) (r_upd w (child_copy ?rc) (r_upd w (val_copy ?rc)
      (r_upd w (\<lambda>n. n\<lparr>r_isLeaf := r_isLeaf ?rc, r_parent := Some cur, r_key := r_key ?rc\<rparr>) r1)))"
  have rw: "rpool r2 w = ?rw\<lparr>r_isLeaf := r_isLeaf ?rc, r_parent := Some cur, r_key := r_key ?rc, r_own := r_own ?rc,
      r_val_len := r_val_len ?rc, r_pairs := r_pairs ?rc, r_loaded := False\<rparr>"
    by (simp add: r2_def val_copy_def child_copy_def)
  have ch_w: "r_child (rpool r2 w) = r_child ?rc" by (simp add: rw r_child_def)
  have "node_sim (rpool r2 w) (pool s2 w)"
    using simD(1) [OF 1, of cur] simD(1) [OF 1, of w] vw by (simp add: node_sim_def ch_w) (simp add: rw s2_def upd_node_def)
  then have 2: "tree_sim r2 s2"
    using 1 unfolding tree_sim_def by (auto simp: r2_def s2_def upd_node_def)
  have c2: "child (pool s2 w) = child (pool s1 cur)" by (simp add: s2_def upd_node_def)
  have ch: "r_children (rpool r2 w) = Some (child (pool s2 w))" by (rule sim_children [OF simD(1) [OF 2]])
  define s3 where "s3 = set_parents w (child (pool s2 w)) s2"
  define r3 where "r3 = r_set_parents w (child (pool s2 w)) r2"
  have 3: "tree_sim r3 s3" unfolding r3_def s3_def by (rule sim_set_parents [OF 2])
  have v3: "\<not> isValue (pool s3 cur)" using vw by (simp add: s3_def set_parents_sel s2_def upd_node_def)
  note n3 = node_simD [OF simD(1) [OF 3, of cur]]
  define r4 where "r4 = r_upd cur val_clear (r_upd cur (\<lambda>n. n\<lparr>r_isLeaf := False, r_key := fa_clear (r_key n)\<rparr>) r3)"
  have rc4: "length (fa_val (r_child (rpool r4 cur))) = Suc tree_M"
    using n3(11) by (simp add: r4_def val_clear_def r_child_def)
  obtain l where l: "fa_push_back (Ptr w) (fa_clear (r_child (rpool r4 cur))) = Some l" "fa_ok l" "fa_list l = map Ptr [w]"
    "length (fa_val l) = Suc tree_M"
    using fa_push_back_ok [of "fa_clear (r_child (rpool r4 cur))" "Ptr w"] rc4 by (auto simp: fa_clear_def fa_ok_def fa_list_def)
  let ?r5 = "r_upd cur (set_child l) r4"
  have t5: "t = upd_node cur (\<lambda>n. n\<lparr>isLeaf := False, nkey := [], child := [w]\<rparr>) s3"
    using t al(1) unfolding overflow_copy_def s0_def [symmetric] by (simp add: Let_def s2_def [symmetric] s3_def [symmetric])
  have r5: "rpool ?r5 cur = set_child l ((rpool r3 cur)\<lparr>r_isLeaf := False, r_key := fa_clear (r_key (rpool r3 cur))\<rparr>)"
    by (simp add: r4_def val_clear_def)
  have l0: "fa_val l \<noteq> []" using l(4) by auto
  have "node_sim (rpool ?r5 cur) (pool t cur)"
    unfolding r5 t5 using simD(1) [OF 3, of cur] l l0 v3 by (simp add: node_sim_def upd_node_def)
  then have "tree_sim ?r5 t"
    using 3 unfolding tree_sim_def t5 by (auto simp: r4_def upd_node_def)
  moreover have rcur: "rpool (r_upd w f x) cur = rpool x cur" for f and x :: "'a rtree" using cw by simp
  have "r_overflow_copy mx r cur = Some (w, ?r5)"
    unfolding r_overflow_copy_def r0_def [symmetric] using al(2) ch l(1)
    by (simp add: rcur r2_def [symmetric] r3_def [symmetric] r4_def [symmetric] Let_def del: r_upd_sel)
  ultimately show ?thesis by blast
qed

section \<open>The bounds\<close>

lemma tidyI:
  assumes "0 < nb_node t" "\<And>n. nb_node t \<le> n \<Longrightarrow> nkey (pool t n) = [] \<and> child (pool t n) = [] \<and> \<not> isValue (pool t n)"
    "\<And>n p. parent (pool t n) = Some p \<Longrightarrow> p < nb_node t \<and> p \<noteq> n \<and> \<not> isValue (pool t p)"
    "\<And>n ch. ch \<in> set (child (pool t n)) \<Longrightarrow> ch < nb_node t \<and> ch \<noteq> n"
    "\<And>n. isValue (pool t n) \<Longrightarrow> \<not> isLeaf (pool t n) \<and> nkey (pool t n) = []"
    "\<And>n. length (child (pool t n)) \<le> Suc (length (nkey (pool t n)))"
    "\<And>n. length (nkey (pool t n)) < tree_M \<or> c = Some n \<and> length (nkey (pool t n)) = tree_M"
  shows "tidy c t"
  using assms unfolding tidy_def by blast

lemma tidy_None: "tidy (Some c) t \<Longrightarrow> length (nkey (pool t c)) < tree_M \<Longrightarrow> tidy None t"
proof -
  assume T: "tidy (Some c) t" and l: "length (nkey (pool t c)) < tree_M"
  note d = tidyD [OF T]
  have "length (nkey (pool t n)) < tree_M" for n using d(7) [of n] l by auto
  then show "tidy None t" by (intro tidyI d) simp_all
qed

lemma overflow_copy_shape:
  assumes "overflow_copy mx s cur = Some (w, t)" "cur \<noteq> nb_node s"
  shows "w = nb_node s \<and> nb_node t = Suc w
    \<and> pool t n = (if n = cur then (pool s cur)\<lparr>isLeaf := False, nkey := [], child := [w],
          parent := (if cur \<in> set (child (pool s cur)) then Some w else parent (pool s cur))\<rparr>
        else if n = w then (pool s w)\<lparr>isLeaf := isLeaf (pool s cur), parent := (if w \<in> set (child (pool s cur)) then Some w else Some cur),
          nkey := nkey (pool s cur), child := child (pool s cur), isLoaded2Switch := False\<rparr>
        else if n \<in> set (child (pool s cur)) then (pool s n)\<lparr>parent := Some w\<rparr> else pool s n)"
proof -
  let ?w = "nb_node s"
  define s1 where "s1 = (if cur = 0 then s\<lparr>depth := depth s + 1\<rparr> else s)\<lparr>nb_node := Suc ?w\<rparr>"
  define s2 where "s2 = upd_node ?w (\<lambda>n. n\<lparr>isLeaf := isLeaf (pool s cur), parent := Some cur,
       nkey := nkey (pool s cur), child := child (pool s cur), isLoaded2Switch := False\<rparr>) s1"
  have p: "pool s1 = pool s" "nb_node s1 = Suc ?w" by (simp_all add: s1_def)
  have c: "child (pool s2 ?w) = child (pool s cur)" by (simp add: s2_def upd_node_def)
  have t: "w = ?w" "t = upd_node cur (\<lambda>n. n\<lparr>isLeaf := False, nkey := [], child := [?w]\<rparr>) (set_parents ?w (child (pool s cur)) s2)"
    using assms(1) unfolding c [symmetric] by (auto simp: overflow_copy_def alloc_def Let_def s2_def s1_def split: if_splits)
  show ?thesis using assms(2) by (simp add: t upd_node_sel set_parents_sel s2_def p)
qed

lemma tidy_copy:
  assumes t: "overflow_copy mx s cur = Some (w, t)" and T: "tidy (Some cur) s" and c: "cur < nb_node s"
    "\<not> isValue (pool s cur)" "length (nkey (pool s cur)) = tree_M"
  shows "tidy (Some w) t \<and> w = nb_node s \<and> nb_node t = Suc w \<and> parent (pool t w) = Some cur \<and> nkey (pool t w) = nkey (pool s cur)
    \<and> nkey (pool t cur) = [] \<and> \<not> isValue (pool t w) \<and> isLeaf (pool t w) = isLeaf (pool s cur)"
proof -
  have "cur \<noteq> nb_node s" using c by simp
  note sh = overflow_copy_shape [OF t this]
  have w: "w = nb_node s" "nb_node t = Suc w" using sh by blast+
  note d = tidyD [OF T]
  have nw: "w \<notin> set (child (pool s cur))" "cur \<notin> set (child (pool s cur))" using d(4) [of w cur] d(4) [of cur cur] w by auto
  have p: "pool t n = (if n = cur then (pool s cur)\<lparr>isLeaf := False, nkey := [], child := [w]\<rparr>
        else if n = w then (pool s w)\<lparr>isLeaf := isLeaf (pool s cur), parent := Some cur,
          nkey := nkey (pool s cur), child := child (pool s cur), isLoaded2Switch := False\<rparr>
        else if n \<in> set (child (pool s cur)) then (pool s n)\<lparr>parent := Some w\<rparr> else pool s n)" for n
    using sh [THEN conjunct2, THEN conjunct2] nw by simp
  have iv: "isValue (pool t n) = isValue (pool s n)" for n by (simp add: p)
  have "tidy (Some w) t"
  proof (rule tidyI)
    show "0 < nb_node t" using w by simp
    show "nb_node t \<le> n \<Longrightarrow> nkey (pool t n) = [] \<and> child (pool t n) = [] \<and> \<not> isValue (pool t n)" for n
      using d(2) [of n] w c(1) by (simp add: p)
    show "parent (pool t n) = Some q \<Longrightarrow> q < nb_node t \<and> q \<noteq> n \<and> \<not> isValue (pool t q)" for n q
      using d(3) [of n q] d(2) [of w] c w nw unfolding iv by (auto simp: p split: if_splits)
    show "ch \<in> set (child (pool t n)) \<Longrightarrow> ch < nb_node t \<and> ch \<noteq> n" for ch n
      using d(4) [of ch n] d(4) [of ch cur] w c(1) by (auto simp: p split: if_splits)
    show "isValue (pool t n) \<Longrightarrow> \<not> isLeaf (pool t n) \<and> nkey (pool t n) = []" for n
      using d(5) [of n] d(2) [of w] c(2) w unfolding iv by (auto simp: p split: if_splits)
    show "length (child (pool t n)) \<le> Suc (length (nkey (pool t n)))" for n
      using d(6) [of n] d(6) [of cur] by (simp add: p)
    show "length (nkey (pool t n)) < tree_M \<or> Some w = Some n \<and> length (nkey (pool t n)) = tree_M" for n
      using d(7) [of n] c(3) by (auto simp: p)
  qed
  moreover have "cur \<noteq> w" using c(1) w by simp
  ultimately show ?thesis using w d(2) [of w] by (simp add: p)
qed

text \<open>The two splits give a common shape.\<close>

lemma tidy_split:
  assumes T: "tidy (Some cur) s" and S: "splitting s cur w par" and nb: "nb_node s = Suc w" and par: "par < w" and cur: "cur < w"
    and nl: "length (nkey (pool s cur)) = tree_M"
    and t: "nb_node t = nb_node s"
      "\<And>n. pool t n = (if n = cur then (pool s cur)\<lparr>nkey := take a (nkey (pool s cur)), child := take b (child (pool s cur))\<rparr>
        else if n = w then (pool s w)\<lparr>nkey := drop b (nkey (pool s cur)), child := drop b (child (pool s cur))\<rparr>
        else if n = par then (pool s par)\<lparr>nkey := ks, child := cs, parent := (if par \<in> P then Some w else parent (pool s par))\<rparr>
        else if n \<in> P then (pool s n)\<lparr>parent := Some w\<rparr> else pool s n)"
    and P: "P \<subseteq> set (child (pool s cur))" and wc: "w \<notin> set (child (pool s cur))"
    and ks: "length ks = Suc (length (nkey (pool s par)))" and cs: "length cs = Suc (length (child (pool s par)))"
      "set cs = insert w (set (child (pool s par)))"
    and ab: "a < tree_M" "b \<le> Suc a" "0 < b"
  shows "tidy (Some par) t"
proof -
  note d = tidyD [OF T]
  have sp: "cur \<noteq> par" "par \<noteq> w" "cur \<noteq> w" "\<not> isValue (pool s cur)" "\<not> isValue (pool s w)" "\<not> isValue (pool s par)"
    using S by (auto simp: splitting_def)
  have iv: "isValue (pool t n) = isValue (pool s n)" for n by (simp add: t)
  show ?thesis
  proof (rule tidyI)
    show "0 < nb_node t" using nb t by simp
    show "nb_node t \<le> n \<Longrightarrow> nkey (pool t n) = [] \<and> child (pool t n) = [] \<and> \<not> isValue (pool t n)" for n
      using d(2) [of n] nb par cur by (auto simp: t)
    show "parent (pool t n) = Some q \<Longrightarrow> q < nb_node t \<and> q \<noteq> n \<and> \<not> isValue (pool t q)" for n q
      using d(3) [of n q] nb sp P unfolding iv by (auto simp: t split: if_splits)
    show "ch \<in> set (child (pool t n)) \<Longrightarrow> ch < nb_node t \<and> ch \<noteq> n" for ch n
      using d(4) [of ch n] d(4) [of ch cur] d(4) [of ch par] nb par cur sp cs wc
      by (auto simp: t dest: in_set_takeD in_set_dropD split: if_splits)
    show "isValue (pool t n) \<Longrightarrow> \<not> isLeaf (pool t n) \<and> nkey (pool t n) = []" for n
      using d(5) [of n] sp unfolding iv by (auto simp: t)
    show "length (child (pool t n)) \<le> Suc (length (nkey (pool t n)))" for n
      using d(6) [of n] d(6) [of cur] d(6) [of par] ks cs nl ab by (auto simp: t)
    show "length (nkey (pool t n)) < tree_M \<or> Some par = Some n \<and> length (nkey (pool t n)) = tree_M" for n
      using d(7) [of n] d(7) [of par] sp ks nl ab by (auto simp: t)
  qed
qed

section \<open>One level\<close>

text \<open>What follows the copy, if there is one.\<close>

definition split_new :: "nat \<Rightarrow> nat \<Rightarrow> ('k::linorder, 'v) tree \<Rightarrow> nat \<Rightarrow> (nat \<times> ('k, 'v) tree) option" where
  "split_new M mx s cur = do {
     (new_node, s) \<leftarrow> alloc mx s;
     let s = upd_node new_node (\<lambda>n. n\<lparr>parent := parent (pool s cur), isLeaf := isLeaf (pool s cur)\<rparr>) s;
     par \<leftarrow> parent (pool s cur);
     s \<leftarrow> (if isLeaf (pool s cur) then split_leaf M s cur new_node par else split_inner M s cur new_node par);
     Some (par, s) }"

definition r_split_new :: "nat \<Rightarrow> 'k::linorder rtree \<Rightarrow> nat \<Rightarrow> (nat \<times> 'k rtree) option" where
  "r_split_new mx s cur = do {
     (new_node, s) \<leftarrow> r_alloc mx s;
     let s = r_upd new_node (\<lambda>n. n\<lparr>r_parent := r_parent (rpool s cur), r_isLeaf := r_isLeaf (rpool s cur)\<rparr>) s;
     par \<leftarrow> r_parent (rpool s cur);
     s \<leftarrow> (if r_isLeaf (rpool s cur) then r_split_leaf s cur new_node par else r_split_inner s cur new_node par);
     Some (par, s) }"

lemma overflow_step_split: "overflow_step M mx s cur = do {
     (cur, s) \<leftarrow> (if cur = 0 \<or> isLoaded2Switch (pool s cur) then overflow_copy mx s cur else Some (cur, s));
     split_new M mx s cur }"
  by (simp add: overflow_step_def split_new_def)

lemma r_overflow_step_split: "r_overflow_step mx s cur = do {
     (cur, s) \<leftarrow> (if cur = 0 \<or> r_loaded (rpool s cur) then r_overflow_copy mx s cur else Some (cur, s));
     r_split_new mx s cur }"
  by (simp add: r_overflow_step_def r_split_new_def)

lemma node_sim_new:
  assumes "node_sim r n"
  shows "node_sim (r\<lparr>r_parent := p, r_isLeaf := b\<rparr>) (n\<lparr>parent := p, isLeaf := b\<rparr>)"
  using node_sim_flags(4) [OF node_sim_flags(1) [OF assms]] by simp

text \<open>The state with the new node, before anything is moved into it.\<close>

definition with_new :: "nat \<Rightarrow> ('k, 'v) tree \<Rightarrow> ('k, 'v) tree" where
  "with_new cur s = upd_node (nb_node s) (\<lambda>n. n\<lparr>parent := parent (pool s cur), isLeaf := isLeaf (pool s cur)\<rparr>)
     (s\<lparr>nb_node := Suc (nb_node s)\<rparr>)"

lemma with_new_sel:
  "nb_node (with_new cur s) = Suc (nb_node s)"
  "pool (with_new cur s) n = (if n = nb_node s
     then (pool s n)\<lparr>parent := parent (pool s cur), isLeaf := isLeaf (pool s cur)\<rparr> else pool s n)"
  by (simp_all add: with_new_def upd_node_def)

lemma full_used:
  assumes T: "tidy (Some cur) s" and nl: "length (nkey (pool s cur)) = tree_M"
  shows "cur < nb_node s" "\<not> isValue (pool s cur)"
  using tidyD(2) [OF T, of cur] tidyD(5) [OF T, of cur] nl by (metis M_pos le_less_linear list.size(3) zero_neq_numeral)+

lemma split_new_unfold:
  assumes T: "tidy (Some cur) s" and nl: "length (nkey (pool s cur)) = tree_M"
  shows "split_new M mx s cur = (if nb_node s < mx then do { par \<leftarrow> parent (pool s cur);
     t \<leftarrow> (if isLeaf (pool s cur) then split_leaf M (with_new cur s) cur (nb_node s) par
       else split_inner M (with_new cur s) cur (nb_node s) par);
     Some (par, t) } else None)"
  using full_used(1) [OF T nl]
  by (simp add: split_new_def alloc_def Let_def with_new_sel(2) with_new_def [symmetric, unfolded upd_node_def]
      upd_node_def with_new_def cong: if_cong)

lemma with_new_splitting:
  assumes T: "tidy (Some cur) s" and nl: "length (nkey (pool s cur)) = tree_M" and pp: "parent (pool s cur) = Some par"
  shows "par < nb_node s" "par \<noteq> cur" "\<not> isValue (pool s par)" "splitting (with_new cur s) cur (nb_node s) par"
    "tidy (Some cur) (with_new cur s)"
proof -
  let ?w = "nb_node s" and ?s = "with_new cur s"
  note d = tidyD [OF T] and u = full_used [OF T nl] and p = with_new_sel
  show par: "par < ?w" "par \<noteq> cur" "\<not> isValue (pool s par)" using d(3) [OF pp] by auto
  show "splitting ?s cur ?w par" using d(2) [of ?w] u par by (auto simp: splitting_def p)
  show "tidy (Some cur) ?s"
  proof (rule tidyI)
    show "0 < nb_node ?s" by (simp add: p)
    show "nb_node ?s \<le> n \<Longrightarrow> nkey (pool ?s n) = [] \<and> child (pool ?s n) = [] \<and> \<not> isValue (pool ?s n)" for n
      using d(2) [of n] by (simp add: p)
    show "parent (pool ?s n) = Some q \<Longrightarrow> q < nb_node ?s \<and> q \<noteq> n \<and> \<not> isValue (pool ?s q)" for n q
      using d(3) [of n q] pp par d(2) [of ?w] by (auto simp: p split: if_splits)
    show "ch \<in> set (child (pool ?s n)) \<Longrightarrow> ch < nb_node ?s \<and> ch \<noteq> n" for ch n
      using d(4) [of ch n] by (auto simp: p split: if_splits)
    show "isValue (pool ?s n) \<Longrightarrow> \<not> isLeaf (pool ?s n) \<and> nkey (pool ?s n) = []" for n
      using d(5) [of n] d(2) [of ?w] by (auto simp: p split: if_splits)
    show "length (child (pool ?s n)) \<le> Suc (length (nkey (pool ?s n)))" for n using d(6) [of n] by (auto simp: p)
    show "length (nkey (pool ?s n)) < tree_M \<or> Some cur = Some n \<and> length (nkey (pool ?s n)) = tree_M" for n
      using d(7) [of n] by (auto simp: p)
  qed
qed

text \<open>
  Both splits leave \<open>a\<close> keys and \<open>b\<close> children in the node and give the new node the keys and the
  children from \<open>b\<close> on; the children in \<open>P\<close> get the new node as their parent.
\<close>

definition split_shape :: "nat \<Rightarrow> nat \<Rightarrow> 'k list \<Rightarrow> nat list \<Rightarrow> nat set \<Rightarrow> nat \<Rightarrow> nat \<Rightarrow> nat \<Rightarrow> ('k, 'v) tree \<Rightarrow> ('k, 'v) tree \<Rightarrow> bool" where
  "split_shape a b ks cs P cur w par s t \<longleftrightarrow> nb_node t = nb_node s \<and> (\<forall>n. pool t n =
       (if n = cur then (pool s cur)\<lparr>nkey := take a (nkey (pool s cur)), child := take b (child (pool s cur))\<rparr>
        else if n = w then (pool s w)\<lparr>nkey := drop b (nkey (pool s cur)), child := drop b (child (pool s cur))\<rparr>
        else if n = par then (pool s par)\<lparr>nkey := ks, child := cs, parent := (if par \<in> P then Some w else parent (pool s par))\<rparr>
        else if n \<in> P then (pool s n)\<lparr>parent := Some w\<rparr> else pool s n))
     \<and> P \<subseteq> set (child (pool s cur)) \<and> length ks = Suc (length (nkey (pool s par)))
     \<and> length cs = Suc (length (child (pool s par))) \<and> set cs = insert w (set (child (pool s par)))
     \<and> a = 8 \<and> (if isLeaf (pool s cur) then b = 8 \<and> P = {} else b = 9)"

lemma split_new_shape:
  assumes T: "tidy (Some cur) s" and nl: "length (nkey (pool s cur)) = tree_M"
    and t: "split_new tree_M mx s cur = Some (par, t)"
  obtains a b ks cs P where "split_shape a b ks cs P cur (nb_node s) par (with_new cur s) t"
proof -
  let ?w = "nb_node s" and ?s = "with_new cur s" and ?a = "tree_M div 2"
  have pp: "parent (pool s cur) = Some par"
    and sp: "(if isLeaf (pool s cur) then split_leaf tree_M ?s cur ?w par else split_inner tree_M ?s cur ?w par) = Some t"
    using t unfolding split_new_unfold [OF T nl] by (auto simp del: M_pos split: if_splits bind_splits)
  note u = full_used [OF T nl] and S = with_new_splitting [OF T nl pp] and d = tidyD [OF T]
  have wc: "?w \<notin> set (child (pool s cur))" "cur \<notin> set (child (pool s cur))" using d(4) [of ?w cur] d(4) [of cur cur] by auto
  have un: "nkey (pool ?s ?w) = []" "child (pool ?s ?w) = []" using S(4) by (auto simp: splitting_def)
  have c: "pool ?s cur = pool s cur" "pool ?s par = pool s par" using u S(1) by (simp_all add: with_new_sel)
  let ?K = "nkey (pool ?s par)" and ?C = "child (pool ?s par)"
  show thesis
  proof (cases "isLeaf (pool s cur)")
    case True
    then have sl: "split_leaf tree_M ?s cur ?w par = Some t" using sp by simp
    show thesis
    proof (rule split_leaf_chain [OF sl S(4)])
      fix s3 s4 p sep
      assume 3: "s3 = upd_node ?w (\<lambda>n. n\<lparr>nkey := drop ?a (nkey (pool ?s cur)) @ nkey n\<rparr>) ?s"
        "s4 = upd_node cur (\<lambda>n. n\<lparr>nkey := take ?a (nkey n)\<rparr>) s3"
        and p: "p \<le> length ?K" "Suc p \<le> length ?C"
        and t: "t = upd_node par (\<lambda>n. n\<lparr>child := take (p + 1) ?C @ ?w # drop (p + 1) ?C\<rparr>)
          (upd_node par (\<lambda>n. n\<lparr>nkey := take p ?K @ sep # drop p ?K\<rparr>)
          (upd_node cur (\<lambda>n. n\<lparr>child := take ?a (child n)\<rparr>)
          (upd_node ?w (\<lambda>n. n\<lparr>child := drop ?a (child (pool ?s cur)) @ child n\<rparr>) s4)))"
      have "split_shape ?a ?a (take p ?K @ sep # drop p ?K) (take (p + 1) ?C @ ?w # drop (p + 1) ?C) {} cur ?w par ?s t"
        using p u S(1,2) un wc c True unfolding split_shape_def
        by (auto simp: t 3 upd_node_sel set_insert simp del: set_append)
      then show thesis by (rule that)
    qed
  next
    case False
    then have sl: "split_inner tree_M ?s cur ?w par = Some t" using sp by simp
    show thesis
    proof (rule split_inner_chain [OF sl S(4)])
      fix s3 s4 s5 p sep
      let ?P = "set (drop (?a + 1) (child (pool ?s cur)))"
      assume 3: "s3 = upd_node ?w (\<lambda>n. n\<lparr>nkey := drop (?a + 1) (nkey (pool ?s cur)) @ nkey n\<rparr>) ?s"
        "s4 = upd_node cur (\<lambda>n. n\<lparr>nkey := take ?a (nkey n)\<rparr>) s3"
        "s5 = upd_node cur (\<lambda>n. n\<lparr>child := take (?a + 1) (child n)\<rparr>)
          (upd_node ?w (\<lambda>n. n\<lparr>child := drop (?a + 1) (child (pool ?s cur)) @ child n\<rparr>) s4)"
        and p: "p \<le> length ?K" "Suc p \<le> length ?C"
        and t: "t = upd_node par (\<lambda>n. n\<lparr>child := take (p + 1) ?C @ ?w # drop (p + 1) ?C\<rparr>)
          (upd_node par (\<lambda>n. n\<lparr>nkey := take p ?K @ sep # drop p ?K\<rparr>)
          (set_parents ?w (drop (?a + 1) (child (pool ?s cur))) s5))"
      have pd: "cur \<notin> ?P" "?w \<notin> ?P" unfolding c using wc by (meson in_set_dropD)+
      have "split_shape ?a (?a + 1) (take p ?K @ sep # drop p ?K) (take (p + 1) ?C @ ?w # drop (p + 1) ?C) ?P cur ?w par ?s t"
        using p u S(1,2) un wc c pd False unfolding split_shape_def
        by (auto simp: t 3 upd_node_sel set_parents_sel set_insert simp del: set_append dest: in_set_dropD)
      then show thesis by (rule that)
    qed
  qed
qed

lemma tidy_split_new:
  assumes T: "tidy (Some cur) s" and nl: "length (nkey (pool s cur)) = tree_M"
    and t: "split_new tree_M mx s cur = Some (par, t)"
  shows "tidy (Some par) t"
proof -
  have pp: "parent (pool s cur) = Some par"
    using t unfolding split_new_unfold [OF T nl] by (auto simp del: M_pos split: if_splits bind_splits)
  note u = full_used [OF T nl] and S = with_new_splitting [OF T nl pp]
  obtain a b ks cs P where h: "split_shape a b ks cs P cur (nb_node s) par (with_new cur s) t"
    by (rule split_new_shape [OF T nl t])
  have c: "pool (with_new cur s) cur = pool s cur" using u by (simp add: with_new_sel)
  have wc: "nb_node s \<notin> set (child (pool (with_new cur s) cur))" using tidyD(4) [OF T, of "nb_node s" cur] c by auto
  show ?thesis
    by (rule tidy_split [OF S(5,4) _ S(1) u(1), where t = t and a = a and b = b and ks = ks and cs = cs and P = P])
      (use h wc nl in \<open>auto simp: split_shape_def with_new_sel(1) c split: if_splits\<close>)
qed

lemma sim_split_new:
  assumes sm: "tree_sim r s" and T: "tidy (Some cur) s" and nl: "length (nkey (pool s cur)) = tree_M"
    and t: "split_new tree_M mx s cur = Some (par, t)"
  shows "\<exists>r'. r_split_new mx r cur = Some (par, r') \<and> tree_sim r' t \<and> tidy (Some par) t"
proof -
  let ?w = "nb_node s" and ?s = "with_new cur s"
  have ag: "?w < mx" and pp: "parent (pool s cur) = Some par"
    and sp: "(if isLeaf (pool s cur) then split_leaf tree_M ?s cur ?w par else split_inner tree_M ?s cur ?w par) = Some t"
    using t unfolding split_new_unfold [OF T nl] by (auto simp del: M_pos split: if_splits bind_splits)
  note u = full_used [OF T nl] and S = with_new_splitting [OF T nl pp] and d = tidyD [OF T]
  define r1 where "r1 = r\<lparr>r_nb_node := Suc ?w\<rparr>"
  define r2 where "r2 = r_upd ?w (\<lambda>n. n\<lparr>r_parent := parent (pool s cur), r_isLeaf := isLeaf (pool s cur)\<rparr>) r1"
  have sim1: "tree_sim r1 (s\<lparr>nb_node := Suc ?w\<rparr>)" using sm by (simp add: tree_sim_def r1_def)
  have sim2: "tree_sim r2 ?s"
    unfolding r2_def with_new_def by (rule sim_upd [OF sim1]) (rule node_sim_new [OF simD(1) [OF sim1]])
  have al: "r_alloc mx r = Some (?w, r1)" using ag simD(2) [OF sm] by (simp add: r_alloc_def r1_def)
  have pr1: "rpool r1 = rpool r" by (simp add: r1_def)
  have pr2: "rpool r2 cur = rpool r cur" using u(1) by (simp add: r2_def r1_def)
  have e2: "r2 = r_upd ?w (\<lambda>n. n\<lparr>r_parent := r_parent (rpool r1 cur), r_isLeaf := r_isLeaf (rpool r1 cur)\<rparr>) r1"
    by (simp add: r2_def pr1 sim_node [OF sm])
  have un_new: "r_split_new mx r cur = do { par \<leftarrow> r_parent (rpool r2 cur);
      s \<leftarrow> (if r_isLeaf (rpool r2 cur) then r_split_leaf r2 cur ?w par else r_split_inner r2 cur ?w par); Some (par, s) }"
    unfolding r_split_new_def al by (simp add: e2 [symmetric] Let_def del: r_upd_sel cong: if_cong)
  have bd: "length (nkey (pool ?s par)) < tree_M" "length (child (pool ?s par)) \<le> tree_M"
    using d(7) [of par] d(6) [of par] S(1,2) by (auto simp: with_new_sel)
  obtain r3 where "(if isLeaf (pool s cur) then r_split_leaf r2 cur ?w par else r_split_inner r2 cur ?w par) = Some r3" "tree_sim r3 t"
    using sp sim_split_leaf [OF sim2 _ S(4) bd] sim_split_inner [OF sim2 _ S(4) bd] by (auto split: if_splits)
  moreover from this have "r_split_new mx r cur = Some (par, r3)" using pp unfolding un_new pr2 by (simp add: sim_node [OF sm])
  ultimately show ?thesis using tidy_split_new [OF T nl t] by blast
qed

section \<open>All levels\<close>

lemma sim_overflow_step:
  assumes sm: "tree_sim r s" and T: "tidy (Some cur) s" and nl: "length (nkey (pool s cur)) = tree_M"
    and t: "overflow_step tree_M mx s cur = Some (par, t)"
  shows "\<exists>r'. r_overflow_step mx r cur = Some (par, r') \<and> tree_sim r' t \<and> tidy (Some par) t"
proof (cases "cur = 0 \<or> isLoaded2Switch (pool s cur)")
  case True
  then obtain c s1 where c: "overflow_copy mx s cur = Some (c, s1)" "split_new tree_M mx s1 c = Some (par, t)"
    using t unfolding overflow_step_split by (auto split: bind_splits)
  note d = tidyD [OF T]
  have cw: "cur < nb_node s" by (rule full_used [OF T nl])
  have v: "\<not> isValue (pool s cur)" "\<not> isValue (pool s (nb_node s))" "cur \<noteq> nb_node s"
    using d(5) [of cur] d(2) [of "nb_node s"] nl cw by auto
  obtain r1 where r1: "r_overflow_copy mx r cur = Some (c, r1)" "tree_sim r1 s1"
    using sim_overflow_copy [OF sm c(1) v] by blast
  have c1: "tidy (Some c) s1" "nkey (pool s1 c) = nkey (pool s cur)" using tidy_copy [OF c(1) T cw v(1) nl] by blast+
  show ?thesis
    using sim_split_new [OF r1(2) c1(1) _ c(2)] c1(2) nl r1(1) True unfolding r_overflow_step_split
    by (auto simp: sim_node [OF sm])
next
  case False
  then have "split_new tree_M mx s cur = Some (par, t)" using t unfolding overflow_step_split by simp
  then show ?thesis using sim_split_new [OF sm T nl] False unfolding r_overflow_step_split
    by (auto simp: sim_node [OF sm])
qed

lemma sim_overflow:
  "tree_sim r s \<Longrightarrow> tidy (Some cur) s \<Longrightarrow> overflow tree_M mx f s cur = Some t
    \<Longrightarrow> \<exists>r'. r_overflow mx f r cur = Some r' \<and> tree_sim r' t \<and> tidy None t"
proof (induction f arbitrary: r s cur)
  case (Suc f)
  note d = tidyD(7) [OF Suc.prems(2), of cur]
  show ?case
  proof (cases "tree_M \<le> length (nkey (pool s cur))")
    case True
    then have nl: "length (nkey (pool s cur)) = tree_M" using d by auto
    obtain par s1 where s1: "overflow_step tree_M mx s cur = Some (par, s1)" "overflow tree_M mx f s1 par = Some t"
      using Suc.prems(3) True by (auto split: bind_splits)
    obtain r1 where r1: "r_overflow_step mx r cur = Some (par, r1)" "tree_sim r1 s1" "tidy (Some par) s1"
      using sim_overflow_step [OF Suc.prems(1,2) nl s1(1)] by blast
    show ?thesis using Suc.IH [OF r1(2,3) s1(2)] r1(1) True by (simp add: sim_node [OF Suc.prems(1)] del: M_pos)
  next
    case False
    then have "tidy None s" using tidy_None [OF Suc.prems(2)] by simp
    then show ?thesis using False Suc.prems by (simp add: sim_node [OF Suc.prems(1)] del: M_pos)
  qed
qed simp

section \<open>Insertion\<close>

lemma find_leaf_leaf: "find_leaf f s n k = Some l \<Longrightarrow> isLeaf (pool s l)"
  by (induction f arbitrary: n) (auto split: if_splits bind_splits)

lemma find_leaf_used:
  "(\<And>n ch. ch \<in> set (child (pool s n)) \<Longrightarrow> ch < m) \<Longrightarrow> n < m \<Longrightarrow> find_leaf f s n k = Some l \<Longrightarrow> l < m"
proof (induction f arbitrary: n)
  case (Suc f)
  show ?case
  proof (cases "isLeaf (pool s n)")
    case False
    then obtain c where c: "next_child s n k = Some c" "find_leaf f s c k = Some l" using Suc.prems(3) by (auto split: bind_splits)
    then have "c \<in> set (child (pool s n))" by (auto simp: next_child_def dest: nth_opt_SomeE)
    then show ?thesis by (intro Suc.IH [OF Suc.prems(1) Suc.prems(1) c(2)])
  qed (use Suc.prems in simp)
qed simp

text \<open>
  The record is taken as it is, where the other tree goes through \<open>update_field_table\<close>: the same
  when no field is there twice.
\<close>

lemma update_field_table_distinct:
  "distinct (map fst us @ map fst t) \<Longrightarrow> update_field_table us t = t @ us"
proof (induction us arbitrary: t)
  case (Cons u us)
  have "\<not> kv_exist u t" using Cons.prems by (auto simp: kv_exist_iff)
  moreover have "distinct (map fst us @ map fst (t @ [u]))" using Cons.prems by auto
  ultimately show ?case using Cons.IH [of "t @ [u]"] by simp
qed simp

text \<open>The tree after the value node has entered its leaf, and the flat tree that does the same.\<close>

definition with_record :: "nat \<Rightarrow> nat \<Rightarrow> 'k \<Rightarrow> fields \<Rightarrow> ('k, fields) tree \<Rightarrow> ('k, fields) tree" where
  "with_record cur p k v s = (let w = nb_node s; ks = nkey (pool s cur); cs = child (pool s cur) in
     upd_node cur (\<lambda>n. n\<lparr>child := take p cs @ w # drop p cs\<rparr>) (upd_node cur (\<lambda>n. n\<lparr>nkey := take p ks @ k # drop p ks\<rparr>)
     (upd_node w (\<lambda>n. n\<lparr>isLeaf := False, isValue := True, parent := Some cur, nval := v\<rparr>) (s\<lparr>nb_node := Suc w\<rparr>))))"

lemma with_record_sel:
  assumes "cur \<noteq> nb_node s"
  shows "nb_node (with_record cur p k v s) = Suc (nb_node s)"
    "pool (with_record cur p k v s) n = (if n = nb_node s
       then (pool s n)\<lparr>isLeaf := False, isValue := True, parent := Some cur, nval := v\<rparr>
       else if n = cur then (pool s cur)\<lparr>nkey := take p (nkey (pool s cur)) @ k # drop p (nkey (pool s cur)),
         child := take p (child (pool s cur)) @ nb_node s # drop p (child (pool s cur))\<rparr> else pool s n)"
  using assms by (simp_all add: with_record_def Let_def upd_node_sel)

lemma tidy_with_record:
  assumes T: "tidy None s" and cur: "cur < nb_node s" "isLeaf (pool s cur)"
    and p: "p \<le> length (nkey (pool s cur))" "p \<le> length (child (pool s cur))"
  shows "tidy (Some cur) (with_record cur p k v s)"
proof -
  let ?w = "nb_node s" and ?u = "with_record cur p k v s"
  note d = tidyD [OF T]
  have vc: "\<not> isValue (pool s cur)" "cur \<noteq> ?w" using d(5) [of cur] cur by auto
  note pu = with_record_sel [OF vc(2), of p k v]
  show ?thesis
  proof (rule tidyI)
    show "0 < nb_node ?u" by (simp add: pu)
    show "nb_node ?u \<le> n \<Longrightarrow> nkey (pool ?u n) = [] \<and> child (pool ?u n) = [] \<and> \<not> isValue (pool ?u n)" for n
      using d(2) [of n] cur by (simp add: pu)
    show "parent (pool ?u n) = Some q \<Longrightarrow> q < nb_node ?u \<and> q \<noteq> n \<and> \<not> isValue (pool ?u q)" for n q
      using d(3) [of n q] cur vc by (auto simp: pu split: if_splits)
    show "ch \<in> set (child (pool ?u n)) \<Longrightarrow> ch < nb_node ?u \<and> ch \<noteq> n" for ch n
      using d(4) [of ch n] d(4) [of ch cur] d(2) [of ?w] vc cur by (auto simp: pu split: if_splits dest: in_set_takeD in_set_dropD)
    show "isValue (pool ?u n) \<Longrightarrow> \<not> isLeaf (pool ?u n) \<and> nkey (pool ?u n) = []" for n
      using d(5) [of n] d(2) [of ?w] vc by (auto simp: pu split: if_splits)
    show "length (child (pool ?u n)) \<le> Suc (length (nkey (pool ?u n)))" for n
      using d(6) [of n] d(6) [of cur] d(2) [of ?w] p by (auto simp: pu)
    show "length (nkey (pool ?u n)) < tree_M \<or> Some cur = Some n \<and> length (nkey (pool ?u n)) = tree_M" for n
      using d(7) [of n] d(7) [of cur] d(2) [of ?w] p by (auto simp: pu)
  qed
qed

lemma sim_with_record:
  assumes sm: "tree_sim r s" and T: "tidy None s" and cur: "cur < nb_node s" "isLeaf (pool s cur)"
    and p: "p \<le> length (nkey (pool s cur))" "p \<le> length (child (pool s cur))" and v: "fa_ok v"
    and r2: "r2 = r_upd (nb_node s) (val_assign v) (r_upd (nb_node s)
      (\<lambda>n. n\<lparr>r_isLeaf := False, r_isValue := True, r_parent := Some cur\<rparr>) (r\<lparr>r_nb_node := Suc (nb_node s)\<rparr>))"
  shows "\<exists>r3. r_enter cur p k p (nb_node s) r2 = Some r3 \<and> tree_sim r3 (with_record cur p k (fa_list v) s)"
proof -
  let ?w = "nb_node s"
  note d = tidyD [OF T]
  have vc: "\<not> isValue (pool s cur)" "cur \<noteq> ?w" using d(5) [of cur] cur by auto
  define r1 where "r1 = r\<lparr>r_nb_node := Suc ?w\<rparr>"
  define s1 where "s1 = s\<lparr>nb_node := Suc ?w\<rparr>"
  have ps1: "pool s1 = pool s" by (simp add: s1_def)
  have sim1: "tree_sim r1 s1" using sm by (simp add: tree_sim_def r1_def s1_def)
  define s3 where "s3 = upd_node ?w (\<lambda>n. n\<lparr>isLeaf := False, isValue := True, parent := Some cur, nval := fa_list v\<rparr>) s1"
  have "node_sim (rpool r2 ?w) (pool s3 ?w)"
  proof -
    note n = node_simD [OF simD(1) [OF sim1, of ?w]]
    have c: "child (pool s ?w) = []" using d(2) [of ?w] by simp
    then have z: "fa_size (r_child (rpool r1 ?w)) = 0" using n(13) ps1 by simp
    have l: "length (fa_val (r_own (rpool r1 ?w))) = 16" using n(11) by (simp add: r_child_def)
    have "val_read (rpool r2 ?w) = Some v" by (simp add: r2 val_assign_def val_read_def)
    then show ?thesis
      using simD(1) [OF sim1, of ?w] v c z l ps1
      by (simp add: r2 r1_def [symmetric] s3_def upd_node_def node_sim_def val_assign_def r_child_def fa_ok_def fa_list_def)
  qed
  then have sim2: "tree_sim r2 s3" using sim1 unfolding tree_sim_def by (auto simp: r2 r1_def [symmetric] s3_def upd_node_def)
  have c3: "pool s3 cur = pool s cur" using vc(2) by (simp add: s3_def upd_node_def ps1)
  have "length (nkey (pool s cur)) < tree_M" "length (child (pool s cur)) \<le> tree_M"
    using d(6) [of cur] d(7) [of cur] by auto
  from sim_enter [OF sim2, of cur p p k ?w] vc(1) p this show ?thesis
    unfolding c3 by (simp add: with_record_def Let_def s3_def s1_def)
qed

lemma sim_insert:
  assumes sm: "tree_sim r s" and T: "tidy None s" and t: "tree_insert tree_M mx s k (fa_list v) = Some t"
    and v: "fa_ok v" "distinct (map fst (fa_list v))" "nval (pool s (nb_node s)) = []"
  shows "\<exists>r'. r_insert mx r k v = Some r' \<and> tree_sim r' t \<and> tidy None t"
proof -
  let ?w = "nb_node s"
  note d = tidyD [OF T]
  define s1 where "s1 = s\<lparr>nb_node := Suc ?w\<rparr>"
  have ps1: "pool s1 = pool s" "nb_node s1 = Suc ?w" by (simp_all add: s1_def)
  obtain cur s2 where mx: "?w < mx" and fl: "find_leaf (Suc ?w) s1 0 k = Some cur" and s2: "insert_key s1 cur ?w k = Some s2"
    and ov: "overflow tree_M mx (Suc (nb_node (upd_node ?w (\<lambda>n. n\<lparr>isLeaf := False, isValue := True, parent := Some cur,
       nval := update_field_table (fa_list v) (nval n)\<rparr>) s2))) (upd_node ?w (\<lambda>n. n\<lparr>isLeaf := False, isValue := True, parent := Some cur,
       nval := update_field_table (fa_list v) (nval n)\<rparr>) s2) cur = Some t"
    using t by (auto simp: tree_insert_def alloc_def s1_def Let_def simp del: find_leaf.simps split: bind_splits if_splits)
  have lf: "isLeaf (pool s cur)" using find_leaf_leaf [OF fl] ps1 by simp
  have cw: "cur < ?w" using find_leaf_used [OF _ d(1) fl] d(4) ps1 by simp
  let ?K = "nkey (pool s cur)" and ?C = "child (pool s cur)"
  define p where "p = lower_bound ?K k"
  have p: "p \<le> length ?K" "p \<le> length ?C"
    and s2': "s2 = upd_node cur (\<lambda>n. n\<lparr>child := take p ?C @ ?w # drop p ?C\<rparr>) (upd_node cur (\<lambda>n. n\<lparr>nkey := take p ?K @ k # drop p ?K\<rparr>) s1)"
    using s2 by (auto simp: insert_key_def Let_def ps1 p_def [symmetric] upd_node_sel split: bind_splits dest!: vec_insert_SomeE)
  let ?u = "with_record cur p k (fa_list v) s"
  have u: "upd_node ?w (\<lambda>n. n\<lparr>isLeaf := False, isValue := True, parent := Some cur,
       nval := update_field_table (fa_list v) (nval n)\<rparr>) s2 = ?u"
    using cw v(2,3) update_field_table_distinct [of "fa_list v" "[]"]
    by (auto simp: with_record_def Let_def s2' s1_def upd_node_def fun_eq_iff)
  define r0 where "r0 = r\<lparr>key_map := (key_map r)(k := key_map r k + 1)\<rparr>"
  define r1 where "r1 = r0\<lparr>r_nb_node := Suc ?w\<rparr>"
  have sim0: "tree_sim r0 s" using sm by (simp add: tree_sim_def r0_def)
  have fl1: "find_leaf f s1 n k = find_leaf f s n k" for f n
    by (induction f arbitrary: n) (simp_all add: next_child_def ps1)
  have rfl: "r_find_leaf (Suc (r_nb_node r0)) r0 0 k = Some cur"
    using sim_find_leaf [OF sim0, of "Suc ?w" 0 k cur] fl unfolding fl1 simD(2) [OF sim0] by blast
  have al: "r_alloc mx r0 = Some (?w, r1)" using mx simD(2) [OF sim0] by (simp add: r_alloc_def r1_def)
  define r2 where "r2 = r_upd ?w (val_assign v) (r_upd ?w (\<lambda>n. n\<lparr>r_isLeaf := False, r_isValue := True, r_parent := Some cur\<rparr>) r1)"
  obtain r3 where r3: "r_enter cur p k p ?w r2 = Some r3" "tree_sim r3 ?u"
    using sim_with_record [OF sim0 T cw lf p v(1) r2_def [unfolded r1_def]] by blast
  have "overflow tree_M mx (Suc (nb_node ?u)) ?u cur = Some t" using ov by (simp only: u)
  then obtain r' where r': "r_overflow mx (Suc (nb_node ?u)) r3 cur = Some r'" "tree_sim r' t" "tidy None t"
    using sim_overflow [OF r3(2) tidy_with_record [OF T cw lf p]] by blast
  have "rpool r2 cur = rpool r0 cur" using cw by (simp add: r2_def r1_def)
  then have "lower_bound (fa_list (r_key (rpool r2 cur))) k = p" using sim_node(6) [OF sim0, of cur] by (simp add: p_def)
  then have "r_insert mx r k v = Some r'"
    using rfl al r3(1) r'(1) simD(2) [OF r3(2)] unfolding r_insert_def r0_def [symmetric]
    by (simp add: Let_def r2_def [symmetric] del: r_find_leaf.simps r_overflow.simps r_upd_sel)
  then show ?thesis using r'(2,3) by blast
qed

end
