(* ===== verification/Rdma_Switch.thy ===== *)
theory Rdma_Switch
  imports Rdma_Insert Tree_Loaded
begin

text \<open>
  Which nodes the RDMA server hands to the switch: \<open>depth\<close> of a node, \<open>print_info\<close>,
  \<open>load2switch\<close> and \<open>load2switch_greedy\<close> of RDMA/CPU/lib/b_plus_tree.h. As in Tree_Switch the
  orders the library leaves open are the parameters \<open>pick\<close> and \<open>srt\<close>. Addresses are those of the
  server's memory: \<open>base\<close> is where the pool begins and \<open>sz\<close> the size of a node.
\<close>

section \<open>Printing a node\<close>

fun r_depth_loop :: "nat \<Rightarrow> 'k rtree \<Rightarrow> nat option \<Rightarrow> nat \<Rightarrow> nat option" where
  "r_depth_loop 0 s p ret = None"
| "r_depth_loop (Suc fuel) s p ret = (case p of None \<Rightarrow> Some ret
     | Some q \<Rightarrow> r_depth_loop fuel s (r_parent (rpool s q)) (ret + 1))"

definition r_node_depth :: "'k rtree \<Rightarrow> nat \<Rightarrow> nat option" where
  "r_node_depth s n = r_depth_loop (Suc (r_nb_node s)) s (r_parent (rpool s n)) 0"

definition r_set_loaded :: "nat list \<Rightarrow> 'k rtree \<Rightarrow> 'k rtree" where
  "r_set_loaded ns s = fold (\<lambda>n. r_upd n (\<lambda>nd. nd\<lparr>r_loaded := True\<rparr>)) ns s"

definition r_address :: "64 word \<Rightarrow> nat \<Rightarrow> nat \<Rightarrow> 64 word" where
  "r_address base sz n = base + of_nat (n * sz)"

definition r_print_info :: "('k \<Rightarrow> 64 word option) \<Rightarrow> 64 word \<Rightarrow> nat \<Rightarrow> 'k rtree \<Rightarrow> nat \<Rightarrow> nat
    \<Rightarrow> 'k list \<Rightarrow> nat list \<Rightarrow> ('k rtree \<times> node_info) option" where
  "r_print_info enc base sz s cur virtual_depth keys childs = do {
     fbt_keys \<leftarrow> those (map enc keys);
     Some (r_set_loaded childs (r_set_loaded [cur] s),
      \<lparr>info_addr = (if cur = 0 then 0 else r_address base sz cur), info_depth = virtual_depth,
       info_keys = (0, 0) # map key_halves fbt_keys,
       info_child = map (r_address base sz) childs\<rparr>) }"

text \<open>\<open>print_info(n, vd, n->key.to_vector(), n->child.to_vector(), fout)\<close> for every node of a layer\<close>

fun r_print_nodes :: "('k \<Rightarrow> 64 word option) \<Rightarrow> 64 word \<Rightarrow> nat \<Rightarrow> nat \<Rightarrow> nat list \<Rightarrow> 'k rtree \<times> node_info list
    \<Rightarrow> ('k rtree \<times> node_info list) option" where
  "r_print_nodes enc base sz vd [] (s, fout) = Some (s, fout)"
| "r_print_nodes enc base sz vd (n # ns) (s, fout) = do {
     ks \<leftarrow> fa_to_vector (r_key (rpool s n));
     cs \<leftarrow> r_children (rpool s n);
     (s, i) \<leftarrow> r_print_info enc base sz s n vd ks cs;
     r_print_nodes enc base sz vd ns (s, fout @ [i]) }"

section \<open>The greedy choice\<close>

fun r_take_children :: "'k rtree \<Rightarrow> nat \<Rightarrow> 'k \<Rightarrow> nat \<Rightarrow> nat \<Rightarrow> nat list \<Rightarrow> 'k node_map \<Rightarrow> nat list
    \<Rightarrow> ('k node_map \<times> nat list) option" where
  "r_take_children s root_load_depth k0 tmp i [] node_map node_pq = Some (node_map, node_pq)"
| "r_take_children s root_load_depth k0 tmp i (ch # chs) node_map node_pq = do {
     k \<leftarrow> (if i = 0 then Some (case map_of node_map tmp of None \<Rightarrow> k0 | Some k \<Rightarrow> k)
          else fa_get (i - 1) (r_key (rpool s tmp)));
     let node_map = AList.update ch k node_map;
     node_pq \<leftarrow> (if r_isLeaf (rpool s ch) then Some node_pq
       else do { d \<leftarrow> r_node_depth s ch; Some (if d < root_load_depth then node_pq @ [ch] else node_pq) });
     r_take_children s root_load_depth k0 tmp (i + 1) chs node_map node_pq }"

fun r_greedy_loop :: "nat \<Rightarrow> (nat list \<Rightarrow> nat) \<Rightarrow> 'k rtree \<Rightarrow> nat \<Rightarrow> nat \<Rightarrow> 'k
    \<Rightarrow> 'k node_map \<Rightarrow> nat list \<Rightarrow> 'k node_map option" where
  "r_greedy_loop 0 pick s root_load_num root_load_depth k0 node_map node_pq = None"
| "r_greedy_loop (Suc fuel) pick s root_load_num root_load_depth k0 node_map node_pq =
     (if length node_map + tree_M \<le> root_load_num \<and> node_pq \<noteq> []
      then do {
        let tmp = pick node_pq;
        let node_pq = remove1 tmp node_pq;
        chs \<leftarrow> r_children (rpool s tmp);
        (node_map, node_pq) \<leftarrow> r_take_children s root_load_depth k0 tmp 0 chs node_map node_pq;
        let node_map = AList.delete tmp node_map;
        r_greedy_loop fuel pick s root_load_num root_load_depth k0 node_map node_pq }
      else Some node_map)"

definition r_fat_root :: "(nat list \<Rightarrow> nat) \<Rightarrow> 'k::linorder rtree \<Rightarrow> nat \<Rightarrow> nat \<Rightarrow> 'k
    \<Rightarrow> ('k list \<times> nat list) option" where
  "r_fat_root pick s root_load_num root_load_depth k0 = do {
     node_map \<leftarrow> r_greedy_loop (Suc root_load_num) pick s root_load_num root_load_depth k0 [(0, k0)] [0];
     let node_vec = sort (map (\<lambda>(n, k). (k, n)) node_map);
     (if node_vec = [] then None else Some (map fst (tl node_vec), map snd node_vec)) }"

text \<open>Layer \<open>i\<close>: the children of the nodes chosen in the layer above, the busiest first.\<close>

definition r_next_layer :: "(nat list \<Rightarrow> nat list) \<Rightarrow> 'k rtree \<Rightarrow> nat \<Rightarrow> nat \<Rightarrow> nat list list
    \<Rightarrow> nat list list option" where
  "r_next_layer srt s load_num i cached = do {
     up \<leftarrow> nth_opt cached (i - 1);
     own \<leftarrow> nth_opt cached i;
     chs \<leftarrow> those (map (\<lambda>p. r_children (rpool s p)) up);
     put_at cached i (take load_num (srt (own @ concat chs))) }"

text \<open>
  The nodes of the fat root are layer 1, whatever their depth; \<open>depth - root_load_depth\<close> is computed
  with unsigned 32-bit numbers. The default of \<open>regular_load_depth\<close> is \<open>UINT32_MAX\<close>.
\<close>

definition r_load2switch_greedy :: "('k::linorder \<Rightarrow> 64 word option) \<Rightarrow> 'k \<Rightarrow> ('k rtree \<Rightarrow> nat list \<Rightarrow> nat)
    \<Rightarrow> ('k rtree \<Rightarrow> nat list \<Rightarrow> nat list) \<Rightarrow> 64 word \<Rightarrow> nat \<Rightarrow> 'k rtree \<Rightarrow> nat \<Rightarrow> 32 word \<Rightarrow> nat \<Rightarrow> 32 word
    \<Rightarrow> ('k rtree \<times> node_info list) option" where
  "r_load2switch_greedy enc k0 pick srt base sz s root_load_num root_load_depth regular_load_num regular_load_depth = do {
     let depth = r_depth s;
     let cached = replicate (unat depth) [];
     (keys, nodes) \<leftarrow> r_fat_root (pick s) s root_load_num (unat root_load_depth) k0;
     own \<leftarrow> nth_opt cached 1;
     (s, i0) \<leftarrow> r_print_info enc base sz s 0 0 keys (own @ nodes);
     let layer = take regular_load_num (srt s (own @ nodes));
     cached \<leftarrow> put_at cached 1 layer;
     (s, fout) \<leftarrow> r_print_nodes enc base sz 1 layer (s, [i0]);
     (cached, s, fout) \<leftarrow> for_to 2 (unat (min (depth - root_load_depth) regular_load_depth)) (\<lambda>i (cached, s, fout). do {
       cached \<leftarrow> r_next_layer (srt s) s regular_load_num i cached;
       ns \<leftarrow> nth_opt cached i;
       (s, fout) \<leftarrow> r_print_nodes enc base sz i ns (s, fout);
       Some (cached, s, fout) }) (cached, s, fout);
     Some (s, fout) }"

section \<open>The layer-wise choice\<close>

definition r_fat_layer_node :: "'k rtree \<Rightarrow> nat \<Rightarrow> nat \<Rightarrow> nat list list \<times> 'k list list
    \<Rightarrow> (nat list list \<times> 'k list list) option" where
  "r_fat_layer_node s i j st = (case st of (nodes, keys) \<Rightarrow> do {
     up \<leftarrow> nth_opt nodes (i - 1);
     n \<leftarrow> nth_opt up j;
     ki \<leftarrow> nth_opt keys i;
     ks \<leftarrow> fa_to_vector (r_key (rpool s n));
     kup \<leftarrow> nth_opt keys (i - 1);
     own \<leftarrow> nth_opt nodes i;
     chs \<leftarrow> r_children (rpool s n);
     keys \<leftarrow> put_at keys i (ki @ ks @ (if j < length kup then [kup ! j] else []));
     nodes \<leftarrow> put_at nodes i (own @ chs);
     Some (nodes, keys) })"

text \<open>Its loops over the lower layers end before \<open>depth - 1\<close>, where those of the Ethernet version overrun.\<close>

definition r_load2switch :: "('k \<Rightarrow> 64 word option) \<Rightarrow> ('k rtree \<Rightarrow> nat list \<Rightarrow> nat list) \<Rightarrow> 64 word \<Rightarrow> nat
    \<Rightarrow> 'k rtree \<Rightarrow> nat \<Rightarrow> nat \<Rightarrow> ('k rtree \<times> node_info list) option" where
  "r_load2switch enc srt base sz s max_load_num compress_depth = do {
     let nodes = replicate (unat (r_depth s - 1)) [];
     let keys = replicate (compress_depth + 1) [];
     nodes \<leftarrow> (do { n0 \<leftarrow> nth_opt nodes 0; put_at nodes 0 (n0 @ [0]) });
     (nodes, keys) \<leftarrow> for_to 1 compress_depth (\<lambda>i (nodes, keys). do {
       up \<leftarrow> nth_opt nodes (i - 1);
       for_up (length up) 0 (r_fat_layer_node s i) (nodes, keys) }) (nodes, keys);
     ks \<leftarrow> nth_opt keys compress_depth;
     ns \<leftarrow> nth_opt nodes compress_depth;
     (s, i0) \<leftarrow> r_print_info enc base sz s 0 0 ks ns;
     nodes \<leftarrow> put_at nodes compress_depth (take max_load_num (srt s ns));
     nodes \<leftarrow> for_up (unat (r_depth s - 1) - (compress_depth + 1)) (compress_depth + 1)
       (r_next_layer (srt s) s max_load_num) nodes;
     for_up (unat (r_depth s - 1) - compress_depth) compress_depth (\<lambda>i (s, fout). do {
       ns \<leftarrow> nth_opt nodes i;
       r_print_nodes enc base sz (i - compress_depth + 1) ns (s, fout) }) (s, [i0]) }"

section \<open>The same choice as for the tree with vectors\<close>

lemma sim_depth_loop: "tree_sim r t \<Longrightarrow> r_depth_loop f r p d = depth_loop f t p d"
  by (induction f arbitrary: p d) (auto simp: sim_node split: option.split)

lemma sim_node_depth: "tree_sim r t \<Longrightarrow> r_node_depth r n = node_depth t n"
  unfolding r_node_depth_def node_depth_def by (simp only: sim_depth_loop sim_node simD(2))

lemma sim_set_loaded: "tree_sim r t \<Longrightarrow> tree_sim (r_set_loaded ns r) (set_loaded ns t)"
proof (induction ns arbitrary: r t)
  case (Cons n ns)
  have "tree_sim (r_upd n (\<lambda>nd. nd\<lparr>r_loaded := True\<rparr>) r) (upd_node n (\<lambda>nd. nd\<lparr>isLoaded2Switch := True\<rparr>) t)"
    using Cons.prems by (intro sim_upd node_sim_flags simD)
  from Cons.IH [OF this] show ?case by (simp add: r_set_loaded_def set_loaded_def)
qed (simp add: r_set_loaded_def set_loaded_def)

lemma sim_take_children:
  "tree_sim r t \<Longrightarrow> take_children t cd k0 tmp i cs m q = Some x \<Longrightarrow> r_take_children r cd k0 tmp i cs m q = Some x"
proof (induction cs arbitrary: i m q)
  case (Cons c cs)
  have key: "fa_get j (r_key (rpool r tmp)) = Some k" if "nth_opt (nkey (pool t tmp)) j = Some k" for j k
    using that node_simD(6,8,9) [OF simD(1) [OF Cons.prems(1), of tmp]] by (auto simp: fa_get_ok dest!: nth_opt_SomeE)
  from Cons.prems(2) obtain k q' where
    k: "(if i = 0 then Some (case map_of m tmp of None \<Rightarrow> k0 | Some k \<Rightarrow> k) else nth_opt (nkey (pool t tmp)) (i - 1)) = Some k"
    and q: "(if isLeaf (pool t c) then Some q
       else do { d \<leftarrow> node_depth t c; Some (if d < cd then q @ [c] else q) }) = Some q'"
    and r: "take_children t cd k0 tmp (i + 1) cs (AList.update c k m) q' = Some x"
    by (auto simp: Let_def split: bind_splits)
  have "(if i = 0 then Some (case map_of m tmp of None \<Rightarrow> k0 | Some k \<Rightarrow> k) else fa_get (i - 1) (r_key (rpool r tmp))) = Some k"
    using k key by (auto split: if_splits)
  with q Cons.IH [OF Cons.prems(1) r] show ?case
    by (simp add: sim_node [OF Cons.prems(1)] sim_node_depth [OF Cons.prems(1)] cong: if_cong)
qed simp

lemma sim_greedy_loop:
  "tree_sim r t \<Longrightarrow> greedy_loop f pick tree_M t bound cd k0 m q = Some x \<Longrightarrow> r_greedy_loop f pick r bound cd k0 m q = Some x"
proof (induction f arbitrary: m q)
  case (Suc f)
  show ?case
  proof (cases "length m + tree_M \<le> bound \<and> q \<noteq> []")
    case True
    let ?tmp = "pick q"
    from Suc.prems(2) True obtain m' q' where
      s: "take_children t cd k0 ?tmp 0 (child (pool t ?tmp)) m (remove1 ?tmp q) = Some (m', q')"
      "greedy_loop f pick tree_M t bound cd k0 (AList.delete ?tmp m') q' = Some x"
      by (auto simp: Let_def simp del: M_pos split: bind_splits prod.splits)
    show ?thesis
      using True sim_take_children [OF Suc.prems(1) s(1)] Suc.IH [OF Suc.prems(1) s(2)]
        sim_children [OF simD(1) [OF Suc.prems(1)], of ?tmp] by (simp add: Let_def del: M_pos)
  qed (use Suc.prems in auto)
qed simp

lemma sim_fat_root:
  "tree_sim r t \<Longrightarrow> fat_root pick tree_M t bound cd k0 = Some x \<Longrightarrow> r_fat_root pick r bound cd k0 = Some x"
  unfolding fat_root_def r_fat_root_def
  by (auto simp: Let_def dest!: sim_greedy_loop simp del: greedy_loop.simps r_greedy_loop.simps split: bind_splits if_splits)


lemma those_map_Some: "(\<And>x. x \<in> set xs \<Longrightarrow> f x = Some (g x)) \<Longrightarrow> those (map f xs) = Some (map g xs)"
  by (induction xs) auto

lemma sim_next_layer: "tree_sim r t \<Longrightarrow> r_next_layer srt r m i cached = next_layer srt t m i cached"
proof -
  assume "tree_sim r t"
  then have "those (map (\<lambda>p. r_children (rpool r p)) up) = Some (map (\<lambda>p. child (pool t p)) up)" for up
    by (intro those_map_Some sim_children simD)
  note ch = this
  show ?thesis
    by (cases "nth_opt cached (i - 1)"; cases "nth_opt cached i") (simp_all add: r_next_layer_def next_layer_def ch)
qed

section \<open>What the greedy loading prints\<close>

text \<open>A description names nodes that are marked, so that they are not split in place.\<close>

definition r_marked :: "64 word \<Rightarrow> nat \<Rightarrow> 'k rtree \<Rightarrow> node_info \<Rightarrow> bool" where
  "r_marked base sz s i \<longleftrightarrow> (\<exists>n cs. info_addr i = (if n = 0 then 0 else r_address base sz n) \<and> r_loaded (rpool s n)
     \<and> info_child i = map (r_address base sz) cs \<and> (\<forall>c \<in> set cs. c < r_nb_node s \<and> r_loaded (rpool s c)))"

lemma r_marked_later:
  assumes "r_marked base sz r i" "tree_sim r t" "tree_sim r' t'" "marks t t'"
  shows "r_marked base sz r' i"
proof -
  have "r_loaded (rpool r' n)" if "r_loaded (rpool r n)" for n
    using that assms(4) by (auto simp: sim_node [OF assms(2)] sim_node [OF assms(3)] marks_def)
  moreover have "r_nb_node r' = r_nb_node r"
    using marks_nb [OF assms(4)] simD(2) [OF assms(2)] simD(2) [OF assms(3)] by simp
  ultimately show ?thesis using assms(1) unfolding r_marked_def by metis
qed

lemma r_print_info_ok:
  assumes sim: "tree_sim r t" and n: "n < nb_node t" "set cs \<subseteq> {..<nb_node t}" and ks: "\<forall>k \<in> set ks. enc k \<noteq> None"
  obtains r' t' i ws where "r_print_info enc base sz r n vd ks cs = Some (r', i)" "tree_sim r' t'" "marks t t'"
    "r_marked base sz r' i" "those (map enc ks) = Some ws" "info_keys i = (0, 0) # map key_halves ws"
    "info_child i = map (r_address base sz) cs"
proof -
  obtain ws where w: "those (map enc ks) = Some ws" using those_total [OF ks] by blast
  let ?r = "r_set_loaded cs (r_set_loaded [n] r)" and ?t = "set_loaded cs (set_loaded [n] t)"
  have s: "tree_sim ?r ?t" by (intro sim_set_loaded sim)
  have "marks (set_loaded [n] t) ?t" using n(2) by (intro marks_set_loaded) (simp add: set_loaded_sel)
  moreover have "marks t (set_loaded [n] t)" using n(1) by (intro marks_set_loaded) simp
  ultimately have m: "marks t ?t" using marks_trans by blast
  have l: "r_loaded (rpool ?r c)" if "c \<in> insert n (set cs)" for c
    using that by (auto simp: sim_node [OF s] set_loaded_sel)
  have "r_marked base sz ?r \<lparr>info_addr = (if n = 0 then 0 else r_address base sz n), info_depth = vd,
      info_keys = (0, 0) # map key_halves ws, info_child = map (r_address base sz) cs\<rparr>"
    unfolding r_marked_def using l n(2) marks_nb [OF m] simD(2) [OF s]
    by (intro exI [of _ n] exI [of _ cs]) auto
  then show thesis using that [OF _ s m _ w] by (simp add: r_print_info_def w)
qed

lemma r_print_nodes_ok:
  assumes "tree_sim r t" "tree_wf tree_M t" "set ns \<subseteq> {..<nb_node t}" "keys_encode enc t"
    and "\<forall>i \<in> set fout. r_marked base sz r i"
  shows "\<exists>r' t' fs. r_print_nodes enc base sz vd ns (r, fout) = Some (r', fout @ fs) \<and> tree_sim r' t' \<and> marks t t'
    \<and> (\<forall>i \<in> set (fout @ fs). r_marked base sz r' i)"
  using assms
proof (induction ns arbitrary: r t fout)
  case (Cons n ns)
  note sim = Cons.prems(1) and w = Cons.prems(2)
  have n: "n < nb_node t" using Cons.prems(3) by simp
  note nd = node_simD [OF simD(1) [OF sim, of n]]
  have k: "fa_to_vector (r_key (rpool r n)) = Some (nkey (pool t n))" using nd by (simp add: fa_to_vector_ok)
  have c: "r_children (rpool r n) = Some (child (pool t n))" by (rule sim_children [OF simD(1) [OF sim]])
  have e: "\<forall>k \<in> set (nkey (pool t n)). enc k \<noteq> None" using value_keyless [OF w Cons.prems(4) n] by blast
  obtain r1 t1 i ws where p: "r_print_info enc base sz r n vd (nkey (pool t n)) (child (pool t n)) = Some (r1, i)"
    "tree_sim r1 t1" "marks t t1" "r_marked base sz r1 i"
    by (rule r_print_info_ok [OF sim n children_used [OF w n] e])
  have f: "\<forall>j \<in> set (fout @ [i]). r_marked base sz r1 j"
    using Cons.prems(5) p(4) r_marked_later [OF _ sim p(2,3)] by auto
  have u: "set ns \<subseteq> {..<nb_node t1}" using Cons.prems(3) marks_nb [OF p(3)] by simp
  obtain r' t' fs where "r_print_nodes enc base sz vd ns (r1, fout @ [i]) = Some (r', (fout @ [i]) @ fs)"
    "tree_sim r' t'" "marks t1 t'" "\<forall>j \<in> set ((fout @ [i]) @ fs). r_marked base sz r' j"
    using Cons.IH [OF p(2) marks_wf(1) [OF w p(3)] u keys_encode_marks [OF p(3) Cons.prems(4)] f] by blast
  then show ?case using marks_trans [OF p(3)] by (auto simp: k c p(1))
qed (use marks_refl in auto)

text \<open>What holds after the root and some layers have been printed.\<close>

definition loading :: "64 word \<Rightarrow> nat \<Rightarrow> nat \<Rightarrow> node_info \<Rightarrow> ('k, fields) tree
    \<Rightarrow> nat list list \<times> 'k rtree \<times> node_info list \<Rightarrow> bool" where
  "loading base sz l i0 t st \<longleftrightarrow> (case st of (cached, r, fout) \<Rightarrow> layers_ok l t cached \<and> (\<exists>t'. tree_sim r t' \<and> marks t t')
     \<and> (\<exists>fs. fout = i0 # fs) \<and> (\<forall>i \<in> set fout. r_marked base sz r i))"

lemma layers_ok_nb: "nb_node t = nb_node u \<Longrightarrow> layers_ok l t = layers_ok l u"
  by (simp add: layers_ok_def fun_eq_iff)

lemma loading_print:
  assumes "loading base sz l i0 t (cached, r, fout)" "tree_wf tree_M t" "keys_encode enc t" "set ns \<subseteq> {..<nb_node t}"
    and "layers_ok l t cached'"
  shows "\<exists>r' fout'. r_print_nodes enc base sz vd ns (r, fout) = Some (r', fout') \<and> loading base sz l i0 t (cached', r', fout')"
proof -
  obtain t1 where t1: "tree_sim r t1" "marks t t1" using assms(1) by (auto simp: loading_def)
  have u: "set ns \<subseteq> {..<nb_node t1}" using assms(4) marks_nb [OF t1(2)] by simp
  have f: "\<forall>i \<in> set fout. r_marked base sz r i" using assms(1) by (simp add: loading_def)
  obtain r' t' fs where "r_print_nodes enc base sz vd ns (r, fout) = Some (r', fout @ fs)" "tree_sim r' t'" "marks t1 t'"
    "\<forall>i \<in> set (fout @ fs). r_marked base sz r' i"
    using r_print_nodes_ok [OF t1(1) marks_wf(1) [OF assms(2) t1(2)] u keys_encode_marks [OF t1(2) assms(3)] f] by blast
  then show ?thesis using assms(1,5) marks_trans [OF t1(2)] by (auto simp: loading_def)
qed


lemma loading_step:
  assumes st: "loading base sz l i0 t (cached, r, fout)" and w: "tree_wf tree_M t" and en: "keys_encode enc t"
    and srt: "\<And>s xs. set (srt s xs) = set xs" and i: "0 < i" "i < l"
  shows "\<exists>st'. do {
       cached \<leftarrow> r_next_layer (srt r) r m i cached;
       ns \<leftarrow> nth_opt cached i;
       (s, fout) \<leftarrow> r_print_nodes enc base sz i ns (r, fout);
       Some (cached, s, fout) } = Some st' \<and> loading base sz l i0 t st'"
proof -
  obtain t1 where t1: "tree_sim r t1" "marks t t1" using st by (auto simp: loading_def)
  have L: "layers_ok l t1 cached" using st layers_ok_nb [OF marks_nb [OF t1(2)]] by (simp add: loading_def)
  obtain c where c: "next_layer (srt r) t1 m i cached = Some c" "layers_ok l t1 c"
    using next_layer_ok [OF marks_wf(1) [OF w t1(2)], of "srt r" i l cached m] srt i L by blast
  have c': "layers_ok l t c" using c(2) layers_ok_nb [OF marks_nb [OF t1(2)]] by simp
  then have n: "nth_opt c i = Some (c ! i)" "set (c ! i) \<subseteq> {..<nb_node t}"
    using i(2) by (auto simp: layers_ok_def nth_opt_Some)
  obtain r' fout' where "r_print_nodes enc base sz i (c ! i) (r, fout) = Some (r', fout')"
    "loading base sz l i0 t (c, r', fout')"
    using loading_print [OF st w en n(2) c'] by blast
  then show ?thesis using c(1) n(1) by (simp add: sim_next_layer [OF t1(1)])
qed

lemma r_greedy_total:
  assumes sim: "tree_sim r t" and w: "tree_wf tree_M (t :: ('k::linorder, fields) tree)" and e: "above_empty t k0"
    and k0: "\<And>k. k0 \<le> k" and pick: "\<And>q. q \<noteq> [] \<Longrightarrow> pick r q \<in> set q" and srt: "\<And>s xs. set (srt s xs) = set xs"
    and lf: "\<not> isLeaf (pool t 0)" and d: "2 \<le> unat (depth t)" "0 < rd" "rd \<le> depth t" and en: "keys_encode enc t"
  obtains r' t' ks ns ws i0 fs where
    "r_load2switch_greedy enc k0 pick srt base sz r bound rd m rld = Some (r', i0 # fs)" "tree_sim r' t'" "marks t t'"
    "\<forall>i \<in> set (i0 # fs). r_marked base sz r' i"
    "length ns = Suc (length ks)" "length ns \<le> max 1 bound" "sorted ks" "\<forall>k. ns ! lower_bound ks k \<in> set (route t k)"
    "\<forall>k \<in> set ks. tree_key t k" "set ns \<subseteq> {..<nb_node t}" "those (map enc ks) = Some ws"
    "info_keys i0 = (0, 0) # map key_halves ws" "info_child i0 = map (r_address base sz) ns"
proof -
  from w obtain R rk kv where I: "inv_at [] t R rk kv" by (auto simp: tree_wf_def tree_inv_def)
  have bf: "busy t" "all_filled tree_M t" using w by (auto simp: tree_wf_def)
  obtain ks ns where fr: "fat_root (pick r) tree_M t bound (unat rd) k0 = Some (ks, ns)" "\<And>n. n \<in> set ns \<Longrightarrow> tree_node t n"
    "\<And>k. k \<in> set ks \<Longrightarrow> tree_key t k" "length ns = Suc (length ks)" "length ns \<le> max 1 bound" "sorted ks"
    "\<And>k. ns ! lower_bound ks k \<in> set (route t k)"
    using fat_root_ok [OF I bf e k0, of "pick r" bound "unat rd"] pick lf by metis
  note rf = sim_fat_root [OF sim fr(1)]
  have ns: "set ns \<subseteq> {..<nb_node t}" using fr(2) by (auto simp: tree_node_def)
  have z: "0 < nb_node t" using inv_root(1) [OF I] by (simp add: tree_node_def)
  have ke: "\<forall>k \<in> set ks. enc k \<noteq> None" using fr(3) en unfolding keys_encode_def by blast
  define l where "l = unat (depth t)"
  have rl: "unat (r_depth r) = l" by (simp add: simD(3) [OF sim] l_def)
  have l1: "1 < l" using d(1) by (simp add: l_def)
  have own: "nth_opt (replicate l []) 1 = Some ([] :: nat list)" using l1 by (simp add: nth_opt_Some)
  obtain r1 t1 i0 ws where p0: "r_print_info enc base sz r 0 0 ks ns = Some (r1, i0)" "tree_sim r1 t1" "marks t t1"
    "r_marked base sz r1 i0" "those (map enc ks) = Some ws" "info_keys i0 = (0, 0) # map key_halves ws"
    "info_child i0 = map (r_address base sz) ns"
    by (rule r_print_info_ok [OF sim z ns ke])
  define layer where "layer = take m (srt r1 ns)"
  have ly: "set layer \<subseteq> {..<nb_node t}" using ns srt set_take_subset [of m "srt r1 ns"] by (auto simp: layer_def)
  have L0: "layers_ok l t (replicate l [])" by (simp add: layers_ok_def)
  obtain c1 where c1: "put_at (replicate l []) 1 layer = Some c1" "layers_ok l t c1"
    using layers_ok_put [OF L0 l1 ly] by blast
  have st0: "loading base sz l i0 t (c1, r1, [i0])" using p0 c1(2) by (auto simp: loading_def)
  obtain r2 f2 where p1: "r_print_nodes enc base sz 1 layer (r1, [i0]) = Some (r2, f2)" "loading base sz l i0 t (c1, r2, f2)"
    using loading_print [OF st0 w en ly c1(2)] by blast
  define body where "body = (\<lambda>i (cached, s, fout). do {
       cached \<leftarrow> r_next_layer (srt s) s m i cached;
       ns \<leftarrow> nth_opt cached i;
       (s, fout) \<leftarrow> r_print_nodes enc base sz i ns (s, fout);
       Some (cached, s, fout) })"
  define b where "b = unat (min (depth t - rd) rld)"
  have rb: "unat (min (r_depth r - rd) rld) = b" by (simp add: simD(3) [OF sim] b_def)
  have "b \<le> unat (depth t - rd)" unfolding b_def by (simp add: word_le_nat_alt [symmetric])
  also have "\<dots> < l" using d by (simp add: unat_sub l_def word_less_nat_alt)
  finally have bl: "b < l" .
  have "\<exists>v. body i u = Some v \<and> loading base sz l i0 t v" if i: "2 \<le> i" "i < 2 + (Suc b - 2)" and u: "loading base sz l i0 t u" for i u
  proof -
    obtain c s f where e: "u = (c, s, f)" by (cases u) auto
    have "0 < i" "i < l" using i bl by auto
    from loading_step [where srt = srt and m = m, OF u [unfolded e] w en srt this] show ?thesis
      by (simp add: body_def e)
  qed
  from for_up_total [of 2 "Suc b - 2" "loading base sz l i0 t" body, OF this p1(2)]
  obtain v where v: "for_to 2 b body (c1, r2, f2) = Some v" "loading base sz l i0 t v" by blast
  obtain c3 r3 f3 where v3: "v = (c3, r3, f3)" by (cases v) auto
  have run: "r_load2switch_greedy enc k0 pick srt base sz r bound rd m rld = Some (r3, f3)"
    unfolding r_load2switch_greedy_def Let_def [of "r_depth r"] rl rb body_def [symmetric]
    using v(1) by (simp add: rf own [unfolded One_nat_def] p0(1) layer_def [symmetric] c1(1) [unfolded One_nat_def]
      p1(1) [unfolded One_nat_def] v3 Let_def)
  obtain t3 fs where f3: "tree_sim r3 t3" "marks t t3" "f3 = i0 # fs" "\<forall>i \<in> set f3. r_marked base sz r3 i"
    using v(2) by (auto simp: v3 loading_def)
  show thesis
    by (rule that [OF run [unfolded f3(3)] f3(1,2) _ fr(4,5,6) _ _ ns p0(5-7)]) (use f3(3,4) fr(3,7) in auto)
qed

lemma for_up_first: "for_up n i body s = Some t \<Longrightarrow> 0 < n \<Longrightarrow> body i s \<noteq> None"
  by (cases n; cases "body i s") auto

text \<open>On a tree of less than three levels the loop runs beyond the layers.\<close>

lemma r_greedy_small:
  assumes "unat (r_depth s) < 3"
  shows "r_load2switch_greedy enc k0 pick srt base sz s bound 3 m (- 1) = None"
proof (rule ccontr)
  assume "r_load2switch_greedy enc k0 pick srt base sz s bound 3 m (- 1) \<noteq> None"
  then obtain x where x: "r_load2switch_greedy enc k0 pick srt base sz s bound 3 m (- 1) = Some x" by auto
  let ?l = "unat (r_depth s)"
  from x obtain own where "nth_opt (replicate ?l ([] :: nat list)) 1 = Some own"
    by (auto simp: r_load2switch_greedy_def Let_def split: bind_splits)
  then have l: "1 < ?l" by (auto dest: nth_opt_SomeE)
  then have "?l = 2" using assms by simp
  then have d: "r_depth s = 2" by (intro unsigned_word_eqI) simp
  have b: "Suc (unat (min (r_depth s - 3) (- 1))) - 2 = Suc 4294967293"
    by (simp add: d unsigned_minus_1_eq_mask mask_eq_exp_minus_1)
  show False using x
    unfolding r_load2switch_greedy_def Let_def [of "r_depth s"] b
    by (auto simp: Let_def d r_next_layer_def nth_opt_def put_at_def dest!: for_up_first split: bind_splits if_splits)
qed

end
