(* ===== verification/Rdma_Depth.thy ===== *)
theory Rdma_Depth
  imports Rdma_Insert
begin

text \<open>
  How many records make a tree of three levels: as long as the counter \<open>depth\<close> is at most 2 and
  no node has been handed to the switch, the nodes below the root are leaves, so that a tree
  with more than \<open>M * M\<close> records is deeper.
\<close>

section \<open>Flat trees\<close>

definition shallow_ok :: "('k, 'v) tree \<Rightarrow> bool" where
  "shallow_ok s \<longleftrightarrow> depth_ok s \<and> (\<forall>n. \<not> isLoaded2Switch (pool s n))
     \<and> (unat (depth s) = 1 \<longrightarrow> (\<forall>n. parent (pool s n) = Some 0 \<longrightarrow> n \<in> set (child (pool s 0))))
     \<and> (unat (depth s) = 2 \<longrightarrow> \<not> isLeaf (pool s 0) \<and> (\<forall>n. parent (pool s n) = Some 0 \<longrightarrow> isLeaf (pool s n)))"

lemma shallow_leaf: "shallow_ok s \<Longrightarrow> unat (depth s) = 1 \<Longrightarrow> isLeaf (pool s 0)"
  by (auto simp: shallow_ok_def depth_ok_def)

lemma shallow_new: "shallow_ok (new_BPlusTree v0)"
  by (simp add: shallow_ok_def depth_ok_new) (simp add: new_BPlusTree_def new_Node_def)

text \<open>What a split changes of marks, leaves and parents.\<close>

definition same_flags :: "nat \<Rightarrow> ('k, 'v) tree \<Rightarrow> ('k, 'v) tree \<Rightarrow> bool" where
  "same_flags w s t \<longleftrightarrow> (\<forall>n. isLeaf (pool t n) = isLeaf (pool s n) \<and> isLoaded2Switch (pool t n) = isLoaded2Switch (pool s n)
     \<and> (parent (pool t n) = parent (pool s n) \<or> parent (pool t n) = Some w))"

lemma same_flags_refl [simp]: "same_flags w s s"
  by (simp add: same_flags_def)

lemma same_flags_upd:
  assumes "\<And>nd. isLeaf (f nd) = isLeaf nd" "\<And>nd. isLoaded2Switch (f nd) = isLoaded2Switch nd" "\<And>nd. parent (f nd) = parent nd"
  shows "same_flags w s (upd_node n f t) = same_flags w s t"
proof -
  have "isLeaf (pool (upd_node n f t) m) = isLeaf (pool t m) \<and> parent (pool (upd_node n f t) m) = parent (pool t m)
    \<and> isLoaded2Switch (pool (upd_node n f t) m) = isLoaded2Switch (pool t m)" for m
    using assms by (simp add: upd_node_def)
  then show ?thesis by (simp add: same_flags_def)
qed

lemma same_flags_parents [simp]: "same_flags w s t \<Longrightarrow> same_flags w s (set_parents w cs t)"
  by (auto simp: same_flags_def set_parents_sel)

lemma split_leaf_flags: "split_leaf M s cur w par = Some t \<Longrightarrow> same_flags w s t"
  by (auto simp: split_leaf_def Let_def same_flags_upd split: bind_splits if_splits)

lemma split_inner_flags: "split_inner M s cur w par = Some t \<Longrightarrow> same_flags w s t"
  by (auto simp: split_inner_def Let_def same_flags_upd split: bind_splits if_splits)

lemma shallow_copy:
  assumes c: "overflow_copy mx s 0 = Some (w, t)" and S: "shallow_ok s" and d: "unat (depth s + 1) = Suc (unat (depth s))"
  shows "unat (depth t) = Suc (unat (depth s)) \<and> w \<noteq> 0 \<and> (\<forall>n. \<not> isLoaded2Switch (pool t n))
    \<and> (unat (depth t) = 2 \<longrightarrow> isLeaf (pool t w) \<and> \<not> isLeaf (pool t 0) \<and> (\<forall>n. parent (pool t n) = Some 0 \<longrightarrow> isLeaf (pool t n)))"
proof -
  have nb: "0 < nb_node s" using S by (simp add: shallow_ok_def depth_ok_def)
  note tp = overflow_copy_top [OF c nb]
  have dt: "unat (depth t) = Suc (unat (depth s))" using tp d by simp
  have lf: "isLeaf (pool s 0)" "\<forall>n. parent (pool s n) = Some 0 \<longrightarrow> n \<in> set (child (pool s 0))" if "unat (depth t) = 2"
    using shallow_leaf [OF S] S that dt by (simp_all add: shallow_ok_def)
  have "\<forall>n. \<not> isLoaded2Switch (pool s n)" using S by (simp add: shallow_ok_def)
  with tp dt lf show ?thesis using c
    by (auto simp: overflow_copy_def alloc_def Let_def set_parents_sel upd_node_sel split: if_splits)
qed

lemma shallow_step:
  assumes o: "overflow_step M mx s cur = Some (p, t)" and S: "shallow_ok s" "unat (depth s) = 1 \<longrightarrow> cur = 0" and mx: "mx < 2 ^ 32"
  shows "shallow_ok t \<and> unat (depth t) \<noteq> 1"
proof -
  obtain c s1 where c: "(if cur = 0 \<or> isLoaded2Switch (pool s cur) then overflow_copy mx s cur else Some (cur, s)) = Some (c, s1)"
    using o by (auto simp: overflow_step_def split: bind_splits)
  have dt: "depth_ok t" using overflow_step_top [OF o _ mx] S(1) by (simp add: shallow_ok_def)
  define s2 where "s2 = upd_node (nb_node s1) (\<lambda>n. n\<lparr>parent := parent (pool s1 c), isLeaf := isLeaf (pool s1 c)\<rparr>)
    (s1\<lparr>nb_node := nb_node s1 + 1\<rparr>)"
  from o c obtain par where "(if isLeaf (pool s2 c) then split_leaf M s2 c (nb_node s1) par
      else split_inner M s2 c (nb_node s1) par) = Some t"
    by (auto simp: overflow_step_def alloc_def s2_def Let_def split: bind_splits if_splits)
  then have fl: "same_flags (nb_node s1) s2 t" "same_top s2 t"
    using split_leaf_flags split_inner_flags split_leaf_top split_inner_top by (auto split: if_splits)
  then have dd: "depth t = depth s1" by (simp add: same_top_def s2_def upd_node_def)
  have "unat (depth s1) \<noteq> 1 \<and> nb_node s1 \<noteq> 0 \<and> (\<forall>n. \<not> isLoaded2Switch (pool s1 n)) \<and> (unat (depth s1) = 2 \<longrightarrow>
    \<not> isLeaf (pool s1 0) \<and> (parent (pool s1 c) = Some 0 \<longrightarrow> isLeaf (pool s1 c)) \<and> (\<forall>n. parent (pool s1 n) = Some 0 \<longrightarrow> isLeaf (pool s1 n)))"
  proof (cases "cur = 0")
    case True
    then have c': "overflow_copy mx s 0 = Some (c, s1)" using c by simp
    have nb: "0 < nb_node s" using S by (simp add: shallow_ok_def depth_ok_def)
    note tp = overflow_copy_top [OF c' nb]
    have "unat (depth s) + 1 < 2 ^ 32" using S tp mx by (simp add: depth_ok_def shallow_ok_def)
    then have ub: "unat (depth s + 1) = Suc (unat (depth s))" by (simp add: unat_word_ariths)
    from shallow_copy [OF c' S(1) ub] S(1) tp show ?thesis by (auto simp: shallow_ok_def depth_ok_def)
  next
    case False
    then show ?thesis using c S by (auto simp: shallow_ok_def depth_ok_def)
  qed
  then show ?thesis
    using dt fl unfolding shallow_ok_def dd same_flags_def same_top_def
    by (auto simp: s2_def upd_node_sel split: if_splits)
qed


lemma shallow_overflow:
  "overflow M mx f s cur = Some t \<Longrightarrow> shallow_ok s \<Longrightarrow> (unat (depth s) = 1 \<longrightarrow> cur = 0) \<Longrightarrow> mx < 2 ^ 32 \<Longrightarrow> shallow_ok t"
proof (induction f arbitrary: s cur)
  case (Suc f)
  show ?case
  proof (cases "M \<le> length (nkey (pool s cur))")
    case True
    then obtain p u where u: "overflow_step M mx s cur = Some (p, u)" "overflow M mx f u p = Some t"
      using Suc.prems(1) by (auto split: bind_splits)
    then show ?thesis using Suc.IH [OF u(2)] shallow_step [OF u(1) Suc.prems(2-4)] Suc.prems(4) by blast
  qed (use Suc.prems in simp)
qed simp

lemma shallow_insert:
  assumes "tree_insert M mx s k v = Some t" "shallow_ok s" "mx < 2 ^ 32"
  shows "shallow_ok t"
proof -
  define s1 where "s1 = s\<lparr>nb_node := nb_node s + 1\<rparr>"
  have z: "nb_node s \<noteq> 0" using assms(2) by (simp add: shallow_ok_def depth_ok_def)
  from assms(1) obtain cur s2 where cur: "find_leaf (nb_node s1) s1 0 k = Some cur"
    and s2: "insert_key s1 cur (nb_node s) k = Some s2"
    and t: "overflow M mx (Suc (nb_node (upd_node (nb_node s) (\<lambda>n. n\<lparr>isLeaf := False, isValue := True,
      parent := Some cur, nval := update_field_table v (nval n)\<rparr>) s2)))
      (upd_node (nb_node s) (\<lambda>n. n\<lparr>isLeaf := False, isValue := True,
      parent := Some cur, nval := update_field_table v (nval n)\<rparr>) s2) cur = Some t"
    by (auto simp: tree_insert_def alloc_def s1_def Let_def split: bind_splits if_splits)
  let ?s3 = "upd_node (nb_node s) (\<lambda>n. n\<lparr>isLeaf := False, isValue := True,
      parent := Some cur, nval := update_field_table v (nval n)\<rparr>) s2"
  from s2 obtain ks cs where c: "vec_insert (lower_bound (nkey (pool s cur)) k) (nb_node s) (child (pool s cur)) = Some cs"
    and p: "s2 = upd_node cur (\<lambda>n. n\<lparr>child := cs\<rparr>) (upd_node cur (\<lambda>n. n\<lparr>nkey := ks\<rparr>) s1)"
    by (auto simp: insert_key_def Let_def s1_def upd_node_def split: bind_splits)
  have lf: "isLeaf (pool s cur)" using find_leaf_leaf [OF cur] by (simp add: s1_def)
  have one: "cur = 0" if "unat (depth s) = 1"
    using shallow_leaf [OF assms(2) that] cur by (auto simp: s1_def)
  have "shallow_ok ?s3"
    using assms(2) z one lf vec_insert_set [OF c]
    by (auto simp: shallow_ok_def depth_ok_def p s1_def upd_node_def)
  moreover have "unat (depth ?s3) = 1 \<longrightarrow> cur = 0" using one by (simp add: p s1_def upd_node_def)
  ultimately show ?thesis using shallow_overflow [OF t] assms(3) by blast
qed

lemma shallow_load: "tree_load M mx s kvs = Some t \<Longrightarrow> shallow_ok s \<Longrightarrow> mx < 2 ^ 32 \<Longrightarrow> shallow_ok t"
proof (induction kvs arbitrary: s)
  case (Cons kv kvs)
  obtain k v where kv: "kv = (k, v)" by fastforce
  from Cons.prems(1) obtain u where "tree_insert M mx s k v = Some u" "tree_load M mx u kvs = Some t"
    by (auto simp: kv split: bind_splits)
  then show ?case using Cons.IH shallow_insert Cons.prems(2,3) by blast
qed simp

section \<open>The number of records\<close>

lemma shallow_records:
  assumes w: "tree_wf M s" and S: "shallow_ok s" and d: "unat (depth s) = 2"
  shows "card (dom (contents s)) \<le> M * M"
proof -
  from w obtain R rk kv where I: "inv_at [] s R rk kv" by (auto simp: tree_wf_def tree_inv_def)
  have fl: "length (nkey (pool s n)) < M" if "tree_node s n" for n
    using w that by (simp add: tree_wf_def all_filled_def)
  have r: "\<not> isLeaf (pool s 0)" "tree_node s 0" using S d inv_root(1) [OF I] by (simp_all add: shallow_ok_def)
  let ?cs = "child (pool s 0)"
  have tn: "tree_node s c" if "c \<in> set ?cs" for c
    using inv_childE [OF I r(2,1) that] by (auto simp: link_def)
  have "dom (contents s) \<subseteq> (\<Union>c \<in> set ?cs. set (nkey (pool s c)))"
  proof
    fix k assume "k \<in> dom (contents s)"
    then obtain v where "holds s k v" using contents_iff [OF I] by blast
    then obtain n i where n: "tree_node s n" "isLeaf (pool s n)" "i < length (nkey (pool s n))" "nkey (pool s n) ! i = k"
      by (auto simp: holds_def)
    have nr: "in_range (R n) k" using inv_in_range [OF I n(1)] nth_mem [OF n(3)] n(4) by auto
    have "in_range (R 0) k" by (simp add: inv_root(2) [OF I])
    then obtain c where c: "next_child s 0 k = Some c" "link s R rk 0 (lower_bound (nkey (pool s 0)) k) c" "in_range (R c) k"
      by (rule next_child_link [OF I r(2,1)])
    then have "isLeaf (pool s c)" "tree_node s c" using S d by (auto simp: shallow_ok_def link_def)
    then have "n = c" using leaf_unique [OF I] n nr c(3) by blast
    moreover have "c \<in> set ?cs" using c(1) by (auto simp: next_child_def dest!: nth_opt_SomeE)
    ultimately show "k \<in> (\<Union>c \<in> set ?cs. set (nkey (pool s c)))" using n nth_mem by blast
  qed
  then have "card (dom (contents s)) \<le> card (\<Union>c \<in> set ?cs. set (nkey (pool s c)))" by (intro card_mono) auto
  also have "\<dots> \<le> (\<Sum>c \<in> set ?cs. card (set (nkey (pool s c))))" by (rule card_UN_le) simp
  also have "\<dots> \<le> (\<Sum>c \<in> set ?cs. M)"
    by (rule sum_mono) (meson card_length fl le_trans less_imp_le_nat tn)
  also have "\<dots> = card (set ?cs) * M" by simp
  also have "\<dots> \<le> M * M"
    using card_length [of ?cs] inv_child_length [OF I r(2,1)] fl [OF r(2)] by (intro mult_right_mono) auto
  finally show ?thesis .
qed

lemma many_records_deep:
  assumes w: "tree_wf M s" and S: "shallow_ok s" and n: "M * M < card (dom (contents s))" "0 < M"
  shows "3 \<le> unat (depth s)"
proof (rule ccontr)
  assume "\<not> 3 \<le> unat (depth s)"
  then have "unat (depth s) = 1 \<or> unat (depth s) = 2" using S by (auto simp: shallow_ok_def depth_ok_def)
  then show False
  proof
    assume "unat (depth s) = 1"
    then have "card (dom (contents s)) < M" by (rule leaf_root_small [OF w shallow_leaf [OF S]])
    moreover have "M * 1 \<le> M * M" using n(2) by (intro mult_left_mono) auto
    ultimately show False using n(1) by simp
  next
    assume "unat (depth s) = 2"
    then show False using shallow_records [OF w S] n(1) by simp
  qed
qed

end
