(* ===== verification/Rdma_Wire.thy ===== *)
theory Rdma_Wire
  imports Rdma_Array Wire
begin

text \<open>
  The messages of the RDMA version (RDMA/CPU/driver/driver.cc). They have no partition id; the
  client writes strings and vectors as the Ethernet version does (Wire), the server reads them
  into strings and arrays of a fixed size, without looking at their lengths first. Writing
  behind the end of such an array is \<open>None\<close>.
\<close>

section \<open>Message types\<close>

definition rdma_inject_msg_type :: "32 word \<Rightarrow> bytes" where
  "rdma_inject_msg_type msg_type = (let ubuf = htonl msg_type in le32 ubuf)"

definition rdma_extract_msg_type :: "bytes \<Rightarrow> (32 word \<times> bytes) option" where
  "rdma_extract_msg_type msg = do { (ubuf, msg) \<leftarrow> read_unsigned msg; Some (htonl ubuf, msg) }"

section \<open>Keys\<close>

definition inject_key_fixed :: "fixed_string \<Rightarrow> bytes" where
  "inject_key_fixed key_index = le32 (of_nat (length (chars key_index))) @ map byte_of (chars key_index)"

text \<open>\<open>resize(ubuf)\<close>, and \<open>memcpy\<close> of \<open>ubuf\<close> bytes into an array of \<open>mx\<close>.\<close>

definition extract_fixed :: "nat \<Rightarrow> bytes \<Rightarrow> (fixed_string \<times> bytes) option" where
  "extract_fixed mx msg = do {
     (ubuf, msg) \<leftarrow> read_unsigned msg;
     (bs, msg) \<leftarrow> read_bytes (unat ubuf) msg;
     x \<leftarrow> new_fixed mx (map char_of_byte bs);
     Some (x, msg) }"

definition extract_key_fixed :: "bytes \<Rightarrow> (fixed_string \<times> bytes) option" where
  "extract_key_fixed msg = extract_fixed KEY_LEN msg"

section \<open>Records\<close>

type_synonym fixed_fields = "(string \<times> string) farr"

definition inject_values_fixed :: "fixed_fields \<Rightarrow> bytes option" where
  "inject_values_fixed values = do {
     vs \<leftarrow> fa_to_vector values;
     Some (le32 (of_nat (fa_size values)) @ concat (map inject_pair vs)) }"

definition extract_pair_fixed :: "bytes \<Rightarrow> ((string \<times> string) \<times> bytes) option" where
  "extract_pair_fixed msg = do {
     (k, msg) \<leftarrow> extract_fixed FIELD_LEN msg;
     (v, msg) \<leftarrow> extract_fixed VALUE_LEN msg;
     Some ((chars k, chars v), msg) }"

text \<open>A local variable of type \<open>VAL_TYPE\<close>, whose elements are what was there before.\<close>

definition unset_values :: "(string \<times> string) list" where
  "unset_values = replicate FIELD_NUM ([], [])"

definition extract_values_fixed :: "bytes \<Rightarrow> (fixed_fields \<times> bytes) option" where
  "extract_values_fixed msg = do {
     (ubuf, msg) \<leftarrow> read_unsigned msg;
     (vs, msg) \<leftarrow> (if FIELD_NUM < unat ubuf then None else extract_items extract_pair_fixed (unat ubuf) msg);
     values \<leftarrow> fa_of unset_values vs;
     Some (values, msg) }"

section \<open>What is read back\<close>

definition field_fits :: "string \<times> string \<Rightarrow> bool" where
  "field_fits kv \<longleftrightarrow> length (fst kv) \<le> FIELD_LEN \<and> length (snd kv) \<le> VALUE_LEN"

definition record_fits :: "fields \<Rightarrow> bool" where
  "record_fits vs \<longleftrightarrow> length vs \<le> FIELD_NUM \<and> list_all field_fits vs"

lemmas fixed_lengths = KEY_LEN_def FIELD_LEN_def VALUE_LEN_def FIELD_NUM_def

lemma rdma_extract_inject_msg_type [simp]: "rdma_extract_msg_type (rdma_inject_msg_type t @ rest) = Some (t, rest)"
  "rdma_extract_msg_type (rdma_inject_msg_type t) = Some (t, [])"
  using read_unsigned_le32 [of "htonl t" "[]"] by (simp_all add: rdma_extract_msg_type_def rdma_inject_msg_type_def)

lemma extract_fixed_string:
  assumes "string_fits s"
  shows "extract_fixed mx (inject_string s @ rest) = (if length s \<le> mx then Some (Fixed s, rest) else None)"
proof -
  have "extract_fixed mx msg = do { (s, msg) \<leftarrow> extract_string msg; x \<leftarrow> new_fixed mx s; Some (x, msg) }" for msg
    by (auto simp: extract_fixed_def extract_string_def split: bind_splits prod.splits)
  then show ?thesis using extract_inject_string [OF assms] by (simp add: new_fixed_def)
qed

interpretation fixed_codec: codec inject_key_fixed extract_key_fixed "\<lambda>k. length (chars k) \<le> KEY_LEN"
proof
  fix k :: fixed_string and rest :: bytes
  assume "length (chars k) \<le> KEY_LEN"
  then show "extract_key_fixed (inject_key_fixed k @ rest) = Some (k, rest)"
    using extract_fixed_string [of "chars k" KEY_LEN rest]
    by (simp add: extract_key_fixed_def inject_key_fixed_def inject_string_def string_fits_def KEY_LEN_def)
qed

lemma extract_pair_fixed_eq:
  assumes "pair_fits kv"
  shows "extract_pair_fixed (inject_pair kv @ rest) = (if field_fits kv then Some (kv, rest) else None)"
  using assms extract_fixed_string [of "fst kv" FIELD_LEN "inject_string (snd kv) @ rest"]
    extract_fixed_string [of "snd kv" VALUE_LEN rest]
  by (auto simp: extract_pair_fixed_def inject_pair_def pair_fits_def field_fits_def)

lemma extract_items_fixed:
  "list_all pair_fits vs \<Longrightarrow> extract_items extract_pair_fixed (length vs) (concat (map inject_pair vs) @ rest)
    = (if list_all field_fits vs then Some (vs, rest) else None)"
  by (induction vs) (simp_all add: extract_pair_fixed_eq)

text \<open>The server reads a record a client has sent exactly when it fits; otherwise it writes behind an array.\<close>

lemma extract_inject_values_fixed:
  assumes "fields_fit vs"
  shows "extract_values_fixed (inject_values vs @ rest) = (if record_fits vs
     then Some (\<lparr>fa_size = length vs, fa_val = vs @ drop (length vs) unset_values\<rparr>, rest) else None)"
proof -
  have u: "unat (of_nat (length vs) :: 32 word) = length vs" using assms by (simp add: fields_fit_def unat_of_nat)
  have l: "list_all pair_fits vs" using assms by (simp add: fields_fit_def)
  show ?thesis
    using extract_items_fixed [OF l, of rest]
    by (auto simp: extract_values_fixed_def inject_values_def u record_fits_def fa_of_def memcpy_def unset_values_def)
qed

text \<open>What the server writes is what a client reads.\<close>

lemma inject_values_fixed_ok: "fa_ok v \<Longrightarrow> inject_values_fixed v = Some (inject_values (fa_list v))"
  by (simp add: inject_values_fixed_def fa_to_vector_ok inject_values_def)

end
