(* ===== verification/Rdma_Server.thy ===== *)
theory Rdma_Server
  imports Rdma_Switch Rdma_Depth Rdma_Wire Frontend
begin

text \<open>
  The server of the RDMA path (RDMA/CPU/backend/backend.cc): its handlers, the loop that
  dispatches messages, and its memory as a remote reader sees it. \<open>None\<close> stands for undefined
  behaviour, for a failed assertion and for a wait that does not end.
\<close>

section \<open>State\<close>

text \<open>
  \<open>msg_out\<close> is what was written to \<open>insert_msg.txt\<close>, \<open>words_in\<close> the words still to be read from the
  standard input. The machine: where the pool begins, the size of a node, what
  \<open>rdma_server_setup\<close> returns, and the choices of the library.
\<close>

record rdma_server =
  rs_tree :: "fixed_string rtree"
  msg_out :: "string list"
  words_in :: "string list"

record rdma_machine =
  pool_base :: "64 word"
  rnode_size :: nat
  setup_result :: int
  top_node :: "fixed_string rtree \<Rightarrow> nat list \<Rightarrow> nat"
  busiest_first :: "fixed_string rtree \<Rightarrow> nat list \<Rightarrow> nat list"

definition new_rdma_server :: "string list \<Rightarrow> rdma_server" where
  "new_rdma_server input = \<lparr>rs_tree = new_rtree (Fixed []), msg_out = [], words_in = input\<rparr>"

text \<open>\<open>(Node *)addr\<close>: null, or a node of the pool.\<close>

definition r_node_of :: "rdma_machine \<Rightarrow> 64 word \<Rightarrow> nat option option" where
  "r_node_of m addr = (if addr = 0 then Some None
     else let off = unat (addr - pool_base m) in
       if off mod rnode_size m = 0 \<and> off div rnode_size m < rdma_MAX_NODE_SIZE then Some (Some (off div rnode_size m)) else None)"

section \<open>Handlers\<close>

definition rdma_handle_insert :: "bytes \<Rightarrow> 16 word \<Rightarrow> rdma_server \<Rightarrow> (rdma_server \<times> sent list) option" where
  "rdma_handle_insert msg dst_qid s = do {
     (key_index, msg) \<leftarrow> extract_key_fixed msg;
     (values, msg) \<leftarrow> extract_values_fixed msg;
     kvs \<leftarrow> fa_to_vector values;
     let s = s\<lparr>msg_out := msg_out s @ fixed_to_string key_index # map (\<lambda>kv. fst kv @ '' '' @ snd kv) kvs\<rparr>;
     t \<leftarrow> r_insert rdma_MAX_NODE_SIZE (rs_tree s) key_index values;
     pkt \<leftarrow> reply (rdma_inject_msg_type 0x0528) dst_qid;
     Some (s\<lparr>rs_tree := t\<rparr>, [pkt]) }"

text \<open>The update of the tree is commented out.\<close>

definition rdma_handle_update :: "bytes \<Rightarrow> 16 word \<Rightarrow> rdma_server \<Rightarrow> (rdma_server \<times> sent list) option" where
  "rdma_handle_update msg dst_qid s = do {
     (fbt_idx, msg) \<leftarrow> extract_fbt_hdr msg;
     (key_index, msg) \<leftarrow> extract_key_fixed msg;
     (values, msg) \<leftarrow> extract_values_fixed msg;
     pkt \<leftarrow> reply (rdma_inject_msg_type 0x0530) dst_qid;
     Some (s, [pkt]) }"

definition rdma_handle_query :: "rdma_machine \<Rightarrow> bytes \<Rightarrow> 16 word \<Rightarrow> rdma_server \<Rightarrow> (rdma_server \<times> sent list) option" where
  "rdma_handle_query m msg dst_qid s = do {
     (fbt_idx, msg) \<leftarrow> extract_fbt_hdr msg;
     (key_index, msg) \<leftarrow> extract_key_fixed msg;
     cur \<leftarrow> r_node_of m fbt_idx;
     (t, n) \<leftarrow> r_lookup (rs_tree s) key_index cur;
     values \<leftarrow> val_read (rpool t n);
     body \<leftarrow> inject_values_fixed values;
     pkt \<leftarrow> reply (rdma_inject_msg_type 0x0529 @ body) dst_qid;
     Some (s\<lparr>rs_tree := t\<rparr>, [pkt]) }"

definition rdma_root_load_num :: nat where "rdma_root_load_num = 600"
definition rdma_root_load_depth :: "32 word" where "rdma_root_load_depth = 3"
definition regular_load_num :: nat where "regular_load_num = 3600"

definition rdma_number :: "fixed_string \<Rightarrow> 64 word option" where
  "rdma_number k = remove_key_index_prefix (fixed_to_string k)"

text \<open>The last argument is the default, \<open>UINT32_MAX\<close>.\<close>

definition rdma_load :: "rdma_machine \<Rightarrow> fixed_string rtree \<Rightarrow> (fixed_string rtree \<times> node_info list) option" where
  "rdma_load m t = r_load2switch_greedy rdma_number (Fixed []) (top_node m) (busiest_first m) (pool_base m) (rnode_size m) t
     rdma_root_load_num rdma_root_load_depth regular_load_num (- 1)"

text \<open>\<open>while (true) { cin >> str; if (str == "done") break; }\<close>\<close>

definition until_done :: "string list \<Rightarrow> string list option" where
  "until_done cin = (case wait_done cin of Inl e \<Rightarrow> None | Inr cin \<Rightarrow> Some cin)"

definition rdma_handle_load2switch :: "rdma_machine \<Rightarrow> rdma_server \<Rightarrow> (rdma_server \<times> node_info list \<times> sent list) option" where
  "rdma_handle_load2switch m s = do {
     let s = s\<lparr>rs_tree := (rs_tree s)\<lparr>r_nb_query := 0, r_nb_access := 0\<rparr>\<rparr>;
     input \<leftarrow> until_done (words_in s);
     pkt \<leftarrow> reply (rdma_inject_msg_type 0x601) 0;
     _ \<leftarrow> (if setup_result m = 0 then Some () else None);
     (t, infos) \<leftarrow> rdma_load m (rs_tree s);
     input \<leftarrow> until_done input;
     Some (s\<lparr>rs_tree := t, words_in := input\<rparr>, infos, [pkt]) }"

definition rdma_step :: "rdma_machine \<Rightarrow> bytes \<times> 16 word \<Rightarrow> rdma_server \<Rightarrow> (rdma_server \<times> node_info list \<times> sent list) option" where
  "rdma_step m pkt s = (case pkt of (msg, recv_no) \<Rightarrow> do {
     (msg_type, msg) \<leftarrow> rdma_extract_msg_type msg;
     if msg_type = 0x0526 then do { (s, out) \<leftarrow> rdma_handle_insert msg recv_no s; Some (s, [], out) }
     else if msg_type = 0x0527 then do { (s, out) \<leftarrow> rdma_handle_query m msg recv_no s; Some (s, [], out) }
     else if msg_type = 0x0531 then do { (s, out) \<leftarrow> rdma_handle_update msg recv_no s; Some (s, [], out) }
     else if msg_type = 0x0600 then rdma_handle_load2switch m s
     else Some (s, [], []) })"

text \<open>The loop over the packets that arrive, with all that is written to \<open>node_info_greedy.txt\<close>.\<close>

fun rdma_run :: "rdma_machine \<Rightarrow> (bytes \<times> 16 word) list \<Rightarrow> rdma_server \<Rightarrow> (rdma_server \<times> node_info list \<times> sent list) option" where
  "rdma_run m [] s = Some (s, [], [])"
| "rdma_run m (pkt # pkts) s = do {
     (s, infos, out) \<leftarrow> rdma_step m pkt s;
     (s, infos', outs) \<leftarrow> rdma_run m pkts s;
     Some (s, infos @ infos', out @ outs) }"

lemma rdma_run_append:
  "rdma_run m (ps @ qs) s = do { (s, infos, out) \<leftarrow> rdma_run m ps s; (s, infos', outs) \<leftarrow> rdma_run m qs s;
     Some (s, infos @ infos', out @ outs) }"
  by (induction ps arbitrary: s) (auto simp: split_def bind_assoc split: bind_split)

section \<open>The memory behind the network\<close>

text \<open>
  A remote read names an address and a key. The key 0 marks the first read of a client, whose
  address is the number of a record. The switch puts the address of a node there, by the
  description \<open>i\<close> of the root, and in place of the key the number \<open>stag\<close> it was given (\<open>remote_stag\<close> of
  FBT_RDMA.p4, from the file \<open>rdma_server_setup\<close> writes). Other reads pass it as they are. The device
  of the server lets a read through when it has the remote key \<open>rkey\<close> of the pool.
\<close>

definition pool_memory :: "rdma_machine \<Rightarrow> fixed_string rtree \<Rightarrow> 64 word \<Rightarrow> fixed_string rnode option" where
  "pool_memory m t addr = do { n \<leftarrow> r_node_of m addr; map_option (rpool t) n }"

definition through_switch :: "node_info \<Rightarrow> 32 word \<Rightarrow> 64 word \<times> 32 word \<Rightarrow> 64 word \<times> 32 word" where
  "through_switch i stag req = (case req of (addr, key) \<Rightarrow> if key = 0 then (info_route i addr, stag) else (addr, key))"

definition rdma_fabric :: "rdma_machine \<Rightarrow> node_info \<Rightarrow> 32 word \<Rightarrow> 32 word \<Rightarrow> fixed_string rtree \<Rightarrow> 64 word \<times> 32 word
    \<Rightarrow> fixed_string rnode option" where
  "rdma_fabric m i stag rkey t req = (case through_switch i stag req of (addr, key) \<Rightarrow>
     if key = rkey then pool_memory m t addr else None)"

text \<open>The switch has the key of the pool: what a read with the key 0 and one with this key find.\<close>

lemma fabric_reads:
  "rdma_fabric m i stag stag t (addr, 0) = pool_memory m t (info_route i addr)"
  "key \<noteq> 0 \<Longrightarrow> rdma_fabric m i stag rkey t (addr, key) = (if key = rkey then pool_memory m t addr else None)"
  by (simp_all add: rdma_fabric_def through_switch_def)

end
