(* ===== verification/Rdma_Client.thy ===== *)
theory Rdma_Client
  imports Rdma_Server
begin

text \<open>
  The client of the RDMA path (RDMA/CPU/db/b_plus_tree_db.cc and \<open>read_remote_node\<close> of
  RDMA/CPU/driver/rdma_driver.cc): the operations that exchange messages with the server, and
  \<open>RDMARead\<close>, which walks down the tree in the server's memory. The network of remote reads is
  a parameter \<open>net\<close>: it answers an address and a key with the node it has read, or fails.
\<close>

section \<open>State\<close>

text \<open>\<open>link\<close> is the part the client has in common with the Ethernet version.\<close>

record rdma_db =
  db_link :: frontend
  remote_node :: "fixed_string rnode"
  read_count :: "nat list"

text \<open>\<open>Init\<close> asks for a flow as long as there are queues.\<close>

definition rdma_Init :: "bool \<Rightarrow> nat \<Rightarrow> rdma_db \<Rightarrow> rdma_db" where
  "rdma_Init size_first tid d =
     (let s = db_link d;
          s = s\<lparr>init_count := init_count s + 1\<rparr>;
          s = s\<lparr>driver := register_dest_port size_first tid (register_queue_id size_first tid (driver s))\<rparr>;
          s = (if init_count s \<le> int (unat (nb_queues (driver s)))
               then let (q, p, s) = thread_ids tid s in s\<lparr>flows := flows s @ [(q, p)]\<rparr> else s);
          (p, dr) = get_dest_port tid (driver s);
          s = s\<lparr>driver := dr\<rparr>
      in d\<lparr>db_link := s\<lparr>cpus := cpus s @ [(tid, unat p + 1)]\<rparr>\<rparr>)"

section \<open>Messages\<close>

definition rdma_recv :: "16 word \<Rightarrow> frontend \<Rightarrow> db_error + (bytes \<times> frontend)" where
  "rdma_recv queue_id s = (case next_mbuf (recv_queue (driver s) (unat queue_id)) (arriving s queue_id) of
     None \<Rightarrow> Inl Blocked
   | Some (mbuf, rq, net) \<Rightarrow> ok (need (unpack mbuf 1472)) (\<lambda>(msg, _).
       Inr (msg, s\<lparr>driver := (driver s)\<lparr>recv_queue := (recv_queue (driver s))(unat queue_id := rq)\<rparr>,
         arriving := (arriving s)(queue_id := net)\<rparr>)))"

text \<open>\<open>recv_pkt; extract_msg_type; assert\<close>\<close>

definition rdma_expect :: "32 word \<Rightarrow> 16 word \<Rightarrow> frontend \<Rightarrow> db_error + (bytes \<times> frontend)" where
  "rdma_expect want queue_id s = ok (rdma_recv queue_id s) (\<lambda>(msg, s).
     ok (need (rdma_extract_msg_type msg)) (\<lambda>(msg_type, msg).
       if msg_type \<noteq> want then Inl (Assertion msg_type) else Inr (msg, s)))"

text \<open>\<open>remove_key_index_prefix\<close>, which throws on a short key and may return a number that was not set.\<close>

definition key_number :: "string \<Rightarrow> db_error + 64 word" where
  "key_number key_index = (if length key_index < 13 then Inl (Thrown ''basic_string::substr'')
     else need (remove_key_index_prefix key_index))"

definition rdma_Read :: "nat \<Rightarrow> string \<Rightarrow> string \<Rightarrow> fields \<Rightarrow> rdma_db \<Rightarrow> db_error + (fields \<times> rdma_db)" where
  "rdma_Read tid table key result d =
     (let key_index = table_key table key; (queue_id, dest_port, s) = thread_ids tid (db_link d) in
      ok (key_number key_index) (\<lambda>num.
      ok (db_send (rdma_inject_msg_type 0x0527 @ inject_fbt_hdr num @ inject_key_index key_index) dest_port queue_id s) (\<lambda>s.
      ok (rdma_expect 0x0529 queue_id s) (\<lambda>(msg, s).
      ok (need (set_values msg result)) (\<lambda>result. Inr (result, d\<lparr>db_link := s\<rparr>))))))"

definition rdma_Update :: "nat \<Rightarrow> string \<Rightarrow> string \<Rightarrow> fields \<Rightarrow> rdma_db \<Rightarrow> db_error + rdma_db" where
  "rdma_Update tid table key values d =
     (let key_index = table_key table key; (queue_id, dest_port, s) = thread_ids tid (db_link d) in
      ok (key_number key_index) (\<lambda>num.
      ok (db_send (rdma_inject_msg_type 0x0531 @ inject_fbt_hdr num @ inject_key_index key_index @ inject_values values)
            dest_port queue_id s) (\<lambda>s.
      ok (rdma_expect 0x0530 queue_id s) (\<lambda>(_, s). Inr (d\<lparr>db_link := s\<rparr>)))))"

definition rdma_insert_msg :: "string \<Rightarrow> fields \<Rightarrow> bytes" where
  "rdma_insert_msg key_index values = rdma_inject_msg_type 0x0526 @ inject_key_index key_index @ inject_values values"

definition rdma_Insert :: "nat \<Rightarrow> string \<Rightarrow> string \<Rightarrow> fields \<Rightarrow> rdma_db \<Rightarrow> db_error + rdma_db" where
  "rdma_Insert tid table key values d =
     (let key_index = table_key table key; (queue_id, dest_port, s) = thread_ids tid (db_link d) in
      ok (db_send (rdma_insert_msg key_index values) dest_port queue_id s) (\<lambda>s.
      ok (rdma_expect 0x0528 queue_id s) (\<lambda>(_, s). Inr (d\<lparr>db_link := s\<rparr>))))"

definition rdma_Scan :: "string \<Rightarrow> string \<Rightarrow> int \<Rightarrow> rdma_db \<Rightarrow> db_error + (fields list \<times> rdma_db)" where
  "rdma_Scan table key len d = Inl (Thrown ''Scan: function not implemented!'')"

definition rdma_Delete :: "string \<Rightarrow> string \<Rightarrow> rdma_db \<Rightarrow> db_error + rdma_db" where
  "rdma_Delete table key d = Inl (Thrown ''Delete: function not implemented!'')"

text \<open>\<open>setup\<close> is what \<open>rdma_client_setup\<close> returns; the assertion on it is the one with number 0.\<close>

definition rdma_Load2Switch :: "int \<Rightarrow> string list \<Rightarrow> rdma_db \<Rightarrow> db_error + (string list \<times> rdma_db)" where
  "rdma_Load2Switch setup cin d =
     ok (db_send (rdma_inject_msg_type 0x0600) 0 0 (db_link d)) (\<lambda>s.
     ok (rdma_expect 0x0601 0 s) (\<lambda>(_, s).
       if setup \<noteq> 0 then Inl (Assertion 0)
       else ok (wait_done cin) (\<lambda>cin. Inr (cin, d\<lparr>db_link := s\<rparr>))))"

section \<open>One-sided reads\<close>

text \<open>
  A read into \<open>remote_node\<close>. When it fails the buffer keeps what it had; the caller does not look
  at the result.
\<close>

definition read_remote_node :: "(64 word \<times> 32 word \<Rightarrow> fixed_string rnode option) \<Rightarrow> 32 word \<Rightarrow> 64 word \<Rightarrow> 64 word
    \<Rightarrow> fixed_string rnode \<Rightarrow> fixed_string rnode" where
  "read_remote_node net stag addr fbt_key nd =
     (case net (if addr = 0 then (fbt_key, 0) else (addr, stag)) of None \<Rightarrow> nd | Some nd \<Rightarrow> nd)"

text \<open>
  \<open>while (!remote_node.isValue)\<close>. A pointer in the server's memory is an index here, and \<open>adr\<close>
  gives its address; \<open>None\<close> is a pointer that was never written, or a walk without an end.
\<close>

partial_function (option) rdma_chase :: "(64 word \<times> 32 word \<Rightarrow> fixed_string rnode option) \<Rightarrow> 32 word \<Rightarrow> (nat \<Rightarrow> 64 word)
    \<Rightarrow> fixed_string \<Rightarrow> fixed_string rnode \<Rightarrow> nat \<Rightarrow> (fixed_string rnode \<times> nat) option" where
  "rdma_chase net stag adr key_index nd count =
     (if r_isValue nd then Some (nd, count)
      else do {
        n \<leftarrow> r_child_at nd (lower_bound (fa_list (r_key nd)) key_index);
        rdma_chase net stag adr key_index (read_remote_node net stag (adr n) 0 nd) (count + 1) })"

definition rdma_RDMARead :: "(64 word \<times> 32 word \<Rightarrow> fixed_string rnode option) \<Rightarrow> 32 word \<Rightarrow> (nat \<Rightarrow> 64 word)
    \<Rightarrow> string \<Rightarrow> string \<Rightarrow> fields \<Rightarrow> rdma_db \<Rightarrow> db_error + (fields \<times> rdma_db)" where
  "rdma_RDMARead net stag adr table key result d =
     ok (need (new_fixed KEY_LEN (table_key table key))) (\<lambda>key_index.
     ok (key_number (table_key table key)) (\<lambda>num.
     ok (need (rdma_chase net stag adr key_index (read_remote_node net stag 0 num (remote_node d)) 1)) (\<lambda>(nd, count).
     ok (need (do { v \<leftarrow> val_read nd; fa_to_vector v })) (\<lambda>kvs.
       Inr (result @ kvs, d\<lparr>remote_node := nd, read_count := read_count d @ [count]\<rparr>)))))"

end
