(* ===== verification/Rdma_System.thy ===== *)
theory Rdma_System
  imports Rdma_Client
begin

text \<open>
  Server, switch and client of the RDMA path together: what the server's memory holds after the
  loading phase, what it hands to the switch, and what a one-sided read finds.
\<close>

section \<open>Keys\<close>

lemma schar_ascii: "(of_char c :: nat) < 128 \<Longrightarrow> schar c = int (of_char c)"
proof -
  assume c: "(of_char c :: nat) < 128"
  have "schar c = signed_take_bit 7 (int (of_char c))"
    unfolding schar_def by (simp add: signed_of_nat)
  also have "\<dots> = int (of_char c)" using c by (intro signed_take_bit_int_eq_self) auto
  finally show ?thesis .
qed

lemma fixed_less_ascii: "ascii x \<Longrightarrow> ascii y \<Longrightarrow> fixed_less x y \<longleftrightarrow> x < y"
proof (induction x y rule: fixed_less.induct)
  case (1 x xs y ys)
  then show ?case by (auto simp: ascii_def schar_ascii less_char_def)
next
  case (2 ys)
  then show ?case by (cases ys) auto
qed simp

lemma digits_ascii: "list_all is_digit ds \<Longrightarrow> ascii ds"
  by (auto simp: ascii_def list_all_iff is_digit_def)

lemma ycsb_ascii: "ascii (ycsb_key n)"
proof -
  have "ascii (''usertableuser'' @ replicate z (CHR ''0'') @ to_string m)" for z m
    using digits_ascii [OF padded_digits [of z m]] by (simp add: ascii_def)
  then show ?thesis by (simp add: ycsb_key_def table_key_def BuildKeyName_def Let_def)
qed

lemma ycsb_length: "length (ycsb_key n) = 33"
proof -
  have "unat n < 2 ^ 64" using unsigned_less [of n] by simp
  then have "unat n < 10 ^ 20" by simp
  then have "length (to_string (unat n)) \<le> 20" by (rule length_to_string) simp
  then show ?thesis by (simp add: ycsb_key_def table_key_def BuildKeyName_def Let_def)
qed

text \<open>The order of the keys in the tree is that of their numbers.\<close>

definition is_rkey :: "fixed_string \<Rightarrow> bool" where
  "is_rkey k \<longleftrightarrow> is_ycsb (fixed_to_string k)"

lemma rkey_order: "Fixed (ycsb_key a) < Fixed (ycsb_key b) \<longleftrightarrow> a < b"
  by (simp add: less_fixed_string_def fixed_less_ascii ycsb_ascii ycsb_order)

lemma rkey_number [simp]: "rdma_number (Fixed (ycsb_key n)) = Some n"
  by (simp add: rdma_number_def fixed_to_string_def)

lemma is_rkeyE: "is_rkey k \<Longrightarrow> (\<And>n. k = Fixed (ycsb_key n) \<Longrightarrow> P) \<Longrightarrow> P"
  unfolding is_rkey_def fixed_to_string_def by (cases k) (auto elim: is_ycsbE)

lemma rkey_above: "Fixed [] \<le> k" "k \<noteq> Fixed [] \<Longrightarrow> Fixed [] < k"
proof -
  obtain cs where k: "k = Fixed cs" by (cases k)
  show "Fixed [] \<le> k" "k \<noteq> Fixed [] \<Longrightarrow> Fixed [] < k"
    by (cases cs; simp add: k less_eq_fixed_string_def less_fixed_string_def)+
qed

lemma rkey_tree:
  assumes "all_keys is_rkey t"
  shows "above_empty t (Fixed [])" "keys_encode rdma_number t"
proof -
  have y: "\<exists>m. k = Fixed (ycsb_key m)" if "k \<in> set (nkey (pool t n))" for n k
    using assms that is_rkeyE [of k] unfolding all_keys_def by blast
  have ne: "ycsb_key m \<noteq> []" for m using ycsb_length [of m] by auto
  show "above_empty t (Fixed [])" unfolding above_empty_def
    using y rkey_above(2) ne by (metis fixed_string.inject)
  show "keys_encode rdma_number t" unfolding keys_encode_def tree_key_def
    using y rkey_number by (metis option.distinct(1))
qed

lemma lower_bound_rkey:
  assumes "\<And>k. k \<in> set ks \<Longrightarrow> is_rkey k" "those (map rdma_number ks) = Some ws"
  shows "lower_bound ws w = lower_bound ks (Fixed (ycsb_key w))"
proof -
  have "ks = map (\<lambda>n. Fixed (ycsb_key n)) ws"
    using assms
  proof (induction ks arbitrary: ws)
    case (Cons k ks)
    obtain n where "k = Fixed (ycsb_key n)" using Cons.prems(1) is_rkeyE by (metis list.set_intros(1))
    with Cons show ?case by (auto split: option.splits)
  qed simp
  then show ?thesis using lower_bound_map [of ws "\<lambda>n. Fixed (ycsb_key n)" w] rkey_order by simp
qed

section \<open>Walking in the server's memory\<close>

text \<open>Every used node can be read by its address.\<close>

definition readable :: "(64 word \<times> 32 word \<Rightarrow> fixed_string rnode option) \<Rightarrow> 32 word \<Rightarrow> (nat \<Rightarrow> 64 word)
    \<Rightarrow> nat \<Rightarrow> fixed_string rtree \<Rightarrow> bool" where
  "readable net stag adr n r \<longleftrightarrow> (\<forall>i < n. adr i \<noteq> 0 \<and> net (adr i, stag) = Some (rpool r i))"

lemma chase_follows_walk:
  assumes sim: "tree_sim r t" and T: "tidy None t" and net: "readable net stag adr (nb_node t) r"
  shows "counts_only t s \<Longrightarrow> n < nb_node t \<Longrightarrow> walk f c s n k = Some (u, v)
    \<Longrightarrow> \<exists>m. rdma_chase net stag adr k (rpool r n) count = Some (rpool r v, m) \<and> v < nb_node t"
proof (induction f arbitrary: s n count)
  case (Suc f)
  note eq = counts_only_pool [OF Suc.prems(1)]
  show ?case
  proof (cases "isValue (pool s n)")
    case True
    then have "v = n" using Suc.prems(3) by simp
    then show ?thesis
      using True Suc.prems(2) by (simp add: rdma_chase.simps [of net stag adr k "rpool r n"] sim_node [OF sim] eq)
  next
    case False
    let ?s = "if c then s\<lparr>nb_access := nb_access s + 1\<rparr> else s"
    obtain d where d: "next_child ?s n k = Some d"
      "walk f c (upd_node d (\<lambda>n. n\<lparr>access_count := access_count n + 1\<rparr>) ?s) d k = Some (u, v)"
      using Suc.prems(3) False by (auto simp: Let_def split: bind_splits)
    have "counts_only t ?s" using counts_only_trans [OF Suc.prems(1) counts_only_globals(1)] Suc.prems(1) by simp
    then have ct: "counts_only t (upd_node d (\<lambda>n. n\<lparr>access_count := access_count n + 1\<rparr>) ?s)"
      by (rule counts_only_trans [OF _ counts_only_node])
    have sh: "next_child ?s n k = next_child t n k"
      using same_shapeD(3) [OF counts_only_shape [OF Suc.prems(1)]] by (simp add: next_child_def)
    have nt: "next_child t n k = Some d" using d(1) unfolding sh .
    then have dn: "d < nb_node t" using tidyD(4) [OF T] nth_mem by (fastforce simp: next_child_def dest!: nth_opt_SomeE)
    have ch: "r_child_at (rpool r n) (lower_bound (fa_list (r_key (rpool r n))) k) = Some d"
      using sim_next_child [OF sim nt] by (simp add: r_next_child_def)
    have rd: "read_remote_node net stag (adr d) 0 nd = rpool r d" for nd
      using net dn by (simp add: readable_def read_remote_node_def)
    have "\<not> r_isValue (rpool r n)" using False by (simp add: sim_node [OF sim] eq)
    then show ?thesis
      using Suc.IH [OF ct dn d(2), of "count + 1"] ch rd
      by (simp add: rdma_chase.simps [of net stag adr k "rpool r n"])
  qed
qed simp

text \<open>A walk that begins on the way to a key finds the record, and so does a read that enters there.\<close>

lemma chase_finds:
  assumes sim: "tree_sim r t" and w: "tree_wf tree_M t" and T: "tidy None t"
    and net: "readable net stag adr (nb_node t) r" and n: "n \<in> set (route t k)" and x: "contents t k = Some x"
  shows "\<exists>v c y. rdma_chase net stag adr k (rpool r n) count = Some (v, c) \<and> val_read v = Some y \<and> fa_ok y \<and> fa_list y = x"
proof -
  from w obtain R rk kv where I: "inv_at [] t R rk kv" by (auto simp: tree_wf_def tree_inv_def)
  obtain v where v: "holds t k v" "nval (pool t v) = x" using x contents_iff [OF I] by blast
  have r: "tree_node t n" "in_range (R n) k" using n on_route_iff [OF I] by auto
  obtain u where u: "walk (Suc (nb_node t)) False t n k = Some (u, v)" "counts_only t u"
    using walk_value_of [OF I r, of False] value_of_holds [OF I v(1)] by (auto simp del: walk.simps)
  have nn: "n < nb_node t" using r(1) by (simp add: tree_node_def)
  obtain c where "rdma_chase net stag adr k (rpool r n) count = Some (rpool r v, c)"
    using chase_follows_walk [OF sim T net counts_only_refl nn u(1)] by blast
  moreover have "isValue (pool t v)" using walk_counts_only [OF u(1)] counts_only_pool(2) [OF u(2)] by simp
  ultimately show ?thesis using simD(1) [OF sim, of v] v(2) by (auto simp: node_sim_def)
qed

lemma rdma_read_finds:
  assumes sim: "tree_sim r t" and w: "tree_wf tree_M t" and T: "tidy None t"
    and net: "readable net stag adr (nb_node t) r" and n: "n \<in> set (route t (Fixed (ycsb_key i)))"
    and first: "net (i, 0) = Some (rpool r n)" and x: "contents t (Fixed (ycsb_key i)) = Some x"
    and key: "table_key table key = ycsb_key i"
  obtains d' where "rdma_RDMARead net stag adr table key result d = Inr (result @ x, d')"
proof -
  let ?k = "Fixed (ycsb_key i)"
  obtain v c y where m: "rdma_chase net stag adr ?k (rpool r n) 1 = Some (v, c)" "val_read v = Some y" "fa_ok y" "fa_list y = x"
    using chase_finds [OF sim w T net n x] by blast
  have k: "new_fixed KEY_LEN (ycsb_key i) = Some ?k" by (simp add: new_fixed_def ycsb_length KEY_LEN_def)
  have nb: "key_number (ycsb_key i) = Inr i" using drop_ycsb(2) [of i] by (simp add: key_number_def)
  have rd: "read_remote_node net stag 0 i nd = rpool r n" for nd using first by (simp add: read_remote_node_def)
  show thesis
    by (rule that) (simp add: rdma_RDMARead_def key k nb rd m [unfolded One_nat_def] fa_to_vector_ok)
qed

section \<open>The loading phase\<close>

lemma length_rdma_type [simp]: "length (rdma_inject_msg_type t) = 4"
  by (simp add: rdma_inject_msg_type_def)

text \<open>What the server's state stands for before anything has been handed to the switch.\<close>

definition rdma_holds :: "rdma_server \<Rightarrow> (fixed_string, fields) tree \<Rightarrow> bool" where
  "rdma_holds s t \<longleftrightarrow> tree_sim (rs_tree s) t \<and> tree_wf tree_M t \<and> tidy None t \<and> all_keys is_rkey t \<and> shallow_ok t"

text \<open>The part of it that holds at all times.\<close>

definition rdma_live :: "rdma_server \<Rightarrow> (fixed_string, fields) tree \<Rightarrow> bool" where
  "rdma_live s t \<longleftrightarrow> tree_sim (rs_tree s) t \<and> tree_wf tree_M t \<and> tidy None t \<and> all_keys is_rkey t"

lemma rdma_holds_live: "rdma_holds s t \<longleftrightarrow> rdma_live s t \<and> shallow_ok t"
  by (auto simp: rdma_holds_def rdma_live_def)

lemma rdma_holds_new: "rdma_holds (new_rdma_server input) (new_BPlusTree [])"
  using tree_wf_new [of tree_M]
  by (simp add: rdma_holds_def new_rdma_server_def sim_new tidy_new shallow_new all_keys_def)
     (simp add: new_BPlusTree_def new_Node_def)

lemma record_fits_fields: "record_fits v \<Longrightarrow> fields_fit v"
  by (auto simp: record_fits_def fields_fit_def field_fits_def pair_fits_def string_fits_def fixed_lengths list_all_iff)

lemma extract_key_sent: "is_ycsb k \<Longrightarrow> extract_key_fixed (inject_key_index k @ rest) = Some (Fixed k, rest)"
  using fixed_codec.dec_enc [of "Fixed k" rest]
  by (auto elim!: is_ycsbE simp: ycsb_length KEY_LEN_def inject_key_fixed_def inject_key_index_def inject_string_def)

text \<open>
  One insertion, at any time: the nodes that are not split in place stay on the way to every key,
  and the value nodes stay where they are.
\<close>

lemma rdma_insert_live:
  assumes h: "rdma_live s t" and k: "is_ycsb k" "contents t (Fixed k) = None" and v: "record_fits v" "distinct (map fst v)"
    and room: "6 * Suc (card (dom (contents t))) \<le> rdma_MAX_NODE_SIZE + 2"
  obtains s' t' where "rdma_step m (rdma_insert_msg k v @ pad, no) s
      = Some (s', [], [\<lparr>payload = rdma_inject_msg_type 0x0528, to_port = no, on_queue = 0\<rparr>])"
    "rdma_live s' t'" "contents t' = (contents t)(Fixed k \<mapsto> v)" "words_in s' = words_in s"
    "tree_insert tree_M rdma_MAX_NODE_SIZE t (Fixed k) v = Some t'"
    "\<And>n k'. steady tree_M None t n \<Longrightarrow> n \<in> set (route t k') \<Longrightarrow> n \<in> set (route t' k')"
    "\<And>k' v'. holds t k' v' \<Longrightarrow> holds t' k' v'" "\<And>n. pinned t' n = pinned t n"
    "\<exists>w. r_insert rdma_MAX_NODE_SIZE (rs_tree s) (Fixed k) w = Some (rs_tree s')"
proof -
  let ?mx = rdma_MAX_NODE_SIZE
  have M: "3 \<le> tree_M" by (simp add: tree_M_def)
  from h have t: "tree_sim (rs_tree s) t" "tree_wf tree_M t" "tidy None t" "all_keys is_rkey t"
    by (auto simp: rdma_live_def)
  from t(2) obtain R rk kv where I: "inv_at [] t R rk kv" by (auto simp: tree_wf_def tree_inv_def)
  have un: "nval (pool t (nb_node t)) = []" using inv_unused [OF I, of "nb_node t"] by (simp add: unused_def)
  have rm: "insert_room ?mx t (Fixed k)" using room by (intro room_for_next [OF t(2)]) simp
  obtain t' where t': "tree_insert tree_M ?mx t (Fixed k) v = Some t'" "tree_wf tree_M t'"
    "contents t' = (contents t)(Fixed k \<mapsto> update_field_table v [])" "\<And>n. pinned t' n = pinned t n"
    "\<And>n k'. steady tree_M None t n \<Longrightarrow> n \<in> set (route t k') \<Longrightarrow> n \<in> set (route t' k')"
    "\<And>k' v'. holds t k' v' \<Longrightarrow> holds t' k' v'"
    by (rule tree_insert_steady [OF t(2) M k(2) rm, of v]) blast
  have c: "contents t' = (contents t)(Fixed k \<mapsto> v)"
    using update_field_table_distinct [of v "[]"] v(2) by (simp add: t'(3))
  define w where "w = \<lparr>fa_size = length v, fa_val = v @ drop (length v) unset_values\<rparr>"
  have w: "fa_ok w" "fa_list w = v" by (simp_all add: w_def fa_ok_def fa_list_def)
  obtain r' where r': "r_insert ?mx (rs_tree s) (Fixed k) w = Some r'" "tree_sim r' t'" "tidy None t'"
    using sim_insert [OF t(1,3), of ?mx "Fixed k" w t'] t'(1) w un v(2) by auto
  have ak: "all_keys is_rkey t'" by (rule tree_insert_keys [OF t'(1) t(4)]) (simp add: is_rkey_def fixed_to_string_def k(1))
  have e: "extract_values_fixed (inject_values v @ pad) = Some (w, pad)"
    using extract_inject_values_fixed [OF record_fits_fields [OF v(1)], of pad] v(1) by (simp add: w_def)
  define s' where "s' = s\<lparr>msg_out := msg_out s @ k # map (\<lambda>kv. fst kv @ '' '' @ snd kv) v, rs_tree := r'\<rparr>"
  have "rdma_handle_insert (inject_key_index k @ inject_values v @ pad) no s
    = Some (s', [\<lparr>payload = rdma_inject_msg_type 0x0528, to_port = no, on_queue = 0\<rparr>])"
    using r'(1) by (simp add: rdma_handle_insert_def extract_key_sent [OF k(1)] e fa_to_vector_ok w s'_def
        fixed_to_string_def reply_def Let_def)
  then have "rdma_step m (rdma_insert_msg k v @ pad, no) s
      = Some (s', [], [\<lparr>payload = rdma_inject_msg_type 0x0528, to_port = no, on_queue = 0\<rparr>])"
    by (simp add: rdma_step_def rdma_insert_msg_def)
  moreover have "rdma_live s' t'" using r'(2,3) t'(2) ak by (simp add: rdma_live_def s'_def)
  moreover have "words_in s' = words_in s" "rs_tree s' = r'" by (simp_all add: s'_def)
  ultimately show thesis using that c t'(1,4-6) r'(1) by blast
qed

lemma rdma_insert_step:
  assumes h: "rdma_holds s t" and k: "is_ycsb k" "contents t (Fixed k) = None" and v: "record_fits v" "distinct (map fst v)"
    and room: "6 * Suc (card (dom (contents t))) \<le> rdma_MAX_NODE_SIZE + 2"
  obtains s' t' where "rdma_step m (rdma_insert_msg k v @ pad, no) s
      = Some (s', [], [\<lparr>payload = rdma_inject_msg_type 0x0528, to_port = no, on_queue = 0\<rparr>])"
    "rdma_holds s' t'" "contents t' = (contents t)(Fixed k \<mapsto> v)" "words_in s' = words_in s"
proof -
  from h have h': "rdma_live s t" "shallow_ok t" by (simp_all add: rdma_holds_live)
  obtain s' t' where s': "rdma_step m (rdma_insert_msg k v @ pad, no) s
      = Some (s', [], [\<lparr>payload = rdma_inject_msg_type 0x0528, to_port = no, on_queue = 0\<rparr>])"
    "rdma_live s' t'" "contents t' = (contents t)(Fixed k \<mapsto> v)" "words_in s' = words_in s"
    "tree_insert tree_M rdma_MAX_NODE_SIZE t (Fixed k) v = Some t'"
    by (rule rdma_insert_live [OF h'(1) k v room])
  have "shallow_ok t'" by (rule shallow_insert [OF s'(5) h'(2)]) (simp add: rdma_MAX_NODE_SIZE_def)
  with s' that show thesis by (simp add: rdma_holds_live)
qed

text \<open>The records a client loads: different keys, no field twice, and all within the fixed sizes.\<close>

definition loadable :: "(string \<times> fields) list \<Rightarrow> bool" where
  "loadable kvs \<longleftrightarrow> distinct (map fst kvs) \<and> (\<forall>(k, v) \<in> set kvs. is_ycsb k \<and> record_fits v \<and> distinct (map fst v))"

lemma loadable_distinct: "loadable kvs \<Longrightarrow> distinct (map fst (map (\<lambda>(k, v). (Fixed k, v)) kvs))"
  by (auto simp: loadable_def distinct_map inj_on_def split_def)

lemma loadable_find: "loadable kvs \<Longrightarrow> (k, v) \<in> set kvs \<Longrightarrow> map_of (map (\<lambda>(k, v). (Fixed k, v)) kvs) (Fixed k) = Some v"
  by (rule map_of_is_SomeI [OF loadable_distinct]) force+

lemma rdma_load_run:
  assumes "rdma_holds s t" "loadable kvs" "\<And>k. k \<in> fst ` set kvs \<Longrightarrow> contents t (Fixed k) = None"
    and "6 * (card (dom (contents t)) + length kvs) \<le> rdma_MAX_NODE_SIZE + 2"
    and "list_all2 (\<lambda>(k, v) pkt. \<exists>pad. fst pkt = rdma_insert_msg k v @ pad) kvs pkts"
  shows "\<exists>s' t' outs. rdma_run m pkts s = Some (s', [], outs) \<and> rdma_holds s' t' \<and> words_in s' = words_in s
    \<and> contents t' = contents t ++ map_of (map (\<lambda>(k, v). (Fixed k, v)) kvs) \<and> length outs = length kvs"
  using assms
proof (induction kvs arbitrary: s t pkts)
  case (Cons kv kvs)
  obtain k v where kv: "kv = (k, v)" by (cases kv)
  obtain pad no pkts' where p: "pkts = (rdma_insert_msg k v @ pad, no) # pkts'"
    "list_all2 (\<lambda>(k, v) pkt. \<exists>pad. fst pkt = rdma_insert_msg k v @ pad) kvs pkts'"
    using Cons.prems(5) by (auto simp: kv list_all2_Cons1)
  have l: "is_ycsb k" "record_fits v" "distinct (map fst v)" "loadable kvs" "k \<notin> fst ` set kvs"
    using Cons.prems(2) by (auto simp: kv loadable_def)
  have k: "contents t (Fixed k) = None" using Cons.prems(3) by (simp add: kv)
  have rm: "6 * Suc (card (dom (contents t))) \<le> rdma_MAX_NODE_SIZE + 2" using Cons.prems(4) by simp
  obtain s1 t1 where s1: "rdma_step m (rdma_insert_msg k v @ pad, no) s
      = Some (s1, [], [\<lparr>payload = rdma_inject_msg_type 0x0528, to_port = no, on_queue = 0\<rparr>])"
    "rdma_holds s1 t1" "contents t1 = (contents t)(Fixed k \<mapsto> v)" "words_in s1 = words_in s"
    by (rule rdma_insert_step [OF Cons.prems(1) l(1) k l(2,3) rm])
  have n: "contents t1 (Fixed k') = None" if "k' \<in> fst ` set kvs" for k'
    using that Cons.prems(3) l(5) by (auto simp: s1(3) kv)
  have "finite (dom (contents t))" by (simp add: contents_def finite_dom_map_of)
  then have "card (dom (contents t1)) \<le> Suc (card (dom (contents t)))" by (simp add: s1(3) card_insert_if)
  then have r1: "6 * (card (dom (contents t1)) + length kvs) \<le> rdma_MAX_NODE_SIZE + 2" using Cons.prems(4) by simp
  obtain s' t' outs where s': "rdma_run m pkts' s1 = Some (s', [], outs)" "rdma_holds s' t'" "words_in s' = words_in s1"
    "contents t' = contents t1 ++ map_of (map (\<lambda>(k, v). (Fixed k, v)) kvs)" "length outs = length kvs"
    using Cons.IH [OF s1(2) l(4) n r1 p(2)] by blast
  have "Fixed k \<notin> dom (map_of (map (\<lambda>(k, v). (Fixed k, v)) kvs))"
    using l(5) by (auto simp: domIff map_of_eq_None_iff image_image split_def)
  then have "contents t' = contents t ++ map_of (map (\<lambda>(k, v). (Fixed k, v)) (kv # kvs))"
    by (auto simp: fun_eq_iff s'(4) s1(3) kv map_add_def split: option.splits)
  moreover have "rdma_run m pkts s = Some (s', [], \<lparr>payload = rdma_inject_msg_type 0x0528, to_port = no, on_queue = 0\<rparr> # outs)"
    using s'(1) s1(1) by (simp add: p(1))
  moreover have "words_in s' = words_in s" using s'(3) s1(4) by simp
  ultimately show ?case using s'(2,5) by (metis length_Cons)
qed auto


section \<open>Loading the switch\<close>

definition machine_ok :: "rdma_machine \<Rightarrow> bool" where
  "machine_ok m \<longleftrightarrow> setup_result m = 0 \<and> (\<forall>s q. q \<noteq> [] \<longrightarrow> top_node m s q \<in> set q)
     \<and> (\<forall>s xs. set (busiest_first m s xs) = set xs) \<and> 0 < rnode_size m \<and> pool_base m \<noteq> 0
     \<and> unat (pool_base m) + rdma_MAX_NODE_SIZE * rnode_size m < 2 ^ 48"

abbreviation pool_address :: "rdma_machine \<Rightarrow> nat \<Rightarrow> 64 word" where
  "pool_address m \<equiv> r_address (pool_base m) (rnode_size m)"

lemma r_node_of_address:
  assumes "machine_ok m" "n < rdma_MAX_NODE_SIZE"
  shows "pool_address m n \<noteq> 0" "r_node_of m (pool_address m n) = Some (Some n)"
proof -
  let ?sz = "rnode_size m"
  have m: "0 < ?sz" "pool_base m \<noteq> 0" "unat (pool_base m) + rdma_MAX_NODE_SIZE * ?sz < 2 ^ 48"
    using assms(1) by (simp_all add: machine_ok_def)
  have "n * ?sz \<le> rdma_MAX_NODE_SIZE * ?sz" using assms(2) by (intro mult_le_mono1) simp
  then have lt: "unat (pool_base m) + n * ?sz < 2 ^ 48" using m(3) by linarith
  then have u: "unat (of_nat (n * ?sz) :: 64 word) = n * ?sz" by (simp add: unat_of_nat del: of_nat_mult)
  have "unat (pool_address m n) = unat (pool_base m) + n * ?sz"
    unfolding r_address_def using lt u by (simp add: unat_word_ariths del: of_nat_mult)
  moreover have "0 < unat (pool_base m)" using m(2) by (simp add: unat_gt_0)
  ultimately show ne: "pool_address m n \<noteq> 0" by auto
  have "unat (pool_address m n - pool_base m) = n * ?sz" by (simp add: r_address_def u del: of_nat_mult)
  then show "r_node_of m (pool_address m n) = Some (Some n)"
    using ne m(1) assms(2) by (simp add: r_node_of_def)
qed

lemma tidy_marks: "marks t u \<Longrightarrow> tidy c u = tidy c t"
  by (simp add: tidy_def marks_def same_shape_def)

lemma rdma_load_step:
  assumes h: "rdma_holds s t" and n: "256 < card (dom (contents t))" and m: "machine_ok m"
    and inp: "until_done (words_in s) = Some input'" "until_done input' = Some input''"
  obtains s' t' i infos where "rdma_step m (rdma_inject_msg_type 0x0600 @ pad, no) s
      = Some (s', i # infos, [\<lparr>payload = rdma_inject_msg_type 0x601, to_port = 0, on_queue = 0\<rparr>])"
    "tree_sim (rs_tree s') t'" "marks t t'" "\<And>j. j \<in> set (i # infos) \<Longrightarrow> r_marked (pool_base m) (rnode_size m) (rs_tree s') j"
    "length (info_child i) \<le> rdma_root_load_num"
    "\<And>w. \<exists>c. info_route i w = pool_address m c \<and> c < nb_node t \<and> c \<in> set (route t (Fixed (ycsb_key w)))
       \<and> info_route i w \<in> set (info_child i)"
proof -
  from h have t: "tree_sim (rs_tree s) t" "tree_wf tree_M t" "all_keys is_rkey t" "shallow_ok t"
    by (auto simp: rdma_holds_def)
  define t0 where "t0 = t\<lparr>nb_query := 0, nb_access := 0\<rparr>"
  define r0 where "r0 = (rs_tree s)\<lparr>r_nb_query := 0, r_nb_access := 0\<rparr>"
  have sim: "tree_sim r0 t0" using t(1) by (simp add: tree_sim_def t0_def r0_def)
  have mk: "marks t t0" by (simp add: marks_def same_shape_def t0_def)
  note w = marks_wf [OF t(2) mk]
  have ak: "all_keys is_rkey t0" using t(3) marks_all_keys [OF mk] by simp
  have "3 \<le> unat (depth t)" by (rule many_records_deep [OF t(2,4)]) (use n in \<open>simp_all add: tree_M_def\<close>)
  then have d: "2 \<le> unat (depth t0)" "0 < rdma_root_load_depth" "rdma_root_load_depth \<le> depth t0"
    by (simp_all add: t0_def rdma_root_load_depth_def word_le_nat_alt)
  have lf: "\<not> isLeaf (pool t0 0)" using leaf_root_small [OF t(2)] n by (auto simp: t0_def tree_M_def)
  have p: "\<And>q. q \<noteq> [] \<Longrightarrow> top_node m r0 q \<in> set q" "\<And>s xs. set (busiest_first m s xs) = set xs"
    using m by (auto simp: machine_ok_def)
  obtain r' t' ks ns ws i infos where g:
    "r_load2switch_greedy rdma_number (Fixed []) (top_node m) (busiest_first m) (pool_base m) (rnode_size m) r0
       rdma_root_load_num rdma_root_load_depth regular_load_num (- 1) = Some (r', i # infos)"
    "tree_sim r' t'" "marks t0 t'" "\<forall>j \<in> set (i # infos). r_marked (pool_base m) (rnode_size m) r' j"
    "length ns = Suc (length ks)" "length ns \<le> max 1 rdma_root_load_num" "sorted ks" "\<forall>k. ns ! lower_bound ks k \<in> set (route t0 k)"
    "\<forall>k \<in> set ks. tree_key t0 k" "set ns \<subseteq> {..<nb_node t0}" "those (map rdma_number ks) = Some ws"
    "info_keys i = (0, 0) # map key_halves ws" "info_child i = map (pool_address m) ns"
    by (rule r_greedy_total [where r = r0 and t = t0 and enc = rdma_number and ?k0.0 = "Fixed []" and pick = "top_node m"
      and srt = "busiest_first m" and base = "pool_base m" and sz = "rnode_size m" and bound = rdma_root_load_num
      and rd = rdma_root_load_depth and m = regular_load_num and rld = "- 1",
      OF sim w(1) rkey_tree(1) [OF ak] rkey_above(1) p lf d rkey_tree(2) [OF ak]])
  define s' where "s' = s\<lparr>rs_tree := r', words_in := input''\<rparr>"
  have run: "rdma_step m (rdma_inject_msg_type 0x0600 @ pad, no) s
      = Some (s', i # infos, [\<lparr>payload = rdma_inject_msg_type 0x601, to_port = 0, on_queue = 0\<rparr>])"
    using inp g(1) m by (simp add: rdma_step_def rdma_handle_load2switch_def rdma_load_def reply_def
        machine_ok_def s'_def r0_def Let_def)
  have rt: "route t0 = route t" using same_shape_route [of t t0] mk by (simp add: fun_eq_iff marks_def)
  have route: "\<exists>c. info_route i w = pool_address m c \<and> c < nb_node t \<and> c \<in> set (route t (Fixed (ycsb_key w)))
       \<and> info_route i w \<in> set (info_child i)" for w
  proof -
    have rk: "is_rkey k" if "k \<in> set ks" for k
      using g(9) that ak by (auto simp: tree_key_def all_keys_def)
    have "map join_halves (tl (info_keys i)) = ws" by (simp add: g(12) comp_def)
    then have lb: "lower_bound (map join_halves (tl (info_keys i))) w = lower_bound ks (Fixed (ycsb_key w))"
      using lower_bound_rkey [OF rk g(11), of w] by simp
    let ?j = "lower_bound ks (Fixed (ycsb_key w))"
    have "?j < length ns"
      using lower_bound_spec(1) [OF g(7)] by (simp add: g(5) less_Suc_eq_le)
    then have "info_route i w = pool_address m (ns ! ?j)" "ns ! ?j \<in> set ns"
      by (simp_all add: info_route_def lb g(13))
    then show ?thesis using g(8,10,13) rt marks_nb [OF mk] by auto
  qed
  have "length (info_child i) \<le> rdma_root_load_num" using g(6) by (simp add: g(13) rdma_root_load_num_def)
  with that [OF run] g(2,4) marks_trans [OF mk g(3)] route show thesis by (simp add: s'_def)
qed


section \<open>Reading after loading\<close>

lemma fabric_readable:
  assumes m: "machine_ok m" and n: "nb_node t \<le> rdma_MAX_NODE_SIZE" and k: "stag \<noteq> 0"
  shows "readable (rdma_fabric m i stag stag r) stag (pool_address m) (nb_node t) r"
  using r_node_of_address [OF m] n k by (simp add: readable_def fabric_reads pool_memory_def)

lemma rdma_system_loaded:
  assumes m: "machine_ok m" and l: "loadable kvs" "256 < length kvs" "6 * length kvs \<le> rdma_MAX_NODE_SIZE + 2"
    and pk: "list_all2 (\<lambda>(k, v) pkt. \<exists>pad. fst pkt = rdma_insert_msg k v @ pad) kvs pkts"
    and ld: "fst load_pkt = rdma_inject_msg_type 0x0600 @ pad"
    and inp: "until_done input = Some input'" "until_done input' = Some input''"
  obtains s t i infos outs where "rdma_run m (pkts @ [load_pkt]) (new_rdma_server input) = Some (s, i # infos, outs)"
    "\<forall>j \<in> set (i # infos). r_marked (pool_base m) (rnode_size m) (rs_tree s) j" "rdma_live s t"
    "contents t = map_of (map (\<lambda>(k, v). (Fixed k, v)) kvs)" "card (dom (contents t)) = length kvs"
    "nb_node t \<le> rdma_MAX_NODE_SIZE" "length (info_child i) \<le> rdma_root_load_num"
    "\<And>w. \<exists>c. info_route i w = pool_address m c \<and> c < nb_node t \<and> c \<in> set (route t (Fixed (ycsb_key w)))
       \<and> info_route i w \<in> set (info_child i)"
proof -
  have c0: "contents (new_BPlusTree [] :: (fixed_string, fields) tree) k = None" for k by (simp add: contents_new)
  have r: "6 * (card (dom (contents (new_BPlusTree [] :: (fixed_string, fields) tree))) + length kvs) \<le> rdma_MAX_NODE_SIZE + 2"
    using l(3) by (simp add: contents_new)
  obtain s1 t outs where s1: "rdma_run m pkts (new_rdma_server input) = Some (s1, [], outs)" "rdma_holds s1 t"
    "words_in s1 = input" "contents t = map_of (map (\<lambda>(k, v). (Fixed k, v)) kvs)"
    using rdma_load_run [OF rdma_holds_new l(1) c0 r pk, of m input] by (auto simp: contents_new new_rdma_server_def)
  have cd: "card (dom (contents t)) = length kvs"
    using distinct_card [OF loadable_distinct [OF l(1)]] by (simp add: s1(4) dom_map_of_conv_image_fst image_image)
  have big: "256 < card (dom (contents t))" using l(2) cd by simp
  obtain recv_no where lp: "load_pkt = (rdma_inject_msg_type 0x0600 @ pad, recv_no)" using ld by (cases load_pkt) auto
  have i1: "until_done (words_in s1) = Some input'" using inp(1) by (simp add: s1(3))
  obtain s t' i infos where s: "rdma_step m load_pkt s1
      = Some (s, i # infos, [\<lparr>payload = rdma_inject_msg_type 0x601, to_port = 0, on_queue = 0\<rparr>])"
    "tree_sim (rs_tree s) t'" "marks t t'" "\<And>j. j \<in> set (i # infos) \<Longrightarrow> r_marked (pool_base m) (rnode_size m) (rs_tree s) j"
    "length (info_child i) \<le> rdma_root_load_num"
    "\<And>w. \<exists>c. info_route i w = pool_address m c \<and> c < nb_node t \<and> c \<in> set (route t (Fixed (ycsb_key w)))
       \<and> info_route i w \<in> set (info_child i)"
    unfolding lp by (rule rdma_load_step [OF s1(2) big m i1 inp(2)]) blast
  have run: "rdma_run m (pkts @ [load_pkt]) (new_rdma_server input) = Some (s, i # infos,
      outs @ [\<lparr>payload = rdma_inject_msg_type 0x601, to_port = 0, on_queue = 0\<rparr>])"
    by (simp add: rdma_run_append s1(1) s(1))
  have t: "tree_wf tree_M t" "tidy None t" "all_keys is_rkey t" using s1(2) by (auto simp: rdma_holds_def)
  note w = marks_wf [OF t(1) s(3)]
  have L: "rdma_live s t'" using s(2) w(1) t(2,3) tidy_marks [OF s(3)] marks_all_keys [OF s(3)] by (simp add: rdma_live_def)
  have nb: "nb_node t' = nb_node t" "nb_node t \<le> rdma_MAX_NODE_SIZE"
    using marks_nb [OF s(3)] nb_node_bound [OF t(1)] l(2,3) cd by auto
  have rt: "route t' = route t" using same_shape_route [of t t'] s(3) by (simp add: fun_eq_iff marks_def)
  show thesis
    by (rule that [OF run _ L _ _ _ s(5)]) (use s(4,6) in \<open>auto simp: w(2) s1(4) cd [unfolded s1(4)] nb rt\<close>)
qed

lemma first_read:
  assumes m: "machine_ok m" and c: "info_route i n = pool_address m c" "c < rdma_MAX_NODE_SIZE"
  shows "rdma_fabric m i stag stag r (n, 0) = Some (rpool r c)"
  using r_node_of_address [OF m c(2)] c(1) by (simp add: fabric_reads pool_memory_def)

lemma rdma_system_reads:
  assumes m: "machine_ok m" and l: "loadable kvs" "256 < length kvs" "6 * length kvs \<le> rdma_MAX_NODE_SIZE + 2"
    and pk: "list_all2 (\<lambda>(k, v) pkt. \<exists>pad. fst pkt = rdma_insert_msg k v @ pad) kvs pkts"
    and ld: "fst load_pkt = rdma_inject_msg_type 0x0600 @ pad"
    and inp: "until_done input = Some input'" "until_done input' = Some input''" and stag: "stag \<noteq> 0"
  obtains s i infos outs where "rdma_run m (pkts @ [load_pkt]) (new_rdma_server input) = Some (s, i # infos, outs)"
    "\<forall>j \<in> set (i # infos). r_marked (pool_base m) (rnode_size m) (rs_tree s) j"
    "\<And>table key v d. (table_key table key, v) \<in> set kvs
       \<Longrightarrow> \<exists>d'. rdma_RDMARead (rdma_fabric m i stag stag (rs_tree s)) stag (pool_address m) table key [] d = Inr (v, d')"
proof (rule rdma_system_loaded [OF m l pk ld inp])
  fix s t i infos outs
  assume s: "rdma_run m (pkts @ [load_pkt]) (new_rdma_server input) = Some (s, i # infos, outs)"
    "\<forall>j \<in> set (i # infos). r_marked (pool_base m) (rnode_size m) (rs_tree s) j" "rdma_live s t"
    "contents t = map_of (map (\<lambda>(k, v). (Fixed k, v)) kvs)" "nb_node t \<le> rdma_MAX_NODE_SIZE"
    "\<And>w. \<exists>c. info_route i w = pool_address m c \<and> c < nb_node t \<and> c \<in> set (route t (Fixed (ycsb_key w)))
       \<and> info_route i w \<in> set (info_child i)"
  from s(3) have t: "tree_sim (rs_tree s) t" "tree_wf tree_M t" "tidy None t" by (auto simp: rdma_live_def)
  have "\<exists>d'. rdma_RDMARead (rdma_fabric m i stag stag (rs_tree s)) stag (pool_address m) table key [] d = Inr (v, d')"
    if kv: "(table_key table key, v) \<in> set kvs" for table key v d
  proof -
    have "is_ycsb (table_key table key)" using l(1) kv by (auto simp: loadable_def)
    then obtain n where n: "table_key table key = ycsb_key n" by (rule is_ycsbE)
    obtain c where c: "info_route i n = pool_address m c" "c < nb_node t" "c \<in> set (route t (Fixed (ycsb_key n)))"
      using s(6) by blast
    have f: "rdma_fabric m i stag stag (rs_tree s) (n, 0) = Some (rpool (rs_tree s) c)"
      by (rule first_read [OF m c(1)]) (use c(2) s(5) in simp)
    have x: "contents t (Fixed (ycsb_key n)) = Some v" using loadable_find [OF l(1) kv] n by (simp add: s(4))
    obtain d' where "rdma_RDMARead (rdma_fabric m i stag stag (rs_tree s)) stag (pool_address m) table key [] d = Inr ([] @ v, d')"
      by (rule rdma_read_finds [OF t fabric_readable [OF m s(5) stag] c(3) f x n])
    then show ?thesis by auto
  qed
  then show thesis using that s(1,2) by blast
qed

end
