(* ===== verification/Rdma_Requests.thy ===== *)
theory Rdma_Requests
  imports Rdma_System
begin

text \<open>
  The server of the RDMA path as a map: what one request does to a running server, before or after
  the switch was loaded, and what a sequence of requests is answered. An update is answered like
  one, but changes nothing.
\<close>

section \<open>Requests and what they mean\<close>

fun rdma_request_msg :: "(string \<Rightarrow> 64 word) \<Rightarrow> (string \<Rightarrow> 64 word) \<Rightarrow> request \<Rightarrow> bytes" where
  "rdma_request_msg num adr (Insert_req k v) = rdma_insert_msg k v"
| "rdma_request_msg num adr (Query_req k) = rdma_inject_msg_type 0x0527 @ with_fbt_idx (num k) (adr k) @ inject_key_index k"
| "rdma_request_msg num adr (Update_req k v) = rdma_inject_msg_type 0x0531 @ with_fbt_idx (num k) (adr k)
     @ inject_key_index k @ inject_values v"

fun rdma_spec_step :: "(string \<rightharpoonup> fields) \<Rightarrow> request \<Rightarrow> (string \<rightharpoonup> fields) \<times> bytes" where
  "rdma_spec_step m (Insert_req k v) = (m(k \<mapsto> v), rdma_inject_msg_type 0x0528)"
| "rdma_spec_step m (Query_req k) = (m, rdma_inject_msg_type 0x0529 @ inject_values (the (m k)))"
| "rdma_spec_step m (Update_req k v) = (m, rdma_inject_msg_type 0x0530)"

fun rdma_spec_run :: "(string \<rightharpoonup> fields) \<Rightarrow> request list \<Rightarrow> (string \<rightharpoonup> fields) \<times> bytes list" where
  "rdma_spec_run m [] = (m, [])"
| "rdma_spec_run m (r # rs) = (let (m, b) = rdma_spec_step m r; (m, bs) = rdma_spec_run m rs in (m, b # bs))"

text \<open>
  The requests the server can answer: the keys are those of the benchmark, a key is inserted once
  and looked up when it is there, and what is sent fits into the fixed arrays.
\<close>

fun rdma_sensible :: "(string \<rightharpoonup> fields) \<Rightarrow> request \<Rightarrow> bool" where
  "rdma_sensible m (Insert_req k v) \<longleftrightarrow> is_ycsb k \<and> record_fits v \<and> distinct (map fst v) \<and> m k = None"
| "rdma_sensible m (Query_req k) \<longleftrightarrow> is_ycsb k \<and> m k \<noteq> None"
| "rdma_sensible m (Update_req k v) \<longleftrightarrow> is_ycsb k \<and> record_fits v"

fun rdma_sensible_run :: "(string \<rightharpoonup> fields) \<Rightarrow> request list \<Rightarrow> bool" where
  "rdma_sensible_run m [] \<longleftrightarrow> True"
| "rdma_sensible_run m (r # rs) \<longleftrightarrow> rdma_sensible m r \<and> rdma_sensible_run (fst (rdma_spec_step m r)) rs"

text \<open>The records of the server, by the keys as the client writes them; all of them fit.\<close>

definition rdma_records :: "(fixed_string, fields) tree \<Rightarrow> string \<rightharpoonup> fields" where
  "rdma_records t k = contents t (Fixed k)"

lemma records_cong: "contents u = contents t \<Longrightarrow> rdma_records u = rdma_records t"
  by (simp add: rdma_records_def fun_eq_iff)

definition records_fit :: "(string \<rightharpoonup> fields) \<Rightarrow> bool" where
  "records_fit m \<longleftrightarrow> (\<forall>k v. m k = Some v \<longrightarrow> record_fits v)"

lemma records_fit_step: "records_fit m \<Longrightarrow> rdma_sensible m r \<Longrightarrow> records_fit (fst (rdma_spec_step m r))"
  by (cases r) (auto simp: records_fit_def)

lemma records_card: "finite (dom (rdma_records t)) \<and> card (dom (rdma_records t)) \<le> card (dom (contents t))"
proof -
  have f: "finite (dom (contents t))" by (simp add: contents_def finite_dom_map_of)
  have s: "Fixed ` dom (rdma_records t) \<subseteq> dom (contents t)" by (auto simp: rdma_records_def)
  have i: "inj_on Fixed (dom (rdma_records t))" by (simp add: inj_on_def)
  show ?thesis using finite_imageD [OF finite_subset [OF s f] i] card_mono [OF f s] card_image [OF i] by simp
qed

text \<open>An address a request may carry: null, or that of a node that stays on the way to the key.\<close>

definition enters :: "rdma_machine \<Rightarrow> (fixed_string, fields) tree \<Rightarrow> 64 word \<Rightarrow> string \<Rightarrow> bool" where
  "enters m t b k \<longleftrightarrow> b < 2 ^ 48 \<and> (case r_node_of m b of None \<Rightarrow> False
     | Some p \<Rightarrow> let n = (case p of None \<Rightarrow> 0 | Some n \<Rightarrow> n) in pinned t n \<and> n \<in> set (route t (Fixed k)))"

section \<open>One request\<close>

lemma inject_record_length:
  assumes "record_fits v"
  shows "length (inject_values v) \<le> 1468"
proof -
  have "length (concat (map inject_pair v)) \<le> 114 * length v"
    using assms unfolding record_fits_def
    by (induction v) (auto simp: inject_pair_def inject_string_def field_fits_def fixed_lengths)
  then show ?thesis using assms by (simp add: inject_values_def record_fits_def fixed_lengths)
qed

lemma counts_only_live:
  assumes L: "rdma_live s t" and c: "counts_only t u" and sim: "tree_sim r u"
  shows "rdma_live (s\<lparr>rs_tree := r\<rparr>) u" "contents u = contents t" "route u = route t" "holds u = holds t" "pinned u = pinned t"
proof -
  note S = counts_only_shape [OF c]
  from L have t: "tree_wf tree_M t" "tidy None t" "all_keys is_rkey t" by (auto simp: rdma_live_def)
  then obtain R rk kv where I: "inv_at [] t R rk kv" by (auto simp: tree_wf_def tree_inv_def)
  have "tree_wf tree_M u"
    using tree_wf_same [OF t(1) S inv_counts_only [OF I c]] counts_only_pool(7) [OF c] by blast
  moreover have "tidy None u" using t(2) S by (simp add: tidy_def same_shape_def)
  moreover have "all_keys is_rkey u" using t(3) S by (simp add: all_keys_def same_shape_def)
  ultimately show "rdma_live (s\<lparr>rs_tree := r\<rparr>) u" using sim by (simp add: rdma_live_def)
  show "contents u = contents t" by (rule contents_counts_only [OF c])
  show "route u = route t" "holds u = holds t" using same_shape_route [OF S] same_shapeD(2) [OF S] by (simp_all add: fun_eq_iff)
  show "pinned u = pinned t" using counts_only_pool(7) [OF c] by (simp add: pinned_def fun_eq_iff)
qed

lemma rdma_lookup_live:
  assumes L: "rdma_live s t" and e: "enters m t b k" and x: "contents t (Fixed k) = Some x"
  obtains p r v y u where "r_node_of m b = Some p" "r_lookup (rs_tree s) (Fixed k) p = Some (r, v)"
    "val_read (rpool r v) = Some y" "fa_ok y" "fa_list y = x" "tree_sim r u" "counts_only t u"
proof -
  from L have t: "tree_sim (rs_tree s) t" "tree_wf tree_M t" by (auto simp: rdma_live_def)
  then obtain R rk kv where I: "inv_at [] t R rk kv" by (auto simp: tree_wf_def tree_inv_def)
  obtain p where p: "r_node_of m b = Some p" using e by (auto simp: enters_def split: option.splits)
  define n where "n = (case p of None \<Rightarrow> 0 | Some n \<Rightarrow> n)"
  have n: "tree_node t n" "in_range (R n) (Fixed k)"
    using e on_route_iff [OF I] by (auto simp: enters_def p n_def Let_def)
  define t1 where "t1 = upd_node n (\<lambda>n. n\<lparr>access_count := access_count n + 1\<rparr>) (t\<lparr>nb_query := nb_query t + 1\<rparr>)"
  define r1 where "r1 = r_upd n (\<lambda>n. n\<lparr>r_access_count := r_access_count n + 1\<rparr>)
    ((rs_tree s)\<lparr>r_nb_query := r_nb_query (rs_tree s) + 1\<rparr>)"
  have c1: "counts_only t t1"
    unfolding t1_def by (rule counts_only_trans [OF counts_only_globals(2) counts_only_node])
  have s0: "tree_sim ((rs_tree s)\<lparr>r_nb_query := r_nb_query (rs_tree s) + 1\<rparr>) (t\<lparr>nb_query := nb_query t + 1\<rparr>)"
    using t(1) by (simp add: tree_sim_def)
  note nd = simD(1) [OF s0, of n]
  have s1: "tree_sim r1 t1"
    unfolding r1_def t1_def by (rule sim_upd [OF s0]) (simp only: node_simD(4) [OF nd] node_sim_flags [OF nd])
  note I1 = inv_counts_only [OF I c1]
  have n1: "tree_node t1 n" using n(1) same_shapeD(1) [OF counts_only_shape [OF c1]] by simp
  obtain v where v: "holds t (Fixed k) v" "nval (pool t v) = x" using x contents_iff [OF I] by blast
  have "holds t1 (Fixed k) v" using v(1) same_shapeD(2) [OF counts_only_shape [OF c1]] by simp
  then have vo: "value_of t1 (Fixed k) = Some v" by (rule value_of_holds [OF I1])
  obtain u where u: "walk (Suc (nb_node t1)) True t1 n (Fixed k) = Some (u, v)" "counts_only t1 u"
    using walk_value_of [OF I1 n1 n(2), of True] vo by (auto simp del: walk.simps)
  obtain r where r: "r_walk (Suc (nb_node t1)) r1 n (Fixed k) = Some (r, v)" "tree_sim r u"
    using sim_walk [OF s1 u(1)] by blast
  have cu: "counts_only t u" by (rule counts_only_trans [OF c1 u(2)])
  have "isValue (pool u v)" using walk_counts_only [OF u(1)] by simp
  then obtain y where y: "val_read (rpool r v) = Some y" "fa_ok y" "fa_list y = nval (pool u v)"
    using simD(1) [OF r(2), of v] by (auto simp: node_sim_def)
  have "r_lookup (rs_tree s) (Fixed k) p = Some (r, v)"
    using r(1) simD(2) [OF s1] simD(2) [OF t(1)] counts_only_pool(8) [OF c1]
    by (simp add: r_lookup_def n_def [symmetric] r1_def [symmetric] Let_def del: r_walk.simps)
  then show thesis using that p y r(2) cu v(2) by (simp add: counts_only_pool(5) [OF cu])
qed

lemma rdma_request_step:
  assumes L: "rdma_live s t" and r: "rdma_sensible (rdma_records t) rq" and f: "records_fit (rdma_records t)"
    and room: "6 * Suc (card (dom (contents t))) \<le> rdma_MAX_NODE_SIZE + 2" and e: "\<And>k. enters m t (adr k) k"
  obtains s' t' where "rdma_step m (rdma_request_msg num adr rq @ pad, no) s
      = Some (s', [], [\<lparr>payload = snd (rdma_spec_step (rdma_records t) rq), to_port = no, on_queue = 0\<rparr>])"
    "rdma_live s' t'" "rdma_records t' = fst (rdma_spec_step (rdma_records t) rq)"
    "card (dom (contents t')) \<le> Suc (card (dom (contents t)))"
    "\<And>n k'. (case rq of Insert_req k v \<Rightarrow> steady tree_M None t n | _ \<Rightarrow> True) \<Longrightarrow> n \<in> set (route t k') \<Longrightarrow> n \<in> set (route t' k')"
    "\<And>k' v'. holds t k' v' \<Longrightarrow> holds t' k' v'" "\<And>n. pinned t' n = pinned t n"
proof (cases rq)
  case (Insert_req k v)
  with r have k: "is_ycsb k" "contents t (Fixed k) = None" "record_fits v" "distinct (map fst v)"
    by (auto simp: rdma_records_def)
  obtain s' t' where s': "rdma_step m (rdma_insert_msg k v @ pad, no) s
      = Some (s', [], [\<lparr>payload = rdma_inject_msg_type 0x0528, to_port = no, on_queue = 0\<rparr>])"
    "rdma_live s' t'" "contents t' = (contents t)(Fixed k \<mapsto> v)"
    "\<And>n k'. steady tree_M None t n \<Longrightarrow> n \<in> set (route t k') \<Longrightarrow> n \<in> set (route t' k')"
    "\<And>k' v'. holds t k' v' \<Longrightarrow> holds t' k' v'" "\<And>n. pinned t' n = pinned t n"
    by (rule rdma_insert_live [OF L k room]) blast
  have "finite (dom (contents t))" by (simp add: contents_def finite_dom_map_of)
  then have "card (dom (contents t')) \<le> Suc (card (dom (contents t)))" by (simp add: s'(3) card_insert_if)
  moreover have "rdma_records t' = (rdma_records t)(k \<mapsto> v)" by (simp add: rdma_records_def fun_eq_iff s'(3))
  ultimately show thesis using that s' by (simp add: Insert_req)
next
  case (Query_req k)
  with r obtain x where k: "is_ycsb k" "contents t (Fixed k) = Some x" by (auto simp: rdma_records_def)
  obtain p r' v y u where p: "r_node_of m (adr k) = Some p" "r_lookup (rs_tree s) (Fixed k) p = Some (r', v)"
    "val_read (rpool r' v) = Some y" "fa_ok y" "fa_list y = x" "tree_sim r' u" "counts_only t u"
    by (rule rdma_lookup_live [OF L e k(2)])
  note u = counts_only_live [OF L p(7,6)]
  have "record_fits x" using f k(2) by (auto simp: records_fit_def rdma_records_def)
  then have len: "length (inject_values x) \<le> 1468" by (rule inject_record_length)
  have b: "adr k < 2 ^ 48" using e [of k] by (simp add: enters_def)
  have "rdma_handle_query m (with_fbt_idx (num k) (adr k) @ inject_key_index k @ pad) no s
    = Some (s\<lparr>rs_tree := r'\<rparr>, [\<lparr>payload = rdma_inject_msg_type 0x0529 @ inject_values x, to_port = no, on_queue = 0\<rparr>])"
    using extract_with_fbt_idx [OF b] extract_key_sent [OF k(1)] p len
    by (simp add: rdma_handle_query_def inject_values_fixed_ok reply_Some)
  then have "rdma_step m (rdma_request_msg num adr rq @ pad, no) s
      = Some (s\<lparr>rs_tree := r'\<rparr>, [], [\<lparr>payload = rdma_inject_msg_type 0x0529 @ inject_values x, to_port = no, on_queue = 0\<rparr>])"
    by (simp add: Query_req rdma_step_def)
  moreover have "rdma_records u = rdma_records t" by (rule records_cong [OF u(2)])
  moreover have "rdma_records t k = Some x" using k(2) by (simp add: rdma_records_def)
  ultimately show thesis using u by (intro that [of "s\<lparr>rs_tree := r'\<rparr>" u]) (simp_all add: Query_req)
next
  case (Update_req k v)
  with r have k: "is_ycsb k" "record_fits v" by auto
  have b: "adr k < 2 ^ 48" using e [of k] by (simp add: enters_def)
  obtain w where "extract_values_fixed (inject_values v @ pad) = Some (w, pad)"
    using extract_inject_values_fixed [OF record_fits_fields [OF k(2)], of pad] k(2) by simp
  then have "rdma_handle_update (with_fbt_idx (num k) (adr k) @ inject_key_index k @ inject_values v @ pad) no s
    = Some (s, [\<lparr>payload = rdma_inject_msg_type 0x0530, to_port = no, on_queue = 0\<rparr>])"
    using extract_with_fbt_idx [OF b] by (simp add: rdma_handle_update_def extract_key_sent [OF k(1)] reply_Some)
  then have "rdma_step m (rdma_request_msg num adr rq @ pad, no) s
      = Some (s, [], [\<lparr>payload = rdma_inject_msg_type 0x0530, to_port = no, on_queue = 0\<rparr>])"
    by (simp add: Update_req rdma_step_def)
  then show thesis using that L by (simp add: Update_req)
qed

section \<open>A sequence of requests\<close>

definition rdma_carries :: "(string \<Rightarrow> 64 word) \<Rightarrow> (string \<Rightarrow> 64 word) \<Rightarrow> request \<Rightarrow> bytes \<times> 16 word \<Rightarrow> bool" where
  "rdma_carries num adr r pkt \<longleftrightarrow> take (length (rdma_request_msg num adr r)) (fst pkt) = rdma_request_msg num adr r"

lemma rdma_carriesE:
  assumes "rdma_carries num adr r pkt"
  obtains pad no where "pkt = (rdma_request_msg num adr r @ pad, no)"
proof -
  let ?m = "rdma_request_msg num adr r"
  have "fst pkt = ?m @ drop (length ?m) (fst pkt)"
    using assms append_take_drop_id [of "length ?m" "fst pkt"] by (simp add: rdma_carries_def)
  then show thesis using that by (metis prod.collapse)
qed

lemma enters_mono:
  assumes "enters m t b k" "\<And>n. pinned t n \<Longrightarrow> n \<in> set (route t (Fixed k)) \<Longrightarrow> n \<in> set (route t' (Fixed k))" "\<And>n. pinned t' n = pinned t n"
  shows "enters m t' b k"
  using assms by (auto simp: enters_def Let_def split: option.splits)

lemma enters_request:
  assumes "enters m t b k" "\<And>n. pinned t' n = pinned t n"
    and "\<And>n k'. (case rq of Insert_req k v \<Rightarrow> steady tree_M None t n | _ \<Rightarrow> True) \<Longrightarrow> n \<in> set (route t k') \<Longrightarrow> n \<in> set (route t' k')"
  shows "enters m t' b k"
  using assms pinned_steady [of t] by (intro enters_mono [OF assms(1)]) (auto split: request.split)

lemma rdma_requests_run:
  assumes "rdma_live s t" "rdma_sensible_run (rdma_records t) rs" "records_fit (rdma_records t)"
    and "6 * (card (dom (contents t)) + length rs) \<le> rdma_MAX_NODE_SIZE + 2" "\<And>k. enters m t (adr k) k"
    and "list_all2 (rdma_carries num adr) rs pkts"
  shows "\<exists>s' t' outs. rdma_run m pkts s = Some (s', [], outs) \<and> rdma_live s' t'
    \<and> rdma_spec_run (rdma_records t) rs = (rdma_records t', map payload outs) \<and> map to_port outs = map snd pkts"
  using assms
proof (induction rs arbitrary: s t pkts)
  case (Cons r rs)
  obtain pkt pkts' where p: "pkts = pkt # pkts'" "rdma_carries num adr r pkt" "list_all2 (rdma_carries num adr) rs pkts'"
    using Cons.prems(6) by (cases pkts) auto
  obtain pad no where pk: "pkt = (rdma_request_msg num adr r @ pad, no)" by (rule rdma_carriesE [OF p(2)])
  have sr: "rdma_sensible (rdma_records t) r" "rdma_sensible_run (fst (rdma_spec_step (rdma_records t) r)) rs"
    using Cons.prems(2) by auto
  have rm: "6 * Suc (card (dom (contents t))) \<le> rdma_MAX_NODE_SIZE + 2" using Cons.prems(4) by simp
  obtain s1 t1 where s1: "rdma_step m (rdma_request_msg num adr r @ pad, no) s
      = Some (s1, [], [\<lparr>payload = snd (rdma_spec_step (rdma_records t) r), to_port = no, on_queue = 0\<rparr>])"
    "rdma_live s1 t1" "rdma_records t1 = fst (rdma_spec_step (rdma_records t) r)"
    "card (dom (contents t1)) \<le> Suc (card (dom (contents t)))" "\<And>n. pinned t1 n = pinned t n"
    "\<And>n k'. (case r of Insert_req k v \<Rightarrow> steady tree_M None t n | _ \<Rightarrow> True) \<Longrightarrow> n \<in> set (route t k') \<Longrightarrow> n \<in> set (route t1 k')"
    by (rule rdma_request_step [OF Cons.prems(1) sr(1) Cons.prems(3) rm Cons.prems(5), of num pad no]) blast
  have e: "enters m t1 (adr k) k" for k by (rule enters_request [OF Cons.prems(5) s1(5,6)])
  have f: "records_fit (rdma_records t1)" using records_fit_step [OF Cons.prems(3) sr(1)] s1(3) by simp
  have c: "6 * (card (dom (contents t1)) + length rs) \<le> rdma_MAX_NODE_SIZE + 2" using Cons.prems(4) s1(4) by simp
  have "rdma_sensible_run (rdma_records t1) rs" using sr(2) s1(3) by simp
  from Cons.IH [OF s1(2) this f c e p(3)] obtain u v outs where u: "rdma_run m pkts' s1 = Some (u, [], outs)" "rdma_live u v"
    "rdma_spec_run (rdma_records t1) rs = (rdma_records v, map payload outs)" "map to_port outs = map snd pkts'" by blast
  let ?out = "\<lparr>payload = snd (rdma_spec_step (rdma_records t) r), to_port = no, on_queue = 0\<rparr>"
  have "rdma_run m pkts s = Some (u, [], ?out # outs)" using s1(1) u(1) by (simp add: p(1) pk)
  moreover have "rdma_spec_run (rdma_records t) (r # rs) = (rdma_records v, map payload (?out # outs))"
    using u(3) s1(3) by (simp add: split_def Let_def)
  moreover have "map to_port (?out # outs) = map snd pkts" using u(4) by (simp add: p(1) pk)
  ultimately show ?case using u(2) by blast
qed auto

end
