(* ===== verification/Rdma_Race.thy ===== *)
theory Rdma_Race
  imports Rdma_Requests
begin

text \<open>
  One-sided reads while the server goes on handling messages. A remote read of one node is atomic;
  between two of them the server may handle any number of messages, so what the client has in its
  buffer may be old. The reader is the loop of \<open>RDMARead\<close> (RDMA/CPU/db/b_plus_tree_db.cc) taken
  one remote read at a time.
\<close>

section \<open>The steps\<close>

text \<open>
  Before its first read the client has whatever is in \<open>remote_node\<close>; afterwards the node it has
  read last. \<open>num\<close> is the number of the record, \<open>key_index\<close> its key.
\<close>

datatype reader = Starting "fixed_string rnode" | Walking "fixed_string rnode"

definition reader_step :: "(64 word \<times> 32 word \<Rightarrow> fixed_string rnode option) \<Rightarrow> 32 word \<Rightarrow> (nat \<Rightarrow> 64 word)
    \<Rightarrow> 64 word \<Rightarrow> fixed_string \<Rightarrow> reader \<Rightarrow> reader option" where
  "reader_step net stag adr num key_index rd = (case rd of
     Starting nd \<Rightarrow> Some (Walking (read_remote_node net stag 0 num nd))
   | Walking nd \<Rightarrow> if r_isValue nd then Some rd else do {
       n \<leftarrow> r_child_at nd (lower_bound (fa_list (r_key nd)) key_index);
       Some (Walking (read_remote_node net stag (adr n) 0 nd)) })"

datatype race_event = Message "bytes \<times> 16 word" | Remote_read

definition race_step :: "rdma_machine \<Rightarrow> node_info \<Rightarrow> 32 word \<Rightarrow> 64 word \<Rightarrow> fixed_string \<Rightarrow> race_event
    \<Rightarrow> rdma_server \<times> reader \<Rightarrow> (rdma_server \<times> reader) option" where
  "race_step m i stag num key_index ev st = (case st of (s, rd) \<Rightarrow> (case ev of
     Message pkt \<Rightarrow> do { (s, infos, out) \<leftarrow> rdma_step m pkt s; Some (s, rd) }
   | Remote_read \<Rightarrow> do {
       rd \<leftarrow> reader_step (rdma_fabric m i stag stag (rs_tree s)) stag (r_address (pool_base m) (rnode_size m)) num key_index rd;
       Some (s, rd) }))"

fun race_run :: "rdma_machine \<Rightarrow> node_info \<Rightarrow> 32 word \<Rightarrow> 64 word \<Rightarrow> fixed_string \<Rightarrow> race_event list
    \<Rightarrow> rdma_server \<times> reader \<Rightarrow> (rdma_server \<times> reader) option" where
  "race_run m i stag num key_index [] st = Some st"
| "race_run m i stag num key_index (ev # evs) st = do {
     st \<leftarrow> race_step m i stag num key_index ev st;
     race_run m i stag num key_index evs st }"

text \<open>Without messages in between, the reader does what the loop of the client does.\<close>

fun reader_run :: "nat \<Rightarrow> (64 word \<times> 32 word \<Rightarrow> fixed_string rnode option) \<Rightarrow> 32 word \<Rightarrow> (nat \<Rightarrow> 64 word)
    \<Rightarrow> 64 word \<Rightarrow> fixed_string \<Rightarrow> reader \<Rightarrow> reader option" where
  "reader_run 0 net stag adr num key_index rd = Some rd"
| "reader_run (Suc n) net stag adr num key_index rd = do {
     rd \<leftarrow> reader_step net stag adr num key_index rd;
     reader_run n net stag adr num key_index rd }"

lemma reader_run_value: "r_isValue nd \<Longrightarrow> reader_run n net stag adr num k (Walking nd) = Some (Walking nd)"
  by (induction n) (simp_all add: reader_step_def)

lemma chase_value [simp]: "r_isValue nd \<Longrightarrow> rdma_chase net stag adr k nd count = Some (nd, count)"
  by (simp only: rdma_chase.simps [of net stag adr k nd] if_True)

lemma reader_run_chase:
  "reader_run n net stag adr num k (Walking nd) = Some (Walking v) \<Longrightarrow> r_isValue v
    \<Longrightarrow> \<exists>c. rdma_chase net stag adr k nd count = Some (v, c)"
proof (induction n arbitrary: nd count)
  case 0
  then show ?case by simp
next
  case (Suc n)
  show ?case
  proof (cases "r_isValue nd")
    case True
    then show ?thesis using Suc.prems by (simp add: reader_run_value del: reader_run.simps)
  next
    case False
    then obtain d where d: "r_child_at nd (lower_bound (fa_list (r_key nd)) k) = Some d"
      "reader_run n net stag adr num k (Walking (read_remote_node net stag (adr d) 0 nd)) = Some (Walking v)"
      using Suc.prems(1) by (auto simp: reader_step_def split: bind_splits)
    from Suc.IH [OF d(2) Suc.prems(2)] d(1) False show ?thesis
      by (simp add: rdma_chase.simps [of net stag adr k nd])
  qed
qed

section \<open>Where a reader is heading\<close>

definition heading :: "rdma_machine \<Rightarrow> node_info \<Rightarrow> 64 word \<Rightarrow> fixed_string \<Rightarrow> reader \<Rightarrow> nat option" where
  "heading m i num key_index rd = (case rd of
     Starting nd \<Rightarrow> (case r_node_of m (info_route i num) of None \<Rightarrow> None | Some n \<Rightarrow> n)
   | Walking nd \<Rightarrow> if r_isValue nd then None else r_child_at nd (lower_bound (fa_list (r_key nd)) key_index))"

text \<open>
  A node that the next insertion does not split in place: the root and the marked nodes are copied,
  and a node with less than M - 1 keys does not become full.
\<close>

definition not_split :: "fixed_string rtree \<Rightarrow> nat \<Rightarrow> bool" where
  "not_split r n \<longleftrightarrow> n = 0 \<or> r_loaded (rpool r n) \<or> fa_size (r_key (rpool r n)) < tree_M - 1"

text \<open>No insertion of the run splits in place the node the reader is about to read.\<close>

definition inserts :: "bytes \<times> 16 word \<Rightarrow> bool" where
  "inserts pkt = (case rdma_extract_msg_type (fst pkt) of None \<Rightarrow> False | Some (t, _) \<Rightarrow> t = 0x0526)"

fun undisturbed :: "rdma_machine \<Rightarrow> node_info \<Rightarrow> 32 word \<Rightarrow> 64 word \<Rightarrow> fixed_string \<Rightarrow> race_event list
    \<Rightarrow> rdma_server \<times> reader \<Rightarrow> bool" where
  "undisturbed m i stag num key_index [] st = True"
| "undisturbed m i stag num key_index (ev # evs) st =
     ((case ev of Remote_read \<Rightarrow> True
       | Message pkt \<Rightarrow> (case heading m i num key_index (snd st) of None \<Rightarrow> True
         | Some n \<Rightarrow> inserts pkt \<longrightarrow> not_split (rs_tree (fst st)) n))
      \<and> (case race_step m i stag num key_index ev st of None \<Rightarrow> True
         | Some st' \<Rightarrow> undisturbed m i stag num key_index evs st'))"

text \<open>The messages among the events of a run.\<close>

fun race_pkts :: "race_event list \<Rightarrow> (bytes \<times> 16 word) list" where
  "race_pkts [] = []"
| "race_pkts (Remote_read # evs) = race_pkts evs"
| "race_pkts (Message pkt # evs) = pkt # race_pkts evs"

text \<open>
  The reader finishes: what \<open>RDMARead\<close> returns when nothing comes in between any more.
\<close>

definition reader_result :: "(64 word \<times> 32 word \<Rightarrow> fixed_string rnode option) \<Rightarrow> 32 word \<Rightarrow> (nat \<Rightarrow> 64 word)
    \<Rightarrow> 64 word \<Rightarrow> fixed_string \<Rightarrow> reader \<Rightarrow> fields option" where
  "reader_result net stag adr num key_index rd = do {
     (nd, count) \<leftarrow> rdma_chase net stag adr key_index
       (case rd of Starting nd \<Rightarrow> read_remote_node net stag 0 num nd | Walking nd \<Rightarrow> nd) 1;
     v \<leftarrow> val_read nd;
     fa_to_vector v }"

section \<open>The invariant of a run\<close>

text \<open>A reader on its way: where it is heading is a node on the way to the key, or the value node of the key.\<close>

definition on_way :: "rdma_machine \<Rightarrow> node_info \<Rightarrow> 64 word \<Rightarrow> fixed_string \<Rightarrow> fields \<Rightarrow> (fixed_string, fields) tree \<Rightarrow> reader \<Rightarrow> bool" where
  "on_way m i num k x t rd \<longleftrightarrow> (case heading m i num k rd of
     Some n \<Rightarrow> n \<in> set (route t k) \<or> (\<exists>nd. rd = Walking nd) \<and> holds t k n
   | None \<Rightarrow> (\<exists>nd v. rd = Walking nd \<and> r_isValue nd \<and> val_read nd = Some v \<and> fa_ok v \<and> fa_list v = x))"

lemma not_split_steady: "tree_sim r t \<Longrightarrow> not_split r n \<Longrightarrow> steady tree_M None t n"
  using simD(1) [of r t n] node_simD(5,9) [of "rpool r n" "pool t n"] by (auto simp: not_split_def steady_def pinned_def)

lemma on_way_request:
  assumes "on_way m i num k x t rd" "tree_sim r t"
    and "\<And>n. heading m i num k rd = Some n \<Longrightarrow> (case rq of Insert_req k v \<Rightarrow> not_split r n | _ \<Rightarrow> True)"
    and "\<And>n k'. (case rq of Insert_req k v \<Rightarrow> steady tree_M None t n | _ \<Rightarrow> True) \<Longrightarrow> n \<in> set (route t k') \<Longrightarrow> n \<in> set (route t' k')"
    and "\<And>k' v'. holds t k' v' \<Longrightarrow> holds t' k' v'"
  shows "on_way m i num k x t' rd"
  using assms not_split_steady [OF assms(2)] by (auto simp: on_way_def split: option.splits request.splits)

text \<open>What is read at a node on the way to the key, and at the value node of the key.\<close>

lemma on_way_node:
  assumes w: "tree_wf tree_M t" and sim: "tree_sim r t" and n: "n \<in> set (route t k)" and x: "contents t k = Some x"
  shows "on_way m i num k x t (Walking (rpool r n))"
proof -
  from w obtain R rk kv where I: "inv_at [] t R rk kv" by (auto simp: tree_wf_def tree_inv_def)
  have r: "tree_node t n" "in_range (R n) k" using n on_route_iff [OF I] by auto
  have nv: "\<not> r_isValue (rpool r n)" using r(1) by (simp add: sim_node [OF sim] tree_node_def)
  have "\<exists>d. next_child t n k = Some d \<and> (d \<in> set (route t k) \<or> holds t k d)"
  proof (cases "isLeaf (pool t n)")
    case True
    obtain v where v: "holds t k v" using x contents_iff [OF I] by blast
    have "leaf_of t 0 k = Some n"
      using leaf_of_root [OF I r] leaf_of_leaf [OF True, of k] r(1) by (simp add: tree_node_def)
    then have "next_child t n k = Some v" using value_of_holds [OF I v] by (simp add: value_of_def)
    then show ?thesis using v by blast
  next
    case False
    obtain c where "next_child t n k = Some c" "link t R rk n (lower_bound (nkey (pool t n)) k) c" "in_range (R c) k"
      by (rule next_child_link [OF I r(1) False r(2)])
    then show ?thesis using on_route_iff [OF I] by (auto simp: link_def)
  qed
  then obtain d where "next_child t n k = Some d" "d \<in> set (route t k) \<or> holds t k d" by blast
  then show ?thesis using nv sim_next_child [OF sim] by (auto simp: on_way_def heading_def r_next_child_def)
qed

lemma on_way_value:
  assumes w: "tree_wf tree_M t" and sim: "tree_sim r t" and v: "holds t k n" and x: "contents t k = Some x"
  shows "on_way m i num k x t (Walking (rpool r n))"
proof -
  from w obtain R rk kv where I: "inv_at [] t R rk kv" by (auto simp: tree_wf_def tree_inv_def)
  have "isValue (pool t n)" using holds_value [OF I v] by (simp add: value_ok_def)
  moreover have "nval (pool t n) = x" using x v contents_iff [OF I] by (metis option.inject)
  ultimately show ?thesis using simD(1) [OF sim, of n] by (auto simp: on_way_def heading_def node_sim_def)
qed

lemma on_way_read:
  assumes m: "machine_ok m" and L: "rdma_live s t" and nb: "nb_node t \<le> rdma_MAX_NODE_SIZE" and k: "stag \<noteq> 0"
    and x: "contents t key = Some x" and o: "on_way m i num key x t rd"
  obtains rd' where "reader_step (rdma_fabric m i stag stag (rs_tree s)) stag (pool_address m) num key rd = Some rd'"
    "on_way m i num key x t rd'"
proof -
  let ?net = "rdma_fabric m i stag stag (rs_tree s)"
  from L have t: "tree_wf tree_M t" "tree_sim (rs_tree s) t" by (auto simp: rdma_live_def)
  then obtain R rk kv where I: "inv_at [] t R rk kv" by (auto simp: tree_wf_def tree_inv_def)
  show thesis
  proof (cases rd)
    case (Starting nd)
    then obtain n where n: "heading m i num key rd = Some n" "n \<in> set (route t key)"
      using o by (auto simp: on_way_def split: option.splits)
    then have "r_node_of m (info_route i num) = Some (Some n)"
      by (auto simp: heading_def Starting split: option.splits)
    then have "?net (num, 0) = Some (rpool (rs_tree s) n)" by (simp add: fabric_reads pool_memory_def)
    then have "reader_step ?net stag (pool_address m) num key rd = Some (Walking (rpool (rs_tree s) n))"
      by (simp add: reader_step_def Starting read_remote_node_def)
    then show thesis using that on_way_node [OF t n(2) x] by blast
  next
    case (Walking nd)
    show thesis
    proof (cases "r_isValue nd")
      case True
      then show thesis using that o by (simp add: reader_step_def Walking)
    next
      case False
      then obtain n where n: "heading m i num key rd = Some n" "n \<in> set (route t key) \<or> holds t key n"
        using o by (auto simp: on_way_def Walking split: option.splits)
      have "n < nb_node t"
        using n(2) on_route_iff [OF I] holds_value [OF I] by (auto simp: tree_node_def value_ok_def)
      then have "read_remote_node ?net stag (pool_address m n) 0 nd = rpool (rs_tree s) n"
        using fabric_readable [OF m nb k, of i "rs_tree s"] by (simp add: readable_def read_remote_node_def)
      then have "reader_step ?net stag (pool_address m) num key rd = Some (Walking (rpool (rs_tree s) n))"
        using n(1) False by (simp add: reader_step_def Walking heading_def)
      moreover have "on_way m i num key x t (Walking (rpool (rs_tree s) n))"
        using n(2) on_way_node [OF t _ x] on_way_value [OF t _ x] by blast
      ultimately show thesis using that by blast
    qed
  qed
qed

section \<open>Runs\<close>

lemma request_inserts: "inserts (rdma_request_msg num adr rq @ pad, no) \<longleftrightarrow> (case rq of Insert_req k v \<Rightarrow> True | _ \<Rightarrow> False)"
  by (cases rq) (simp_all add: inserts_def rdma_insert_msg_def)

lemma race_run_ok:
  assumes m: "machine_ok m" and k: "stag \<noteq> 0"
  shows "rdma_live s t \<Longrightarrow> contents t (Fixed key) = Some x \<Longrightarrow> on_way m i num (Fixed key) x t rd
    \<Longrightarrow> undisturbed m i stag num (Fixed key) evs (s, rd) \<Longrightarrow> list_all2 (rdma_carries nums adr) rs (race_pkts evs)
    \<Longrightarrow> rdma_sensible_run (rdma_records t) rs \<Longrightarrow> records_fit (rdma_records t)
    \<Longrightarrow> 6 * (card (dom (contents t)) + length rs) \<le> rdma_MAX_NODE_SIZE + 2 \<Longrightarrow> (\<And>k. enters m t (adr k) k)
    \<Longrightarrow> \<exists>s' t' rd'. race_run m i stag num (Fixed key) evs (s, rd) = Some (s', rd') \<and> rdma_live s' t'
      \<and> rdma_records t' = fst (rdma_spec_run (rdma_records t) rs) \<and> contents t' (Fixed key) = Some x
      \<and> nb_node t' \<le> rdma_MAX_NODE_SIZE \<and> on_way m i num (Fixed key) x t' rd'"
proof (induction evs arbitrary: s t rd rs)
  case Nil
  have "finite (dom (contents t))" by (simp add: contents_def finite_dom_map_of)
  with Nil.prems(2) have "0 < card (dom (contents t))" by (metis card_gt_0_iff domI empty_iff)
  moreover have "tree_wf tree_M t" using Nil.prems(1) by (simp add: rdma_live_def)
  ultimately have "nb_node t \<le> rdma_MAX_NODE_SIZE" using nb_node_bound [of tree_M t] Nil.prems(8) by simp
  with Nil show ?case by auto
next
  case (Cons ev evs)
  note L = Cons.prems(1) and x = Cons.prems(2)
  from L have t: "tree_wf tree_M t" "tree_sim (rs_tree s) t" by (auto simp: rdma_live_def)
  have "finite (dom (contents t))" by (simp add: contents_def finite_dom_map_of)
  with x have c0: "0 < card (dom (contents t))" by (metis card_gt_0_iff domI empty_iff)
  have nb: "nb_node t \<le> rdma_MAX_NODE_SIZE" using nb_node_bound [OF t(1)] Cons.prems(8) c0 by simp
  show ?case
  proof (cases ev)
    case Remote_read
    obtain rd' where rd': "reader_step (rdma_fabric m i stag stag (rs_tree s)) stag (pool_address m) num (Fixed key) rd = Some rd'"
      "on_way m i num (Fixed key) x t rd'" by (rule on_way_read [OF m L nb k x Cons.prems(3)])
    then have st: "race_step m i stag num (Fixed key) ev (s, rd) = Some (s, rd')" by (simp add: race_step_def Remote_read)
    then have "undisturbed m i stag num (Fixed key) evs (s, rd')" "list_all2 (rdma_carries nums adr) rs (race_pkts evs)"
      using Cons.prems(4,5) by (simp_all add: Remote_read)
    from Cons.IH [OF L x rd'(2) this Cons.prems(6-9)] st show ?thesis by simp
  next
    case (Message pkt)
    obtain r rs' where rs: "rs = r # rs'" "rdma_carries nums adr r pkt" "list_all2 (rdma_carries nums adr) rs' (race_pkts evs)"
      using Cons.prems(5) by (auto simp: Message list_all2_Cons2)
    obtain pad no where p: "pkt = (rdma_request_msg nums adr r @ pad, no)" by (rule rdma_carriesE [OF rs(2)])
    have sr: "rdma_sensible (rdma_records t) r" "rdma_sensible_run (fst (rdma_spec_step (rdma_records t) r)) rs'"
      using Cons.prems(6) by (auto simp: rs(1))
    have rm: "6 * Suc (card (dom (contents t))) \<le> rdma_MAX_NODE_SIZE + 2" using Cons.prems(8) by (simp add: rs(1))
    obtain s1 t1 where s1: "rdma_step m (rdma_request_msg nums adr r @ pad, no) s
        = Some (s1, [], [\<lparr>payload = snd (rdma_spec_step (rdma_records t) r), to_port = no, on_queue = 0\<rparr>])"
      "rdma_live s1 t1" "rdma_records t1 = fst (rdma_spec_step (rdma_records t) r)"
      "card (dom (contents t1)) \<le> Suc (card (dom (contents t)))" "\<And>n. pinned t1 n = pinned t n"
      "\<And>n k'. (case r of Insert_req k v \<Rightarrow> steady tree_M None t n | _ \<Rightarrow> True) \<Longrightarrow> n \<in> set (route t k') \<Longrightarrow> n \<in> set (route t1 k')"
      "\<And>k' v'. holds t k' v' \<Longrightarrow> holds t1 k' v'"
      by (rule rdma_request_step [OF L sr(1) Cons.prems(7) rm Cons.prems(9), of nums pad no]) blast
    have st: "race_step m i stag num (Fixed key) ev (s, rd) = Some (s1, rd)" using s1(1) by (simp add: race_step_def Message p)
    have "case r of Insert_req k v \<Rightarrow> not_split (rs_tree s) n | _ \<Rightarrow> True" if "heading m i num (Fixed key) rd = Some n" for n
      using that Cons.prems(4) request_inserts [of nums adr r pad no] by (auto simp: Message p split: request.splits)
    note o = on_way_request [OF Cons.prems(3) t(2) this s1(6,7)]
    have u: "undisturbed m i stag num (Fixed key) evs (s1, rd)" using Cons.prems(4) st by simp
    have x1: "contents t1 (Fixed key) = Some x"
      using x sr(1) fun_cong [OF s1(3), of key] by (cases r) (auto simp: rdma_records_def)
    have f: "records_fit (rdma_records t1)" using records_fit_step [OF Cons.prems(7) sr(1)] s1(3) by simp
    have r1: "6 * (card (dom (contents t1)) + length rs') \<le> rdma_MAX_NODE_SIZE + 2" using Cons.prems(8) s1(4) by (simp add: rs(1))
    have sr1: "rdma_sensible_run (rdma_records t1) rs'" using sr(2) s1(3) by simp
    have e: "enters m t1 (adr k) k" for k by (rule enters_request [OF Cons.prems(9) s1(5,6)])
    have sp: "fst (rdma_spec_run (rdma_records t) rs) = fst (rdma_spec_run (rdma_records t1) rs')"
      by (simp add: rs(1) s1(3) split_def Let_def)
    from Cons.IH [OF s1(2) x1 o u rs(3) sr1 f r1 e] st show ?thesis by (simp add: sp)
  qed
qed

text \<open>A reader on its way that is no longer interrupted finds the record.\<close>

lemma on_way_result:
  assumes m: "machine_ok m" and L: "rdma_live s t" and nb: "nb_node t \<le> rdma_MAX_NODE_SIZE" and k: "stag \<noteq> 0"
    and x: "contents t key = Some x" and o: "on_way m i num key x t rd"
  shows "reader_result (rdma_fabric m i stag stag (rs_tree s)) stag (pool_address m) num key rd = Some x"
proof -
  let ?net = "rdma_fabric m i stag stag (rs_tree s)" and ?r = "rs_tree s"
  from L have t: "tree_wf tree_M t" "tree_sim ?r t" "tidy None t" by (auto simp: rdma_live_def)
  then obtain R rk kv where I: "inv_at [] t R rk kv" by (auto simp: tree_wf_def tree_inv_def)
  note rb = fabric_readable [OF m nb k, of i ?r]
  have found: "\<exists>v c y. rdma_chase ?net stag (pool_address m) key (rpool ?r n) j = Some (v, c) \<and> val_read v = Some y \<and> fa_ok y \<and> fa_list y = x"
    if n: "n \<in> set (route t key) \<or> holds t key n" for n j
    using n
  proof
    assume "n \<in> set (route t key)"
    then show ?thesis using chase_finds [OF t(2,1,3) rb _ x] by blast
  next
    assume "holds t key n"
    then obtain v y where "on_way m i num key x t (Walking (rpool ?r n))" "r_isValue (rpool ?r n)"
      using on_way_value [OF t(1,2) _ x] holds_value [OF I] by (auto simp: sim_node [OF t(2)] value_ok_def)
    then show ?thesis by (auto simp: on_way_def heading_def)
  qed
  have res: "reader_result ?net stag (pool_address m) num key rd = Some x"
    if "rdma_chase ?net stag (pool_address m) key (case rd of Starting nd \<Rightarrow> read_remote_node ?net stag 0 num nd | Walking nd \<Rightarrow> nd) 1
      = Some (v, c)" "val_read v = Some y" "fa_ok y" "fa_list y = x" for v c y
    using that by (simp add: reader_result_def fa_to_vector_ok)
  show ?thesis
  proof (cases rd)
    case (Starting nd)
    then obtain n where n: "heading m i num key rd = Some n" "n \<in> set (route t key)"
      using o by (auto simp: on_way_def split: option.splits)
    then have "r_node_of m (info_route i num) = Some (Some n)" by (auto simp: heading_def Starting split: option.splits)
    then have "read_remote_node ?net stag 0 num nd = rpool ?r n"
      by (simp add: fabric_reads pool_memory_def read_remote_node_def)
    then show ?thesis using found [of n 1] n(2) res by (auto simp: Starting)
  next
    case (Walking nd)
    show ?thesis
    proof (cases "r_isValue nd")
      case True
      then show ?thesis using o res by (auto simp: Walking on_way_def heading_def)
    next
      case False
      then obtain n where n: "r_child_at nd (lower_bound (fa_list (r_key nd)) key) = Some n" "n \<in> set (route t key) \<or> holds t key n"
        using o by (auto simp: on_way_def heading_def Walking split: option.splits)
      have "n < nb_node t"
        using n(2) on_route_iff [OF I] holds_value [OF I] by (auto simp: tree_node_def value_ok_def)
      then have "read_remote_node ?net stag (pool_address m n) 0 nd = rpool ?r n"
        using rb by (simp add: readable_def read_remote_node_def)
      then have "rdma_chase ?net stag (pool_address m) key nd 1 = rdma_chase ?net stag (pool_address m) key (rpool ?r n) 2"
        using n(1) False by (simp add: rdma_chase.simps [of ?net stag "pool_address m" key nd] numeral_2_eq_2)
      then show ?thesis using found [OF n(2), of 2] res by (auto simp: Walking)
    qed
  qed
qed

text \<open>So a reader that is not disturbed finds the record whenever it is left to finish.\<close>

lemma race_run_finds:
  assumes m: "machine_ok m" and k: "stag \<noteq> 0" and L: "rdma_live s t" and x: "contents t (Fixed key) = Some x"
    and o: "on_way m i num (Fixed key) x t rd" and u: "undisturbed m i stag num (Fixed key) evs (s, rd)"
    and c: "list_all2 (rdma_carries nums adr) rs (race_pkts evs)" and r: "rdma_sensible_run (rdma_records t) rs"
    and f: "records_fit (rdma_records t)" and room: "6 * (card (dom (contents t)) + length rs) \<le> rdma_MAX_NODE_SIZE + 2"
    and e: "\<And>k. enters m t (adr k) k"
  shows "\<exists>s' rd'. race_run m i stag num (Fixed key) evs (s, rd) = Some (s', rd')
    \<and> reader_result (rdma_fabric m i stag stag (rs_tree s')) stag (pool_address m) num (Fixed key) rd' = Some x"
  using race_run_ok [OF m k L x o u c r f room e] on_way_result [OF m _ _ k] by blast

end
