(* ===== verification/Rdma_Split_Race.thy ===== *)
theory Rdma_Split_Race
  imports Rdma_Race
begin

text \<open>
  Why the reads of Rdma_Race must not be disturbed: a leaf that is split in place keeps the
  pointers of its upper half in memory, behind the end of its array of children. A reader that
  was sent to the leaf before looks for its key among the keys that are left, finds none of them
  large enough and follows the first of the old pointers: to the record of another key.
\<close>

section \<open>The memory of a leaf after a split\<close>

lemma fa_insert_sel:
  assumes "fa_insert pos x a = Some b"
  shows "j < pos \<Longrightarrow> fa_val b ! j = fa_val a ! j" "fa_size b = fa_size a + 1"
  using assms by (auto simp: fa_insert_def memmove_def memcpy_def nth_append split: if_splits)

lemma fa_insert_child: "fa_insert pos x (r_child nd) = Some c \<Longrightarrow> fa_val c \<noteq> []"
  by (auto simp: fa_insert_def r_child_def dest!: memcpy_length memmove_length split: if_splits bind_splits)

lemma fa_cut_tail:
  assumes "fa_cut i a = Some b"
  shows "fa_val b = fa_val a" "fa_size b = i"
  using assms by (auto simp: fa_cut_def fa_erase_def memmove_def split: if_splits)

lemma r_enter_sel:
  assumes "r_enter par p sep q w s = Some u"
  shows "n \<noteq> par \<Longrightarrow> rpool u n = rpool s n" "r_nb_node u = r_nb_node s"
    "\<exists>k c. fa_insert p sep (r_key (rpool s par)) = Some k \<and> fa_insert q (Ptr w) (r_child (rpool s par)) = Some c
      \<and> rpool u par = set_child c ((rpool s par)\<lparr>r_key := k\<rparr>)"
  using assms by (auto simp: r_enter_def split: bind_splits)

lemma r_split_leaf_sel:
  assumes "r_split_leaf s l w par = Some u" "l \<noteq> w" "l \<noteq> par" "w \<noteq> par"
  shows "\<exists>k c. fa_cut (tree_M div 2) (r_key (rpool s l)) = Some k \<and> fa_cut (tree_M div 2) (r_child (rpool s l)) = Some c
      \<and> rpool u l = set_child c ((rpool s l)\<lparr>r_key := k\<rparr>)"
    and "fa_size (r_key (rpool u par)) = fa_size (r_key (rpool s par)) + 1"
  using assms
  by (auto simp: r_split_leaf_def r_move_keys_def r_cut_keys_def r_move_children_def Let_def
      r_enter_sel(1) fa_insert_sel(2) split: bind_splits dest!: r_enter_sel(3))

lemma r_find_leaf_counts: "r_find_leaf f (s\<lparr>key_map := g\<rparr>) n k = r_find_leaf f s n k"
  by (induction f arbitrary: n) (simp_all add: r_next_child_def)

lemma r_insert_splits_leaf:
  assumes ins: "r_insert mx r kn v = Some r'" and l: "r_find_leaf (Suc (r_nb_node r)) r 0 kn = Some l"
    and lf: "l \<noteq> 0" "\<not> r_loaded (rpool r l)" "r_isLeaf (rpool r l)" "fa_size (r_key (rpool r l)) = tree_M - 1"
    and par: "r_parent (rpool r l) = Some par" "fa_size (r_key (rpool r par)) < tree_M - 1"
    and d: "l < r_nb_node r" "par < r_nb_node r" "l \<noteq> par"
  obtains p k1 k2 c1 c2 where "p = lower_bound (fa_list (r_key (rpool r l))) kn"
    "fa_insert p kn (r_key (rpool r l)) = Some k1" "fa_cut (tree_M div 2) k1 = Some k2"
    "fa_insert p (Ptr (r_nb_node r)) (r_child (rpool r l)) = Some c1" "fa_cut (tree_M div 2) c1 = Some c2"
    "rpool r' l = set_child c2 ((rpool r l)\<lparr>r_key := k2\<rparr>)"
proof -
  let ?w = "r_nb_node r"
  define s0 where "s0 = r\<lparr>key_map := (key_map r)(kn := key_map r kn + 1)\<rparr>"
  define s1 where "s1 = s0\<lparr>r_nb_node := Suc ?w\<rparr>"
  define s2 where "s2 = r_upd ?w (val_assign v) (r_upd ?w (\<lambda>n. n\<lparr>r_isLeaf := False, r_isValue := True, r_parent := Some l\<rparr>) s1)"
  define p where "p = lower_bound (fa_list (r_key (rpool s2 l))) kn"
  have s0: "r_nb_node s0 = ?w" "rpool s0 = rpool r" "r_find_leaf (Suc ?w) s0 0 kn = Some l"
    using l by (simp_all add: s0_def r_find_leaf_counts del: r_find_leaf.simps)
  have s2: "rpool s2 n = rpool r n" if "n \<noteq> ?w" for n using that by (simp add: s2_def s1_def s0_def)
  have lw: "l \<noteq> ?w" "par \<noteq> ?w" using d by auto
  have a: "r_alloc mx s0 = Some (?w, s1) \<or> r_alloc mx s0 = None" by (simp add: r_alloc_def s1_def s0(1))
  obtain s3 where s3: "r_enter l p kn p ?w s2 = Some s3" "r_overflow mx (Suc (r_nb_node s3)) s3 l = Some r'"
    using ins a s0(1,3)
    by (auto simp: r_insert_def s0_def [symmetric] s2_def [symmetric] p_def [symmetric] Let_def
        simp del: r_find_leaf.simps r_overflow.simps r_upd_sel split: bind_splits)
  obtain k1 c1 where k1: "fa_insert p kn (r_key (rpool r l)) = Some k1" "fa_insert p (Ptr ?w) (r_child (rpool r l)) = Some c1"
    "rpool s3 l = set_child c1 ((rpool r l)\<lparr>r_key := k1\<rparr>)"
    using r_enter_sel(3) [OF s3(1)] by (auto simp: s2 lw)
  note c1 = fa_insert_child [OF k1(2)]
  have p3: "rpool s3 n = rpool r n" if "n \<noteq> l" "n \<noteq> ?w" for n using r_enter_sel(1) [OF s3(1)] that s2 by simp
  have nb3: "r_nb_node s3 = Suc ?w" using r_enter_sel(2) [OF s3(1)] by (simp add: s2_def s1_def)
  have full: "tree_M \<le> fa_size (r_key (rpool s3 l))" using fa_insert_sel(2) [OF k1(1)] lf(4) by (simp add: k1(3) tree_M_def)
  then obtain q s6 where st: "r_overflow_step mx s3 l = Some (q, s6)" "r_overflow mx (r_nb_node s3) s6 q = Some r'"
    using s3(2) by (auto split: bind_splits)
  let ?w2 = "Suc ?w"
  define s3' where "s3' = s3\<lparr>r_nb_node := Suc ?w2\<rparr>"
  define s4 where "s4 = r_upd ?w2 (\<lambda>n. n\<lparr>r_parent := r_parent (rpool s3' l), r_isLeaf := r_isLeaf (rpool s3' l)\<rparr>) s3'"
  have l2: "l \<noteq> ?w2" "par \<noteq> ?w2" using d by auto
  have s4: "rpool s4 l = rpool s3 l" "rpool s4 par = rpool r par" using l2 p3 d(3) lw by (simp_all add: s4_def s3'_def)
  have "r_alloc mx s3 = Some (?w2, s3') \<or> r_alloc mx s3 = None" by (simp add: r_alloc_def nb3 s3'_def)
  then have sp: "q = par" "r_split_leaf s4 l ?w2 par = Some s6"
    using st(1) lf(1-3) par(1) s4(1) k1(3)
    by (auto simp: r_overflow_step_def s4_def [symmetric] Let_def simp del: r_upd_sel split: bind_splits)
  obtain k2 c2 where k2: "fa_cut (tree_M div 2) k1 = Some k2" "fa_cut (tree_M div 2) c1 = Some c2"
    "rpool s6 l = set_child c2 ((rpool r l)\<lparr>r_key := k2\<rparr>)"
    using r_split_leaf_sel(1) [OF sp(2) l2(1) d(3)] l2(2) c1 by (auto simp: s4(1) k1(3))
  have "fa_size (r_key (rpool s6 par)) < tree_M"
    using r_split_leaf_sel(2) [OF sp(2) l2(1) d(3)] l2(2) par(2) by (simp add: s4(2))
  then have "r' = s6" using st(2) by (simp add: sp(1) nb3)
  with that [of p] k1 k2 show thesis by (simp add: p_def s2 lw)
qed

text \<open>Where the reader goes on from the leaf.\<close>

lemma split_leaf_misleads:
  assumes "fa_insert p kn (r_key nd) = Some k1" "fa_cut (tree_M div 2) k1 = Some k2"
    and "fa_insert p (Ptr w) (r_child nd) = Some c1" "fa_cut (tree_M div 2) c1 = Some c2"
    and n: "node_sim nd n" "length (nkey n) = tree_M - 1" "length (child n) = length (nkey n)" "sorted (nkey n)"
    and p: "tree_M div 2 < p" and a: "nkey n ! (tree_M div 2 - 1) < a"
  shows "r_child_at (set_child c2 (nd\<lparr>r_key := k2\<rparr>)) (lower_bound (fa_list k2) a) = Some (child n ! (tree_M div 2))"
proof -
  note nd = node_simD [OF n(1)]
  have k2: "fa_list k2 = take 8 (nkey n)"
  proof (rule nth_equalityI)
    have "length (fa_val k2) = length (fa_val (r_key nd))"
      using fa_cut_tail [OF assms(2)] assms(1) by (auto simp: fa_insert_def memmove_length memcpy_length split: if_splits bind_splits)
    then show l: "length (fa_list k2) = length (take 8 (nkey n))"
      using fa_cut_tail(2) [OF assms(2)] nd(7) n(2) by (simp add: fa_list_def tree_M_def)
    fix i assume "i < length (fa_list k2)"
    then have i: "i < 8" "i < fa_size (r_key nd)" using l n(2) nd(9) by (simp_all add: tree_M_def)
    have "fa_list k2 ! i = fa_val (r_key nd) ! i"
      using i p fa_cut_tail [OF assms(2)] fa_insert_sel(1) [OF assms(1), of i] by (simp add: fa_list_def tree_M_def)
    also have "\<dots> = nkey n ! i" using i(2) nd(8) by (metis fa_list_def nth_take)
    finally show "fa_list k2 ! i = take 8 (nkey n) ! i" using i(1) by simp
  qed
  have lb: "lower_bound (take 8 (nkey n)) a = 8"
  proof -
    have s: "sorted (take 8 (nkey n))" using n(4) by (simp add: sorted_wrt_take)
    let ?b = "lower_bound (take 8 (nkey n)) a"
    have less: "nkey n ! i < a" if "i < 8" for i
      using that sorted_nth_mono [OF n(4), of i 7] n(2) a by (simp add: tree_M_def)
    have "\<not> ?b < 8"
    proof
      assume b: "?b < 8"
      have "a \<le> take 8 (nkey n) ! ?b" by (rule lower_bound_spec(3) [OF s]) (use b n(2) in \<open>simp_all add: tree_M_def\<close>)
      with less [OF b] b show False by simp
    qed
    then show ?thesis using lower_bound_spec(1) [OF s, of a] by simp
  qed
  have c2: "fa_val c2 \<noteq> []" using fa_insert_child [OF assms(3)] fa_cut_tail(1) [OF assms(4)] by simp
  have "fa_val c2 ! 8 = fa_val (r_child nd) ! 8"
    using p fa_cut_tail(1) [OF assms(4)] fa_insert_sel(1) [OF assms(3), of 8] by (simp add: tree_M_def)
  also have "\<dots> = map Ptr (child n) ! 8"
    using n(2,3) by (simp add: nd(12,13) [symmetric] fa_list_def tree_M_def)
  also have "\<dots> = Ptr (child n ! 8)" using n(2,3) by (simp add: tree_M_def)
  finally have v: "fa_val c2 ! 8 = Ptr (child n ! 8)" .
  have "length (fa_val c2) = length (fa_val (r_child nd))"
    using fa_cut_tail [OF assms(4)] assms(3) by (auto simp: fa_insert_def memmove_length memcpy_length split: if_splits bind_splits)
  then have "8 < length (fa_val c2)" using nd(11) by (simp add: tree_M_def)
  then show ?thesis using v c2 by (simp add: r_child_at_def fa_get_def k2 lb nth_opt_def tree_M_def)
qed

section \<open>The race\<close>

text \<open>A leaf that is full but for one key, and that the next insertion splits in place.\<close>

definition splits_next :: "(fixed_string, fields) tree \<Rightarrow> nat \<Rightarrow> fixed_string \<Rightarrow> bool" where
  "splits_next t l k \<longleftrightarrow> leaf_of t 0 k = Some l \<and> \<not> pinned t l \<and> length (nkey (pool t l)) = tree_M - 1
     \<and> (case parent (pool t l) of None \<Rightarrow> False | Some par \<Rightarrow> length (nkey (pool t par)) < tree_M - 1)"

lemma race_misleads:
  assumes m: "machine_ok m" and k: "stag \<noteq> 0" and L: "rdma_live s t"
    and new: "is_ycsb kn" "contents t (Fixed kn) = None" "record_fits v" "distinct (map fst v)"
    and room: "6 * Suc (card (dom (contents t))) \<le> rdma_MAX_NODE_SIZE + 2"
    and l: "splits_next t l (Fixed kn)" "nkey (pool t l) ! (tree_M div 2) < Fixed kn"
    and j: "tree_M div 2 < j" "j < tree_M - 1" and rd: "heading m i num (nkey (pool t l) ! j) (Walking nd) = Some l"
  obtains s' rd' t' y where
    "race_run m i stag num (nkey (pool t l) ! j) [Message (rdma_insert_msg kn v @ pad, no), Remote_read] (s, Walking nd) = Some (s', rd')"
    "reader_result (rdma_fabric m i stag stag (rs_tree s')) stag (pool_address m) num (nkey (pool t l) ! j) rd' = Some y"
    "contents t (nkey (pool t l) ! (tree_M div 2)) = Some y" "rdma_live s' t'" "contents t' = (contents t)(Fixed kn \<mapsto> v)"
proof -
  let ?n = "pool t l" and ?a = "nkey (pool t l) ! j" and ?b = "nkey (pool t l) ! (tree_M div 2)" and ?v = "child (pool t l) ! (tree_M div 2)"
  from L have t: "tree_sim (rs_tree s) t" "tree_wf tree_M t" "tidy None t" by (auto simp: rdma_live_def)
  then obtain R rk kv where I: "inv_at [] t R rk kv" by (auto simp: tree_wf_def tree_inv_def)
  obtain s1 t1 w where s1: "rdma_step m (rdma_insert_msg kn v @ pad, no) s
      = Some (s1, [], [\<lparr>payload = rdma_inject_msg_type 0x0528, to_port = no, on_queue = 0\<rparr>])"
    "rdma_live s1 t1" "contents t1 = (contents t)(Fixed kn \<mapsto> v)" "\<And>k' v'. holds t k' v' \<Longrightarrow> holds t1 k' v'"
    "r_insert rdma_MAX_NODE_SIZE (rs_tree s) (Fixed kn) w = Some (rs_tree s1)"
    by (rule rdma_insert_live [OF L new room, where pad = pad and no = no and m = m]) blast
  from s1(2) have t1: "tree_sim (rs_tree s1) t1" "tree_wf tree_M t1" by (auto simp: rdma_live_def)
  have in0: "in_range (R 0) (Fixed kn)" by (simp add: inv_root(2) [OF I])
  have L1: "tree_node t l" "isLeaf ?n" "leaf_of t 0 (Fixed kn) = Some l"
    using leaf_of_total [OF I inv_root(1) [OF I] in0] l(1) by (auto simp: splits_next_def)
  have len: "length (nkey ?n) = 15" "length (child ?n) = length (nkey ?n)" "l \<noteq> 0" "\<not> isLoaded2Switch ?n"
    using l(1) inv_leaf_length [OF I L1(1,2)] by (auto simp: splits_next_def pinned_def tree_M_def)
  have asc: "ascending (nkey ?n)" "sorted (nkey ?n)" using inv_ascending [OF I L1(1)] by simp_all
  obtain par where par: "parent ?n = Some par" "tree_node t par" "\<not> isLeaf (pool t par)"
    by (rule inv_parentE [OF I L1(1) len(3)])
  have pl: "length (nkey (pool t par)) < 15" using l(1) par(1) by (simp add: splits_next_def tree_M_def)
  have fl: "r_find_leaf (Suc (r_nb_node (rs_tree s))) (rs_tree s) 0 (Fixed kn) = Some l"
    using sim_find_leaf [OF t(1) find_leaf_mono [of "nb_node t" t 0 "Fixed kn" l "Suc (nb_node t)"]] L1(3)
    by (simp add: leaf_of_def simD(2) [OF t(1)] del: r_find_leaf.simps)
  have ln: "l < r_nb_node (rs_tree s)" "par < r_nb_node (rs_tree s)" "l \<noteq> par"
    using L1 par by (auto simp: tree_node_def simD(2) [OF t(1)])
  obtain p k1 k2 c1 c2 where sp: "p = lower_bound (fa_list (r_key (rpool (rs_tree s) l))) (Fixed kn)"
    "fa_insert p (Fixed kn) (r_key (rpool (rs_tree s) l)) = Some k1" "fa_cut (tree_M div 2) k1 = Some k2"
    "fa_insert p (Ptr (r_nb_node (rs_tree s))) (r_child (rpool (rs_tree s) l)) = Some c1" "fa_cut (tree_M div 2) c1 = Some c2"
    "rpool (rs_tree s1) l = set_child c2 ((rpool (rs_tree s) l)\<lparr>r_key := k2\<rparr>)"
    by (rule r_insert_splits_leaf [OF s1(5) fl len(3)]) (use len L1 par pl ln in \<open>simp_all add: sim_node [OF t(1)] tree_M_def\<close>)
  have p8: "tree_M div 2 < p"
  proof (rule ccontr)
    assume "\<not> tree_M div 2 < p"
    then have "p \<le> 8" by (simp add: tree_M_def)
    then have "Fixed kn \<le> nkey ?n ! 8"
      using lower_bound_spec(3) [OF asc(2), of "Fixed kn" 8] len(1) by (simp add: sp(1) sim_node [OF t(1)])
    with l(2) show False by (simp add: tree_M_def)
  qed
  have a7: "nkey ?n ! (tree_M div 2 - 1) < ?a"
    using ascending_nth [OF asc(1), of 7 j] j len(1) by (simp add: tree_M_def)
  have go: "r_child_at (rpool (rs_tree s1) l) (lower_bound (fa_list (r_key (rpool (rs_tree s1) l))) ?a) = Some ?v"
    using split_leaf_misleads [OF sp(2-5) simD(1) [OF t(1)] _ len(2) asc(2) p8 a7] len(1) by (simp add: sp(6) tree_M_def)
  have hv: "holds t ?b ?v"
    unfolding holds_def using L1 len by (intro exI [of _ l] exI [of _ 8]) (simp add: tree_M_def)
  obtain y where y: "contents t ?b = Some y" using hv contents_iff [OF I] by blast
  have "?b \<noteq> Fixed kn" using l(2) by auto
  then have y1: "contents t1 ?b = Some y" using y by (simp add: s1(3))
  note h1 = s1(4) [OF hv]
  have "finite (dom (contents t))" by (simp add: contents_def finite_dom_map_of)
  then have "card (dom (contents t1)) \<le> Suc (card (dom (contents t)))" by (simp add: s1(3) card_insert_if)
  then have nb: "nb_node t1 \<le> rdma_MAX_NODE_SIZE" using nb_node_bound [OF t1(2)] room by simp
  note rb = fabric_readable [OF m nb k, of i "rs_tree s1"]
  from t1(2) obtain R1 rk1 kv1 where I1: "inv_at [] t1 R1 rk1 kv1" by (auto simp: tree_wf_def tree_inv_def)
  have ow: "on_way m i num ?b y t1 (Walking (rpool (rs_tree s1) ?v))" by (rule on_way_value [OF t1(2,1) h1 y1])
  have iv: "r_isValue (rpool (rs_tree s1) ?v)" "?v < nb_node t1"
    using holds_value [OF I1 h1] by (auto simp: sim_node [OF t1(1)] value_ok_def)
  have nv: "\<not> r_isValue (rpool (rs_tree s1) l)" using L1(1) by (simp add: sp(6) sim_node [OF t(1)] tree_node_def)
  have "nkey (pool t1 l) = fa_list k2" using node_simD(8) [OF simD(1) [OF t1(1), of l]] by (simp add: sp(6))
  moreover have "fa_list k2 \<noteq> []"
  proof -
    have "length (nkey (pool t1 l)) = fa_size k2" using node_simD(9) [OF simD(1) [OF t1(1), of l]] by (simp add: sp(6))
    then show ?thesis using fa_cut_tail(2) [OF sp(3)] calculation by (auto simp: tree_M_def)
  qed
  ultimately have l1: "l < nb_node t1" using tidyD(2) [of None t1 l] s1(2) by (auto simp: rdma_live_def not_less [symmetric])
  let ?net = "rdma_fabric m i stag stag (rs_tree s1)"
  have rl: "read_remote_node ?net stag (pool_address m l) 0 nd' = rpool (rs_tree s1) l" for nd'
    using rb l1 by (simp add: readable_def read_remote_node_def)
  have rv: "read_remote_node ?net stag (pool_address m ?v) 0 nd' = rpool (rs_tree s1) ?v" for nd'
    using rb iv(2) by (simp add: readable_def read_remote_node_def)
  have h: "\<not> r_isValue nd" "r_child_at nd (lower_bound (fa_list (r_key nd)) ?a) = Some l"
    using rd by (auto simp: heading_def split: if_splits)
  have run: "race_run m i stag num ?a [Message (rdma_insert_msg kn v @ pad, no), Remote_read] (s, Walking nd)
      = Some (s1, Walking (rpool (rs_tree s1) l))"
    using s1(1) h rl by (simp add: race_step_def reader_step_def)
  obtain x where x: "val_read (rpool (rs_tree s1) ?v) = Some x" "fa_ok x" "fa_list x = y"
    using ow iv(1) by (auto simp: on_way_def heading_def)
  have "rdma_chase ?net stag (pool_address m) ?a (rpool (rs_tree s1) l) 1 = Some (rpool (rs_tree s1) ?v, 1 + 1)"
    using nv iv(1) go rv by (simp add: rdma_chase.simps [of ?net stag "pool_address m" ?a "rpool (rs_tree s1) l"])
  then have "reader_result ?net stag (pool_address m) num ?a (Walking (rpool (rs_tree s1) l)) = Some y"
    using x by (simp add: reader_result_def fa_to_vector_ok)
  with that [OF run _ y s1(2,3)] show thesis by simp
qed

section \<open>Every tree has a flat form\<close>

definition flat_node :: "'k \<Rightarrow> ('k, fields) node \<Rightarrow> 'k rnode" where
  "flat_node k0 n = \<lparr>r_isLeaf = isLeaf n, r_isValue = isValue n, r_parent = parent n,
     r_key = \<lparr>fa_size = length (nkey n), fa_val = nkey n @ replicate (tree_M - length (nkey n)) k0\<rparr>,
     r_own = \<lparr>fa_size = length (child n), fa_val = map Ptr (take tree_M (child n)) @ replicate (tree_M - length (child n)) (Num 0)\<rparr>,
     r_val_len = (if tree_M < length (child n) then Ptr (child n ! tree_M) else Num (length (nval n))),
     r_pairs = nval n, r_access_count = access_count n, r_loaded = isLoaded2Switch n\<rparr>"

definition flat_tree :: "'k \<Rightarrow> ('k, fields) tree \<Rightarrow> 'k rtree" where
  "flat_tree k0 t = \<lparr>rpool = (\<lambda>n. flat_node k0 (pool t n)), r_nb_node = nb_node t, r_depth = depth t,
     r_nb_query = nb_query t, r_nb_access = nb_access t, key_map = (\<lambda>_. 0)\<rparr>"

lemma flat_node_sim:
  assumes "length (nkey n) \<le> tree_M" "length (child n) \<le> Suc tree_M" "isValue n \<Longrightarrow> child n = []"
  shows "node_sim (flat_node k0 n) n"
proof -
  have all: "take tree_M (child n) @ [child n ! tree_M] = child n" if "tree_M < length (child n)"
    using that assms(2) by (simp add: take_Suc_conv_app_nth [symmetric] del: M_pos)
  have l: "map Ptr (take tree_M (child n)) @ [Ptr (child n ! tree_M)] = map Ptr (child n)" if "tree_M < length (child n)"
    using arg_cong [OF all [OF that], of "map Ptr"] by (simp del: M_pos)
  have "fa_list (r_child (flat_node k0 n)) = map Ptr (child n)"
  proof (cases "tree_M < length (child n)")
    case True
    then have "length (child n) = Suc tree_M" using assms(2) by simp
    with l [OF True] show ?thesis by (simp add: flat_node_def r_child_def fa_list_def del: M_pos)
  qed (simp add: flat_node_def r_child_def fa_list_def)
  then show ?thesis
    using assms by (auto simp: node_sim_def flat_node_def fa_ok_def fa_list_def val_read_def r_child_def)
qed

lemma flat_tree_sim:
  assumes T: "tidy None t" and c: "childless t"
  shows "tree_sim (flat_tree k0 t) t"
proof -
  have "node_sim (flat_node k0 (pool t n)) (pool t n)" for n
    using tidyD(6,7) [OF T, of n] c by (intro flat_node_sim) (auto simp: childless_def)
  then show ?thesis by (simp add: tree_sim_def flat_tree_def)
qed

section \<open>A tree whose second leaf is full but for one key\<close>

definition race_key :: "nat \<Rightarrow> fixed_string" where
  "race_key i = Fixed (ycsb_key (of_nat i))"

definition race_record :: "nat \<Rightarrow> fields" where
  "race_record i = [(''field0'', to_string i)]"

text \<open>The records 0 to 22, as inserting them one after the other leaves them but for the order of the nodes.\<close>

definition race_tree :: "(fixed_string, fields) tree" where
  "race_tree = \<lparr>pool = (\<lambda>n. let nd = new_Node [] in
       if n = 0 then nd\<lparr>isLeaf := False, nkey := [race_key 7], child := [1, 2]\<rparr>
       else if n = 1 then nd\<lparr>parent := Some 0, nkey := map race_key [0..<8], child := [3..<11]\<rparr>
       else if n = 2 then nd\<lparr>parent := Some 0, nkey := map race_key [8..<23], child := [11..<26]\<rparr>
       else if n < 26 then nd\<lparr>isLeaf := False, isValue := True, parent := Some (if n < 11 then 1 else 2), nval := race_record (n - 3)\<rparr>
       else nd),
     nb_node = 26, depth = 2, nb_query = 0, nb_access = 0\<rparr>"

lemma race_key_less: "i < 100 \<Longrightarrow> j < 100 \<Longrightarrow> race_key i < race_key j \<longleftrightarrow> i < j"
  by (simp add: race_key_def rkey_order word_less_nat_alt unat_of_nat)

lemma race_keys_ascending: "j \<le> 100 \<Longrightarrow> ascending (map race_key [i..<j])"
  by (simp add: sorted_wrt_map sorted_wrt_iff_nth_less race_key_less)

lemma race_tree_sel:
  "nb_node race_tree = 26" "tree_node race_tree n \<longleftrightarrow> n < 3"
  "isLeaf (pool race_tree n) \<longleftrightarrow> n = 1 \<or> n = 2 \<or> 26 \<le> n" "isValue (pool race_tree n) \<longleftrightarrow> 3 \<le> n \<and> n < 26"
  "nkey (pool race_tree n) = (if n = 0 then [race_key 7] else if n = 1 then map race_key [0..<8]
     else if n = 2 then map race_key [8..<23] else [])"
  "child (pool race_tree n) = (if n = 0 then [1, 2] else if n = 1 then [3..<11] else if n = 2 then [11..<26] else [])"
  "parent (pool race_tree n) = (if n = 0 \<or> 26 \<le> n then None else if n < 3 then Some 0 else if n < 11 then Some 1 else Some 2)"
  "nval (pool race_tree n) = (if 3 \<le> n \<and> n < 26 then race_record (n - 3) else [])"
  "\<not> isLoaded2Switch (pool race_tree n)"
  by (auto simp: race_tree_def new_Node_def Let_def tree_node_def)

lemma race_tree_inv: "inv_at [] race_tree
    (\<lambda>n. if n = 0 then (None, None) else if n = 1 then (None, Some (race_key 7)) else (Some (race_key 7), None))
    (\<lambda>n. if n = 0 then 0 else 1) (\<lambda>n. race_key (n - 3))"
proof (rule inv_atI)
  fix n assume n: "tree_node race_tree n"
  then have n3: "n = 0 \<or> n = 1 \<or> n = 2" by (auto simp: race_tree_sel)
  have le: "race_key i \<le> race_key 7 \<longleftrightarrow> i \<le> 7" if "i < 100" for i
    using that race_key_less [of 7 i] by (simp add: not_less [symmetric])
  show "keys_ok race_tree (\<lambda>n. if n = 0 then (None, None) else if n = 1 then (None, Some (race_key 7)) else (Some (race_key 7), None)) n"
    using n3 race_keys_ascending [of 8 0] race_keys_ascending [of 23 8]
    by (elim disjE) (simp_all add: keys_ok_def race_tree_sel in_range_def le race_key_less del: upt_rec_numeral)
  show "inner_ok race_tree (\<lambda>n. if n = 0 then (None, None) else if n = 1 then (None, Some (race_key 7)) else (Some (race_key 7), None))
      (\<lambda>n. if n = 0 then 0 else 1) n" if "\<not> isLeaf (pool race_tree n)"
    using that n3 by (auto simp: inner_ok_def link_def race_tree_sel sub_range_def le_Suc_eq simp del: upt_rec_numeral)
  show "leaf_ok race_tree (\<lambda>n. race_key (n - 3)) n" if "isLeaf (pool race_tree n)"
    using that n3 by (auto simp: leaf_ok_def value_ok_def race_tree_sel simp del: upt_rec_numeral)
  show "up_ok race_tree n" if "n \<noteq> 0"
    using that n3 by (auto simp: up_ok_def race_tree_sel simp del: upt_rec_numeral)
qed (auto simp: race_tree_sel unused_def)

lemma race_tree_holds:
  assumes "3 \<le> n" "n < 26"
  shows "holds race_tree (race_key (n - 3)) n"
proof (cases "n < 11")
  case True
  then show ?thesis unfolding holds_def
    by - (rule exI [where x = 1], rule exI [where x = "n - 3"], use assms in \<open>simp add: race_tree_sel del: upt_rec_numeral\<close>)
next
  case False
  then show ?thesis unfolding holds_def
    by - (rule exI [where x = 2], rule exI [where x = "n - 11"], use assms in \<open>simp add: race_tree_sel del: upt_rec_numeral\<close>)
qed

lemma race_tree_wf: "tree_wf tree_M race_tree" "tidy None race_tree" "childless race_tree" "all_keys is_rkey race_tree"
proof -
  have c: "childless race_tree" by (simp add: childless_def race_tree_sel)
  note h = race_tree_holds
  show "tree_wf tree_M race_tree"
    using race_tree_inv c h by (auto simp: tree_wf_def tree_inv_def all_filled_def busy_but_def all_held_def race_tree_sel tree_M_def simp del: upt_rec_numeral)
  show "tidy None race_tree" by (auto simp: tidy_def race_tree_sel tree_M_def simp del: upt_rec_numeral split: if_splits)
  show "childless race_tree" by (rule c)
  show "all_keys is_rkey race_tree" by (auto simp: all_keys_def race_tree_sel race_key_def is_rkey_def fixed_to_string_def simp del: upt_rec_numeral)
qed

lemma race_tree_contents:
  "i < 23 \<Longrightarrow> contents race_tree (race_key i) = Some (race_record i)"
  "dom (contents race_tree) \<subseteq> race_key ` {..<23}"
proof -
  show "contents race_tree (race_key i) = Some (race_record i)" if "i < 23"
    unfolding contents_iff [OF race_tree_inv]
    using that race_tree_holds [of "i + 3"] by (intro exI [of _ "i + 3"]) (simp add: race_tree_sel)
  show "dom (contents race_tree) \<subseteq> race_key ` {..<23}"
  proof
    fix k assume "k \<in> dom (contents race_tree)"
    then obtain v where "holds race_tree k v" using contents_iff [OF race_tree_inv] by blast
    then have "value_ok race_tree (\<lambda>n. race_key (n - 3)) v k" by (rule holds_value [OF race_tree_inv])
    then have "k = race_key (v - 3)" "v - 3 < 23" by (auto simp: value_ok_def race_tree_sel)
    then show "k \<in> race_key ` {..<23}" by blast
  qed
qed

lemma race_tree_leaf:
  assumes "i < 100" "7 < i"
  shows "leaf_of race_tree 0 (race_key i) = Some 2"
proof -
  have "lower_bound [race_key 7] (race_key i) = 1"
    using assms race_key_less [of 7 i] lower_bound_spec(1,3) [of "[race_key 7]" "race_key i"]
    by (cases "lower_bound [race_key 7] (race_key i)") fastforce+
  then have "next_child race_tree 0 (race_key i) = Some 2" by (simp add: next_child_def race_tree_sel nth_opt_def)
  then show ?thesis by (simp add: leaf_of_def race_tree_sel numeral_eq_Suc)
qed

end
