(* ===== verification/Rdma_Threads.thy ===== *)
theory Rdma_Threads
  imports Rdma_Race
begin

text \<open>
  Several client threads on one database object. ycsbc.cc hands the same object to all of them, and
  \<open>remote_node\<close>, the buffer of every remote read, is a member of it: \<open>RDMARead\<close> of one thread and of
  another write to the same buffer. The threads are taken one remote read at a time, in the order
  of a schedule.
\<close>

section \<open>The threads\<close>

datatype read_pc = Begin_read | Reading | Returned fields

record read_thread =
  th_num :: "64 word"
  th_key :: fixed_string
  th_pc :: read_pc

definition new_read :: "64 word \<Rightarrow> read_thread" where
  "new_read n = \<lparr>th_num = n, th_key = Fixed (ycsb_key n), th_pc = Begin_read\<rparr>"

definition thread_read :: "(64 word \<times> 32 word \<Rightarrow> fixed_string rnode option) \<Rightarrow> 32 word \<Rightarrow> (nat \<Rightarrow> 64 word)
    \<Rightarrow> read_thread \<Rightarrow> fixed_string rnode \<Rightarrow> (read_thread \<times> fixed_string rnode) option" where
  "thread_read net stag adr t nd = (case th_pc t of
     Begin_read \<Rightarrow> Some (t\<lparr>th_pc := Reading\<rparr>, read_remote_node net stag 0 (th_num t) nd)
   | Reading \<Rightarrow> if r_isValue nd then do {
         v \<leftarrow> val_read nd;
         kvs \<leftarrow> fa_to_vector v;
         Some (t\<lparr>th_pc := Returned kvs\<rparr>, nd) }
       else do {
         n \<leftarrow> r_child_at nd (lower_bound (fa_list (r_key nd)) (th_key t));
         Some (t, read_remote_node net stag (adr n) 0 nd) }
   | Returned kvs \<Rightarrow> Some (t, nd))"

definition threads_step :: "(64 word \<times> 32 word \<Rightarrow> fixed_string rnode option) \<Rightarrow> 32 word \<Rightarrow> (nat \<Rightarrow> 64 word)
    \<Rightarrow> nat \<Rightarrow> read_thread list \<times> fixed_string rnode \<Rightarrow> (read_thread list \<times> fixed_string rnode) option" where
  "threads_step net stag adr i st = (case st of (ts, nd) \<Rightarrow> do {
     t \<leftarrow> nth_opt ts i;
     (t, nd) \<leftarrow> thread_read net stag adr t nd;
     Some (ts[i := t], nd) })"

fun threads_run :: "(64 word \<times> 32 word \<Rightarrow> fixed_string rnode option) \<Rightarrow> 32 word \<Rightarrow> (nat \<Rightarrow> 64 word)
    \<Rightarrow> nat list \<Rightarrow> read_thread list \<times> fixed_string rnode \<Rightarrow> (read_thread list \<times> fixed_string rnode) option" where
  "threads_run net stag adr [] st = Some st"
| "threads_run net stag adr (i # sched) st = do { st \<leftarrow> threads_step net stag adr i st; threads_run net stag adr sched st }"

lemma threads_run_append:
  "threads_run net stag adr (xs @ ys) st = do { st \<leftarrow> threads_run net stag adr xs st; threads_run net stag adr ys st }"
  by (induction xs arbitrary: st) (simp_all split: Option.bind_split)

section \<open>A thread that is not interrupted\<close>

text \<open>The rest of the loop of \<open>RDMARead\<close>, taken one remote read at a time.\<close>

lemma chase_steps:
  assumes "rdma_chase net stag adr k nd count = Some vc"
  shows "i < length ts \<Longrightarrow> th_pc (ts ! i) = Reading \<Longrightarrow> th_key (ts ! i) = k
    \<Longrightarrow> r_isValue (fst vc) \<and> (\<exists>n. threads_run net stag adr (replicate n i) (ts, nd) = Some (ts, fst vc))"
  using assms
proof (induction rule: rdma_chase.raw_induct [rotated, consumes 1, case_names step])
  case (step chase net stag adr k nd count vc)
  show ?case
  proof (cases "r_isValue nd")
    case True
    then have "vc = (nd, count)" using step.hyps by simp
    then show ?thesis using True by (auto intro!: exI [of _ 0])
  next
    case False
    then obtain d where d: "r_child_at nd (lower_bound (fa_list (r_key nd)) k) = Some d"
      "chase net stag adr k (read_remote_node net stag (adr d) 0 nd) (count + 1) = Some vc"
      using step.hyps by (auto split: bind_splits)
    obtain n where n: "r_isValue (fst vc)"
      "threads_run net stag adr (replicate n i) (ts, read_remote_node net stag (adr d) 0 nd) = Some (ts, fst vc)"
      using step.IH [OF d(2)] step.prems by blast
    have "threads_step net stag adr i (ts, nd) = Some (ts, read_remote_node net stag (adr d) 0 nd)"
      using step.prems d(1) False by (simp add: threads_step_def thread_read_def nth_opt_def)
    then show ?thesis using n by (auto intro!: exI [of _ "Suc n"])
  qed
qed

text \<open>What the connection serves for a key: a record, whatever the buffer holds before the first read.\<close>

definition serves :: "(64 word \<times> 32 word \<Rightarrow> fixed_string rnode option) \<Rightarrow> 32 word \<Rightarrow> (nat \<Rightarrow> 64 word)
    \<Rightarrow> 64 word \<Rightarrow> fields \<Rightarrow> bool" where
  "serves net stag adr n x \<longleftrightarrow> (\<forall>nd. \<exists>v c y. rdma_chase net stag adr (Fixed (ycsb_key n)) (read_remote_node net stag 0 n nd) 1 = Some (v, c)
     \<and> val_read v = Some y \<and> fa_to_vector y = Some x)"

lemma thread_alone:
  assumes s: "serves net stag adr n x" and i: "i < length ts" "ts ! i = new_read n"
  obtains m v y where "threads_run net stag adr (replicate m i) (ts, nd) = Some (ts[i := (new_read n)\<lparr>th_pc := Returned x\<rparr>], v)"
    "r_isValue v" "val_read v = Some y" "fa_to_vector y = Some x"
proof -
  let ?nd = "read_remote_node net stag 0 n nd" and ?ts = "ts[i := (new_read n)\<lparr>th_pc := Reading\<rparr>]"
  obtain v c y where v: "rdma_chase net stag adr (Fixed (ycsb_key n)) ?nd 1 = Some (v, c)" "val_read v = Some y" "fa_to_vector y = Some x"
    using s unfolding serves_def by blast
  obtain k where k: "r_isValue v" "threads_run net stag adr (replicate k i) (?ts, ?nd) = Some (?ts, v)"
    using chase_steps [OF v(1), of i ?ts] i by (auto simp: new_read_def)
  have "threads_step net stag adr i (ts, nd) = Some (?ts, ?nd)"
    using i by (simp add: threads_step_def thread_read_def nth_opt_def new_read_def)
  moreover have "threads_step net stag adr i (?ts, v) = Some (ts[i := (new_read n)\<lparr>th_pc := Returned x\<rparr>], v)"
    using i k(1) v(2,3) by (simp add: threads_step_def thread_read_def nth_opt_def new_read_def)
  ultimately have "threads_run net stag adr (i # replicate k i @ [i]) (ts, nd) = Some (ts[i := (new_read n)\<lparr>th_pc := Returned x\<rparr>], v)"
    using k(2) by (simp add: threads_run_append)
  moreover have "i # replicate k i @ [i] = replicate (Suc (Suc k)) i" by (simp add: replicate_append_same)
  ultimately show thesis using that [of "Suc (Suc k)" v y] k(1) v(2,3) by metis
qed

section \<open>Two threads\<close>

text \<open>One after the other, each gets its record.\<close>

lemma threads_in_turn:
  assumes "serves net stag adr a x" "serves net stag adr b y"
  obtains sched ts v where "threads_run net stag adr sched ([new_read a, new_read b], nd) = Some (ts, v)"
    "map th_pc ts = [Returned x, Returned y]"
proof -
  let ?t = "(new_read a)\<lparr>th_pc := Returned x\<rparr>" and ?u = "(new_read b)\<lparr>th_pc := Returned y\<rparr>"
  obtain m v where m: "threads_run net stag adr (replicate m 0) ([new_read a, new_read b], nd) = Some ([new_read a, new_read b][0 := ?t], v)"
    by (rule thread_alone [OF assms(1), of 0 "[new_read a, new_read b]"]) simp_all
  obtain k w where "threads_run net stag adr (replicate k 1) ([?t, new_read b], v) = Some ([?t, new_read b][1 := ?u], w)"
    by (rule thread_alone [OF assms(2), of 1 "[?t, new_read b]"]) simp_all
  then have "threads_run net stag adr (replicate m 0 @ replicate k 1) ([new_read a, new_read b], nd) = Some ([?t, ?u], w)"
    using m by (simp add: threads_run_append)
  then show thesis by (rule that) simp
qed

text \<open>When the second reads between the first read of the first thread and its test, both get the second record.\<close>

lemma threads_mixed:
  assumes "serves net stag adr b y"
  obtains sched ts v where "threads_run net stag adr sched ([new_read a, new_read b], nd) = Some (ts, v)"
    "map th_pc ts = [Returned y, Returned y]"
proof -
  let ?t = "(new_read a)\<lparr>th_pc := Reading\<rparr>" and ?u = "(new_read b)\<lparr>th_pc := Returned y\<rparr>"
  have f: "threads_step net stag adr 0 ([new_read a, new_read b], nd) = Some ([?t, new_read b], read_remote_node net stag 0 a nd)"
    by (simp add: threads_step_def thread_read_def nth_opt_def new_read_def)
  obtain k v z where k: "threads_run net stag adr (replicate k 1) ([?t, new_read b], read_remote_node net stag 0 a nd) = Some ([?t, new_read b][1 := ?u], v)"
    "r_isValue v" "val_read v = Some z" "fa_to_vector z = Some y"
    by (rule thread_alone [OF assms, of 1 "[?t, new_read b]"]) simp_all
  have "threads_step net stag adr 0 ([?t, ?u], v) = Some ([(new_read a)\<lparr>th_pc := Returned y\<rparr>, ?u], v)"
    using k(2-4) by (simp add: threads_step_def thread_read_def nth_opt_def new_read_def)
  then have "threads_run net stag adr (0 # replicate k 1 @ [0]) ([new_read a, new_read b], nd)
      = Some ([(new_read a)\<lparr>th_pc := Returned y\<rparr>, ?u], v)"
    using k(1) by (simp add: f threads_run_append)
  then show thesis by (rule that) simp
qed

text \<open>After the loading phase the connection serves every loaded record.\<close>

lemma loaded_serves:
  assumes m: "machine_ok m" and L: "rdma_live s t" and nb: "nb_node t \<le> rdma_MAX_NODE_SIZE" and k: "stag \<noteq> 0"
    and c: "info_route i n = pool_address m c" "c < nb_node t" "c \<in> set (route t (Fixed (ycsb_key n)))"
    and x: "contents t (Fixed (ycsb_key n)) = Some x"
  shows "serves (rdma_fabric m i stag stag (rs_tree s)) stag (pool_address m) n x"
proof -
  from L have t: "tree_sim (rs_tree s) t" "tree_wf tree_M t" "tidy None t" by (auto simp: rdma_live_def)
  have f: "read_remote_node (rdma_fabric m i stag stag (rs_tree s)) stag 0 n nd = rpool (rs_tree s) c" for nd
    using first_read [OF m c(1), of stag "rs_tree s"] c(2) nb by (simp add: read_remote_node_def)
  obtain v j y where "rdma_chase (rdma_fabric m i stag stag (rs_tree s)) stag (pool_address m) (Fixed (ycsb_key n)) (rpool (rs_tree s) c) 1 = Some (v, j)"
    "val_read v = Some y" "fa_ok y" "fa_list y = x"
    using chase_finds [OF t fabric_readable [OF m nb k] c(3) x] by blast
  then show ?thesis by (auto simp: serves_def f fa_to_vector_ok)
qed

end
