(* ===== verification/Rdma_Properties.thy ===== *)
theory Rdma_Properties
  imports Rdma_System
begin

text \<open>
  The properties of the RDMA path.
\<close>

section \<open>Something to try them on\<close>

definition sample_machine :: rdma_machine where
  "sample_machine = \<lparr>pool_base = 4096, rnode_size = 5000, setup_result = 0, top_node = (\<lambda>s q. hd q),
     busiest_first = (\<lambda>s xs. xs)\<rparr>"

definition sample_load :: "(string \<times> fields) list" where
  "sample_load = map (\<lambda>i. (ycsb_key (of_nat i), [(''field0'', if i = 41 then ''y'' else ''x'')])) [0..<300]"

lemma sample_machine_ok: "machine_ok sample_machine"
  by (simp add: machine_ok_def sample_machine_def rdma_MAX_NODE_SIZE_def)

lemma sample_loadable: "loadable sample_load"
proof -
  have "inj_on (\<lambda>i :: nat. ycsb_key (of_nat i)) {0..<300}"
  proof (rule inj_onI)
    fix a b :: nat assume ab: "a \<in> {0..<300}" "b \<in> {0..<300}" "ycsb_key (of_nat a) = ycsb_key (of_nat b)"
    then have "unat (of_nat a :: 64 word) = unat (of_nat b :: 64 word)" by (simp add: ycsb_inj)
    with ab(1,2) show "a = b" by (simp add: unat_of_nat)
  qed
  then show ?thesis
    by (auto simp: loadable_def sample_load_def comp_def distinct_map record_fits_def field_fits_def fixed_lengths)
qed

lemma sample_counts: "256 < length sample_load" "6 * length sample_load \<le> rdma_MAX_NODE_SIZE + 2"
  by (simp_all add: sample_load_def rdma_MAX_NODE_SIZE_def)

lemma sample_pkts: "list_all2 (\<lambda>(k, v) pkt. \<exists>pad. fst pkt = rdma_insert_msg k v @ pad) sample_load
    (map (\<lambda>(k, v). (rdma_insert_msg k v, 1 :: 16 word)) sample_load)"
proof -
  have "list_all2 (\<lambda>(k, v) pkt. \<exists>pad. fst pkt = rdma_insert_msg k v @ pad) kvs (map (\<lambda>(k, v). (rdma_insert_msg k v, 1 :: 16 word)) kvs)" for kvs
    by (induction kvs) auto
  then show ?thesis .
qed

section \<open>The path as a whole\<close>

text \<open>
  C3: after the insertions of the loading phase, more than 256 and as many as the pool has room
  for, the server prepares the switch, everything it hands out is marked, and a one-sided read
  of a loaded record, which enters the tree where the switch sends it and finds its way in the
  server's memory, ends and gives that record.
\<close>

theorem rdma_reads_loaded_records:
  assumes "machine_ok m" "loadable kvs" "256 < length kvs" "6 * length kvs \<le> rdma_MAX_NODE_SIZE + 2"
    and "list_all2 (\<lambda>(k, v) pkt. \<exists>pad. fst pkt = rdma_insert_msg k v @ pad) kvs pkts"
    and "fst load_pkt = rdma_inject_msg_type 0x0600 @ pad"
    and "until_done input = Some input'" "until_done input' = Some input''" "stag \<noteq> 0"
  shows "\<exists>s i infos outs. rdma_run m (pkts @ [load_pkt]) (new_rdma_server input) = Some (s, i # infos, outs)
    \<and> (\<forall>j \<in> set (i # infos). r_marked (pool_base m) (rnode_size m) (rs_tree s) j)
    \<and> (\<forall>table key v d. (table_key table key, v) \<in> set kvs
       \<longrightarrow> (\<exists>d'. rdma_RDMARead (rdma_fabric m i stag stag (rs_tree s)) stag (pool_address m) table key [] d = Inr (v, d')))"
  by (rule rdma_system_reads [OF assms]) blast

theorem rdma_reads_loaded_records_witness:
  "\<exists>s i infos outs. rdma_run sample_machine (map (\<lambda>(k, v). (rdma_insert_msg k v, 1)) sample_load @ [(rdma_inject_msg_type 0x0600, 1)])
      (new_rdma_server [''done'', ''done'']) = Some (s, i # infos, outs)
    \<and> (\<forall>d. \<exists>d'. rdma_RDMARead (rdma_fabric sample_machine i 7 7 (rs_tree s)) 7 (pool_address sample_machine) ''usertable''
        (BuildKeyName True 20 42) [] d = Inr ([(''field0'', ''x'')], d'))"
proof -
  let ?pkts = "map (\<lambda>(k, v). (rdma_insert_msg k v, 1 :: 16 word)) sample_load"
  have l: "fst (rdma_inject_msg_type 0x0600, 1 :: 16 word) = rdma_inject_msg_type 0x0600 @ []" by simp
  have i: "until_done [''done'', ''done''] = Some [''done'']" "until_done [''done''] = Some []" "(7 :: 32 word) \<noteq> 0"
    by (simp_all add: until_done_def)
  have "table_key ''usertable'' (BuildKeyName True 20 42) = ycsb_key (of_nat 42)" by (simp add: ycsb_key_def)
  moreover have "(ycsb_key (of_nat 42), [(''field0'', ''x'')]) \<in> set sample_load"
    unfolding sample_load_def set_map by (rule image_eqI [of _ _ 42]) simp_all
  ultimately have k: "(table_key ''usertable'' (BuildKeyName True 20 42), [(''field0'', ''x'')]) \<in> set sample_load" by simp
  from rdma_reads_loaded_records [OF sample_machine_ok sample_loadable sample_counts sample_pkts l i] k show ?thesis by blast
qed

section \<open>The tree\<close>



section \<open>What goes wrong\<close>

text \<open>
  C38: a tree of less than three levels cannot be handed to the switch: \<open>depth - root_load_depth\<close>
  wraps around, and the loop over the layers leaves the vector.
\<close>

theorem rdma_small_tree_not_loaded:
  assumes "unat (r_depth (rs_tree s)) < 3"
  shows "rdma_step m (rdma_inject_msg_type 0x0600 @ pad, no) s = None"
proof -
  have "rdma_load m ((rs_tree s)\<lparr>r_nb_query := 0, r_nb_access := 0\<rparr>) = None"
    unfolding rdma_load_def rdma_root_load_depth_def by (rule r_greedy_small) (use assms in simp)
  then have "rdma_handle_load2switch m s = None" by (auto simp: rdma_handle_load2switch_def Let_def split: bind_split)
  then show ?thesis by (simp add: rdma_step_def)
qed

theorem rdma_small_tree_not_loaded_witness:
  "rdma_step sample_machine (rdma_inject_msg_type 0x0600, 1) (new_rdma_server [''done'', ''done'']) = None"
  using rdma_small_tree_not_loaded [of "new_rdma_server [''done'', ''done'']" sample_machine "[]" 1]
  by (simp add: new_rdma_server_def new_rtree_def)

text \<open>
  The RDMA server answers an update with the message of success and does not carry it out:
  its state is what it was, whatever the request says.
\<close>

theorem rdma_update_ignored:
  assumes "is_ycsb k" "record_fits v" "b < 2 ^ 48"
  shows "rdma_step m (rdma_inject_msg_type 0x0531 @ with_fbt_idx num b @ inject_key_index k @ inject_values v @ pad, no) s
    = Some (s, [], [\<lparr>payload = rdma_inject_msg_type 0x0530, to_port = no, on_queue = 0\<rparr>])"
proof -
  have e: "\<exists>w. extract_values_fixed (inject_values v @ pad) = Some (w, pad)"
    using extract_inject_values_fixed [OF record_fits_fields [OF assms(2)], of pad] assms(2) by simp
  then have "rdma_handle_update (with_fbt_idx num b @ inject_key_index k @ inject_values v @ pad) no s
    = Some (s, [\<lparr>payload = rdma_inject_msg_type 0x0530, to_port = no, on_queue = 0\<rparr>])"
    using extract_with_fbt_idx [OF assms(3)]
    by (auto simp: rdma_handle_update_def extract_key_sent [OF assms(1)] reply_def)
  then show ?thesis by (simp add: rdma_step_def)
qed

theorem rdma_update_ignored_witness:
  "rdma_step sample_machine (rdma_inject_msg_type 0x0531 @ with_fbt_idx 7 4096 @ inject_key_index (ycsb_key 7)
      @ inject_values [(''field0'', ''new'')] @ [], 3) (new_rdma_server [])
    = Some (new_rdma_server [], [], [\<lparr>payload = rdma_inject_msg_type 0x0530, to_port = 3, on_queue = 0\<rparr>])"
  by (rule rdma_update_ignored) (simp_all add: record_fits_def field_fits_def fixed_lengths)

text \<open>
  C39: the server reads a record a client has sent exactly when it fits into the fixed arrays;
  otherwise it writes behind one of them.
\<close>

theorem rdma_record_read_back:
  assumes "fields_fit vs"
  shows "(case extract_values_fixed (inject_values vs @ rest) of
      None \<Rightarrow> \<not> record_fits vs
    | Some (v, msg) \<Rightarrow> record_fits vs \<and> fa_ok v \<and> fa_list v = vs \<and> msg = rest \<and> inject_values_fixed v = Some (inject_values vs))"
proof (cases "record_fits vs")
  case True
  let ?v = "\<lparr>fa_size = length vs, fa_val = vs @ drop (length vs) unset_values\<rparr>"
  have "fa_ok ?v" "fa_list ?v = vs" by (simp_all add: fa_ok_def fa_list_def)
  then show ?thesis
    using True inject_values_fixed_ok [of ?v] by (simp add: extract_inject_values_fixed [OF assms])
qed (simp add: extract_inject_values_fixed [OF assms])

theorem rdma_record_read_back_witness:
  "extract_values_fixed (inject_values [(''field0'', ''x'')]) \<noteq> None \<and> extract_values_fixed (inject_values [(''field10'', ''x'')]) = None"
  using rdma_record_read_back [of "[(''field0'', ''x'')]" "[]"] rdma_record_read_back [of "[(''field10'', ''x'')]" "[]"]
  by (auto simp: fields_fit_def pair_fits_def string_fits_def record_fits_def field_fits_def fixed_lengths split: option.splits)

text \<open>
  C40: the result of a remote read is not looked at: when the first read of an operation fails,
  \<open>RDMARead\<close> returns the record the operation before has left in the buffer, as a success.
\<close>

theorem rdma_failed_read_returns_old_record:
  assumes "key_number (table_key table key) = Inr num" "length (table_key table key) \<le> KEY_LEN" "net (num, 0) = None"
    and "r_isValue (remote_node d)" "val_read (remote_node d) = Some v" "fa_ok v"
  shows "rdma_RDMARead net stag adr table key result d
    = Inr (result @ fa_list v, d\<lparr>read_count := read_count d @ [1]\<rparr>)"
proof -
  have "read_remote_node net stag 0 num (remote_node d) = remote_node d"
    using assms(3) by (simp add: read_remote_node_def)
  then show ?thesis
    using assms by (simp add: rdma_RDMARead_def new_fixed_def rdma_chase.simps [of net stag adr _ "remote_node d"] fa_to_vector_ok)
qed

theorem rdma_failed_read_returns_old_record_witness:
  "\<forall>s0. let d = \<lparr>db_link = s0, remote_node = (val_assign \<lparr>fa_size = 1, fa_val = [(''field0'', ''old'')]\<rparr> (new_RNode (Fixed [])))
      \<lparr>r_isValue := True\<rparr>, read_count = []\<rparr>
    in rdma_RDMARead (\<lambda>_. None) 7 (\<lambda>_. 0) ''usertable'' (BuildKeyName True 20 42) [] d
      = Inr ([(''field0'', ''old'')], d\<lparr>read_count := [1]\<rparr>)"
proof -
  define nd where "nd = (val_assign \<lparr>fa_size = 1, fa_val = [(''field0'', ''old'')]\<rparr> (new_RNode (Fixed [])))\<lparr>r_isValue := True\<rparr>"
  have t: "table_key ''usertable'' (BuildKeyName True 20 42) = ycsb_key 42" by (simp add: ycsb_key_def)
  have k: "key_number (table_key ''usertable'' (BuildKeyName True 20 42)) = Inr 42"
    "length (table_key ''usertable'' (BuildKeyName True 20 42)) \<le> KEY_LEN"
    by (simp_all only: t) (simp_all add: key_number_def ycsb_length KEY_LEN_def)
  have v: "val_read nd = Some \<lparr>fa_size = 1, fa_val = [(''field0'', ''old'')]\<rparr>" "r_isValue nd"
    by (simp_all add: nd_def val_assign_def val_read_def new_RNode_def)
  show ?thesis
    unfolding nd_def [symmetric] Let_def
    using rdma_failed_read_returns_old_record [OF k, where net = "\<lambda>_. None" and stag = 7 and adr = "\<lambda>_. 0" and result = "[]"
      and d = "\<lparr>db_link = s0, remote_node = nd, read_count = []\<rparr>" for s0] v
    by (simp add: fa_ok_def fa_list_def)
qed

end
