(* ===== verification/Rdma_Race_Properties.thy ===== *)
theory Rdma_Race_Properties
  imports Rdma_Split_Race Rdma_Threads Rdma_Properties
begin

text \<open>
  The properties of the RDMA server under any requests, of one-sided reads that run while it
  handles them, and of reads by several threads of one client.
\<close>

section \<open>The server\<close>


lemma enters_root: "rdma_live s t \<Longrightarrow> enters m t 0 k"
  using root_on_route by (auto simp: enters_def r_node_of_def pinned_def rdma_live_def tree_wf_def)

lemma ycsb_key_eq: "ycsb_key a = ycsb_key b \<longleftrightarrow> a = b"
  by (metis ycsb_inj)








section \<open>Reading while the server works\<close>

text \<open>The node the switch sends a reader to is marked, and its address one the server accepts.\<close>

lemma switch_route_enters:
  assumes m: "machine_ok m" and L: "rdma_live s t" and nb: "nb_node t \<le> rdma_MAX_NODE_SIZE"
    and mk: "r_marked (pool_base m) (rnode_size m) (rs_tree s) i"
    and r: "\<exists>c. info_route i w = pool_address m c \<and> c < nb_node t \<and> c \<in> set (route t (Fixed (ycsb_key w))) \<and> info_route i w \<in> set (info_child i)"
  shows "enters m t (info_route i w) (ycsb_key w)"
    and "\<exists>c. r_node_of m (info_route i w) = Some (Some c) \<and> c \<in> set (route t (Fixed (ycsb_key w))) \<and> pinned t c"
proof -
  from L have sim: "tree_sim (rs_tree s) t" by (simp add: rdma_live_def)
  obtain c where c: "info_route i w = pool_address m c" "c < nb_node t" "c \<in> set (route t (Fixed (ycsb_key w)))"
    "info_route i w \<in> set (info_child i)" using r by blast
  obtain c' where c': "info_route i w = pool_address m c'" "c' < nb_node t" "isLoaded2Switch (pool t c')"
    using mk c(4) by (auto simp: r_marked_def sim_node [OF sim] simD(2) [OF sim])
  have "c' = c"
    using r_node_of_address(2) [OF m, of c] r_node_of_address(2) [OF m, of c'] c(1,2) c'(1,2) nb by simp
  have "c * rnode_size m \<le> rdma_MAX_NODE_SIZE * rnode_size m" using c(2) nb by (intro mult_le_mono1) simp
  moreover have "unat (pool_base m) + rdma_MAX_NODE_SIZE * rnode_size m < 2 ^ 48" using m by (simp add: machine_ok_def)
  ultimately have "unat (pool_base m) + c * rnode_size m < 2 ^ 48" by linarith
  then have "unat (pool_address m c) < 2 ^ 48" by (simp add: r_address_def unat_word_ariths unat_of_nat del: of_nat_mult)
  then have b: "info_route i w < 2 ^ 48" by (simp add: c(1) word_less_nat_alt)
  have "r_node_of m (info_route i w) = Some (Some c)" using r_node_of_address(2) [OF m, of c] c(1,2) nb by simp
  then show "enters m t (info_route i w) (ycsb_key w)"
    and "\<exists>c. r_node_of m (info_route i w) = Some (Some c) \<and> c \<in> set (route t (Fixed (ycsb_key w))) \<and> pinned t c"
    using b c(3) c'(3) \<open>c' = c\<close> by (simp_all add: enters_def pinned_def)
qed

text \<open>The records after the loading phase.\<close>

lemma loaded_records: "contents t = map_of (map (\<lambda>(k, v). (Fixed k, v)) kvs) \<Longrightarrow> rdma_records t = map_of kvs"
proof
  fix k assume c: "contents t = map_of (map (\<lambda>(k, v). (Fixed k, v)) kvs)"
  show "rdma_records t k = map_of kvs k" unfolding rdma_records_def c by (induction kvs) auto
qed

lemma loadable_fit: "loadable kvs \<Longrightarrow> rdma_records t = map_of kvs \<Longrightarrow> records_fit (rdma_records t)"
  by (auto simp: records_fit_def loadable_def dest!: map_of_SomeD)

text \<open>The addresses requests carry: null, or what the switch finds for the number of the key.\<close>

definition switch_sends :: "node_info \<Rightarrow> (string \<Rightarrow> 64 word) \<Rightarrow> bool" where
  "switch_sends i adr \<longleftrightarrow> (\<forall>k. adr k = 0 \<or> (\<exists>w. k = ycsb_key w \<and> adr k = info_route i w))"

text \<open>
  C4: a one-sided read may run while the server handles any requests. After the loading phase
  let a client read a loaded record from the node the switch sends it to, and let the server
  handle between its remote reads whatever insertions of new records, lookups and updates
  arrive: as long as no insertion splits in place the very node the reader is about to read,
  neither the server nor the reader gets stuck, and whenever the reader is left to finish
  it finds the loaded record. At the beginning the reader is safe: the node of the switch is
  marked, and never split in place.
\<close>

theorem rdma_read_races_requests:
  assumes "machine_ok m" "loadable kvs" "256 < length kvs" "6 * length kvs \<le> rdma_MAX_NODE_SIZE + 2"
    and "list_all2 (\<lambda>(k, v) pkt. \<exists>pad. fst pkt = rdma_insert_msg k v @ pad) kvs pkts"
    and "fst load_pkt = rdma_inject_msg_type 0x0600 @ pad"
    and "until_done input = Some input'" "until_done input' = Some input''" "stag \<noteq> 0"
  shows "\<exists>s i infos outs. rdma_run m (pkts @ [load_pkt]) (new_rdma_server input) = Some (s, i # infos, outs)
    \<and> (\<forall>n v num adr rs evs nd. (ycsb_key n, v) \<in> set kvs \<longrightarrow> switch_sends i adr \<longrightarrow> rdma_sensible_run (map_of kvs) rs
       \<longrightarrow> 6 * (length kvs + length rs) \<le> rdma_MAX_NODE_SIZE + 2 \<longrightarrow> list_all2 (rdma_carries num adr) rs (race_pkts evs)
       \<longrightarrow> undisturbed m i stag n (Fixed (ycsb_key n)) evs (s, Starting nd)
       \<longrightarrow> (\<exists>s' rd'. race_run m i stag n (Fixed (ycsb_key n)) evs (s, Starting nd) = Some (s', rd')
          \<and> reader_result (rdma_fabric m i stag stag (rs_tree s')) stag (pool_address m) n (Fixed (ycsb_key n)) rd' = Some v))
    \<and> (\<forall>n nd. case heading m i n (Fixed (ycsb_key n)) (Starting nd) of None \<Rightarrow> False | Some c \<Rightarrow> not_split (rs_tree s) c)"
proof (rule rdma_system_loaded [OF assms(1-8)])
  note m = assms(1)
  fix s t i infos outs
  assume s: "rdma_run m (pkts @ [load_pkt]) (new_rdma_server input) = Some (s, i # infos, outs)"
    "\<forall>j \<in> set (i # infos). r_marked (pool_base m) (rnode_size m) (rs_tree s) j" "rdma_live s t"
    "contents t = map_of (map (\<lambda>(k, v). (Fixed k, v)) kvs)" "card (dom (contents t)) = length kvs"
    "nb_node t \<le> rdma_MAX_NODE_SIZE"
    "\<And>w. \<exists>c. info_route i w = pool_address m c \<and> c < nb_node t \<and> c \<in> set (route t (Fixed (ycsb_key w)))
       \<and> info_route i w \<in> set (info_child i)"
  have mk: "r_marked (pool_base m) (rnode_size m) (rs_tree s) i" using s(2) by simp
  note go = switch_route_enters [OF m s(3,6) mk s(7)]
  have sim: "tree_sim (rs_tree s) t" using s(3) by (simp add: rdma_live_def)
  note rec = loaded_records [OF s(4)]
  have fit: "records_fit (rdma_records t)" by (rule loadable_fit [OF assms(2) rec])
  have "\<exists>s' rd'. race_run m i stag n (Fixed (ycsb_key n)) evs (s, Starting nd) = Some (s', rd')
      \<and> reader_result (rdma_fabric m i stag stag (rs_tree s')) stag (pool_address m) n (Fixed (ycsb_key n)) rd' = Some v"
    if h: "(ycsb_key n, v) \<in> set kvs" "switch_sends i adr" "rdma_sensible_run (map_of kvs) rs"
      "6 * (length kvs + length rs) \<le> rdma_MAX_NODE_SIZE + 2" "list_all2 (rdma_carries num adr) rs (race_pkts evs)"
      "undisturbed m i stag n (Fixed (ycsb_key n)) evs (s, Starting nd)" for n v num adr rs evs nd
  proof (rule race_run_finds [OF m assms(9) s(3) _ _ h(6,5) _ fit])
    show "contents t (Fixed (ycsb_key n)) = Some v" using loadable_find [OF assms(2) h(1)] by (simp add: s(4))
    show "on_way m i n (Fixed (ycsb_key n)) v t (Starting nd)" using go(2) [of n] by (auto simp: on_way_def heading_def)
    show "enters m t (adr k) k" for k using h(2) go(1) enters_root [OF s(3)] unfolding switch_sends_def by metis
  qed (use h(3,4) in \<open>simp_all add: rec s(5)\<close>)
  moreover have "case heading m i n (Fixed (ycsb_key n)) (Starting nd) of None \<Rightarrow> False | Some c \<Rightarrow> not_split (rs_tree s) c" for n nd
    using go(2) [of n] by (auto simp: heading_def not_split_def pinned_def sim_node [OF sim])
  ultimately show ?thesis using s(1) by blast
qed

theorem rdma_read_races_requests_witness:
  "\<exists>s i infos outs s' rd'. rdma_run sample_machine (map (\<lambda>(k, v). (rdma_insert_msg k v, 1)) sample_load @ [(rdma_inject_msg_type 0x0600, 1)])
      (new_rdma_server [''done'', ''done'']) = Some (s, i # infos, outs)
    \<and> race_run sample_machine i 7 42 (Fixed (ycsb_key 42))
        [Message (rdma_insert_msg (ycsb_key 1000) [(''field0'', ''y'')], 2), Remote_read,
         Message (rdma_request_msg (\<lambda>_. 0) (\<lambda>_. 0) (Query_req (ycsb_key 1000)), 2), Remote_read]
        (s, Starting (new_RNode (Fixed []))) = Some (s', rd')
    \<and> reader_result (rdma_fabric sample_machine i 7 7 (rs_tree s')) 7 (pool_address sample_machine) 42 (Fixed (ycsb_key 42)) rd'
        = Some [(''field0'', ''x'')]"
proof -
  let ?pkts = "map (\<lambda>(k, v). (rdma_insert_msg k v, 1 :: 16 word)) sample_load"
  let ?rs = "[Insert_req (ycsb_key 1000) [(''field0'', ''y'')], Query_req (ycsb_key 1000)]"
  let ?q = "(rdma_request_msg (\<lambda>_. 0) (\<lambda>_. 0) (Query_req (ycsb_key 1000)), 2)"
  let ?evs = "[Message (rdma_insert_msg (ycsb_key 1000) [(''field0'', ''y'')], 2), Remote_read, Message ?q, Remote_read]"
  have l: "fst (rdma_inject_msg_type 0x0600, 1 :: 16 word) = rdma_inject_msg_type 0x0600 @ []" by simp
  have i: "until_done [''done'', ''done''] = Some [''done'']" "until_done [''done''] = Some []" "(7 :: 32 word) \<noteq> 0"
    by (simp_all add: until_done_def)
  obtain s i infos outs where s: "rdma_run sample_machine (?pkts @ [(rdma_inject_msg_type 0x0600, 1)]) (new_rdma_server [''done'', ''done''])
      = Some (s, i # infos, outs)"
    and r: "\<And>n v num adr rs evs nd. (ycsb_key n, v) \<in> set sample_load \<Longrightarrow> switch_sends i adr \<Longrightarrow> rdma_sensible_run (map_of sample_load) rs
       \<Longrightarrow> 6 * (length sample_load + length rs) \<le> rdma_MAX_NODE_SIZE + 2 \<Longrightarrow> list_all2 (rdma_carries num adr) rs (race_pkts evs)
       \<Longrightarrow> undisturbed sample_machine i 7 n (Fixed (ycsb_key n)) evs (s, Starting nd)
       \<Longrightarrow> (\<exists>s' rd'. race_run sample_machine i 7 n (Fixed (ycsb_key n)) evs (s, Starting nd) = Some (s', rd')
          \<and> reader_result (rdma_fabric sample_machine i 7 7 (rs_tree s')) 7 (pool_address sample_machine) n (Fixed (ycsb_key n)) rd' = Some v)"
    and h: "\<And>n nd. case heading sample_machine i n (Fixed (ycsb_key n)) (Starting nd) of None \<Rightarrow> False | Some c \<Rightarrow> not_split (rs_tree s) c"
    using rdma_read_races_requests [OF sample_machine_ok sample_loadable sample_counts sample_pkts l i] by blast
  have k: "(ycsb_key 42, [(''field0'', ''x'')]) \<in> set sample_load"
    unfolding sample_load_def set_map by (rule image_eqI [of _ _ 42]) simp_all
  have "map_of sample_load (ycsb_key 1000) = None"
  proof -
    have "ycsb_key 1000 \<noteq> ycsb_key (of_nat j)" if "j < 300" for j
    proof
      assume "ycsb_key 1000 = ycsb_key (of_nat j)"
      then have "unat (1000 :: 64 word) = unat (of_nat j :: 64 word)" by (simp only: ycsb_key_eq)
      with that show False by (simp add: unat_of_nat)
    qed
    moreover have "fst ` set sample_load \<subseteq> (\<lambda>j. ycsb_key (of_nat j)) ` {..<300}" by (auto simp: sample_load_def)
    ultimately show ?thesis unfolding map_of_eq_None_iff by blast
  qed
  then have q: "rdma_sensible_run (map_of sample_load) ?rs"
    by (simp add: record_fits_def field_fits_def fixed_lengths)
  have c: "list_all2 (rdma_carries (\<lambda>_. 0) (\<lambda>_. 0)) ?rs (race_pkts ?evs)"
    by (simp add: rdma_carries_def)
  have u: "undisturbed sample_machine i 7 42 (Fixed (ycsb_key 42)) ?evs (s, Starting (new_RNode (Fixed [])))"
    using h [of 42 "new_RNode (Fixed [])"] request_inserts [of "\<lambda>_. 0" "\<lambda>_. 0" "Query_req (ycsb_key 1000)" "[]" 2]
    by (simp add: split: option.splits)
  have "6 * (length sample_load + length ?rs) \<le> rdma_MAX_NODE_SIZE + 2" by (simp add: sample_load_def rdma_MAX_NODE_SIZE_def)
  from r [OF k _ q this c u] s show ?thesis by (auto simp: switch_sends_def)
qed

text \<open>
  C31: without this condition a read goes wrong. Let a reader be on its way to a leaf that is full
  but for one key and neither marked nor the root, and let the server insert a greater key
  into that leaf: the server splits the leaf in place, and for every key of the half that has
  moved but the first, the reader follows an old pointer behind the end of the leaf's children
  and returns the record of another key as a success, while the record it was to read is
  still in the tree.
\<close>

theorem racing_split_misleads:
  assumes "machine_ok m" "stag \<noteq> 0" "rdma_live s t"
    and "is_ycsb kn" "contents t (Fixed kn) = None" "record_fits v" "distinct (map fst v)"
    and "6 * Suc (card (dom (contents t))) \<le> rdma_MAX_NODE_SIZE + 2"
    and "splits_next t l (Fixed kn)" "nkey (pool t l) ! (tree_M div 2) < Fixed kn"
    and "tree_M div 2 < j" "j < tree_M - 1" "heading m i num (nkey (pool t l) ! j) (Walking nd) = Some l"
  shows "\<exists>s' rd' t' y.
    race_run m i stag num (nkey (pool t l) ! j) [Message (rdma_insert_msg kn v @ pad, no), Remote_read] (s, Walking nd) = Some (s', rd')
    \<and> reader_result (rdma_fabric m i stag stag (rs_tree s')) stag (pool_address m) num (nkey (pool t l) ! j) rd' = Some y
    \<and> contents t (nkey (pool t l) ! (tree_M div 2)) = Some y
    \<and> rdma_live s' t' \<and> contents t' = (contents t)(Fixed kn \<mapsto> v)"
  by (rule race_misleads [OF assms]) blast

text \<open>The reader of record 20 gets record 16: it has read the root when record 23 is inserted.\<close>

definition race_server :: rdma_server where
  "race_server = \<lparr>rs_tree = flat_tree (Fixed []) race_tree, msg_out = [], words_in = []\<rparr>"

lemma race_server_live: "rdma_live race_server race_tree"
  using race_tree_wf flat_tree_sim [OF race_tree_wf(2,3)] by (simp add: rdma_live_def race_server_def)

theorem racing_split_misleads_witness:
  "\<forall>i. \<exists>s' rd'. race_run sample_machine i 7 20 (race_key 20)
      [Message (rdma_insert_msg (ycsb_key 23) [(''field0'', ''x'')], 1), Remote_read]
      (race_server, Walking (rpool (rs_tree race_server) 0)) = Some (s', rd')
    \<and> reader_result (rdma_fabric sample_machine i 7 7 (rs_tree s')) 7 (pool_address sample_machine) 20 (race_key 20) rd'
        = Some [(''field0'', ''16'')]" (is "\<forall>i. ?P i")
proof
  fix i
  let ?kn = "ycsb_key 23" and ?v = "[(''field0'', ''x'')]" and ?nd = "rpool (rs_tree race_server) 0"
  have kn: "Fixed ?kn = race_key 23" by (simp add: race_key_def)
  have key: "nkey (pool race_tree 2) ! 12 = race_key 20" "nkey (pool race_tree 2) ! 8 = race_key 16"
    by (simp_all add: race_tree_sel tree_M_def del: upt_rec_numeral)
  have free: "contents race_tree (Fixed ?kn) = None"
  proof (rule ccontr)
    assume "contents race_tree (Fixed ?kn) \<noteq> None"
    then obtain i where "i < 23" "race_key 23 = race_key i" using race_tree_contents(2) kn by (force simp: domIff)
    then show False using race_key_less [of i 23] by simp
  qed
  have "card (dom (contents race_tree)) \<le> 23"
    using card_mono [OF _ race_tree_contents(2)] card_image_le [of "{..<23}" race_key] by simp
  then have room: "6 * Suc (card (dom (contents race_tree))) \<le> rdma_MAX_NODE_SIZE + 2" by (simp add: rdma_MAX_NODE_SIZE_def)
  have next2: "splits_next race_tree 2 (Fixed ?kn)"
    by (simp add: splits_next_def kn race_tree_leaf pinned_def race_tree_sel tree_M_def del: upt_rec_numeral)
  have "lower_bound [race_key 7] (race_key 20) = 1"
    using race_key_less [of 7 20] by (simp add: lower_bound_def lower_bound_loop.simps)
  then have h: "heading sample_machine i 20 (race_key 20) (Walking ?nd) = Some 2"
    by (simp add: heading_def race_server_def flat_tree_def flat_node_def race_tree_sel fa_list_def r_child_at_def
        r_child_def fa_get_def nth_opt_def tree_M_def)
  have less: "race_key 16 < Fixed ?kn" using race_key_less [of 16 23] by (simp add: kn)
  have digits: "digit 1 = CHR ''1''" "digit 6 = CHR ''6''" unfolding digit_def by code_simp+
  have rec: "contents race_tree (race_key 16) = Some [(''field0'', ''16'')]"
    using race_tree_contents(1) [of 16] digits by (simp add: race_record_def to_string.simps)
  show "?P i"
    using racing_split_misleads [OF sample_machine_ok _ race_server_live _ free _ _ room next2, of 7 ?v 12 i 20 ?nd "[]" 1] h less rec
    by (auto simp: key record_fits_def field_fits_def fixed_lengths is_ycsb_def tree_M_def)
qed

section \<open>Several threads of one client\<close>

text \<open>
  C32: the buffer of the remote reads belongs to the database object all threads share. After the
  loading phase two threads that read two loaded records one after the other get what they
  ask for, but there is also a schedule in which both get the record of the second, as a success:
  the first one tests what the second has read.
\<close>

theorem shared_buffer_mixes_reads:
  assumes "machine_ok m" "loadable kvs" "256 < length kvs" "6 * length kvs \<le> rdma_MAX_NODE_SIZE + 2"
    and "list_all2 (\<lambda>(k, v) pkt. \<exists>pad. fst pkt = rdma_insert_msg k v @ pad) kvs pkts"
    and "fst load_pkt = rdma_inject_msg_type 0x0600 @ pad"
    and "until_done input = Some input'" "until_done input' = Some input''" "stag \<noteq> 0"
  shows "\<exists>s i infos outs. rdma_run m (pkts @ [load_pkt]) (new_rdma_server input) = Some (s, i # infos, outs)
    \<and> (\<forall>a b x y nd. (ycsb_key a, x) \<in> set kvs \<longrightarrow> (ycsb_key b, y) \<in> set kvs \<longrightarrow>
        (\<exists>sched ts v. threads_run (rdma_fabric m i stag stag (rs_tree s)) stag (pool_address m) sched ([new_read a, new_read b], nd) = Some (ts, v)
          \<and> map th_pc ts = [Returned x, Returned y])
      \<and> (\<exists>sched ts v. threads_run (rdma_fabric m i stag stag (rs_tree s)) stag (pool_address m) sched ([new_read a, new_read b], nd) = Some (ts, v)
          \<and> map th_pc ts = [Returned y, Returned y]))"
proof (rule rdma_system_loaded [OF assms(1-8)])
  fix s t i infos outs
  assume s: "rdma_run m (pkts @ [load_pkt]) (new_rdma_server input) = Some (s, i # infos, outs)" "rdma_live s t"
    "contents t = map_of (map (\<lambda>(k, v). (Fixed k, v)) kvs)" "nb_node t \<le> rdma_MAX_NODE_SIZE"
    "\<And>w. \<exists>c. info_route i w = pool_address m c \<and> c < nb_node t \<and> c \<in> set (route t (Fixed (ycsb_key w)))
       \<and> info_route i w \<in> set (info_child i)"
  have v: "serves (rdma_fabric m i stag stag (rs_tree s)) stag (pool_address m) w x" if "(ycsb_key w, x) \<in> set kvs" for w x
    using s(5) [of w] loaded_serves [OF assms(1) s(2,4) assms(9)] loadable_find [OF assms(2) that] s(3) by auto
  show ?thesis using s(1) v threads_in_turn threads_mixed by metis
qed

theorem shared_buffer_mixes_reads_witness:
  "\<exists>s i infos outs sched ts v. rdma_run sample_machine (map (\<lambda>(k, v). (rdma_insert_msg k v, 1)) sample_load @ [(rdma_inject_msg_type 0x0600, 1)])
      (new_rdma_server [''done'', ''done'']) = Some (s, i # infos, outs)
    \<and> threads_run (rdma_fabric sample_machine i 7 7 (rs_tree s)) 7 (pool_address sample_machine) sched
        ([new_read 41, new_read 42], new_RNode (Fixed [])) = Some (ts, v)
    \<and> map th_pc ts = [Returned [(''field0'', ''x'')], Returned [(''field0'', ''x'')]]"
proof -
  let ?pkts = "map (\<lambda>(k, v). (rdma_insert_msg k v, 1 :: 16 word)) sample_load"
  have l: "fst (rdma_inject_msg_type 0x0600, 1 :: 16 word) = rdma_inject_msg_type 0x0600 @ []" by simp
  have i: "until_done [''done'', ''done''] = Some [''done'']" "until_done [''done''] = Some []" "(7 :: 32 word) \<noteq> 0"
    by (simp_all add: until_done_def)
  have k: "(ycsb_key 41, [(''field0'', ''y'')]) \<in> set sample_load" "(ycsb_key 42, [(''field0'', ''x'')]) \<in> set sample_load"
    unfolding sample_load_def set_map by (rule image_eqI [of _ _ 41], simp_all) (rule image_eqI [of _ _ 42], simp_all)
  obtain s i infos outs where s: "rdma_run sample_machine (?pkts @ [(rdma_inject_msg_type 0x0600, 1)]) (new_rdma_server [''done'', ''done''])
      = Some (s, i # infos, outs)"
    and r: "\<And>a b x y nd. (ycsb_key a, x) \<in> set sample_load \<Longrightarrow> (ycsb_key b, y) \<in> set sample_load
      \<Longrightarrow> \<exists>sched ts v. threads_run (rdma_fabric sample_machine i 7 7 (rs_tree s)) 7 (pool_address sample_machine) sched
          ([new_read a, new_read b], nd) = Some (ts, v) \<and> map th_pc ts = [Returned y, Returned y]"
    using shared_buffer_mixes_reads [OF sample_machine_ok sample_loadable sample_counts sample_pkts l i] by blast
  obtain sched ts v where t: "threads_run (rdma_fabric sample_machine i 7 7 (rs_tree s)) 7 (pool_address sample_machine) sched
      ([new_read 41, new_read 42], new_RNode (Fixed [])) = Some (ts, v)"
    "map th_pc ts = [Returned [(''field0'', ''x'')], Returned [(''field0'', ''x'')]]" using r [OF k, of "new_RNode (Fixed [])"] by auto
  show ?thesis by (intro exI conjI, rule s, rule t(1), rule t(2))
qed

end
