(* ===== verification/Rdma_Connect_Properties.thy ===== *)
theory Rdma_Connect_Properties
  imports Rdma_Calls Rdma_Joint Rdma_Race_Properties
begin

text \<open>
  The properties of the connection: it is established under every fair schedule, what the client
  can read afterwards, and what is reported when it fails.
\<close>

section \<open>A library\<close>

text \<open>A library that behaves as documented, and gives every region the keys \<open>l\<close> and \<open>r\<close>.\<close>

definition with_keys :: "32 word \<Rightarrow> 32 word \<Rightarrow> proto \<Rightarrow> proto" where
  "with_keys l r p = p\<lparr>p_keys := (\<lambda>x y. x = l \<and> y = r)\<rparr>"

definition sample_answer :: "32 word \<Rightarrow> 32 word \<Rightarrow> proto \<Rightarrow> cm_type \<Rightarrow> rdma_buffer_attr option \<Rightarrow> nat \<Rightarrow> verb \<Rightarrow> answer" where
  "sample_answer l r p ty x n v = \<lparr>a_ret = (case v of Ibv_poll_cq q k \<Rightarrow> 1 | _ \<Rightarrow> 0), a_errno = 0,
     a_ptr = (case v of Ibv_get_cq_event ch \<Rightarrow> p_cq p | _ \<Rightarrow> Suc n),
     a_mr = (case v of Ibv_reg_mr pd addr len perm \<Rightarrow> Some \<lparr>mr_addr = addr, mr_length = len, mr_lkey = l, mr_rkey = r\<rparr> | _ \<Rightarrow> None),
     a_event = \<lparr>ev_status = 0, ev_type = ty, ev_id = Suc n\<rparr>, a_sockaddr = \<lparr>sin_addr = 0, sin_port = 0\<rparr>,
     a_wcs = [\<lparr>wc_status = 0, wc_received = x\<rparr>]\<rparr>"

definition sample_library :: "32 word \<Rightarrow> 32 word \<Rightarrow> (proto \<times> proto \<times> nat) library" where
  "sample_library l r sd v w = (case w of (c0, s0, n) \<Rightarrow>
     let c = with_keys l r c0; s = with_keys l r s0 in
     case sd of
       Client_side \<Rightarrow> if client_ready c s v
         then let a = sample_answer l r c (client_event (p_phase c)) (p_attr s) n v in Some (a, (client_next c v a, s, Suc n)) else None
     | Server_side \<Rightarrow> if server_ready c s v
         then let a = sample_answer l r s (if p_phase s = 1 then RDMA_CM_EVENT_CONNECT_REQUEST else RDMA_CM_EVENT_ESTABLISHED) (p_attr s) n v
           in Some (a, (c, server_next s v a, Suc n)) else None)"

definition sample_obs :: "32 word \<Rightarrow> 32 word \<Rightarrow> proto \<times> proto \<times> nat \<Rightarrow> proto \<times> proto" where
  "sample_obs l r w = (case w of (c, s, n) \<Rightarrow> (with_keys l r c, with_keys l r s))"

lemma keys_next:
  "p_keys (resource_next p v a) = p_keys p" "p_keys (client_next p v a) = p_keys p" "p_keys (server_next p v a) = p_keys p"
proof -
  show r: "p_keys (resource_next p v a) = p_keys p" by (cases v) (auto split: option.splits)
  show "p_keys (client_next p v a) = p_keys p" using r by (cases v) simp_all
  show "p_keys (server_next p v a) = p_keys p"
  proof (cases v)
    case (Ibv_post_send q wr)
    then show ?thesis using r by (cases wr) simp_all
  qed (use r in simp_all)
qed

lemma with_keys_id: "p_keys p = (\<lambda>x y. x = l \<and> y = r) \<Longrightarrow> with_keys l r p = p"
  by (cases p) (simp add: with_keys_def)

lemma sample_answer_good:
  assumes "p_keys p = (\<lambda>x y. x = l \<and> y = r)" shows "good_answer p v (sample_answer l r p ty x n v)"
  by (cases v) (simp_all add: sample_answer_def assms)

lemma sample_library_ok: "verbs_ok (sample_library l r) (sample_obs l r)"
  unfolding verbs_ok_def
proof (intro allI impI conjI)
  fix w v c s assume o: "sample_obs l r w = (c, s)"
  obtain c0 s0 n where w: "w = (c0, s0, n)" by (rule prod_cases3)
  have cs: "c = with_keys l r c0" "s = with_keys l r s0" using o by (simp_all add: sample_obs_def w)
  have k: "p_keys c = (\<lambda>x y. x = l \<and> y = r)" "p_keys s = (\<lambda>x y. x = l \<and> y = r)" by (simp_all add: cs with_keys_def)
  note fix1 = with_keys_id [OF trans [OF keys_next(2) k(1)]] with_keys_id [OF trans [OF keys_next(3) k(2)]]
    with_keys_id [OF k(1)] with_keys_id [OF k(2)]
  show "case sample_library l r Client_side v w of None \<Rightarrow> \<not> client_ready c s v
      | Some (a, w') \<Rightarrow> client_ready c s v \<and> client_answer c v a \<and> sample_obs l r w' = (client_next c v a, s)
        \<and> (case v of Ibv_poll_cq q n \<Rightarrow> wc_received (hd (a_wcs a)) = p_attr s | _ \<Rightarrow> True)"
    if "client_may c v \<and> in_step c s"
  proof -
    let ?a = "sample_answer l r c (client_event (p_phase c)) (p_attr s) n v"
    have "client_answer c v ?a"
      using that sample_answer_good [OF k(1), of v "client_event (p_phase c)" "p_attr s" n]
      by (cases v) (auto simp: client_answer_def in_step_def sample_answer_def)
    moreover have "case v of Ibv_poll_cq q n \<Rightarrow> wc_received (hd (a_wcs ?a)) = p_attr s | _ \<Rightarrow> True"
      by (simp add: sample_answer_def split: verb.splits)
    ultimately show ?thesis
      by (simp add: sample_library_def w cs [symmetric] Let_def sample_obs_def fix1)
  qed
  show "case sample_library l r Server_side v w of None \<Rightarrow> \<not> server_ready c s v
      | Some (a, w') \<Rightarrow> server_possible c s v \<and> server_answer s v a \<and> sample_obs l r w' = (c, server_next s v a)"
    if "server_may s v"
  proof -
    let ?a = "sample_answer l r s (if p_phase s = 1 then RDMA_CM_EVENT_CONNECT_REQUEST else RDMA_CM_EVENT_ESTABLISHED) (p_attr s) n v"
    have "server_answer s v ?a"
      using sample_answer_good [OF k(2), of v "if p_phase s = 1 then RDMA_CM_EVENT_CONNECT_REQUEST else RDMA_CM_EVENT_ESTABLISHED" "p_attr s" n]
      by (cases v) (auto simp: server_answer_def sample_answer_def)
    moreover have "server_ready c s v \<Longrightarrow> server_possible c s v"
      by (cases v) (auto simp: server_ready_def server_possible_def split: if_splits)
    ultimately show ?thesis
      by (simp add: sample_library_def w cs [symmetric] Let_def sample_obs_def fix1)
  qed
qed

section \<open>The connection is established\<close>

lemma connection_joint:
  assumes "verbs_ok lib obs" "obs w = (new_proto K, new_proto K)" "0 < fuel" "fair_rounds rounds" "39 + 2 * fuel \<le> length rounds"
  shows "\<exists>c e w' mr b. joint_run lib (replicate 4 Server_side @ concat rounds)
      (rdma_client_setup fuel host buf blen (new_rdma_client ca x), rdma_server_setup fuel base len (new_rdma_endpoint sa y), w)
      = (Ret (0, c), Ret (0, e), w')
    \<and> s_server_buffer_mr e = Some mr \<and> mr_addr mr = base \<and> mr_length mr = len \<and> K (mr_lkey mr) (mr_rkey mr)
    \<and> c_server_metadata_attr c = \<lparr>attr_address = base, attr_length = len, attr_stag = mr_lkey mr\<rparr>
    \<and> s_server_metadata_attr e = c_server_metadata_attr c
    \<and> c_remote_node_mr c = Some b \<and> mr_addr b = buf \<and> mr_length b = blen"
proof -
  let ?pc = "rdma_client_setup fuel host buf blen (new_rdma_client ca x)" and ?ps = "rdma_server_setup fuel base len (new_rdma_endpoint sa y)"
  obtain ps w1 s where s: "joint_run lib (replicate 4 Server_side) (?pc, ?ps, w) = (?pc, ps, w1)" "obs w1 = (new_proto K, s)" "p_phase s = 1"
    "server_follows ps (server_done K base len) s" "bounded ps (16 + fuel)"
    using server_listens [OF assms(1-3), of ?pc base len] by blast
  have g: "good_joint obs (client_done buf blen) (server_done K base len) (?pc, ps, w1)"
    using client_setup_follows [of "new_proto K" fuel host buf blen] assms(3) s(2-4)
    by (simp add: good_joint_def in_step_def new_proto_def)
  have le: "joint_le (?pc, ps, w1) (39 + 2 * fuel)"
    unfolding joint_le_def using bounded_client s(5) by (intro exI [of _ "23 + fuel"] exI [of _ "16 + fuel"]) simp
  have d: "both_done (joint_run lib (concat rounds) (?pc, ps, w1))"
    by (rule joint_finishes [OF assms(1) _ _ g le assms(4,5)]) (simp_all add: client_done_def server_done_def)
  then obtain rc re w' where r: "joint_run lib (concat rounds) (?pc, ps, w1) = (Ret rc, Ret re, w')" by (auto simp: both_done_def)
  have f: "client_done buf blen rc (fst (obs w'))" "server_done K base len re (snd (obs w'))" "in_step (fst (obs w')) (snd (obs w'))"
    using joint_run_ok [OF assms(1) g, of "concat rounds"] by (simp_all add: r good_joint_def)
  obtain c e where ce: "rc = (0, c)" "re = (0, e)" using f(1,2) by (cases rc; cases re) (simp add: client_done_def server_done_def)
  show ?thesis
    using s(1) r f by (auto simp: ce client_done_def server_done_def in_step_def split: option.splits)
qed

text \<open>
  C33: the two ends of a connection find each other: on a library that behaves as documented, when
  the server listens before the client begins, both set-ups return 0 under every fair schedule,
  whatever the order of their calls. The client then has the address, the length and the local
  key of the server's pool, and its own node buffer is registered. (The library is idealised in
  that no call fails and that polling gives the one completion an end waits for.)
\<close>

theorem connection_established:
  assumes "verbs_ok lib obs" "obs w = (new_proto K, new_proto K)" "0 < fuel" "fair_rounds rounds" "39 + 2 * fuel \<le> length rounds"
  shows "\<exists>c e w' mr b. joint_run lib (replicate 4 Server_side @ concat rounds)
      (rdma_client_setup fuel host buf blen (new_rdma_client ca x), rdma_server_setup fuel base len (new_rdma_endpoint sa y), w)
      = (Ret (0, c), Ret (0, e), w')
    \<and> s_server_buffer_mr e = Some mr \<and> mr_addr mr = base \<and> mr_length mr = len \<and> K (mr_lkey mr) (mr_rkey mr)
    \<and> c_server_metadata_attr c = \<lparr>attr_address = base, attr_length = len, attr_stag = mr_lkey mr\<rparr>
    \<and> s_server_metadata_attr e = c_server_metadata_attr c
    \<and> c_remote_node_mr c = Some b \<and> mr_addr b = buf \<and> mr_length b = blen"
  by (rule connection_joint [OF assms])

definition no_attr :: rdma_buffer_attr where
  "no_attr = \<lparr>attr_address = 0, attr_length = 0, attr_stag = 0\<rparr>"

theorem connection_established_witness:
  "\<exists>c e w' mr. joint_run (sample_library 7 9) (replicate 4 Server_side @ concat (replicate 41 [Client_side, Server_side]))
      (rdma_client_setup 1 ''10.0.0.1'' 64 5000 (new_rdma_client 8 no_attr), rdma_server_setup 1 4096 500000 (new_rdma_endpoint 16 no_attr),
       (new_proto (\<lambda>x y. x = 7 \<and> y = 9), new_proto (\<lambda>x y. x = 7 \<and> y = 9), 0)) = (Ret (0, c), Ret (0, e), w')
    \<and> s_server_buffer_mr e = Some mr \<and> mr_rkey mr = 9 \<and> attr_stag (c_server_metadata_attr c) = 7"
proof -
  let ?K = "\<lambda>x y :: 32 word. x = (7 :: 32 word) \<and> y = 9"
  have o: "sample_obs 7 9 (new_proto ?K, new_proto ?K, 0) = (new_proto ?K, new_proto ?K)"
    by (simp add: sample_obs_def with_keys_def new_proto_def)
  have f: "fair_rounds (replicate 41 [Client_side, Server_side])" by (simp add: fair_rounds_def)
  show ?thesis
    using connection_established [OF sample_library_ok o, of 1 "replicate 41 [Client_side, Server_side]" "''10.0.0.1''" 64 5000 8 no_attr 4096 500000 16 no_attr] f
    by (simp only: length_replicate) auto
qed

section \<open>Reading over the connection\<close>





section \<open>Failures\<close>





text \<open>
  C36: the server does not report that accepting a connection fails: when the event that comes is
  not an established connection, or has an error status, \<open>errno\<close> is returned in place of the
  error. No call has failed, so it may well be 0, and 0 means success: the set-up goes on.
\<close>

theorem failed_accept_reports_success:
  assumes "s_cm_client_id s \<noteq> 0" "s_client_qp s \<noteq> 0" "a_ret a = 0" "a_ret b = 0"
    and "ev_status (a_event b) \<noteq> 0 \<or> ev_type (a_event b) \<noteq> RDMA_CM_EVENT_ESTABLISHED" "a_errno d = 0"
  shows "run (accept_client_connection s)
    [(Rdma_accept (s_cm_client_id s) \<lparr>initiator_depth = 3, responder_resources = 3, retry_count = 0\<rparr>, a),
     (Rdma_get_cm_event (s_cm_event_channel s), b), (Rdma_ack_cm_event (Some (a_event b)), d)] (0, s)"
  using assms by (auto simp: accept_client_connection_def must_def process_rdma_cm_event_def Let_def)

theorem failed_accept_reports_success_witness:
  "\<exists>tr s. run (accept_client_connection s) tr (0, s)
    \<and> (\<exists>a. (Rdma_get_cm_event 5, a) \<in> set tr \<and> ev_type (a_event a) = RDMA_CM_EVENT_DISCONNECTED)"
proof -
  let ?s = "(new_rdma_endpoint 16 no_attr)\<lparr>s_cm_event_channel := 5, s_cm_client_id := 6, s_client_qp := 7\<rparr>"
  let ?a = "sample_answer 7 7 (new_proto (\<lambda>_ _. True)) RDMA_CM_EVENT_DISCONNECTED None 0 Rdma_create_event_channel"
  have a: "a_ret ?a = 0" "a_errno ?a = 0" "ev_type (a_event ?a) = RDMA_CM_EVENT_DISCONNECTED" by (simp_all add: sample_answer_def)
  show ?thesis
    using failed_accept_reports_success [of ?s ?a ?a ?a] a
    by (intro exI [of _ "[(Rdma_accept 6 _, ?a), (Rdma_get_cm_event 5, ?a), (Rdma_ack_cm_event (Some (a_event ?a)), ?a)]"] exI [of _ ?s]) auto
qed

text \<open>
  The clean-up of the server frees the pool of nodes, which it has not allocated: the region
  it registers is the array of the tree. (The code does not call it.)
\<close>

theorem server_cleanup_frees_pool:
  assumes "s_server_buffer_mr s = Some mr" "run (disconnect_and_cleanup s) tr 0" "\<forall>(v, a) \<in> set tr. \<not> silent v a"
  shows "\<exists>a. (Free_memory (mr_addr mr), a) \<in> set tr"
  using assms by (auto simp: disconnect_and_cleanup_def run_then process_rdma_cm_event_def rdma_buffer_free_def rdma_buffer_deregister_def Let_def
      split: if_splits option.splits)

theorem server_cleanup_frees_pool_witness:
  "\<exists>tr a. run (disconnect_and_cleanup ((new_rdma_endpoint 16 no_attr)
      \<lparr>s_server_buffer_mr := Some \<lparr>mr_addr = 4096, mr_length = 500000, mr_lkey = 7, mr_rkey = 7\<rparr>\<rparr>)) tr 0
    \<and> (Free_memory 4096, a) \<in> set tr"
proof -
  let ?mr = "\<lparr>mr_addr = 4096, mr_length = 500000, mr_lkey = 7, mr_rkey = 7\<rparr>"
  let ?s = "(new_rdma_endpoint 16 no_attr)\<lparr>s_server_buffer_mr := Some ?mr\<rparr>"
  let ?a = "sample_answer 7 7 (new_proto (\<lambda>_ _. True)) RDMA_CM_EVENT_DISCONNECTED None 0 Rdma_create_event_channel"
  let ?tr = "map (\<lambda>v. (v, ?a)) [Rdma_get_cm_event 0, Rdma_ack_cm_event (Some (a_event ?a)), Rdma_destroy_qp 0, Rdma_destroy_id 0,
    Ibv_destroy_cq 0, Ibv_destroy_comp_channel 0, Ibv_dereg_mr ?mr, Free_memory 4096, Ibv_dealloc_pd 0, Rdma_destroy_id 0,
    Rdma_destroy_event_channel 0]"
  have r: "run (disconnect_and_cleanup ?s) ?tr 0"
    by (simp add: disconnect_and_cleanup_def process_rdma_cm_event_def rdma_buffer_free_def rdma_buffer_deregister_def Let_def
        new_rdma_endpoint_def sample_answer_def)
  have e: "\<forall>(v, a) \<in> set ?tr. \<not> silent v a" by (simp add: sample_answer_def)
  show ?thesis using server_cleanup_frees_pool [OF _ r e, of ?mr] r by auto
qed

text \<open>
  The clean-up of the client goes on after an event that is not the one expected, which has been
  acknowledged already, and acknowledges it once more.
\<close>

lemma client_cleanup_acks_twice:
  assumes "a_ret b = 0" "ev_type (a_event b) \<noteq> RDMA_CM_EVENT_DISCONNECTED" "run (client_disconnect_and_clean c) tr 0"
    and "(Rdma_get_cm_event (c_cm_event_channel c), b) \<in> set tr"
  shows "\<exists>es. events_got tr = [a_event b] \<and> events_acked tr = a_event b # a_event b # es"
  using assms by (auto simp: client_disconnect_and_clean_def run_then process_rdma_cm_event_def rdma_buffer_deregister_def Let_def
      split: if_splits option.splits)

end
