(* ===== verification/Rdma_Workload.thy ===== *)
theory Rdma_Workload
  imports Ycsb_Load
begin

text \<open>
  The workload of the RDMA version where it differs from the Ethernet one: core/core_workload.h
  (the key of a transaction), core/client.h (a read becomes a one-sided read) and ycsbc.cc (the
  phases of the main program). What is the same is in Ycsb_Workload and Ycsb_Client.
\<close>

section \<open>core_workload.h\<close>

text \<open>\<open>a % b\<close> of unsigned numbers; a division by 0 is undefined.\<close>

definition u64_mod :: "64 word \<Rightarrow> 64 word \<Rightarrow> ycsb_error + 64 word" where
  "u64_mod a b = (if b = 0 then Inl Undefined_behaviour else Inr (a mod b))"

text \<open>\<open>NextTransactionKey(mixture_proportion)\<close>; a random number is only drawn when the proportion is positive.\<close>

definition mixed_key_num :: "'d stdlib \<Rightarrow> 'd \<Rightarrow> 64 word \<Rightarrow> 'd workload \<Rightarrow> ycsb_error + (64 word \<times> 'd workload)" where
  "mixed_key_num L mixture_proportion key_num wl =
     (if fless L (lit L 0) mixture_proportion
      then let (d, w) = RandomDouble L (drawn_values wl); wl = wl\<lparr>drawn_values := w\<rparr> in
        if fless L d mixture_proportion
        then ok (u64_mod (FNVHash64 key_num) (counter_last (insert_key_sequence wl) + 1)) (\<lambda>key_num. Inr (key_num, wl))
        else Inr (key_num, wl)
      else Inr (key_num, wl))"

definition NextTransactionKey_mixed :: "'d stdlib \<Rightarrow> 'd \<Rightarrow> 'd workload \<Rightarrow> (ycsb_error + (string \<times> 'd workload)) option" where
  "NextTransactionKey_mixed L mixture_proportion wl = map_option (\<lambda>r. ok r (\<lambda>(key_num, wl).
     ok (mixed_key_num L mixture_proportion key_num wl) (\<lambda>(key_num, wl).
       Inr (BuildKeyName (ordered_inserts wl) (zero_padding wl) key_num, wl)))) (next_key_num L wl)"

section \<open>client.h\<close>

text \<open>\<open>DB::RDMARead\<close>, for which db.h has a version that throws.\<close>

type_synonym 's rdma_reader = "nat \<Rightarrow> string \<Rightarrow> string \<Rightarrow> string list option \<Rightarrow> 's \<Rightarrow> ('s, int \<times> fields) db_result"

definition DB_RDMARead :: "'s rdma_reader" where
  "DB_RDMARead tid table key fs s = Inl (Exception ''Delete: function not implemented!'')"

definition kMixtureConst :: rat where "kMixtureConst = 1"

definition TransactionRDMARead :: "'d stdlib \<Rightarrow> 's rdma_reader \<Rightarrow> nat \<Rightarrow> ('d, 's) client \<Rightarrow> (ycsb_error + (int \<times> ('d, 's) client)) option" where
  "TransactionRDMARead L rd tid c = (let (wl, s) = c; table = table_name wl in
     then_ok (NextTransactionKey_mixed L (lit L kMixtureConst) wl) (\<lambda>(key, wl). Some (
     ok (fields_to_read L wl) (\<lambda>(fs, wl).
     ok (rd tid table key fs s) (\<lambda>((status, _), s). Inr (status, wl, s))))))"

definition rdma_DoTransaction :: "'d stdlib \<Rightarrow> 's db \<Rightarrow> 's rdma_reader \<Rightarrow> nat \<Rightarrow> ('d, 's) client
    \<Rightarrow> (ycsb_error + (bool \<times> ('d, 's) client)) option" where
  "rdma_DoTransaction L db rd tid c = (let (wl, s) = c in
     then_ok (Some (NextOperation L wl)) (\<lambda>(op, wl). let c = (wl, s) in
     map_option (\<lambda>r. ok r is_ok) (case op of
         READ \<Rightarrow> TransactionRDMARead L rd tid c
       | UPDATE \<Rightarrow> TransactionUpdate L db tid c
       | INSERT \<Rightarrow> TransactionInsert L db tid c
       | SCAN \<Rightarrow> TransactionScan L db tid c
       | READMODIFYWRITE \<Rightarrow> TransactionReadModifyWrite L db tid c)))"

section \<open>ycsbc.cc\<close>

definition rdma_job :: "job \<Rightarrow> 'd stdlib \<Rightarrow> 's db \<Rightarrow> 's rdma_reader \<Rightarrow> nat \<Rightarrow> ('d, 's) client
    \<Rightarrow> (ycsb_error + (bool \<times> ('d, 's) client)) option" where
  "rdma_job j L db rd tid c = (case j of Loading \<Rightarrow> Some (DoInsert L db tid c)
     | Transactions \<Rightarrow> rdma_DoTransaction L db rd tid c | Read_only \<Rightarrow> DoTransactionRead L db tid c)"

definition rdma_thread_step :: "job \<Rightarrow> 'd stdlib \<Rightarrow> 's db \<Rightarrow> 's rdma_reader \<Rightarrow> nat \<Rightarrow> nat \<Rightarrow> ('d, 's) phase
    \<Rightarrow> (ycsb_error + ('d, 's) phase) option" where
  "rdma_thread_step j L db rd base i ph = (case todo ph i of
     Not_started n \<Rightarrow> (let (wl, s) = shared ph in
       Some (Inr (ph\<lparr>todo := (todo ph)(i := Running n), shared := (wl, db_init db (base + i) s)\<rparr>)))
   | Running 0 \<Rightarrow> (let (wl, s) = shared ph in
       Some (Inr (ph\<lparr>todo := (todo ph)(i := Closed), shared := (wl, db_close db (base + i) s)\<rparr>)))
   | Running (Suc n) \<Rightarrow> then_ok (rdma_job j L db rd (base + i) (shared ph)) (\<lambda>(good, c).
       Some (Inr (ph\<lparr>todo := (todo ph)(i := Running n),
         oks := (oks ph)(i := oks ph i + (if good then 1 else 0)), shared := c\<rparr>)))
   | Closed \<Rightarrow> Some (Inr ph))"

fun rdma_schedule :: "job \<Rightarrow> 'd stdlib \<Rightarrow> 's db \<Rightarrow> 's rdma_reader \<Rightarrow> nat \<Rightarrow> nat list \<Rightarrow> ('d, 's) phase
    \<Rightarrow> (ycsb_error + ('d, 's) phase) option" where
  "rdma_schedule j L db rd base [] ph = Some (Inr ph)"
| "rdma_schedule j L db rd base (i # is) ph = then_ok (rdma_thread_step j L db rd base i ph) (rdma_schedule j L db rd base is)"

definition rdma_phase :: "job \<Rightarrow> 'd stdlib \<Rightarrow> 's db \<Rightarrow> 's rdma_reader \<Rightarrow> nat \<Rightarrow> nat \<Rightarrow> int \<Rightarrow> nat list \<Rightarrow> ('d, 's) client
    \<Rightarrow> (ycsb_error + (nat \<times> ('d, 's) client)) option" where
  "rdma_phase j L db rd base num_threads num_ops schedule c =
     then_ok (rdma_schedule j L db rd base schedule (start_phase num_threads num_ops c)) (\<lambda>ph.
       if \<forall>i \<in> set [0..<num_threads]. todo ph i = Closed
       then Some (Inr (sum_list (map (oks ph) [0..<num_threads]), shared ph)) else None)"

text \<open>
  The phases: all of them with the threads of the command line, and a read-only phase as long
  as the one that is measured. At the end the statistics are printed (\<open>stats\<close>).
\<close>

definition rdma_main :: "'d stdlib \<Rightarrow> (properties \<Rightarrow> ycsb_error + ('s db \<times> 's) option) \<Rightarrow> 's rdma_reader \<Rightarrow> ('s \<Rightarrow> int)
    \<Rightarrow> properties \<Rightarrow> nat list \<Rightarrow> nat list \<Rightarrow> nat list \<Rightarrow> (ycsb_error + (nat \<times> nat \<times> bool \<times> nat \<times> bool) option) option" where
  "rdma_main L create rd stats p sched1 sched2 sched3 = then_ok (Some (create p)) (\<lambda>made.
     case made of None \<Rightarrow> Some (Inr None) | Some (db, s) \<Rightarrow>
       then_ok (Some (workload_init L p \<lparr>nb_doubles = 0, nb_rands = 0\<rparr>)) (\<lambda>wl.
       then_ok (Some (stoi (GetProperty p ''threadcount'' ''1''))) (\<lambda>num_threads.
       then_ok (Some (ok (property_at p RECORD_COUNT) stoi)) (\<lambda>total_ops.
       then_ok (Some (per_thread total_ops num_threads)) (\<lambda>n.
       then_ok (rdma_phase Loading L db rd 1 (nat num_threads) n sched1 (wl, s)) (\<lambda>(sum1, c).
       then_ok (Some (ok (property_at p OPERATION_COUNT) stoi)) (\<lambda>total_ops.
       then_ok (Some (per_thread total_ops num_threads)) (\<lambda>n.
       then_ok (rdma_phase Read_only L db rd (1 + nat num_threads) (nat num_threads) n sched2 c) (\<lambda>(sum2, wl, s).
       then_ok (Some (db_load2switch db 0 s)) (\<lambda>(status, s).
       then_ok (rdma_phase Transactions L db rd (1 + 2 * nat num_threads) (nat num_threads) n sched3 (wl, s)) (\<lambda>(sum3, _, s).
         Some (Inr (Some (sum1, sum2, status = kOK, sum3, stats s = kOK))))))))))))))"

section \<open>Which keys are read\<close>

text \<open>
  With the proportion 1 and random numbers below 1 the number the generator has chosen is always
  replaced by its hash, cut to the loaded records; the key is one of them.
\<close>

lemma mixed_key_hashed:
  assumes "fless L (lit L 0) (lit L 1)" "\<And>n. fless L (random_double L n) (lit L 1)" "insert_key_sequence wl \<noteq> 0"
    and "next_key_num L wl = Some (Inr (k, wl'))"
  shows "\<exists>wl''. NextTransactionKey_mixed L (lit L kMixtureConst) wl
      = Some (Inr (BuildKeyName (ordered_inserts wl) (zero_padding wl) (FNVHash64 k mod insert_key_sequence wl), wl''))
    \<and> FNVHash64 k mod insert_key_sequence wl < insert_key_sequence wl"
proof -
  have p: "insert_key_sequence wl' = insert_key_sequence wl" "ordered_inserts wl' = ordered_inserts wl"
    "zero_padding wl' = zero_padding wl"
    using next_key_num_post [OF assms(4)] by (auto simp: key_num_post_def)
  have "FNVHash64 k mod insert_key_sequence wl < insert_key_sequence wl"
    using assms(3) by (simp add: word_mod_less_divisor word_neq_0_conv)
  then show ?thesis
    using assms by (simp add: NextTransactionKey_mixed_def mixed_key_num_def kMixtureConst_def RandomDouble_def u64_mod_def
        counter_last_def p)
qed

text \<open>Without a proportion it is the choice of the other transactions.\<close>

lemma mixed_key_zero:
  assumes "\<not> fless L (lit L 0) (lit L 0)"
  shows "NextTransactionKey_mixed L (lit L 0) wl = NextTransactionKey L wl"
proof -
  have "mixed_key_num L (lit L 0) = (\<lambda>k wl. Inr (k, wl))" by (intro ext) (simp add: mixed_key_num_def assms)
  then show ?thesis by (simp add: NextTransactionKey_mixed_def NextTransactionKey_def)
qed

end
