(* ===== verification/Spec2Isabelle.thy ===== *)
theory Spec2Isabelle
  imports Switch_Properties Frontend_Properties Match_Properties Ycsb_Properties Workload_Properties Rdma_Connect_Properties Rdma_Workload
begin

text \<open>
  \<^bold>\<open>Fat-BTree.\<close> A key-value store with a programmable switch between its clients and its
  servers. A server keeps its records in a B+ tree and hands the upper part of the tree, the fat
  root, to the switch. The switch finds for each request the node of the fat root that lies on
  the way to the key and writes its address into the request, so that the server (Ethernet path)
  or the client reading the server's memory (RDMA path) walks only the rest of the way. What is
  to be trusted is therefore that an address the switch holds stays on the way to its keys
  while the tree goes on changing. The servers achieve it by marking the nodes they hand out and
  copying a marked node when it would have to be split.

  \<^bold>\<open>1. Ethernet path\<close> (src/Ethernet/CPU).

  \<^item> \<open>Field_Table\<close>: lib/fbt_utils.h, the fields of a record and \<open>update_field_table\<close>.
  \<^item> \<open>Pool_Tree\<close>: YCSB-BPlusTree-Backend/lib/b_plus_tree.h. A node is a record with the source's
    members; the array \<open>pool\<close> is a function from indices, a pointer is an index, \<open>nb_node\<close> the
    number of nodes in use. \<open>tree_insert\<close>, \<open>tree_lookup\<close>, \<open>tree_update\<close> and \<open>overflow\<close> are the
    methods; every access outside a vector or the pool is \<open>None\<close>.
  \<^item> \<open>Tree_Inv\<close>, \<open>Tree_Walk\<close>, \<open>Tree_Split\<close>, \<open>Tree_Insert\<close>, \<open>Tree_Overflow\<close>: the invariant
    (ghost functions for the key range, the rank and the place of every node), the walks on such a
    tree, and that splitting, copying a marked node, and the overflow of a whole path keep it.
    \<open>Tree_Map\<close> reads the tree as a map and gives each operation as the operation on maps;
    \<open>Tree_Room\<close> bounds the number of nodes by the number of records; \<open>Tree_Store\<close> states this as
    the contract of a store that can be entered at the root or at an address the switch holds;
    \<open>Tree_Syntactic\<close> has what insertions keep for trees of every shape.
  \<^item> \<open>Tree_Switch\<close>, \<open>Fat_Root\<close>, \<open>Tree_Loaded\<close>: the methods \<open>print_info\<close>, \<open>load2switch\<close> and
    \<open>load2switch_greedy\<close>, the keys and nodes the greedy choice ends with, and what it leaves marked.
    \<open>Switch_Routing\<close>: the switch compares key numbers, the tree compares strings.
  \<^item> \<open>Keys\<close>: how keys are built (core/core_workload.h), hashed (core/utils.h) and read back.
  \<^item> \<open>Wire\<close>, \<open>Driver\<close>: driver/driver.cc, the \<open>inject\<close> and \<open>extract\<close> functions, the frames with
    their ports and the queue numbers of threads. A message is a list of bytes.
  \<^item> \<open>Backend\<close>: backend-1/backend.cc to backend-4/backend.cc, the handlers and the loop.
  \<^item> \<open>Frontend\<close>: YCSB-BPlusTree-Frontend/db/b_plus_tree_db.cc, the client's operations.
    \<open>Ethernet_System\<close>: client threads, switch and server put together as a step relation.
  \<^item> Properties: \<open>Tree_Properties\<close>, \<open>Server_Properties\<close>, \<open>Switch_Properties\<close>,
    \<open>Frontend_Properties\<close>.

  \<^bold>\<open>2. Control planes.\<close> \<open>Match_Table\<close> is FBT_TCAM/control_plane/match_table.cpp and
  FBT_RDMA/control_plane/config_table.cpp, which compute four tables in which a switch finds the
  range of a 64-bit key number by 16 bits at a time. \<open>Match_Scan\<close> and \<open>Match_Correct\<close> show what
  one table and all four contain, \<open>Match_Properties\<close> what the switch finds in them.

  \<^bold>\<open>3. Workload\<close> (YCSB-BPlusTree-Frontend/core, lib and ycsbc.cc).

  \<^item> \<open>Ycsb_Util\<close>: core/utils.h and core/properties.h. \<open>Ycsb_Generator\<close>: the generators of numbers;
    \<open>Ycsb_Draw\<close>: what they draw. \<open>Ycsb_Workload\<close>: core/core_workload.cc and core_workload.h.
    \<open>Ycsb_Client\<close>: core/client.h and ycsbc.cc, threads under any schedule. \<open>Ycsb_Load\<close>: what the
    workload's operations keep, the keys of the loading phase, the keys of transactions.
  \<^item> \<open>Hashtable\<close>: lib/string.h and lib/lock_stl_hashtable.h; \<open>Hashtable_DB\<close>: db/hashtable_db.cc and
    db/lock_stl_db.h; \<open>Hashtable_Map\<close>: the database as a map of records; \<open>Hashtable_Threads\<close>: two
    threads that insert at the same time.
  \<^item> Properties: \<open>Ycsb_Properties\<close>, \<open>Workload_Properties\<close>, and one each in \<open>Hashtable_Map\<close> and
    \<open>Hashtable_Threads\<close>.

  \<^bold>\<open>4. RDMA path\<close> (src/RDMA/CPU).

  \<^item> \<open>Rdma_Array\<close>: lib/fixed_size_container.h. \<open>Rdma_Tree\<close>: lib/b_plus_tree.h, the tree whose
    nodes are flat, so that one remote read fetches a node.
  \<^item> \<open>Rdma_Sim\<close>, \<open>Rdma_Step\<close>, \<open>Rdma_Insert\<close>: the flat tree does what \<open>Pool_Tree\<close> does, a
    simulation with bounds on the nodes that keep the arrays from running over; the whole
    theory of section 1 applies to the flat tree through it.
  \<^item> \<open>Rdma_Switch\<close>: its \<open>load2switch\<close> and \<open>load2switch_greedy\<close>; \<open>Rdma_Depth\<close>: how many records
    make the three levels they need.
  \<^item> \<open>Rdma_Wire\<close>: the messages of driver/driver.cc with fixed strings. \<open>Rdma_Server\<close>:
    backend/backend.cc. \<open>Rdma_Client\<close>: db/b_plus_tree_db.cc and \<open>read_remote_node\<close>.
    \<open>Rdma_Workload\<close>: what core and ycsbc.cc do differently.
  \<^item> \<open>Rdma_System\<close>: loading phase, hand-over and one-sided reads together. \<open>Rdma_Requests\<close>: what
    a running server does with any sequence of requests, as a map.
  \<^item> \<open>Rdma_Race\<close>: a reader taken one remote read at a time, between which the server handles
    messages; the invariant that keeps the reader on its way. \<open>Rdma_Split_Race\<close>: what a leaf that
    is split in place leaves behind its arrays, and where that leads a reader. \<open>Rdma_Threads\<close>:
    threads of one client that share the buffer of the remote reads.
  \<^item> \<open>Rdma_Verbs\<close>, \<open>Rdma_Connect\<close>: driver/rdma_common.cc, rdma_driver.h and rdma_driver.cc, the
    set-up and the clean-up of a connection. The verbs library is not in the repository: a
    program is the tree of its calls, each followed by what it does with any answer, and \<open>run\<close>
    is a run of such a program.
  \<^item> \<open>Rdma_Calls\<close>: rules for all runs, whatever the answers are; which events an end acknowledges
    and whether it reports its failures. \<open>Rdma_Handshake\<close>: what each end may call next and what
    the library answers then (\<open>proto\<close>), followed by both set-ups. \<open>Rdma_Joint\<close>: the two ends on
    one library, their calls interleaved by a schedule.
  \<^item> Properties: \<open>Rdma_Properties\<close>, \<open>Rdma_Race_Properties\<close>, \<open>Rdma_Connect_Properties\<close>.

  \<^bold>\<open>Interfaces.\<close> \<open>record_store\<close> (\<open>Tree_Store\<close>) and its extensions \<open>string_store\<close> and
  \<open>bounded_store\<close> (\<open>Backend\<close>) are the store the handlers rely on, interpreted on the pool tree.
  \<open>codec\<close> (\<open>Wire\<close>) is a pair of \<open>inject\<close> and \<open>extract\<close>, interpreted on each field of a message, also
  on the fixed strings of \<open>Rdma_Wire\<close>. \<open>string_hashtable\<close> (\<open>Hashtable\<close>) is the abstract class of
  lib/string_hashtable.h, interpreted on the locked table; \<open>hash_db\<close> (\<open>Hashtable_Map\<close>) is the
  database on any two such tables, interpreted on the one the program builds.

  \<^bold>\<open>Conventions.\<close> The result \<open>None\<close> is undefined behaviour of the C++ code (an access out of
  bounds, a null pointer, an overfull pool) or a failed assertion; exceptions and return codes
  are values of their own. Machine integers are words of their width. The code runs on one
  thread, except for the threads of the workload, of \<open>Hashtable_Threads\<close> and of \<open>Rdma_Threads\<close>,
  the reader and the server of \<open>Rdma_Race\<close> and the two ends of \<open>Rdma_Joint\<close>; the schedule is an
  argument there.

  \<^bold>\<open>Bounds and fuel.\<close> A walk from a node visits each node once, so the number of nodes in use
  and one is enough; \<open>overflow\<close> climbs the same way. A round of the greedy loop takes a node
  from the queue and adds children to the map, so one round more than \<open>root_load_num\<close> is enough
  (\<open>r_greedy_total\<close> and its like on the Ethernet side). A pool of \<open>MAX_NODE_SIZE\<close> nodes is not
  used up as long as it has six nodes for every record. The loops that may go on for ever, the
  draw of a key and the chase of a remote read, are partial functions; that they return is a
  theorem about each. The loop that polls a completion queue has fuel, and its end is \<open>Spin\<close>; a
  library whose notification means a completion (\<open>verbs_ok\<close>) needs fuel 1. The two set-ups make at
  most 39 calls and twice the fuel, so as many rounds in which both ends have a turn are enough.

  \<^bold>\<open>Parameters.\<close> Floating-point arithmetic and the random engines (\<open>stdlib\<close>); the choice among
  equal elements in std::priority_queue and std::sort (\<open>pick\<close>, \<open>srt\<close>); the checksums of frames,
  computed by the network card; the answers of the switch; remote reads (\<open>rdma_fabric\<close>), which
  return what is in the memory; the packets that arrive; the verbs library (\<open>library\<close>), of which
  \<open>verbs_ok\<close> states the documented behaviour: calls made in order succeed, an event comes when the
  other end has done its part, and a receive is completed by the send of the other end.

  \<^bold>\<open>Not modelled.\<close>
  \<^item> port_init, init and flow_init of the drivers and flow_blocks.cc: constants passed to DPDK.
    rdma_client.c and rdma_server.c: the example programs the connection was taken from.
    rdma_buffer_alloc and the functions that print attributes: not called, or printing.
  \<^item> redis/hiredis and its C++ wrapper, redis_db: a vendored client library and calls of it. The
    tables and databases on Intel TBB: calls of a library that is not in the repository.
  \<^item> timer.h, db_factory.cc, basic_db.h, the tests, progress and measurement output: the clock,
    the choice of a class by name, printing.
  \<^item> The P4 programs and the Python scripts, except the part of get_keys.py that writes the keys
    the table generator reads: another language; what the properties need of the switch is that
    it finds the place of a key number among the separators it was given.
  \<^item> A remote read of a node that the server is writing: a read of one node is taken as one step,
    and so is the handling of one message. Between the reads of one operation the server may
    handle messages (\<open>Rdma_Race\<close>), except that it does not hand its tree to the switch once more.
\<close>

end
